(* ===== verification/Backup_Prelude.thy ===== *)
theory Backup_Prelude
  imports Main "HOL-Library.Word" "HOL-Library.Sublist"
begin

text \<open>
  Prelude of the development: the machine types of the C++ sources, the result
  type every fallible operation returns, the parts of \<open>std::string\<close> the
  program calls, and the generic lemmas on lists and words that the component
  theories share.

  A \<open>std::string\<close> is a \<^typ>\<open>string\<close> (its bytes).  A \<open>const char*\<close> into a
  NUL-terminated buffer is the list of bytes from the pointer on: the end of the
  list is read as the terminator, advancing a pointer is \<^const>\<open>tl\<close>, and
  \<open>p < q\<close> for two pointers into one buffer is \<open>length q < length p\<close>.
\<close>

named_theorems str_simps \<open>equations that turn the library string operations into list operations\<close>

section \<open>Types\<close>

type_synonym u8 = "8 word"
type_synonym u16 = "16 word"
type_synonym u32 = "32 word"
type_synonym u64 = "64 word"

text \<open>
  The ways in which a piece of the program can fail to return a value: it
  executes undefined behaviour, it loops for ever, it calls \<open>exit\<close>, an
  exception leaves it, or an enabled \<open>ASSERT\<close> fires.
\<close>

datatype fault = Undefined | Diverges | ExitCode int | Thrown string | AssertFailed string

type_synonym 'a result = "fault + 'a"

definition ebind :: "'a result \<Rightarrow> ('a \<Rightarrow> 'b result) \<Rightarrow> 'b result" where
  "ebind m f = (case m of Inl e \<Rightarrow> Inl e | Inr v \<Rightarrow> f v)"

definition of_loop :: "'a option \<Rightarrow> 'a result" where
  "of_loop m = (case m of None \<Rightarrow> Inl Diverges | Some v \<Rightarrow> Inr v)"

lemma ebind_simps [simp]: "ebind (Inl e) f = Inl e" "ebind (Inr v) f = f v"
  by (simp_all add: ebind_def)

lemma ebind_assoc: "ebind (ebind m f) g = ebind m (\<lambda>x. ebind (f x) g)"
  by (cases m) simp_all

lemma ebind_eq_Inr: "ebind m f = Inr w \<longleftrightarrow> (\<exists>v. m = Inr v \<and> f v = Inr w)"
  by (cases m) simp_all

lemma of_loop_simps [simp]: "of_loop None = Inl Diverges" "of_loop (Some v) = Inr v"
  by (simp_all add: of_loop_def)

section \<open>The operations of std::string\<close>

text \<open>\<open>s.find(needle, pos)\<close>: \<^const>\<open>None\<close> is \<open>npos\<close>.\<close>

function std_find :: "'a list \<Rightarrow> 'a list \<Rightarrow> nat \<Rightarrow> nat option" where
  "std_find s needle pos =
     (if length s < pos + length needle then None
      else if take (length needle) (drop pos s) = needle then Some pos
      else std_find s needle (Suc pos))"
  by pat_completeness auto
termination
  by (relation "measure (\<lambda>(s, needle, pos). Suc (length s) - pos)") auto

declare std_find.simps [simp del]

definition find_first_not_of :: "'a list \<Rightarrow> 'a list \<Rightarrow> nat option" where
  "find_first_not_of s t =
     (let n = length (takeWhile (\<lambda>c. c \<in> set t) s)
      in if n = length s then None else Some n)"

definition find_last_not_of :: "'a list \<Rightarrow> 'a list \<Rightarrow> nat option" where
  "find_last_not_of s t =
     (let n = length (takeWhile (\<lambda>c. c \<in> set t) (rev s))
      in if n = length s then None else Some (length s - Suc n))"

definition find_last_of :: "'a list \<Rightarrow> 'a list \<Rightarrow> nat option" where
  "find_last_of s t =
     (let n = length (takeWhile (\<lambda>c. c \<notin> set t) (rev s))
      in if n = length s then None else Some (length s - Suc n))"

definition std_replace :: "'a list \<Rightarrow> nat \<Rightarrow> nat \<Rightarrow> 'a list \<Rightarrow> 'a list" where
  "std_replace s p n r = take p s @ r @ drop (p + n) s"

definition std_erase :: "'a list \<Rightarrow> nat \<Rightarrow> nat \<Rightarrow> 'a list" where
  "std_erase s p n = take p s @ drop (p + n) s"

text \<open>\<open>ptr\<close> read as a C string: the bytes before the first NUL.\<close>

definition c_str :: "string \<Rightarrow> string" where
  "c_str s = takeWhile (\<lambda>c. c \<noteq> CHR 0x00) s"

text \<open>\<open>std::to_string\<close> of a non-negative number.\<close>

definition digit_char :: "nat \<Rightarrow> char" where
  "digit_char d = char_of (48 + d)"

function to_string :: "nat \<Rightarrow> string" where
  "to_string n = (if n < 10 then [digit_char n] else to_string (n div 10) @ [digit_char (n mod 10)])"
  by pat_completeness auto
termination
  by (relation "measure id") auto

declare to_string.simps [simp del]

section \<open>Lemmas on the string operations\<close>

lemma std_find_SomeD:
  "std_find s n pos = Some p \<Longrightarrow>
     pos \<le> p \<and> p + length n \<le> length s \<and> take (length n) (drop p s) = n"
proof (induction s n pos rule: std_find.induct)
  case (1 s n pos)
  show ?case
  proof (cases "length s < pos + length n")
    case True
    with "1.prems" show ?thesis by (simp add: std_find.simps [of s n pos])
  next
    case False
    show ?thesis
    proof (cases "take (length n) (drop pos s) = n")
      case True
      with False "1.prems" show ?thesis by (simp add: std_find.simps [of s n pos])
    next
      case no: False
      with False "1.prems" have "std_find s n (Suc pos) = Some p"
        by (simp add: std_find.simps [of s n pos])
      with "1.IH" [OF False no] show ?thesis by simp
    qed
  qed
qed

lemma std_find_char_first:
  "case std_find s [c] pos of
     None \<Rightarrow> \<forall>k. pos \<le> k \<and> k < length s \<longrightarrow> s ! k \<noteq> c
   | Some p \<Rightarrow> p < length s \<and> s ! p = c \<and> (\<forall>k. pos \<le> k \<and> k < p \<longrightarrow> s ! k \<noteq> c)"
proof (induction s "[c]" pos rule: std_find.induct)
  case (1 s pos)
  consider (out) "length s \<le> pos" | (hit) "pos < length s" "s ! pos = c"
    | (miss) "pos < length s" "s ! pos \<noteq> c" by linarith
  then show ?case
  proof cases
    case out
    then show ?thesis by (auto simp: std_find.simps [of s "[c]" pos])
  next
    case hit
    then show ?thesis by (auto simp: std_find.simps [of s "[c]" pos] hd_drop_conv_nth take_Suc)
  next
    case miss
    then have ne: "take (length [c]) (drop pos s) \<noteq> [c]"
      by (simp add: take_Suc hd_drop_conv_nth)
    with miss have "std_find s [c] pos = std_find s [c] (Suc pos)"
      by (simp add: std_find.simps [of s "[c]" pos])
    moreover have "\<not> length s < pos + length [c]" using miss by simp
    ultimately show ?thesis
      using "1.hyps" [OF _ ne] miss by (auto split: option.splits simp: Suc_le_eq nat_less_le)
  qed
qed

lemma std_find_here: "std_find (pre @ n @ post) n (length pre) = Some (length pre)"
  by (subst std_find.simps) simp

lemma std_find_prefix: "std_find (n @ post) n 0 = Some 0"
  using std_find_here [of "[]" n post] by simp

lemma std_find_Nil_needle: "pos \<le> length s \<Longrightarrow> std_find s [] pos = Some pos"
  by (subst std_find.simps) simp

lemma std_find_skip:
  assumes "\<not> prefix n (c # t)"
  shows "std_find (pre @ c # t) n (length pre) = std_find (pre @ c # t) n (Suc (length pre))"
proof -
  have "take (length n) (c # t) \<noteq> n"
    using assms by (metis take_is_prefix)
  then show ?thesis
    by (subst std_find.simps) (auto simp: std_find.simps [of "pre @ c # t" n "Suc (length pre)"])
qed

lemma std_replace_at [str_simps]:
  "std_replace (pre @ n @ post) (length pre) (length n) r = pre @ r @ post"
  by (simp add: std_replace_def)

lemma std_erase_prefix [str_simps]: "std_erase (n @ post) 0 (length n) = post"
  by (simp add: std_erase_def)

lemma drop_to_takeWhile: "drop (length (takeWhile P s)) s = dropWhile P s"
  by (induction s) auto

lemma find_first_not_of_erase [str_simps]:
  "(case find_first_not_of s t of None \<Rightarrow> [] | Some n \<Rightarrow> std_erase s 0 n)
     = dropWhile (\<lambda>c. c \<in> set t) s"
proof (cases "length (takeWhile (\<lambda>c. c \<in> set t) s) = length s")
  case True
  then have "dropWhile (\<lambda>c. c \<in> set t) s = []"
    by (metis drop_to_takeWhile drop_all order_refl)
  with True show ?thesis
    unfolding find_first_not_of_def Let_def by (simp only: if_True refl option.case)
next
  case False
  then show ?thesis
    by (simp add: find_first_not_of_def std_erase_def drop_to_takeWhile)
qed

lemma take_length_rev_takeWhile:
  "take (length s - length (takeWhile P (rev s))) s = rev (dropWhile P (rev s))"
  by (metis drop_to_takeWhile drop_rev length_rev rev_rev_ident rev_swap take_rev)

lemma find_last_not_of_erase [str_simps]:
  "(case find_last_not_of s t of None \<Rightarrow> [] | Some n \<Rightarrow> take (Suc n) s)
     = rev (dropWhile (\<lambda>c. c \<in> set t) (rev s))"
proof (cases "length (takeWhile (\<lambda>c. c \<in> set t) (rev s)) = length s")
  case True
  with take_length_rev_takeWhile [of s "\<lambda>c. c \<in> set t"] show ?thesis
    by (simp add: find_last_not_of_def)
next
  case False
  have "length (takeWhile (\<lambda>c. c \<in> set t) (rev s)) \<le> length s"
    using length_takeWhile_le [of "\<lambda>c. c \<in> set t" "rev s"] by simp
  with False have "Suc (length s - Suc (length (takeWhile (\<lambda>c. c \<in> set t) (rev s))))
      = length s - length (takeWhile (\<lambda>c. c \<in> set t) (rev s))" by simp
  with False show ?thesis
    by (simp add: find_last_not_of_def take_length_rev_takeWhile)
qed

lemma find_last_of_None: "find_last_of s [c] = None \<longleftrightarrow> c \<notin> set s"
proof -
  have "length (takeWhile (\<lambda>d. d \<noteq> c) (rev s)) = length (rev s) \<longleftrightarrow>
      takeWhile (\<lambda>d. d \<noteq> c) (rev s) = rev s"
    by (metis takeWhile_eq_take take_all_iff order_refl)
  also have "\<dots> \<longleftrightarrow> c \<notin> set s" by (auto simp: takeWhile_eq_all_conv)
  finally show ?thesis by (simp add: find_last_of_def Let_def)
qed

lemma find_last_of_split:
  "c \<notin> set post \<Longrightarrow> find_last_of (pre @ c # post) [c] = Some (length pre)"
proof -
  assume "c \<notin> set post"
  then have "takeWhile (\<lambda>d. d \<noteq> c) (rev post @ c # rev pre) = rev post"
    by (simp add: takeWhile_append)
  then show ?thesis by (simp add: find_last_of_def Let_def)
qed

lemma c_str_id [simp]: "CHR 0x00 \<notin> set s \<Longrightarrow> c_str s = s"
  by (auto simp: c_str_def takeWhile_eq_all_conv)

lemma c_str_append: "CHR 0x00 \<notin> set s \<Longrightarrow> c_str (s @ t) = s @ c_str t"
  unfolding c_str_def by (rule takeWhile_append2) auto

lemma to_string_nonempty [simp]: "to_string n \<noteq> []"
  by (subst to_string.simps) simp

end
