(* ===== verification/Paths.thy ===== *)
theory Paths
  imports Backup_Prelude
begin

text \<open>
  The string and path helpers at the top of \<open>ctrlcenter2/ctrlcenter2.cpp\<close>:
  \<open>replaceAll\<close>, the trimming functions, \<open>toLower\<close>, the path normalisers,
  folder and extension extraction, and the four pointer scanners the hash-file
  parser is built from.

  \<open>replaceAll\<close> is a \<open>while(true)\<close> loop and is modelled as a partial function;
  \<open>std::string::back\<close> on an empty string is undefined behaviour and is a
  \<^const>\<open>Undefined\<close> result of \<open>normalizeDirPath\<close>.
\<close>

section \<open>Definitions\<close>

partial_function (option) replaceAll_loop ::
    "string \<Rightarrow> string \<Rightarrow> string \<Rightarrow> nat \<Rightarrow> string option" where
  "replaceAll_loop searchFor replaceBy str index =
     (case std_find str searchFor index of
        None \<Rightarrow> Some str
      | Some i \<Rightarrow>
          replaceAll_loop searchFor replaceBy
            (std_replace str i (length searchFor) replaceBy) (i + length replaceBy))"

definition replaceAll :: "string \<Rightarrow> string \<Rightarrow> string \<Rightarrow> string result" where
  "replaceAll input searchFor replaceBy =
     of_loop (replaceAll_loop searchFor replaceBy input 0)"

text \<open>The white space characters \<open>ws\<close>: blank, tab, line feed, carriage return, form feed, vertical tab.\<close>

definition ws :: string where
  "ws = [CHR '' '', CHR 0x09, CHR 0x0A, CHR 0x0D, CHR 0x0C, CHR 0x0B]"

definition rtrim :: "string \<Rightarrow> string \<Rightarrow> string" where
  "rtrim s t = (case find_last_not_of s t of None \<Rightarrow> [] | Some n \<Rightarrow> take (Suc n) s)"

definition ltrim :: "string \<Rightarrow> string \<Rightarrow> string" where
  "ltrim s t = (case find_first_not_of s t of None \<Rightarrow> [] | Some n \<Rightarrow> std_erase s 0 n)"

definition trim :: "string \<Rightarrow> string \<Rightarrow> string" where
  "trim s t = ltrim (rtrim s t) t"

text \<open>\<open>::tolower\<close> in the C locale.\<close>

definition tolower :: "char \<Rightarrow> char" where
  "tolower c = (let n = (of_char c :: nat) in if 65 \<le> n \<and> n \<le> 90 then char_of (n + 32) else c)"

definition toLower :: "string \<Rightarrow> string" where
  "toLower s = map tolower s"

definition normalizeFilePath :: "string \<Rightarrow> string result" where
  "normalizeFilePath input =
     ebind (replaceAll input [CHR 0x5C] ''/'') (\<lambda>retStr. Inr (trim retStr ws))"

definition normalizeDirPath :: "string \<Rightarrow> string result" where
  "normalizeDirPath input =
     ebind (normalizeFilePath input) (\<lambda>retStr.
       if retStr = [] then Inl Undefined
       else if last retStr \<noteq> CHR ''/'' then Inr (retStr @ ''/'') else Inr retStr)"

function popToSlash :: "string \<Rightarrow> string" where
  "popToSlash retStr =
     (if retStr \<noteq> [] \<and> last retStr \<noteq> CHR ''/'' then popToSlash (butlast retStr) else retStr)"
  by pat_completeness auto
termination
  by (relation "measure length") auto

declare popToSlash.simps [simp del]

definition extractFolderFromFilePath :: "string \<Rightarrow> string result" where
  "extractFolderFromFilePath input = ebind (normalizeFilePath input) (\<lambda>s. Inr (popToSlash s))"

definition extractFileExtensionFromFilePatch :: "string \<Rightarrow> string" where
  "extractFileExtensionFromFilePatch input =
     (case find_last_of input ''.'' of None \<Rightarrow> '''' | Some pos \<Rightarrow> drop (pos + 1) input)"

fun skipWhitespace :: "string \<Rightarrow> string" where
  "skipWhitespace [] = []"
| "skipWhitespace (c # ptr) =
     (if c = CHR '' '' \<or> c = CHR 0x09 \<or> c = CHR 0x0D \<or> c = CHR 0x0A
      then skipWhitespace ptr else c # ptr)"

fun skipNonWhitespace :: "string \<Rightarrow> string" where
  "skipNonWhitespace [] = []"
| "skipNonWhitespace (c # ptr) =
     (if c \<noteq> CHR '' '' \<and> c \<noteq> CHR 0x09 \<and> c \<noteq> CHR 0x0D \<and> c \<noteq> CHR 0x0A \<and> c \<noteq> CHR 0x00
      then skipNonWhitespace ptr else c # ptr)"

fun skipNewline :: "string \<Rightarrow> string" where
  "skipNewline [] = []"
| "skipNewline (c # ptr) =
     (if c = CHR 0x0D \<or> c = CHR 0x0A then skipNewline ptr else c # ptr)"

fun skipNonNewline :: "string \<Rightarrow> string" where
  "skipNonNewline [] = []"
| "skipNonNewline (c # ptr) =
     (if c \<noteq> CHR 0x0D \<and> c \<noteq> CHR 0x0A \<and> c \<noteq> CHR 0x00 then skipNonNewline ptr else c # ptr)"

text \<open>The specification of \<open>replaceAll\<close>: left-to-right replacement of the non-overlapping occurrences.\<close>

function subst_all :: "string \<Rightarrow> string \<Rightarrow> string \<Rightarrow> string" where
  "subst_all n r s =
     (if n = [] \<or> s = [] then s
      else if prefix n s then r @ subst_all n r (drop (length n) s)
      else hd s # subst_all n r (tl s))"
  by pat_completeness auto
termination
  by (relation "measure (\<lambda>(n, r, s). length s)") (auto simp: neq_Nil_conv)

declare subst_all.simps [simp del]

text \<open>What normalisation does to separators, and the character classes of the scanners.\<close>

definition slashes :: "string \<Rightarrow> string" where
  "slashes s = map (\<lambda>c. if c = CHR 0x5C then CHR ''/'' else c) s"

abbreviation is_blank :: "char \<Rightarrow> bool" where
  "is_blank c \<equiv> c = CHR '' '' \<or> c = CHR 0x09 \<or> c = CHR 0x0D \<or> c = CHR 0x0A"

abbreviation is_newline :: "char \<Rightarrow> bool" where
  "is_newline c \<equiv> c = CHR 0x0D \<or> c = CHR 0x0A"

definition token_char :: "char \<Rightarrow> bool" where
  "token_char c \<longleftrightarrow> \<not> is_blank c \<and> c \<noteq> CHR 0x00"

definition line_char :: "char \<Rightarrow> bool" where
  "line_char c \<longleftrightarrow> \<not> is_newline c \<and> c \<noteq> CHR 0x00"

section \<open>replaceAll\<close>

lemma replaceAll_loop_subst:
  "n \<noteq> [] \<Longrightarrow> replaceAll_loop n r (pre @ s) (length pre) = Some (pre @ subst_all n r s)"
proof (induction n r s arbitrary: pre rule: subst_all.induct)
  case (1 n r s)
  consider (nil) "s = []" | (hit) "s \<noteq> []" "prefix n s" | (miss) "s \<noteq> []" "\<not> prefix n s"
    by blast
  then show ?case
  proof cases
    case nil
    with "1.prems" show ?thesis
      by (subst replaceAll_loop.simps)
        (simp add: std_find.simps [of pre n] subst_all.simps [of n r "[]"])
  next
    case hit
    then obtain t where t: "s = n @ t" by (auto elim: prefixE)
    have "replaceAll_loop n r (pre @ s) (length pre) = replaceAll_loop n r ((pre @ r) @ t) (length (pre @ r))"
      by (subst replaceAll_loop.simps) (simp add: t std_find_here std_replace_at)
    also have "\<dots> = Some ((pre @ r) @ subst_all n r t)"
      using "1.IH"(1) [of "pre @ r"] hit "1.prems" t by simp
    finally show ?thesis
      using "1.prems" by (simp add: t subst_all.simps [of n r "n @ t"])
  next
    case miss
    then obtain c t where s: "s = c # t" by (cases s) auto
    have "replaceAll_loop n r (pre @ s) (length pre) = replaceAll_loop n r ((pre @ [c]) @ t) (length (pre @ [c]))"
      using std_find_skip [of n c t pre] miss s
      by (simp add: replaceAll_loop.simps [of n r "pre @ c # t" "length pre"]
          replaceAll_loop.simps [of n r "pre @ c # t" "Suc (length pre)"])
    also have "\<dots> = Some ((pre @ [c]) @ subst_all n r t)"
      using "1.IH"(2) [of "pre @ [c]"] miss "1.prems" s by simp
    finally show ?thesis
      using miss "1.prems" by (simp add: s subst_all.simps [of n r "c # t"])
  qed
qed

lemma replaceAll_subst: "n \<noteq> [] \<Longrightarrow> replaceAll s n r = Inr (subst_all n r s)"
  using replaceAll_loop_subst [of n r "[]" s] by (simp add: replaceAll_def)

lemma subst_all_char: "subst_all [a] [b] s = map (\<lambda>c. if c = a then b else c) s"
proof (induction s)
  case Nil
  show ?case by (simp add: subst_all.simps)
next
  case (Cons c s)
  then show ?case by (auto simp: subst_all.simps [of "[a]" "[b]" "c # s"])
qed

lemma replaceAll_loop_empty:
  assumes "replaceAll_loop n r s i = Some out" and "n = []" and "i \<le> length s"
  shows False
proof -
  have "n = [] \<longrightarrow> i \<le> length s \<longrightarrow> False"
  proof (rule replaceAll_loop.raw_induct [where P = "\<lambda>n r s i out. n = [] \<longrightarrow> i \<le> length s \<longrightarrow> False",
        OF _ assms(1)])
    fix loop n r str index out
    assume IH: "\<And>n r str index out. loop n r str index = Some out \<Longrightarrow>
        n = [] \<longrightarrow> index \<le> length str \<longrightarrow> False"
      and eq: "(case std_find str n index of None \<Rightarrow> Some str
        | Some i \<Rightarrow> loop n r (std_replace str i (length n) r) (i + length r)) = Some out"
    show "n = [] \<longrightarrow> index \<le> length str \<longrightarrow> False"
    proof (intro impI)
      assume n: "n = []" and i: "index \<le> length str"
      with eq have "loop n r (std_replace str index 0 r) (index + length r) = Some out"
        by (simp add: std_find_Nil_needle)
      from IH [OF this] n i show False by (simp add: std_replace_def)
    qed
  qed
  with assms(2,3) show False by simp
qed

text \<open>\<open>replaceAll\<close> implements left-to-right replacement of all non-overlapping
  occurrences for every non-empty search string (in particular the loop ends),
  and with an empty search string it never returns.
\<close>

theorem replaceAll_correct:
  "replaceAll s n r = (if n = [] then Inl Diverges else Inr (subst_all n r s))"
proof (cases "n = []")
  case True
  have "replaceAll_loop n r s 0 = None"
    using replaceAll_loop_empty [of n r s 0] True by (cases "replaceAll_loop n r s 0") auto
  with True show ?thesis by (simp add: replaceAll_def)
next
  case False
  then show ?thesis by (simp add: replaceAll_subst)
qed

section \<open>Trimming and path normalisation\<close>

lemma rtrim_dropWhile: "rtrim s t = rev (dropWhile (\<lambda>c. c \<in> set t) (rev s))"
  unfolding rtrim_def by (rule find_last_not_of_erase)

lemma ltrim_dropWhile: "ltrim s t = dropWhile (\<lambda>c. c \<in> set t) s"
  unfolding ltrim_def by (rule find_first_not_of_erase)

lemma ltrim_hd: "ltrim s t \<noteq> [] \<Longrightarrow> hd (ltrim s t) \<notin> set t"
  unfolding ltrim_dropWhile by (rule hd_dropWhile)

lemma rtrim_last: "rtrim s t \<noteq> [] \<Longrightarrow> last (rtrim s t) \<notin> set t"
  unfolding rtrim_dropWhile using hd_dropWhile [of "\<lambda>c. c \<in> set t" "rev s"] by (simp add: last_rev)

lemma ltrim_suffix: "suffix (ltrim s t) s"
  unfolding ltrim_dropWhile by (rule suffix_dropWhile)

lemma rtrim_prefix: "prefix (rtrim s t) s"
  unfolding rtrim_dropWhile by (metis suffix_dropWhile rev_rev_ident suffix_to_prefix)

lemma trim_last: "trim s t \<noteq> [] \<Longrightarrow> last (trim s t) \<notin> set t"
proof -
  assume ne: "trim s t \<noteq> []"
  from ltrim_suffix [of "rtrim s t" t] obtain u where u: "rtrim s t = u @ trim s t"
    by (auto simp: trim_def elim: suffixE)
  with ne have "rtrim s t \<noteq> []" by auto
  from rtrim_last [OF this] u ne show ?thesis by simp
qed

lemma trim_hd: "trim s t \<noteq> [] \<Longrightarrow> hd (trim s t) \<notin> set t"
  unfolding trim_def by (rule ltrim_hd)

lemma trim_id:
  assumes "s = [] \<or> hd s \<notin> set t \<and> last s \<notin> set t"
  shows "trim s t = s"
proof (cases "s = []")
  case False
  with assms have "hd (rev s) \<notin> set t" "rev s \<noteq> []" by (simp_all add: hd_rev)
  then have "dropWhile (\<lambda>c. c \<in> set t) (rev s) = rev s" by (cases "rev s") auto
  then have "rtrim s t = s" by (simp add: rtrim_dropWhile)
  with False assms show ?thesis by (cases s) (auto simp: trim_def ltrim_dropWhile)
qed (simp add: trim_def ltrim_dropWhile rtrim_dropWhile)

lemma trim_idem: "trim (trim s t) t = trim s t"
  by (rule trim_id) (use trim_hd trim_last in blast)

lemma set_trim: "set (trim s t) \<subseteq> set s"
  unfolding trim_def
  using set_mono_suffix [OF ltrim_suffix] set_mono_prefix [OF rtrim_prefix] by blast

lemma normalizeFilePath_eq: "normalizeFilePath s = Inr (trim (slashes s) ws)"
  by (simp add: normalizeFilePath_def replaceAll_subst subst_all_char slashes_def)

lemma slashes_id: "CHR 0x5C \<notin> set s \<Longrightarrow> slashes s = s"
  unfolding slashes_def by (rule map_idI) auto

lemma slashes_no_backslash: "CHR 0x5C \<notin> set (slashes s)"
  by (auto simp: slashes_def)

lemma normalizeFilePath_fix:
  "CHR 0x5C \<notin> set s \<Longrightarrow> s = [] \<or> hd s \<notin> set ws \<and> last s \<notin> set ws \<Longrightarrow> normalizeFilePath s = Inr s"
  by (simp add: normalizeFilePath_eq slashes_id trim_id)

text \<open>Whatever \<open>normalizeDirPath\<close> returns contains no backslash, starts with no
  white space, ends in a slash, and is a fixed point of \<open>normalizeDirPath\<close>; it
  fails (undefined behaviour of \<open>back()\<close>) exactly when nothing but white space
  is given.
\<close>

theorem normalizeDirPath_spec:
  "case normalizeDirPath s of
     Inl e \<Rightarrow> e = Undefined \<and> set s \<subseteq> set ws
   | Inr d \<Rightarrow> d \<noteq> [] \<and> last d = CHR ''/'' \<and> hd d \<notin> set ws \<and> CHR 0x5C \<notin> set d \<and>
       normalizeDirPath d = Inr d"
proof (cases "trim (slashes s) ws = []")
  case True
  have "set (slashes s) \<subseteq> set ws"
  proof -
    from True have "\<forall>c\<in>set (rtrim (slashes s) ws). c \<in> set ws"
      by (simp add: trim_def ltrim_dropWhile dropWhile_eq_Nil_conv)
    with rtrim_last [of "slashes s" ws] have "rtrim (slashes s) ws = []"
      by (meson last_in_set)
    then show ?thesis by (auto simp: rtrim_dropWhile)
  qed
  moreover have "CHR ''/'' \<notin> set ws" by (simp add: ws_def)
  ultimately have "set s \<subseteq> set ws" by (force simp: slashes_def split: if_splits)
  with True show ?thesis by (simp add: normalizeDirPath_def normalizeFilePath_eq)
next
  case False
  define d where "d = (let t = trim (slashes s) ws in if last t \<noteq> CHR ''/'' then t @ ''/'' else t)"
  have dne: "d \<noteq> []" "last d = CHR ''/''" using False by (auto simp: d_def Let_def)
  have hd: "hd d \<notin> set ws" using trim_hd [OF False] False by (simp add: d_def Let_def)
  have nb: "CHR 0x5C \<notin> set d"
    using set_trim [of "slashes s" ws] slashes_no_backslash [of s] by (auto simp: d_def Let_def)
  have "last d \<notin> set ws" using dne by (simp add: ws_def)
  with hd nb have "normalizeFilePath d = Inr d" by (simp add: normalizeFilePath_fix)
  with dne have "normalizeDirPath d = Inr d" by (simp add: normalizeDirPath_def)
  moreover have "normalizeDirPath s = Inr d"
    using False by (simp add: normalizeDirPath_def normalizeFilePath_eq d_def)
  ultimately show ?thesis using dne hd nb by simp
qed

section \<open>Folder and extension\<close>

lemma popToSlash_append:
  "popToSlash (d @ ''/'' @ f) = d @ ''/''" if "CHR ''/'' \<notin> set f"
  using that
proof (induction f rule: rev_induct)
  case Nil
  show ?case by (simp add: popToSlash.simps)
next
  case (snoc c f)
  then show ?case
    by (auto simp: popToSlash.simps [of "d @ CHR ''/'' # f @ [c]"] butlast_append)
qed

lemma popToSlash_none: "CHR ''/'' \<notin> set f \<Longrightarrow> popToSlash f = []"
proof (induction f rule: rev_induct)
  case Nil
  show ?case by (simp add: popToSlash.simps)
next
  case (snoc c f)
  then show ?case by (auto simp: popToSlash.simps [of "f @ [c]"])
qed

lemma extractFolder_split:
  assumes "CHR 0x5C \<notin> set (d @ ''/'' @ f)" and "CHR ''/'' \<notin> set f"
    and "hd (d @ ''/'') \<notin> set ws" and "f = [] \<or> last f \<notin> set ws"
  shows "extractFolderFromFilePath (d @ ''/'' @ f) = Inr (d @ ''/'')"
proof -
  have "hd (d @ ''/'' @ f) \<notin> set ws" using assms(3) by (cases d) auto
  moreover have "last (d @ ''/'' @ f) \<notin> set ws" using assms(4) by (auto simp: ws_def)
  ultimately have "normalizeFilePath (d @ ''/'' @ f) = Inr (d @ ''/'' @ f)"
    using assms(1) by (intro normalizeFilePath_fix) auto
  with assms(2) popToSlash_append show ?thesis by (simp add: extractFolderFromFilePath_def)
qed

lemma extension_append:
  "CHR ''.'' \<notin> set e \<Longrightarrow> extractFileExtensionFromFilePatch (b @ ''.'' @ e) = e"
  by (simp add: extractFileExtensionFromFilePatch_def find_last_of_split)

lemma extension_none:
  "CHR ''.'' \<notin> set s \<Longrightarrow> extractFileExtensionFromFilePatch s = []"
  using find_last_of_None [of s "CHR ''.''"] by (simp add: extractFileExtensionFromFilePatch_def)

section \<open>The scanners\<close>

lemma skipWhitespace_dropWhile: "skipWhitespace s = dropWhile is_blank s"
  by (induction s) auto

lemma skipNonWhitespace_dropWhile: "skipNonWhitespace s = dropWhile token_char s"
  by (induction s) (auto simp: token_char_def)

lemma skipNewline_dropWhile: "skipNewline s = dropWhile is_newline s"
  by (induction s) auto

lemma skipNonNewline_dropWhile: "skipNonNewline s = dropWhile line_char s"
  by (induction s) (auto simp: line_char_def)

lemma skipNonWhitespace_token:
  "list_all token_char t \<Longrightarrow> skipNonWhitespace (t @ CHR '' '' # r) = CHR '' '' # r"
  by (induction t) (auto simp: token_char_def)

lemma skipNonNewline_line:
  "list_all line_char t \<Longrightarrow> \<not> line_char c \<Longrightarrow> skipNonNewline (t @ c # r) = c # r"
  by (induction t) (auto simp: line_char_def)

lemma skip_length [simp]:
  "length (skipWhitespace s) \<le> length s" "length (skipNonWhitespace s) \<le> length s"
  "length (skipNewline s) \<le> length s" "length (skipNonNewline s) \<le> length s"
  by (induction s) auto

end
