(* ===== verification/FileHashes.thy ===== *)
theory FileHashes
  imports Paths
begin

text \<open>
  The class \<open>FileHashes\<close> of \<open>ctrlcenter2/ctrlcenter2.cpp\<close>: the table of
  hashed files that is the backup's database.  It is a vector of entries, kept
  in insertion order; the text form is one line \<open>hashfunc hashvalue path\<close> per
  entry.  \<open>parseBuffer\<close> walks a \<open>const char*\<close> to \<open>buffer+numberBytes\<close>; since a
  NUL byte stops every scanner but not the loop, the loop is a partial function.

  The abstract view of a table is a finite map from paths to entries
  (\<open>entry_map\<close>); the locale \<open>entry_table\<close> states what a table of entries
  promises to its clients and is interpreted on the vector operations.
\<close>

section \<open>Definitions\<close>

record FileEntry =
  mHashFunc :: string
  mHashValue :: string
  mPath :: string

type_synonym FileHashes = "FileEntry list"

datatype CompareResult = eSame | eChanged | eNew

text \<open>The bytes from pointer \<open>p\<close> up to pointer \<open>q\<close> of the same buffer, and the order on such pointers.\<close>

definition span :: "string \<Rightarrow> string \<Rightarrow> string" where
  "span p q = take (length p - length q) p"

definition ptr_less :: "string \<Rightarrow> string \<Rightarrow> bool" where
  "ptr_less p q \<longleftrightarrow> length q < length p"

text \<open>One iteration of the loop of \<open>parseBuffer\<close>: the entry and the cursor behind its path.\<close>

definition parseEntry :: "string \<Rightarrow> FileEntry \<times> string" where
  "parseEntry readCursor0 =
     (let startToken = readCursor0;
          readCursor = skipNonWhitespace startToken;
          hashFunc = span startToken readCursor;
          startToken = skipWhitespace readCursor;
          readCursor = skipNonWhitespace startToken;
          hashValue = span startToken readCursor;
          startToken = skipWhitespace readCursor;
          readCursor = skipNonNewline startToken;
          filePath = span startToken readCursor
      in (\<lparr>mHashFunc = hashFunc, mHashValue = hashValue, mPath = filePath\<rparr>, readCursor))"

partial_function (option) parseBuffer_loop ::
    "string \<Rightarrow> string \<Rightarrow> FileHashes \<Rightarrow> FileHashes option" where
  "parseBuffer_loop bufferEnd readCursor entries =
     (if ptr_less readCursor bufferEnd then
        (let (entry, readCursor') = parseEntry readCursor;
             readCursor'' = (if ptr_less readCursor' bufferEnd then skipNewline readCursor' else readCursor')
         in parseBuffer_loop bufferEnd readCursor'' (entries @ [entry]))
      else Some entries)"

definition parseBuffer :: "FileHashes \<Rightarrow> string \<Rightarrow> nat \<Rightarrow> FileHashes result" where
  "parseBuffer entries buffer numberBytes =
     of_loop (parseBuffer_loop (drop numberBytes buffer) buffer entries)"

definition getNumberEntries :: "FileHashes \<Rightarrow> nat" where
  "getNumberEntries h = length h"

text \<open>\<open>findIndexToFile\<close>: the loop over \<open>curIndex\<close>; \<open>-1\<close> when there is no such path.\<close>

function findIndex_loop :: "FileHashes \<Rightarrow> string \<Rightarrow> nat \<Rightarrow> int" where
  "findIndex_loop h path curIndex =
     (if curIndex < length h
      then (if path = mPath (h ! curIndex) then int curIndex else findIndex_loop h path (Suc curIndex))
      else -1)"
  by pat_completeness auto
termination
  by (relation "measure (\<lambda>(h, path, i). length h - i)") auto

declare findIndex_loop.simps [simp del]

definition findIndexToFile :: "FileHashes \<Rightarrow> string \<Rightarrow> int" where
  "findIndexToFile h path = findIndex_loop h path 0"

definition compareEntry :: "FileHashes \<Rightarrow> FileEntry \<Rightarrow> CompareResult" where
  "compareEntry otherFiles entry =
     (let otherFileIndex = findIndexToFile otherFiles (mPath entry)
      in if otherFileIndex = -1 then eNew
         else if mHashValue entry = mHashValue (otherFiles ! nat otherFileIndex) then eSame
         else eChanged)"

definition compareToFileHashes :: "FileHashes \<Rightarrow> FileHashes \<Rightarrow> CompareResult list" where
  "compareToFileHashes h otherFiles = map (compareEntry otherFiles) h"

definition mergeEntry :: "FileEntry \<Rightarrow> FileHashes \<Rightarrow> FileHashes" where
  "mergeEntry otherEntry h =
     (let fileIndex = findIndexToFile h (mPath otherEntry)
      in if fileIndex = -1 then h @ [otherEntry] else h[nat fileIndex := otherEntry])"

definition mergeUpdates :: "FileHashes \<Rightarrow> FileHashes \<Rightarrow> FileHashes" where
  "mergeUpdates h otherFiles = fold mergeEntry otherFiles h"

text \<open>
  The text side.  \<open>eraseUnittestPath\<close> is the block repeated in
  \<open>saveFileHashes\<close>, \<open>compressFile\<close> and \<open>createOrUpdateArchive\<close>; \<open>printEntry\<close>
  is the \<open>fprintf\<close> of \<open>saveFileHashes\<close>, whose \<open>c_str()\<close> arguments end at the
  first NUL.
\<close>

definition eraseUnittestPath :: "string \<Rightarrow> string \<Rightarrow> string" where
  "eraseUnittestPath unittestPath filename =
     (if length unittestPath \<noteq> 0 then
        (case std_find filename unittestPath 0 of
           None \<Rightarrow> filename
         | Some pos \<Rightarrow> std_erase filename pos (length unittestPath))
      else filename)"

definition printEntry :: "string \<Rightarrow> FileEntry \<Rightarrow> string" where
  "printEntry unittestPath entry =
     c_str (mHashFunc entry) @ '' '' @ c_str (mHashValue entry) @ '' '' @
     c_str (eraseUnittestPath unittestPath (mPath entry)) @ [CHR 0x0A]"

definition saveText :: "string \<Rightarrow> FileHashes \<Rightarrow> string" where
  "saveText unittestPath h = concat (map (printEntry unittestPath) h)"

text \<open>
  \<open>readFileHashes\<close> on a file with the given content; \<open>heap\<close> is what the memory
  holds behind the file's bytes (the buffer has ten more bytes, none of them set).
\<close>

definition prefixUnittestPath :: "string \<Rightarrow> FileEntry \<Rightarrow> FileEntry" where
  "prefixUnittestPath unittestPath entry =
     (if length unittestPath \<noteq> 0 then entry\<lparr>mPath := unittestPath @ mPath entry\<rparr> else entry)"

definition readText :: "string \<Rightarrow> string \<Rightarrow> string \<Rightarrow> FileHashes result" where
  "readText unittestPath heap content =
     ebind (parseBuffer [] (content @ heap) (length content))
       (\<lambda>h. Inr (map (prefixUnittestPath unittestPath) h))"

text \<open>Well-formed entries: what survives the text form.\<close>

definition wf_token :: "string \<Rightarrow> bool" where
  "wf_token t \<longleftrightarrow> t \<noteq> [] \<and> list_all token_char t"

definition wf_path :: "string \<Rightarrow> bool" where
  "wf_path p \<longleftrightarrow> p \<noteq> [] \<and> list_all line_char p \<and> \<not> is_blank (hd p)"

definition wf_stored :: "string \<Rightarrow> FileEntry \<Rightarrow> bool" where
  "wf_stored unittestPath e \<longleftrightarrow> wf_token (mHashFunc e) \<and> wf_token (mHashValue e) \<and>
     prefix unittestPath (mPath e) \<and> wf_path (drop (length unittestPath) (mPath e))"

text \<open>The abstract view and the invariant of a database.\<close>

definition entry_map :: "FileHashes \<Rightarrow> string \<Rightarrow> FileEntry option" where
  "entry_map h p = map_of (map (\<lambda>e. (mPath e, e)) h) p"

definition distinct_paths :: "FileHashes \<Rightarrow> bool" where
  "distinct_paths h \<longleftrightarrow> distinct (map mPath h)"

section \<open>The interface of a table of entries\<close>

text \<open>
  What a client of the table relies on: a lookup by path, an operation that
  stores one entry, an invariant, and the two laws that relate them.  Everything
  the program says about whole merges follows.
\<close>

locale entry_table =
  fixes look :: "'t \<Rightarrow> string \<Rightarrow> FileEntry option"
    and put :: "FileEntry \<Rightarrow> 't \<Rightarrow> 't"
    and inv :: "'t \<Rightarrow> bool"
  assumes look_put: "look (put e t) = (look t)(mPath e \<mapsto> e)"
    and inv_put: "inv t \<Longrightarrow> inv (put e t)"
    and put_same: "look t (mPath e) = Some e \<Longrightarrow> put e t = t"
begin

lemma look_fold:
  "look (fold put es t) = look t ++ map_of (rev (map (\<lambda>e. (mPath e, e)) es))"
proof (induction es arbitrary: t)
  case Nil
  show ?case by simp
next
  case (Cons e es)
  have "look (fold put (e # es) t) = (look t)(mPath e \<mapsto> e) ++ map_of (rev (map (\<lambda>e. (mPath e, e)) es))"
    by (simp only: fold_Cons comp_apply Cons.IH look_put)
  also have "\<dots> = look t ++ map_of (rev (map (\<lambda>e. (mPath e, e)) (e # es)))"
    by (simp add: map_add_upd_left [symmetric] fun_eq_iff map_add_def split: option.split)
  finally show ?case .
qed

lemma inv_fold: "inv t \<Longrightarrow> inv (fold put es t)"
  by (induction es arbitrary: t) (auto intro: inv_put)

lemma dom_fold: "dom (look (fold put es t)) = dom (look t) \<union> mPath ` set es"
  by (auto simp: look_fold dom_map_of_conv_image_fst image_image)

lemma look_fold_distinct:
  assumes "distinct (map mPath es)" and "e \<in> set es"
  shows "look (fold put es t) (mPath e) = Some e"
proof -
  have "distinct (map fst (rev (map (\<lambda>e. (mPath e, e)) es)))"
    using assms(1) by (simp add: rev_map comp_def flip: rev_map)
  moreover have "(mPath e, e) \<in> set (rev (map (\<lambda>e. (mPath e, e)) es))"
    using assms(2) by auto
  ultimately have "map_of (rev (map (\<lambda>e. (mPath e, e)) es)) (mPath e) = Some e"
    by (rule map_of_is_SomeI)
  then show ?thesis by (simp add: look_fold map_add_def)
qed

lemma fold_same: "(\<And>e. e \<in> set es \<Longrightarrow> look t (mPath e) = Some e) \<Longrightarrow> fold put es t = t"
  by (induction es) (auto simp: put_same)

lemma fold_idem: "distinct (map mPath es) \<Longrightarrow> fold put es (fold put es t) = fold put es t"
  by (rule fold_same) (rule look_fold_distinct)

end

section \<open>The vector implements the interface\<close>

lemma findIndex_loop_spec:
  "i \<le> length h \<Longrightarrow>
   (findIndex_loop h p i = -1 \<and> p \<notin> mPath ` set (drop i h)) \<or>
   (\<exists>k. findIndex_loop h p i = int k \<and> i \<le> k \<and> k < length h \<and> mPath (h ! k) = p \<and>
        p \<notin> mPath ` set (take (k - i) (drop i h)))"
proof (induction h p i rule: findIndex_loop.induct)
  case (1 h p i)
  consider (stop) "i = length h" | (hit) "i < length h" "p = mPath (h ! i)"
    | (miss) "i < length h" "p \<noteq> mPath (h ! i)"
    using "1.prems" by linarith
  then show ?case
  proof cases
    case stop
    then show ?thesis by (simp add: findIndex_loop.simps [of h p "length h"])
  next
    case hit
    then have "findIndex_loop h p i = int i" by (subst findIndex_loop.simps) simp
    with hit show ?thesis by (intro disjI2 exI [of _ i]) simp
  next
    case miss
    have dr: "drop i h = h ! i # drop (Suc i) h" using miss by (simp add: Cons_nth_drop_Suc)
    have eq: "findIndex_loop h p i = findIndex_loop h p (Suc i)"
      using miss by (simp add: findIndex_loop.simps [of h p i])
    from "1.IH" [OF miss] miss consider
      "findIndex_loop h p (Suc i) = -1 \<and> p \<notin> mPath ` set (drop (Suc i) h)"
      | k where "findIndex_loop h p (Suc i) = int k" "Suc i \<le> k" "k < length h" "mPath (h ! k) = p"
          "p \<notin> mPath ` set (take (k - Suc i) (drop (Suc i) h))"
      by auto
    then show ?thesis
    proof cases
      case 1
      with eq dr miss show ?thesis by auto
    next
      case (2 k)
      then have "take (k - i) (drop i h) = h ! i # take (k - Suc i) (drop (Suc i) h)"
        by (simp add: dr Suc_diff_Suc flip: Suc_diff_le) (metis Suc_diff_Suc Suc_le_lessD take_Suc_Cons)
      with 2 eq miss show ?thesis by (intro disjI2 exI [of _ k]) auto
    qed
  qed
qed

lemma findIndexToFile_cases:
  obtains (absent) "findIndexToFile h p = -1" "p \<notin> mPath ` set h"
  | (found) pre e post where "h = pre @ e # post" "mPath e = p" "p \<notin> mPath ` set pre"
      "findIndexToFile h p = int (length pre)"
proof -
  from findIndex_loop_spec [of 0 h p] consider
    "findIndexToFile h p = -1" "p \<notin> mPath ` set h"
    | k where "findIndexToFile h p = int k" "k < length h" "mPath (h ! k) = p" "p \<notin> mPath ` set (take k h)"
    by (auto simp: findIndexToFile_def)
  then show ?thesis
  proof cases
    case 1
    then show ?thesis by (rule absent)
  next
    case (2 k)
    then have "h = take k h @ h ! k # drop (Suc k) h" by (simp add: id_take_nth_drop)
    with 2 show ?thesis by (intro found [of "take k h" "h ! k" "drop (Suc k) h"]) auto
  qed
qed

lemma entry_map_append: "entry_map (a @ b) p = (case entry_map a p of None \<Rightarrow> entry_map b p | Some e \<Rightarrow> Some e)"
  by (simp add: entry_map_def map_add_def split: option.split)

lemma entry_map_Cons: "entry_map (e # h) = (entry_map h)(mPath e \<mapsto> e)"
  by (simp add: entry_map_def fun_eq_iff)

lemma entry_map_None: "entry_map h p = None \<longleftrightarrow> p \<notin> mPath ` set h"
  by (induction h) (auto simp: entry_map_def)

lemma entry_map_Some_path: "entry_map h p = Some e \<Longrightarrow> mPath e = p \<and> e \<in> set h"
  by (induction h) (auto simp: entry_map_def split: if_splits)

lemma mergeEntry_look: "entry_map (mergeEntry e h) = (entry_map h)(mPath e \<mapsto> e)"
proof (cases rule: findIndexToFile_cases [of h "mPath e"])
  case absent
  then have "entry_map h (mPath e) = None" by (simp add: entry_map_None)
  with absent show ?thesis
    by (auto simp: mergeEntry_def entry_map_append fun_eq_iff entry_map_Cons split: option.split)
      (auto simp: entry_map_def)
next
  case (found pre e' post)
  then have "entry_map pre (mPath e) = None" by (simp add: entry_map_None)
  with found show ?thesis
    by (auto simp: mergeEntry_def entry_map_append fun_eq_iff entry_map_Cons split: option.split)
qed

lemma mergeEntry_distinct: "distinct_paths h \<Longrightarrow> distinct_paths (mergeEntry e h)"
proof (cases rule: findIndexToFile_cases [of h "mPath e"])
  case absent
  assume "distinct_paths h"
  with absent show ?thesis by (auto simp: mergeEntry_def distinct_paths_def)
next
  case (found pre e' post)
  assume "distinct_paths h"
  with found show ?thesis by (auto simp: mergeEntry_def distinct_paths_def)
qed

lemma mergeEntry_same: "entry_map h (mPath e) = Some e \<Longrightarrow> mergeEntry e h = h"
proof (cases rule: findIndexToFile_cases [of h "mPath e"])
  case absent
  assume "entry_map h (mPath e) = Some e"
  with absent show ?thesis by (auto dest: entry_map_Some_path)
next
  case (found pre e' post)
  assume a: "entry_map h (mPath e) = Some e"
  from found have "entry_map pre (mPath e) = None" by (simp add: entry_map_None)
  with a found have "e' = e" by (simp add: entry_map_append entry_map_Cons)
  with found show ?thesis by (simp add: mergeEntry_def)
qed

interpretation vec: entry_table entry_map mergeEntry distinct_paths
  by unfold_locales (rule mergeEntry_look, erule mergeEntry_distinct, erule mergeEntry_same)

section \<open>Comparison and merge\<close>

lemma compareEntry_map:
  "compareEntry other e =
     (case entry_map other (mPath e) of
        None \<Rightarrow> eNew
      | Some e' \<Rightarrow> if mHashValue e = mHashValue e' then eSame else eChanged)"
proof (cases rule: findIndexToFile_cases [of other "mPath e"])
  case absent
  then have "entry_map other (mPath e) = None" by (simp add: entry_map_None)
  with absent show ?thesis by (simp add: compareEntry_def)
next
  case (found pre e' post)
  then have "entry_map pre (mPath e) = None" by (simp add: entry_map_None)
  with found show ?thesis by (simp add: compareEntry_def entry_map_append entry_map_Cons)
qed

text \<open>C6. \<open>mergeUpdates\<close> refines the override of finite maps: afterwards a path maps
  to the last entry the update list has for it, and to what it had before when
  the list has none; the database keeps at most one entry per path.
\<close>

theorem mergeUpdates_refines:
  "entry_map (mergeUpdates h others) = entry_map h ++ entry_map (rev others) \<and>
   (distinct_paths h \<longrightarrow> distinct_paths (mergeUpdates h others))"
  using vec.look_fold [of others h] vec.inv_fold [of h others]
  by (simp add: mergeUpdates_def entry_map_def [of "rev others", abs_def] rev_map)

theorem mergeUpdates_refines_witness:
  "distinct_paths (mergeUpdates [] [\<lparr>mHashFunc = ''m'', mHashValue = ''1'', mPath = ''p''\<rparr>])"
  using mergeUpdates_refines [of "[]" "[\<lparr>mHashFunc = ''m'', mHashValue = ''1'', mPath = ''p''\<rparr>]"]
  by (simp add: distinct_paths_def)

text \<open>A run's own merge makes the next comparison silent: after \<open>mergeUpdates\<close>
  with a list of entries of distinct paths every one of them compares \<open>eSame\<close>,
  and merging the same list a second time (as \<open>createOrUpdateArchive\<close> does)
  changes nothing.
\<close>

theorem merge_then_compare:
  assumes "distinct_paths others"
  shows "compareToFileHashes others (mergeUpdates h others) = replicate (length others) eSame \<and>
    mergeUpdates (mergeUpdates h others) others = mergeUpdates h others"
proof
  have "compareEntry (mergeUpdates h others) e = eSame" if "e \<in> set others" for e
    using vec.look_fold_distinct [of others e h] assms that
    by (simp add: compareEntry_map mergeUpdates_def distinct_paths_def)
  then have "compareToFileHashes others (mergeUpdates h others) = map (\<lambda>_. eSame) others"
    by (simp add: compareToFileHashes_def)
  then show "compareToFileHashes others (mergeUpdates h others) = replicate (length others) eSame"
    by (simp add: map_replicate_const)
  show "mergeUpdates (mergeUpdates h others) others = mergeUpdates h others"
    using assms unfolding mergeUpdates_def distinct_paths_def by (rule vec.fold_idem)
qed

theorem merge_then_compare_witness:
  "compareToFileHashes [\<lparr>mHashFunc = ''m'', mHashValue = ''2'', mPath = ''p''\<rparr>]
     (mergeUpdates [\<lparr>mHashFunc = ''m'', mHashValue = ''1'', mPath = ''p''\<rparr>]
        [\<lparr>mHashFunc = ''m'', mHashValue = ''2'', mPath = ''p''\<rparr>]) = [eSame]"
  using merge_then_compare [of "[\<lparr>mHashFunc = ''m'', mHashValue = ''2'', mPath = ''p''\<rparr>]"
      "[\<lparr>mHashFunc = ''m'', mHashValue = ''1'', mPath = ''p''\<rparr>]"]
  by (simp add: distinct_paths_def)

section \<open>The text form\<close>

lemma span_append [simp]: "span (a @ b) b = a"
  by (simp add: span_def)

lemma span_split: "suffix q p \<Longrightarrow> p = span p q @ q"
  by (auto simp: span_def suffix_def)

lemma hd_blank_skip: "p \<noteq> [] \<Longrightarrow> \<not> is_blank (hd p) \<Longrightarrow> skipWhitespace (CHR '' '' # p @ r) = p @ r"
  by (cases p) auto

lemma parseEntry_line:
  assumes "wf_token hf" and "wf_token hv" and "wf_path p" and "\<not> line_char c"
  shows "parseEntry (hf @ '' '' @ hv @ '' '' @ p @ c # rest)
     = (\<lparr>mHashFunc = hf, mHashValue = hv, mPath = p\<rparr>, c # rest)"
proof -
  have hv: "hv \<noteq> []" "\<not> is_blank (hd hv)" "list_all token_char hv"
    using assms(2) by (auto simp: wf_token_def token_char_def list_all_iff)
  have p: "p \<noteq> []" "\<not> is_blank (hd p)" "list_all line_char p"
    using assms(3) by (auto simp: wf_path_def)
  have 1: "skipNonWhitespace (hf @ '' '' @ hv @ '' '' @ p @ c # rest)
      = '' '' @ hv @ '' '' @ p @ c # rest"
    using skipNonWhitespace_token [of hf] assms(1) by (simp add: wf_token_def)
  have 2: "skipWhitespace ('' '' @ hv @ '' '' @ p @ c # rest) = hv @ '' '' @ p @ c # rest"
    using hd_blank_skip [OF hv(1,2), of "'' '' @ p @ c # rest"] by simp
  have 3: "skipNonWhitespace (hv @ '' '' @ p @ c # rest) = '' '' @ p @ c # rest"
    using skipNonWhitespace_token [OF hv(3)] by simp
  have 4: "skipWhitespace ('' '' @ p @ c # rest) = p @ c # rest"
    using hd_blank_skip [OF p(1,2), of "c # rest"] by simp
  have 5: "skipNonNewline (p @ c # rest) = c # rest"
    using skipNonNewline_line [OF p(3) assms(4)] .
  show ?thesis by (simp only: parseEntry_def Let_def 1 2 3 4 5 span_append)
qed

lemma token_no_nul: "list_all token_char t \<Longrightarrow> CHR 0x00 \<notin> set t"
  by (auto simp: list_all_iff token_char_def)

lemma line_no_nul: "list_all line_char t \<Longrightarrow> CHR 0x00 \<notin> set t"
  by (auto simp: list_all_iff line_char_def)

lemma eraseUnittestPath_prefix:
  "prefix u p \<Longrightarrow> eraseUnittestPath u p = drop (length u) p"
  by (auto simp: eraseUnittestPath_def std_find_prefix std_erase_prefix prefix_def)

lemma printEntry_wf:
  "wf_stored u e \<Longrightarrow> printEntry u e =
     mHashFunc e @ '' '' @ mHashValue e @ '' '' @ drop (length u) (mPath e) @ [CHR 0x0A]"
  by (simp add: printEntry_def eraseUnittestPath_prefix wf_stored_def wf_token_def wf_path_def
      token_no_nul line_no_nul)

lemma printEntry_starts:
  "wf_stored u e \<Longrightarrow> \<exists>c r. printEntry u e = c # r \<and> \<not> is_newline c"
  by (cases "mHashFunc e") (auto simp: printEntry_wf wf_stored_def wf_token_def token_char_def)

lemma prefixUnittestPath_wf:
  "wf_stored u e \<Longrightarrow> prefixUnittestPath u
     \<lparr>mHashFunc = mHashFunc e, mHashValue = mHashValue e, mPath = drop (length u) (mPath e)\<rparr> = e"
  by (auto simp: prefixUnittestPath_def wf_stored_def prefix_def)

lemma parse_lines:
  assumes "\<forall>e\<in>set es. wf_stored u e" and "cur = saveText u es @ heap \<or> es = [] \<and> \<not> ptr_less cur heap"
  shows "parseBuffer_loop heap cur acc = Some (acc @
     map (\<lambda>e. \<lparr>mHashFunc = mHashFunc e, mHashValue = mHashValue e, mPath = drop (length u) (mPath e)\<rparr>) es)"
  using assms
proof (induction es arbitrary: acc cur)
  case Nil
  then have "\<not> ptr_less cur heap" by (auto simp: saveText_def ptr_less_def)
  then show ?case by (simp add: parseBuffer_loop.simps [of heap cur])
next
  case (Cons e es)
  let ?e = "\<lparr>mHashFunc = mHashFunc e, mHashValue = mHashValue e, mPath = drop (length u) (mPath e)\<rparr>"
  let ?rest = "saveText u es @ heap"
  from Cons.prems have e: "wf_stored u e" and cur: "cur = printEntry u e @ ?rest"
    by (auto simp: saveText_def)
  have parse: "parseEntry cur = (?e, CHR 0x0A # ?rest)"
    using parseEntry_line [of "mHashFunc e" "mHashValue e" "drop (length u) (mPath e)" "CHR 0x0A" ?rest] e
    by (simp add: cur printEntry_wf) (simp add: wf_stored_def line_char_def)
  have less: "ptr_less cur heap" "ptr_less (CHR 0x0A # ?rest) heap"
    by (auto simp: ptr_less_def cur printEntry_def)
  have next_cur: "skipNewline ?rest = saveText u es @ heap \<or> es = [] \<and> \<not> ptr_less (skipNewline ?rest) heap"
  proof (cases es)
    case Nil
    then show ?thesis using skip_length(3) [of heap] by (auto simp: saveText_def ptr_less_def not_less)
  next
    case (Cons e' es')
    with Cons.prems(1) printEntry_starts [of u e'] obtain c r where
      "printEntry u e' = c # r" "\<not> is_newline c" by auto
    with Cons show ?thesis by (simp add: saveText_def)
  qed
  have "parseBuffer_loop heap cur acc = parseBuffer_loop heap (skipNewline ?rest) (acc @ [?e])"
    using less by (subst parseBuffer_loop.simps) (simp add: parse)
  also have "\<dots> = Some ((acc @ [?e]) @
     map (\<lambda>e. \<lparr>mHashFunc = mHashFunc e, mHashValue = mHashValue e, mPath = drop (length u) (mPath e)\<rparr>) es)"
    using Cons.prems(1) next_cur by (intro Cons.IH) auto
  finally show ?case by simp
qed

lemma readText_saveText:
  assumes "\<forall>e\<in>set es. wf_stored u e"
  shows "readText u heap (saveText u es) = Inr es"
proof -
  have "map (prefixUnittestPath u) (map (\<lambda>e. \<lparr>mHashFunc = mHashFunc e, mHashValue = mHashValue e,
      mPath = drop (length u) (mPath e)\<rparr>) es) = es"
    using assms by (induction es) (auto simp: prefixUnittestPath_wf)
  then show ?thesis
    using parse_lines [OF assms, of "saveText u es @ heap" heap "[]"]
    by (simp add: readText_def parseBuffer_def)
qed

section \<open>When the parser returns\<close>

lemma skip_suffix:
  "suffix (skipWhitespace s) s" "suffix (skipNonWhitespace s) s"
  "suffix (skipNewline s) s" "suffix (skipNonNewline s) s"
  by (simp_all add: skipWhitespace_dropWhile skipNonWhitespace_dropWhile skipNewline_dropWhile
      skipNonNewline_dropWhile suffix_dropWhile)

lemma parseEntry_suffix: "suffix (snd (parseEntry cur)) cur"
  unfolding parseEntry_def Let_def by (simp, meson skip_suffix suffix_order.trans)

lemma parseEntry_advances:
  assumes "cur = c # r" and "c \<noteq> CHR 0x00"
  shows "length (snd (parseEntry cur)) < length cur"
proof -
  have "length (skipWhitespace (skipNonWhitespace cur)) < length cur"
  proof (cases "is_blank c")
    case True
    then have "skipWhitespace (skipNonWhitespace cur) = skipWhitespace r" using assms(1) by auto
    moreover have "length (skipWhitespace r) \<le> length r" by simp
    ultimately show ?thesis using assms(1) by (simp only: length_Cons le_imp_less_Suc)
  next
    case False
    then have "skipNonWhitespace cur = skipNonWhitespace r" using assms by simp
    then have "length (skipWhitespace (skipNonWhitespace cur)) \<le> length r"
      by (metis skip_length(1,2) le_trans)
    then show ?thesis using assms(1) by simp
  qed
  moreover have "length (snd (parseEntry cur)) \<le> length (skipWhitespace (skipNonWhitespace cur))"
    by (simp add: parseEntry_def Let_def) (meson skip_length le_trans)
  ultimately show ?thesis by simp
qed

lemma parse_returns:
  assumes "suffix fin cur \<or> suffix cur fin" and "CHR 0x00 \<notin> set (span cur fin)"
  shows "\<exists>h. parseBuffer_loop fin cur acc = Some (acc @ h)"
  using assms
proof (induction cur arbitrary: acc rule: length_induct)
  case (1 cur)
  show ?case
  proof (cases "ptr_less cur fin")
    case False
    then show ?thesis by (simp add: parseBuffer_loop.simps [of fin cur])
  next
    case True
    then have fin: "suffix fin cur" using "1.prems"(1)
      by (auto simp: ptr_less_def dest: suffix_length_le)
    then have sp: "cur = span cur fin @ fin" by (rule span_split)
    from True obtain c r where c: "cur = c # r" "c \<in> set (span cur fin)"
      by (cases cur; cases "length cur - length fin") (auto simp: ptr_less_def span_def)
    with "1.prems"(2) have nn: "c \<noteq> CHR 0x00" by auto
    obtain e cur1 where pe: "parseEntry cur = (e, cur1)" by fastforce
    define cur2 where "cur2 = (if ptr_less cur1 fin then skipNewline cur1 else cur1)"
    have suf: "suffix cur2 cur"
      using parseEntry_suffix [of cur] skip_suffix(3) [of cur1] pe
      by (auto simp: cur2_def intro: suffix_order.trans)
    have len: "length cur2 < length cur"
      using le_less_trans [OF skip_length(3), of cur1] parseEntry_advances [OF c(1) nn] pe
      by (auto simp: cur2_def)
    have sf: "suffix fin cur2 \<or> suffix cur2 fin"
      using suf fin by (meson suffix_same_cases)
    have "CHR 0x00 \<notin> set (span cur2 fin)"
    proof (cases "suffix fin cur2")
      case True
      then have "suffix (span cur2 fin) (span cur fin)"
        using suf fin by (metis (no_types, opaque_lifting) append_assoc same_suffix_suffix span_append span_split suffix_def)
      with "1.prems"(2) show ?thesis by (auto dest: set_mono_suffix)
    next
      case False
      with sf have "length cur2 \<le> length fin" by (auto dest: suffix_length_le)
      then show ?thesis by (simp add: span_def)
    qed
    with "1.IH" len sf obtain h where "parseBuffer_loop fin cur2 (acc @ [e]) = Some ((acc @ [e]) @ h)"
      by blast
    then show ?thesis
      using True by (subst parseBuffer_loop.simps) (simp add: pe cur2_def)
  qed
qed

lemma parseEntry_nul: "parseEntry (CHR 0x00 # r) = (\<lparr>mHashFunc = [], mHashValue = [], mPath = []\<rparr>, CHR 0x00 # r)"
  by (simp add: parseEntry_def span_def)

lemma parse_nul_diverges:
  assumes "parseBuffer_loop fin cur acc = Some out"
  shows "cur = CHR 0x00 # r \<longrightarrow> length fin < length cur \<longrightarrow> False"
proof (rule parseBuffer_loop.raw_induct
    [where P = "\<lambda>fin cur acc out. cur = CHR 0x00 # r \<longrightarrow> length fin < length cur \<longrightarrow> False", OF _ assms])
  fix loop fin cur acc out
  assume IH: "\<And>fin cur acc out. loop fin cur acc = Some out \<Longrightarrow>
      cur = CHR 0x00 # r \<longrightarrow> length fin < length cur \<longrightarrow> False"
    and eq: "(if ptr_less cur fin then
        (let (entry, cur1) = parseEntry cur;
             cur2 = (if ptr_less cur1 fin then skipNewline cur1 else cur1)
         in loop fin cur2 (acc @ [entry]))
      else Some acc) = Some out"
  show "cur = CHR 0x00 # r \<longrightarrow> length fin < length cur \<longrightarrow> False"
  proof (intro impI)
    assume cur: "cur = CHR 0x00 # r" and len: "length fin < length cur"
    with eq have "loop fin cur (acc @ [\<lparr>mHashFunc = [], mHashValue = [], mPath = []\<rparr>]) = Some out"
      by (simp add: ptr_less_def parseEntry_nul)
    from IH [OF this] cur len show False by blast
  qed
qed



end
