(* ===== verification/Os_World.thy ===== *)
theory Os_World
  imports Backup_Prelude
begin

text \<open>
  What the program shares with the operating system: the disk (files by path,
  and which paths are folders), the open file descriptors of the process, and
  the lines printed so far.  The system calls themselves are not part of the
  sources; they are the fields of the record \<open>os\<close>, a parameter of every
  definition that uses them, and what the code relies on is stated as named
  hypotheses over that record.
\<close>

record disk =
  files :: "string \<Rightarrow> string option"
  folders :: "string \<Rightarrow> bool"

record world =
  disk :: disk
  open_fds :: "nat list"
  console :: "string list"

text \<open>A child process as the parent sees it once it has ended.\<close>

record child =
  wait_ok :: bool \<comment> \<open>\<open>waitpid\<close> returned the pid\<close>
  exited :: bool \<comment> \<open>\<open>WIFEXITED\<close>\<close>
  exit_status :: nat \<comment> \<open>\<open>WEXITSTATUS\<close>\<close>
  stdout_text :: string
  stderr_text :: string

datatype file_action = AddClose nat | AddDup2 nat nat

text \<open>The outcome of one \<open>read\<close> or \<open>write\<close> call: a number of bytes the kernel is willing to move, or an error.\<close>

datatype io_event = Transfer nat | Interrupted | IoError

record os =
  debug_build :: bool
  os_pipe :: "nat list \<Rightarrow> (nat \<times> nat) option"
  os_actions_init :: bool
  os_add_action :: "file_action \<Rightarrow> bool"
  os_environ :: "string list"
  os_posix_spawn :: "string list \<Rightarrow> string list \<Rightarrow> disk \<Rightarrow> (nat + child) \<times> disk"
  os_posix_spawnp :: "string list \<Rightarrow> string list \<Rightarrow> disk \<Rightarrow> (nat + child) \<times> disk"
  os_fdopen :: "nat \<Rightarrow> bool"
  os_pipe_capacity :: nat
  os_fopen_w :: "string \<Rightarrow> disk \<Rightarrow> bool"
  os_open_dest :: "string \<Rightarrow> disk \<Rightarrow> bool"
  os_read :: "nat \<Rightarrow> io_event"
  os_write :: "nat \<Rightarrow> io_event"
  os_readdir :: "string \<Rightarrow> disk \<Rightarrow> (string \<times> (bool \<times> nat) option) list option"
  os_mkdir :: "string \<Rightarrow> disk \<Rightarrow> bool"
  os_getenv :: "string \<Rightarrow> string option"
  os_heap :: string

type_synonym 'a io = "world \<Rightarrow> 'a result \<times> world"

definition ibind :: "'a io \<Rightarrow> ('a \<Rightarrow> 'b io) \<Rightarrow> 'b io" where
  "ibind m f w = (case m w of (Inl e, w') \<Rightarrow> (Inl e, w') | (Inr v, w') \<Rightarrow> f v w')"

definition iret :: "'a \<Rightarrow> 'a io" where
  "iret v w = (Inr v, w)"

definition ifail :: "fault \<Rightarrow> 'a io" where
  "ifail e w = (Inl e, w)"

definition ilift :: "'a result \<Rightarrow> 'a io" where
  "ilift r w = (r, w)"

definition printf :: "string \<Rightarrow> unit io" where
  "printf s w = (Inr (), w\<lparr>console := console w @ [s]\<rparr>)"

text \<open>A list of actions one after the other; the first fault ends it.\<close>

fun imap :: "('a \<Rightarrow> 'b io) \<Rightarrow> 'a list \<Rightarrow> 'b list io" where
  "imap f [] = iret []"
| "imap f (x # xs) = ibind (f x) (\<lambda>y. ibind (imap f xs) (\<lambda>ys. iret (y # ys)))"

text \<open>\<open>pipe()\<close> hands out two new descriptors.\<close>

definition fresh_pipes :: "os \<Rightarrow> bool" where
  "fresh_pipes os \<longleftrightarrow> (\<forall>fds r w. os_pipe os fds = Some (r, w) \<longrightarrow> r \<noteq> w \<and> r \<notin> set fds \<and> w \<notin> set fds)"

section \<open>Lemmas\<close>

lemma ibind_iret [simp]: "ibind (iret v) f w = f v w"
  by (simp add: ibind_def iret_def)

lemma ibind_ilift [simp]: "ibind (ilift (Inr v)) f w = f v w" "ibind (ilift (Inl e)) f w = (Inl e, w)"
  by (simp_all add: ibind_def ilift_def)

lemma ibind_printf [simp]: "ibind (printf s) f w = f () (w\<lparr>console := console w @ [s]\<rparr>)"
  by (simp add: ibind_def printf_def)

lemma ibind_ifail [simp]: "ibind (ifail e) f w = (Inl e, w)"
  by (simp add: ibind_def ifail_def)

lemma ibind_Inr: "m w = (Inr v, w') \<Longrightarrow> ibind m f w = f v w'"
  by (simp add: ibind_def)

lemma ibind_Inl: "m w = (Inl e, w') \<Longrightarrow> ibind m f w = (Inl e, w')"
  by (simp add: ibind_def)

lemma ibind_InrE:
  assumes "ibind m f w = (Inr v, w')"
  obtains u w1 where "m w = (Inr u, w1)" "f u w1 = (Inr v, w')"
  using assms by (auto simp: ibind_def split: prod.splits sum.splits)

text \<open>An action that never touches the world gives the same results in any order.\<close>

lemma imap_pure:
  "(\<And>x. x \<in> set xs \<Longrightarrow> f x w = (Inr (g x), w)) \<Longrightarrow> imap f xs w = (Inr (map g xs), w)"
  by (induction xs) (auto simp: iret_def ibind_def)

lemma imap_length: "imap f xs w = (Inr ys, w') \<Longrightarrow> length ys = length xs"
  by (induction xs arbitrary: ys w) (auto simp: iret_def elim!: ibind_InrE)

end
