(* ===== verification/ValOrErr.thy ===== *)
theory ValOrErr
  imports Backup_Prelude
begin

text \<open>
  The class template \<open>ValOrErr\<close> of \<open>ctrlcenter2/valorerr.h\<close> with the \<open>ASSERT\<close>
  macro of \<open>debug.h\<close>: an object that holds a value or an error and that insists,
  in a \<open>DEBUG\<close> build, on the error having been looked at.  The build flag is the
  parameter \<open>debug\<close>; an assertion that fires is a fault, in a release build the
  macro is empty.
\<close>

section \<open>Definitions\<close>

record 'a ValOrErr =
  mValue :: 'a
  mIsInErrorState :: bool
  mErrorIsHandled :: bool
  mErrorString :: string

definition ASSERT :: "bool \<Rightarrow> bool \<Rightarrow> string \<Rightarrow> unit result" where
  "ASSERT debug x comment = (if debug \<and> \<not> x then Inl (AssertFailed comment) else Inr ())"

definition newValOrErr :: "'a \<Rightarrow> 'a ValOrErr" where
  "newValOrErr v0 = \<lparr>mValue = v0, mIsInErrorState = False, mErrorIsHandled = False,
     mErrorString = ''no error''\<rparr>"

text \<open>The destructor, with \<open>STRICT_MODE\<close> 0.\<close>

definition destroyValOrErr :: "bool \<Rightarrow> 'a ValOrErr \<Rightarrow> unit result" where
  "destroyValOrErr debug s =
     (if mErrorIsHandled s = False then ASSERT debug False ''error not checked!'' else Inr ())"

definition enterErrorState :: "bool \<Rightarrow> string \<Rightarrow> 'a ValOrErr \<Rightarrow> 'a ValOrErr result" where
  "enterErrorState debug errorString s =
     ebind (if mIsInErrorState s
            then ASSERT debug False ''signaling an error and already in error state!'' else Inr ())
       (\<lambda>_. Inr (s\<lparr>mIsInErrorState := True, mErrorIsHandled := False, mErrorString := errorString\<rparr>))"

definition getErrorState :: "'a ValOrErr \<Rightarrow> bool \<times> 'a ValOrErr" where
  "getErrorState s = (mIsInErrorState s, s\<lparr>mErrorIsHandled := True\<rparr>)"

definition getErrorString :: "'a ValOrErr \<Rightarrow> string" where
  "getErrorString s = mErrorString s"

definition setValue :: "'a \<Rightarrow> 'a ValOrErr \<Rightarrow> 'a ValOrErr" where
  "setValue v s = s\<lparr>mValue := v\<rparr>"

definition valueOrDie :: "bool \<Rightarrow> 'a ValOrErr \<Rightarrow> 'a result" where
  "valueOrDie debug s =
     ebind (ASSERT debug (mIsInErrorState s = False) ''Error set but value requested'')
       (\<lambda>_. Inr (mValue s))"

text \<open>The calls a client can make on one object, and what a sequence of them does.\<close>

datatype 'a voe_call = EnterError string | AskError | SetVal 'a

fun voe_run :: "bool \<Rightarrow> 'a voe_call list \<Rightarrow> 'a ValOrErr \<Rightarrow> 'a ValOrErr result" where
  "voe_run debug [] s = Inr s"
| "voe_run debug (EnterError e # cs) s = ebind (enterErrorState debug e s) (voe_run debug cs)"
| "voe_run debug (AskError # cs) s = voe_run debug cs (snd (getErrorState s))"
| "voe_run debug (SetVal v # cs) s = voe_run debug cs (setValue v s)"

fun enters :: "'a voe_call list \<Rightarrow> nat" where
  "enters [] = 0"
| "enters (EnterError _ # cs) = Suc (enters cs)"
| "enters (_ # cs) = enters cs"

section \<open>The protocol\<close>

lemma ASSERT_simps [simp]:
  "ASSERT False x c = Inr ()" "ASSERT d True c = Inr ()" "ASSERT True False c = Inl (AssertFailed c)"
  by (simp_all add: ASSERT_def)

lemma voe_run_append: "voe_run d (cs @ ds) s = ebind (voe_run d cs s) (voe_run d ds)"
proof (induction cs arbitrary: s)
  case (Cons c cs)
  then have "voe_run d (cs @ ds) = (\<lambda>s. ebind (voe_run d cs s) (voe_run d ds))" by (rule ext)
  then show ?case by (cases c) (auto simp: ebind_assoc)
qed simp

lemma enterErrorState_fresh:
  "\<not> mIsInErrorState s \<Longrightarrow> enterErrorState d e s
     = Inr (s\<lparr>mIsInErrorState := True, mErrorIsHandled := False, mErrorString := e\<rparr>)"
  by (simp add: enterErrorState_def)

lemma voe_run_once:
  "enters cs + (if mIsInErrorState s then 1 else 0) \<le> 1 \<Longrightarrow>
   \<exists>t. voe_run d cs s = Inr t \<and> (mIsInErrorState t \<longleftrightarrow> mIsInErrorState s \<or> 0 < enters cs)"
proof (induction cs arbitrary: s)
  case (Cons c cs)
  show ?case
  proof (cases c)
    case (EnterError e)
    with Cons.prems have "\<not> mIsInErrorState s" "enters cs = 0" by (auto split: if_splits)
    with EnterError Cons.IH [of "s\<lparr>mIsInErrorState := True, mErrorIsHandled := False, mErrorString := e\<rparr>"]
    show ?thesis by (auto simp: enterErrorState_fresh)
  next
    case AskError
    with Cons.prems Cons.IH [of "s\<lparr>mErrorIsHandled := True\<rparr>"] show ?thesis
      by (auto simp: getErrorState_def)
  next
    case (SetVal v)
    with Cons.prems Cons.IH [of "s\<lparr>mValue := v\<rparr>"] show ?thesis by (auto simp: setValue_def)
  qed
qed simp

text \<open>
  The protocol the class is for: a client that enters the error state at most
  once and then asks for the error state triggers no assertion, not even in the
  destructor, in either build; it is told of an error exactly when it entered
  one, and \<open>valueOrDie\<close> gives a value in a debug build exactly otherwise.
\<close>

lemma protocol:
  assumes "enters cs \<le> 1"
  shows "\<exists>t. voe_run d (cs @ [AskError]) (newValOrErr v) = Inr t \<and> destroyValOrErr d t = Inr () \<and>
     mIsInErrorState t = (0 < enters cs) \<and>
     (valueOrDie True t = Inr (mValue t) \<longleftrightarrow> enters cs = 0)"
proof -
  obtain t where t: "voe_run d cs (newValOrErr v) = Inr t" "mIsInErrorState t \<longleftrightarrow> 0 < enters cs"
    using voe_run_once [of cs "newValOrErr v" d] assms by (auto simp: newValOrErr_def)
  then show ?thesis
    by (cases "enters cs") (auto simp: voe_run_append getErrorState_def destroyValOrErr_def valueOrDie_def)
qed

end
