(* ===== verification/Subprocess.thy ===== *)
theory Subprocess
  imports Os_World ValOrErr
begin

text \<open>
  The POSIX branch of \<open>ctrlcenter2/subprocess.h\<close> (creation with the three pipes,
  join, destroy, the stream accessors) and \<open>runSubprocess\<close> of
  \<open>ctrlcenter2.cpp\<close>, which runs a tool and returns the first line it printed.

  A \<open>FILE*\<close> is the descriptor it was opened on (\<^const>\<open>None\<close> is \<open>NULL\<close>).  Join
  waits for the child while nobody reads its pipes, so a child that writes more
  than a pipe holds never ends: that is the fault \<^const>\<open>Diverges\<close>.
\<close>

section \<open>Definitions\<close>

record subprocess_s =
  stdin_file :: "nat option"
  stdout_file :: "nat option"
  stderr_file :: "nat option"
  child :: "child option"
  return_status :: int
  alive :: bool

definition subprocess_option_combined_stdout_stderr :: nat where
  "subprocess_option_combined_stdout_stderr = 1"

definition subprocess_option_inherit_environment :: nat where
  "subprocess_option_inherit_environment = 2"

definition subprocess_option_no_window :: nat where
  "subprocess_option_no_window = 8"

definition subprocess_option_search_user_path :: nat where
  "subprocess_option_search_user_path = 16"

text \<open>\<open>opt == (options & opt)\<close> for a one-bit option.\<close>

definition has_option :: "nat \<Rightarrow> nat \<Rightarrow> bool" where
  "has_option opt options \<longleftrightarrow> odd (options div opt)"

definition do_pipe :: "os \<Rightarrow> world \<Rightarrow> (nat \<times> nat) option \<times> world" where
  "do_pipe os w =
     (case os_pipe os (open_fds w) of
        None \<Rightarrow> (None, w)
      | Some (r, wr) \<Rightarrow> (Some (r, wr), w\<lparr>open_fds := r # wr # open_fds w\<rparr>))"

definition close_fd :: "nat \<Rightarrow> world \<Rightarrow> world" where
  "close_fd fd w = w\<lparr>open_fds := remove1 fd (open_fds w)\<rparr>"

definition fdopen :: "os \<Rightarrow> nat \<Rightarrow> nat option" where
  "fdopen os fd = (if os_fdopen os fd then Some fd else None)"

definition spawn_actions :: "bool \<Rightarrow> nat \<times> nat \<Rightarrow> nat \<times> nat \<Rightarrow> nat \<times> nat \<Rightarrow> file_action list" where
  "spawn_actions combined stdinfd stdoutfd stderrfd =
     [AddClose (snd stdinfd), AddDup2 (fst stdinfd) 0,
      AddClose (fst stdoutfd), AddDup2 (snd stdoutfd) 1] @
     (if combined then [AddDup2 1 2] else [AddClose (fst stderrfd), AddDup2 (snd stderrfd) 2])"

text \<open>The part of \<open>subprocess_create_ex\<close> behind the pipes: build the actions, spawn, wrap the parent's ends.\<close>

definition spawn_with_pipes ::
    "os \<Rightarrow> string list \<Rightarrow> nat \<Rightarrow> string list option \<Rightarrow> nat \<times> nat \<Rightarrow> nat \<times> nat \<Rightarrow> nat \<times> nat \<Rightarrow>
     world \<Rightarrow> subprocess_s option \<times> world" where
  "spawn_with_pipes os commandLine options environment stdinfd stdoutfd stderrfd w =
     (let combined = has_option subprocess_option_combined_stdout_stderr options;
          used_environment =
            (case environment of
               Some env \<Rightarrow> env
             | None \<Rightarrow> if has_option subprocess_option_inherit_environment options then os_environ os else [])
      in if \<not> os_actions_init os then (None, w)
         else if \<not> list_all (os_add_action os) (spawn_actions combined stdinfd stdoutfd stderrfd) then (None, w)
         else
           (let (res, d) =
                  (if has_option subprocess_option_search_user_path options
                   then os_posix_spawnp os commandLine used_environment (disk w)
                   else os_posix_spawn os commandLine used_environment (disk w));
                w1 = w\<lparr>disk := d\<rparr>
            in case res of
                 Inl code \<Rightarrow>
                   (None,
                    if has_option subprocess_option_search_user_path options then w1
                    else w1\<lparr>console := console w1 @ [''linux posix spawn return '' @ to_string code]\<rparr>)
               | Inr ch \<Rightarrow>
                   (let w2 = close_fd (fst stdinfd) w1;
                        fin = fdopen os (snd stdinfd);
                        w3 = close_fd (snd stdoutfd) w2;
                        fout = fdopen os (fst stdoutfd);
                        w4 = (if combined then w3 else close_fd (snd stderrfd) w3);
                        ferr = (if combined then fout else fdopen os (fst stderrfd))
                    in (Some \<lparr>stdin_file = fin, stdout_file = fout, stderr_file = ferr,
                              child = Some ch, return_status = 0, alive = True\<rparr>, w4))))"

definition subprocess_create_ex ::
    "os \<Rightarrow> string list \<Rightarrow> nat \<Rightarrow> string list option \<Rightarrow> world \<Rightarrow> subprocess_s option \<times> world" where
  "subprocess_create_ex os commandLine options environment w =
     (if has_option subprocess_option_inherit_environment options \<and> environment \<noteq> None then (None, w)
      else case do_pipe os w of
        (None, w1) \<Rightarrow> (None, w1)
      | (Some stdinfd, w1) \<Rightarrow>
          (case do_pipe os w1 of
             (None, w2) \<Rightarrow> (None, w2)
           | (Some stdoutfd, w2) \<Rightarrow>
               if has_option subprocess_option_combined_stdout_stderr options
               then spawn_with_pipes os commandLine options environment stdinfd stdoutfd (0, 0) w2
               else (case do_pipe os w2 of
                       (None, w3) \<Rightarrow> (None, w3)
                     | (Some stderrfd, w3) \<Rightarrow>
                         spawn_with_pipes os commandLine options environment stdinfd stdoutfd stderrfd w3)))"

definition subprocess_create :: "os \<Rightarrow> string list \<Rightarrow> nat \<Rightarrow> world \<Rightarrow> subprocess_s option \<times> world" where
  "subprocess_create os commandLine options w = subprocess_create_ex os commandLine options None w"

definition subprocess_stdin :: "subprocess_s \<Rightarrow> nat option" where
  "subprocess_stdin p = stdin_file p"

definition subprocess_stdout :: "subprocess_s \<Rightarrow> nat option" where
  "subprocess_stdout p = stdout_file p"

definition subprocess_stderr :: "subprocess_s \<Rightarrow> nat option" where
  "subprocess_stderr p = (if stdout_file p \<noteq> stderr_file p then stderr_file p else None)"

definition fclose_opt :: "nat option \<Rightarrow> world \<Rightarrow> world" where
  "fclose_opt f w = (case f of None \<Rightarrow> w | Some fd \<Rightarrow> close_fd fd w)"

text \<open>\<open>waitpid\<close> on a child whose output nobody drains.\<close>

definition child_ends :: "os \<Rightarrow> child \<Rightarrow> bool" where
  "child_ends os ch \<longleftrightarrow> length (stdout_text ch) \<le> os_pipe_capacity os \<and>
     length (stderr_text ch) \<le> os_pipe_capacity os"

text \<open>\<open>subprocess_join\<close>: \<open>Inr (r, code, p')\<close> is the return value, \<open>*out_return_code\<close> and the process.\<close>

definition subprocess_join :: "os \<Rightarrow> subprocess_s \<Rightarrow> (int \<times> int \<times> subprocess_s) io" where
  "subprocess_join os p w =
     (let w1 = fclose_opt (stdin_file p) w;
          p1 = p\<lparr>stdin_file := None\<rparr>
      in case child p1 of
           None \<Rightarrow> (Inr (0, return_status p1, p1), w1)
         | Some ch \<Rightarrow>
             if \<not> child_ends os ch then (Inl Diverges, w1)
             else if \<not> wait_ok ch then (Inr (-1, 0, p1), w1)
             else (let p2 = p1\<lparr>child := None,
                         return_status := (if exited ch then int (exit_status ch) else 1),
                         alive := False\<rparr>
                   in (Inr (0, return_status p2, p2), w1)))"

text \<open>\<open>subprocess_destroy\<close>: \<open>fclose\<close> of a \<open>NULL\<close> \<open>stderr_file\<close> next to an open \<open>stdout_file\<close> is undefined.\<close>

definition subprocess_destroy :: "subprocess_s \<Rightarrow> subprocess_s io" where
  "subprocess_destroy p w =
     (let w1 = fclose_opt (stdin_file p) w;
          p1 = p\<lparr>stdin_file := None\<rparr>
      in case stdout_file p1 of
           None \<Rightarrow> (Inr p1, w1)
         | Some fd \<Rightarrow>
             (let w2 = close_fd fd w1 in
              if stdout_file p1 \<noteq> stderr_file p1 then
                (case stderr_file p1 of
                   None \<Rightarrow> (Inl Undefined, w2)
                 | Some fe \<Rightarrow> (Inr (p1\<lparr>stdout_file := None, stderr_file := None\<rparr>), close_fd fe w2))
              else (Inr (p1\<lparr>stdout_file := None, stderr_file := None\<rparr>), w2)))"

text \<open>\<open>fgets(tmp, n, fp)\<close> into a zeroed buffer, read back as a C string.\<close>

definition fgets :: "nat \<Rightarrow> string \<Rightarrow> string" where
  "fgets n t =
     (let line = takeWhile (\<lambda>c. c \<noteq> CHR 0x0A) t;
          line' = (if length line < length t then line @ [CHR 0x0A] else line)
      in take (n - 1) line')"

definition runSubprocess :: "os \<Rightarrow> string list \<Rightarrow> string ValOrErr io" where
  "runSubprocess os cmdLine w =
     (let ret = newValOrErr '''' in
      case subprocess_create os cmdLine
             (subprocess_option_no_window + subprocess_option_inherit_environment) w of
        (None, w1) \<Rightarrow>
          (ebind (enterErrorState (debug_build os) ''ERROR Subprocess(1)'' ret)
             (\<lambda>ret. Inr (snd (getErrorState ret))), w1)
      | (Some subprocess, w1) \<Rightarrow>
          ibind (subprocess_join os subprocess) (\<lambda>(result, subprocessReturn, sp).
            ibind (ilift
              (if result = 0
               then (if subprocessReturn \<noteq> 0
                     then enterErrorState (debug_build os) ''ERROR Subprocess(3)'' ret else Inr ret)
               else enterErrorState (debug_build os) ''ERROR Subprocess(2)'' ret)) (\<lambda>ret.
            let tmp = (case subprocess_stdout sp of
                         None \<Rightarrow> ''''
                       | Some fp \<Rightarrow> (case child subprocess of None \<Rightarrow> '''' | Some ch \<Rightarrow> c_str (fgets 128 (stdout_text ch))))
            in ibind (subprocess_destroy sp) (\<lambda>_.
                 case getErrorState ret of (err, ret) \<Rightarrow>
                   iret (if err = False then setValue tmp ret else ret)))) w1)"

text \<open>
  A system on which nothing but the program itself can fail: pipes are to be had,
  the spawn actions can be recorded, streams can be opened.
\<close>

definition os_healthy :: "os \<Rightarrow> bool" where
  "os_healthy os \<longleftrightarrow> fresh_pipes os \<and> (\<forall>fds. os_pipe os fds \<noteq> None) \<and> os_actions_init os \<and>
     (\<forall>a. os_add_action os a) \<and> (\<forall>fd. os_fdopen os fd)"

definition run_ok :: "child \<Rightarrow> bool" where
  "run_ok ch \<longleftrightarrow> wait_ok ch \<and> exited ch \<and> exit_status ch = 0"

text \<open>A concrete system for the witnesses: numbered descriptors, and one spawn function.\<close>

definition demo_os :: "(string list \<Rightarrow> string list \<Rightarrow> disk \<Rightarrow> (nat + child) \<times> disk) \<Rightarrow> os" where
  "demo_os spawn =
     \<lparr>debug_build = True,
      os_pipe = (\<lambda>fds. let m = fold max fds 0 in Some (m + 1, m + 2)),
      os_actions_init = True, os_add_action = (\<lambda>_. True), os_environ = [],
      os_posix_spawn = spawn, os_posix_spawnp = spawn, os_fdopen = (\<lambda>_. True),
      os_pipe_capacity = 65536, os_fopen_w = (\<lambda>_ _. True), os_open_dest = (\<lambda>_ _. True),
      os_read = (\<lambda>_. Transfer 4096), os_write = (\<lambda>_. Transfer 4096),
      os_readdir = (\<lambda>_ _. None), os_mkdir = (\<lambda>_ _. True), os_getenv = (\<lambda>_. None), os_heap = []\<rparr>"

section \<open>Options and streams\<close>

lemma has_option_run [simp]:
  "has_option subprocess_option_combined_stdout_stderr
     (subprocess_option_no_window + subprocess_option_inherit_environment) = False"
  "has_option subprocess_option_inherit_environment
     (subprocess_option_no_window + subprocess_option_inherit_environment) = True"
  "has_option subprocess_option_search_user_path
     (subprocess_option_no_window + subprocess_option_inherit_environment) = False"
  by (simp_all add: has_option_def subprocess_option_combined_stdout_stderr_def
      subprocess_option_no_window_def subprocess_option_inherit_environment_def
      subprocess_option_search_user_path_def)

lemma fgets_no_newline: "CHR 0x0A \<notin> set t \<Longrightarrow> fgets n t = take (n - 1) t"
proof -
  assume "CHR 0x0A \<notin> set t"
  then have t: "takeWhile (\<lambda>c. c \<noteq> CHR 0x0A) t = t" by (auto simp: takeWhile_eq_all_conv)
  show ?thesis unfolding fgets_def Let_def t by simp
qed

lemma fgets_short: "CHR 0x0A \<notin> set t \<Longrightarrow> length t < n \<Longrightarrow> fgets n t = t"
  by (simp add: fgets_no_newline)

lemma fgets_length: "length (fgets n t) \<le> n - 1"
  by (simp add: fgets_def Let_def)

section \<open>Descriptors\<close>

text \<open>The three pipes of a creation, all of them new.\<close>

lemma three_pipes:
  assumes "fresh_pipes os" and "do_pipe os w = (Some i, w1)" and "do_pipe os w1 = (Some out, w2)"
    and "do_pipe os w2 = (Some e, w3)"
  shows "distinct [fst e, snd e, fst out, snd out, fst i, snd i] \<and>
    {fst e, snd e, fst out, snd out, fst i, snd i} \<inter> set (open_fds w) = {} \<and>
    open_fds w3 = [fst e, snd e, fst out, snd out, fst i, snd i] @ open_fds w \<and>
    disk w3 = disk w \<and> console w3 = console w"
  using assms unfolding fresh_pipes_def do_pipe_def
  by (cases i; cases out; cases e) (fastforce split: option.splits)

lemma healthy_pipes:
  assumes "os_healthy os"
  obtains i out e w1 w2 w3 where "do_pipe os w = (Some i, w1)" "do_pipe os w1 = (Some out, w2)"
    "do_pipe os w2 = (Some e, w3)"
    "distinct [fst e, snd e, fst out, snd out, fst i, snd i]"
    "{fst e, snd e, fst out, snd out, fst i, snd i} \<inter> set (open_fds w) = {}"
    "w3 = w\<lparr>open_fds := [fst e, snd e, fst out, snd out, fst i, snd i] @ open_fds w\<rparr>"
proof -
  have p: "\<exists>x u. do_pipe os v = (Some x, u)" for v
    using assms by (auto simp: os_healthy_def do_pipe_def split: option.splits)
  from p obtain i w1 where 1: "do_pipe os w = (Some i, w1)" by blast
  from p obtain out w2 where 2: "do_pipe os w1 = (Some out, w2)" by blast
  from p obtain e w3 where 3: "do_pipe os w2 = (Some e, w3)" by blast
  have "fresh_pipes os" using assms by (simp add: os_healthy_def)
  from three_pipes [OF this 1 2 3] that [OF 1 2 3] show ?thesis by auto
qed

lemma create_eval:
  assumes "os_healthy os"
  obtains i out e where
    "distinct [fst e, snd e, fst out, snd out, fst i, snd i]"
    "{fst e, snd e, fst out, snd out, fst i, snd i} \<inter> set (open_fds w) = {}"
    "subprocess_create os cmd (subprocess_option_no_window + subprocess_option_inherit_environment) w =
       spawn_with_pipes os cmd (subprocess_option_no_window + subprocess_option_inherit_environment)
         None i out e (w\<lparr>open_fds := [fst e, snd e, fst out, snd out, fst i, snd i] @ open_fds w\<rparr>)"
proof -
  from healthy_pipes [OF assms, of w] obtain i out e w1 w2 w3 where
    p: "do_pipe os w = (Some i, w1)" "do_pipe os w1 = (Some out, w2)" "do_pipe os w2 = (Some e, w3)"
    and d: "distinct [fst e, snd e, fst out, snd out, fst i, snd i]"
      "{fst e, snd e, fst out, snd out, fst i, snd i} \<inter> set (open_fds w) = {}"
    and w3: "w3 = w\<lparr>open_fds := [fst e, snd e, fst out, snd out, fst i, snd i] @ open_fds w\<rparr>"
    by metis
  have "subprocess_create os cmd (subprocess_option_no_window + subprocess_option_inherit_environment) w =
       spawn_with_pipes os cmd (subprocess_option_no_window + subprocess_option_inherit_environment)
         None i out e w3"
    by (simp add: subprocess_create_def subprocess_create_ex_def p)
  with d w3 that show ?thesis by simp
qed

lemma spawn_fails:
  assumes "os_healthy os" and "os_posix_spawn os cmd (os_environ os) (disk w) = (Inl code, d)"
  shows "\<exists>e1 e2 o1 o2 i1 i2. subprocess_create os cmd
      (subprocess_option_no_window + subprocess_option_inherit_environment) w =
     (None, w\<lparr>open_fds := [e1, e2, o1, o2, i1, i2] @ open_fds w, disk := d,
        console := console w @ [''linux posix spawn return '' @ to_string code]\<rparr>)"
proof -
  from create_eval [OF assms(1), where w = w and cmd = cmd] obtain i out e where
    c: "subprocess_create os cmd (subprocess_option_no_window + subprocess_option_inherit_environment) w =
       spawn_with_pipes os cmd (subprocess_option_no_window + subprocess_option_inherit_environment)
         None i out e (w\<lparr>open_fds := [fst e, snd e, fst out, snd out, fst i, snd i] @ open_fds w\<rparr>)"
    by metis
  have "list_all (os_add_action os) acts" for acts
    using assms(1) by (simp add: os_healthy_def list_all_iff)
  with assms show ?thesis
    unfolding c by (simp add: spawn_with_pipes_def os_healthy_def) blast
qed

lemma spawn_works:
  assumes "os_healthy os" and "os_posix_spawn os cmd (os_environ os) (disk w) = (Inr ch, d)"
  obtains p w1 where "subprocess_create os cmd
      (subprocess_option_no_window + subprocess_option_inherit_environment) w = (Some p, w1)"
    "child p = Some ch" "stdout_file p \<noteq> None"
    "\<And>p'. stdin_file p' = None \<Longrightarrow> stdout_file p' = stdout_file p \<Longrightarrow> stderr_file p' = stderr_file p \<Longrightarrow>
       \<exists>q. subprocess_destroy p' (fclose_opt (stdin_file p) w1) = (Inr q, w\<lparr>disk := d\<rparr>)"
proof -
  from create_eval [OF assms(1), where w = w and cmd = cmd] obtain i out e where
    d: "distinct [fst e, snd e, fst out, snd out, fst i, snd i]"
      "{fst e, snd e, fst out, snd out, fst i, snd i} \<inter> set (open_fds w) = {}" and
    c: "subprocess_create os cmd (subprocess_option_no_window + subprocess_option_inherit_environment) w =
       spawn_with_pipes os cmd (subprocess_option_no_window + subprocess_option_inherit_environment)
         None i out e (w\<lparr>open_fds := [fst e, snd e, fst out, snd out, fst i, snd i] @ open_fds w\<rparr>)"
    by metis
  have acts: "list_all (os_add_action os) acts" for acts
    using assms(1) by (simp add: os_healthy_def list_all_iff)
  let ?p = "\<lparr>stdin_file = Some (snd i), stdout_file = Some (fst out), stderr_file = Some (fst e),
    child = Some ch, return_status = 0, alive = True\<rparr>"
  let ?w = "close_fd (snd e) (close_fd (snd out) (close_fd (fst i)
    (w\<lparr>open_fds := [fst e, snd e, fst out, snd out, fst i, snd i] @ open_fds w, disk := d\<rparr>)))"
  have create: "subprocess_create os cmd
      (subprocess_option_no_window + subprocess_option_inherit_environment) w = (Some ?p, ?w)"
    unfolding c using assms acts by (simp add: spawn_with_pipes_def os_healthy_def fdopen_def)
  have fds: "?w = w\<lparr>open_fds := [fst e, fst out, snd i] @ open_fds w, disk := d\<rparr>"
    using d by (auto simp: close_fd_def)
  show ?thesis
  proof (rule that [OF create])
    fix p' :: subprocess_s
    assume "stdin_file p' = None" "stdout_file p' = stdout_file ?p" "stderr_file p' = stderr_file ?p"
    then show "\<exists>q. subprocess_destroy p' (fclose_opt (stdin_file ?p) ?w) = (Inr q, w\<lparr>disk := d\<rparr>)"
      using d unfolding fds
      by (auto simp: subprocess_destroy_def fclose_opt_def close_fd_def)
  qed simp_all
qed

section \<open>What runSubprocess returns\<close>

lemma runSubprocess_fails:
  assumes "os_healthy os" and "os_posix_spawn os cmd (os_environ os) (disk w) = (Inl code, d)"
  shows "\<exists>fds r. runSubprocess os cmd w = (Inr r, w\<lparr>open_fds := fds @ open_fds w, disk := d,
      console := console w @ [''linux posix spawn return '' @ to_string code]\<rparr>) \<and>
     length fds = 6 \<and> mIsInErrorState r \<and> mErrorIsHandled r \<and> mErrorString r = ''ERROR Subprocess(1)''"
proof -
  from spawn_fails [OF assms] obtain e1 e2 o1 o2 i1 i2 where
    "subprocess_create os cmd (subprocess_option_no_window + subprocess_option_inherit_environment) w =
     (None, w\<lparr>open_fds := [e1, e2, o1, o2, i1, i2] @ open_fds w, disk := d,
        console := console w @ [''linux posix spawn return '' @ to_string code]\<rparr>)" by blast
  then show ?thesis
    by (intro exI [of _ "[e1, e2, o1, o2, i1, i2]"])
      (simp add: runSubprocess_def newValOrErr_def enterErrorState_fresh getErrorState_def)
qed

lemma runSubprocess_spawned:
  assumes "os_healthy os" and "os_posix_spawn os cmd (os_environ os) (disk w) = (Inr ch, d)"
    and "child_ends os ch"
  shows "\<exists>r. runSubprocess os cmd w = (Inr r, w\<lparr>disk := d\<rparr>) \<and> mErrorIsHandled r \<and>
     mIsInErrorState r = (\<not> run_ok ch) \<and>
     (run_ok ch \<longrightarrow> mValue r = c_str (fgets 128 (stdout_text ch))) \<and>
     (\<not> run_ok ch \<longrightarrow> mErrorString r = (if wait_ok ch then ''ERROR Subprocess(3)'' else ''ERROR Subprocess(2)''))"
proof -
  from spawn_works [OF assms(1,2)] obtain p w1 where
    create: "subprocess_create os cmd
      (subprocess_option_no_window + subprocess_option_inherit_environment) w = (Some p, w1)"
    and ch: "child p = Some ch" and out: "stdout_file p \<noteq> None"
    and destroy: "\<And>p'. stdin_file p' = None \<Longrightarrow> stdout_file p' = stdout_file p \<Longrightarrow>
       stderr_file p' = stderr_file p \<Longrightarrow>
       \<exists>q. subprocess_destroy p' (fclose_opt (stdin_file p) w1) = (Inr q, w\<lparr>disk := d\<rparr>)"
    by metis
  define p' where "p' = (if wait_ok ch
     then p\<lparr>stdin_file := None, child := None,
       return_status := (if exited ch then int (exit_status ch) else 1), alive := False\<rparr>
     else p\<lparr>stdin_file := None\<rparr>)"
  have "stdin_file p' = None" "stdout_file p' = stdout_file p" "stderr_file p' = stderr_file p"
    by (simp_all add: p'_def)
  from destroy [OF this] obtain q where
    q: "subprocess_destroy p' (fclose_opt (stdin_file p) w1) = (Inr q, w\<lparr>disk := d\<rparr>)" ..
  have out': "subprocess_stdout p' = stdout_file p" by (simp add: p'_def subprocess_stdout_def)
  have join: "subprocess_join os p w1 =
     (Inr (if wait_ok ch then 0 else -1, if wait_ok ch then return_status p' else 0, p'),
      fclose_opt (stdin_file p) w1)"
    using assms(3) by (simp add: subprocess_join_def ch p'_def)
  show ?thesis
    using out q out' ch
    by (cases "exit_status ch") (auto simp: runSubprocess_def create ibind_def join ilift_def iret_def newValOrErr_def
        enterErrorState_fresh getErrorState_def setValue_def run_ok_def p'_def)
qed

lemma runSubprocess_blocks:
  assumes "os_healthy os" and "os_posix_spawn os cmd (os_environ os) (disk w) = (Inr ch, d)"
    and "\<not> child_ends os ch"
  shows "fst (runSubprocess os cmd w) = Inl Diverges"
proof -
  from spawn_works [OF assms(1,2)] obtain p w1 where
    "subprocess_create os cmd
      (subprocess_option_no_window + subprocess_option_inherit_environment) w = (Some p, w1)"
    "child p = Some ch" by metis
  with assms(3) show ?thesis
    by (simp add: runSubprocess_def ibind_def subprocess_join_def)
qed

section \<open>What running a tool can do to the disk\<close>

lemma close_fd_disk [simp]: "disk (close_fd fd w) = disk w"
  by (simp add: close_fd_def)

lemma fclose_opt_disk [simp]: "disk (fclose_opt f w) = disk w"
  by (simp add: fclose_opt_def split: option.split)

lemma do_pipe_disk: "do_pipe os w = (r, w') \<Longrightarrow> disk w' = disk w"
  by (auto simp: do_pipe_def split: option.splits prod.splits)

lemma subprocess_destroy_disk: "disk (snd (subprocess_destroy p w)) = disk w"
  by (auto simp: subprocess_destroy_def Let_def split: option.split)

lemma subprocess_join_disk: "disk (snd (subprocess_join os p w)) = disk w"
  by (auto simp: subprocess_join_def Let_def split: option.split)

lemma spawn_with_pipes_disk:
  assumes "\<not> has_option subprocess_option_search_user_path options"
    and "has_option subprocess_option_inherit_environment options"
  shows "disk (snd (spawn_with_pipes os cmd options None i out e w)) \<in>
     {disk w, snd (os_posix_spawn os cmd (os_environ os) (disk w))}"
  using assms by (auto simp: spawn_with_pipes_def Let_def split: prod.splits sum.splits)

lemma subprocess_create_disk:
  "disk (snd (subprocess_create os cmd
      (subprocess_option_no_window + subprocess_option_inherit_environment) w)) \<in>
     {disk w, snd (os_posix_spawn os cmd (os_environ os) (disk w))}"
  using spawn_with_pipes_disk
    [of "subprocess_option_no_window + subprocess_option_inherit_environment" os cmd]
  by (auto simp: subprocess_create_def subprocess_create_ex_def
      split: option.split prod.split dest!: do_pipe_disk) metis

lemma ibind_disk:
  "disk (snd (m w)) = d \<Longrightarrow> (\<And>v w'. disk w' = d \<Longrightarrow> disk (snd (f v w')) = d) \<Longrightarrow> disk (snd (ibind m f w)) = d"
  by (auto simp: ibind_def split: prod.splits sum.splits)

lemma runSubprocess_disk:
  "disk (snd (runSubprocess os cmd w)) \<in> {disk w, snd (os_posix_spawn os cmd (os_environ os) (disk w))}"
proof -
  obtain p w1 where c: "subprocess_create os cmd
      (subprocess_option_no_window + subprocess_option_inherit_environment) w = (p, w1)" by force
  have "disk (snd (runSubprocess os cmd w)) = disk w1"
  proof (cases p)
    case None
    with c show ?thesis by (simp add: runSubprocess_def)
  next
    case (Some sp)
    with c show ?thesis
      by (auto simp: runSubprocess_def ilift_def iret_def Let_def subprocess_join_disk subprocess_destroy_disk
          intro!: ibind_disk split: prod.split)
  qed
  with subprocess_create_disk [of os cmd w] show ?thesis by (simp add: c)
qed

text \<open>C35. Running a tool, on a system that has pipes to give: when the program was
  started and ended, the descriptor table of the parent is exactly what it was,
  whatever the tool did and returned; when the program could not be started, the
  six descriptors of the three pipes stay open.
\<close>

theorem runSubprocess_descriptors:
  assumes "os_healthy os" and "runSubprocess os cmd w = (Inr r, w')"
  shows "case fst (os_posix_spawn os cmd (os_environ os) (disk w)) of
      Inr ch \<Rightarrow> open_fds w' = open_fds w
    | Inl code \<Rightarrow> \<exists>fds. length fds = 6 \<and> open_fds w' = fds @ open_fds w"
proof (cases "os_posix_spawn os cmd (os_environ os) (disk w)")
  case (Pair res d)
  show ?thesis
  proof (cases res)
    case (Inl code)
    with Pair runSubprocess_fails [OF assms(1), of cmd w code d] assms(2) show ?thesis by auto
  next
    case (Inr ch)
    with Pair assms(2) have "child_ends os ch"
      using runSubprocess_blocks [OF assms(1), of cmd w ch d] by (cases "child_ends os ch") auto
    with Inr Pair runSubprocess_spawned [OF assms(1), of cmd w ch d] assms(2) show ?thesis by auto
  qed
qed

lemma fold_max_ge: "x \<in> set fds \<or> x \<le> m \<Longrightarrow> x \<le> fold max fds (m :: nat)"
proof (induction fds arbitrary: m)
  case (Cons y fds)
  from Cons.prems have "x \<in> set fds \<or> x \<le> max y m" by auto
  from Cons.IH [OF this] show ?case by simp
qed simp

lemma demo_os_healthy: "os_healthy (demo_os spawn)"
proof -
  have "x \<noteq> Suc (fold max fds 0)" "x \<noteq> Suc (Suc (fold max fds 0))" if "x \<in> set fds" for x fds
    using fold_max_ge [of x fds 0] that by auto
  then show ?thesis by (auto simp: os_healthy_def fresh_pipes_def demo_os_def Let_def)
qed

theorem runSubprocess_descriptors_witness:
  "\<exists>r w'. runSubprocess (demo_os (\<lambda>argv env d. (Inl 2, d))) [''tool'']
       \<lparr>disk = \<lparr>files = (\<lambda>_. None), folders = (\<lambda>_. False)\<rparr>, open_fds = [0, 1, 2], console = []\<rparr> = (Inr r, w') \<and>
     (\<exists>fds. length fds = 6 \<and> open_fds w' = fds @ [0, 1, 2])"
proof -
  let ?os = "demo_os (\<lambda>argv env d. (Inl 2, d))"
  let ?w = "\<lparr>disk = \<lparr>files = (\<lambda>_. None), folders = (\<lambda>_. False)\<rparr>, open_fds = [0, 1, 2], console = []\<rparr>"
  have sp: "os_posix_spawn ?os c e d = (Inl 2, d)" for c e d by (simp add: demo_os_def)
  from runSubprocess_fails [OF demo_os_healthy, of "\<lambda>argv env d. (Inl 2, d)" "[''tool'']" ?w] sp
  obtain r w' where "runSubprocess ?os [''tool''] ?w = (Inr r, w')" by blast
  with runSubprocess_descriptors [OF demo_os_healthy this] sp show ?thesis by auto
qed

end
