(* ===== verification/Tools.thy ===== *)
theory Tools
  imports FileHashes Subprocess
begin

text \<open>
  The functions of \<open>ctrlcenter2.cpp\<close> that touch single files: \<open>deleteFile\<close>,
  \<open>copyFile\<close> (POSIX branch), \<open>readFileHashes\<close> and \<open>saveFileHashes\<close> on the disk,
  \<open>hashFile\<close>, \<open>compressFile\<close> and \<open>decompressFile\<close>, which run the external
  tools.  The global \<open>gConfiguration\<close> is the record \<open>Configuration\<close>, passed to
  every operation.  Progress output is left out; messages that report an outcome
  are lines of the console.
\<close>

section \<open>Definitions\<close>

record Configuration =
  inputFolder :: string
  outputFolder :: string
  toolsFolder :: string
  temporaryFolder :: string
  databaseFilename :: string
  unittestPath :: string
  database :: FileHashes
  dryRunFlag :: bool

abbreviation file_of :: "world \<Rightarrow> string \<Rightarrow> string option" where
  "file_of w p \<equiv> files (disk w) p"

definition set_file :: "string \<Rightarrow> string option \<Rightarrow> world \<Rightarrow> world" where
  "set_file p c w = w\<lparr>disk := (disk w)\<lparr>files := (files (disk w))(p := c)\<rparr>\<rparr>"

definition deleteFile :: "string \<Rightarrow> bool io" where
  "deleteFile path w =
     (if file_of w path \<noteq> None then (Inr True, set_file path None w) else (Inr False, w))"

text \<open>The inner \<open>for\<close> of \<open>copyFile\<close>: write a buffer until it is empty or a call fails.\<close>

function copy_write :: "os \<Rightarrow> nat \<Rightarrow> string \<Rightarrow> string \<Rightarrow> bool \<times> nat \<times> string" where
  "copy_write os j buf dst =
     (if buf = [] then (True, j, dst)
      else case os_write os j of
             Transfer k \<Rightarrow>
               (let n = max 1 (min k (length buf))
                in copy_write os (Suc j) (drop n buf) (dst @ take n buf))
           | Interrupted \<Rightarrow> (False, Suc j, dst)
           | IoError \<Rightarrow> (False, Suc j, dst))"
  by pat_completeness auto
termination
  by (relation "measure (\<lambda>(os, j, buf, dst). length buf)") auto

declare copy_write.simps [simp del]

text \<open>The \<open>do\<close> loop: \<open>src\<close> is the unread rest of the source file.\<close>

partial_function (option) copy_loop ::
    "os \<Rightarrow> nat \<Rightarrow> nat \<Rightarrow> string \<Rightarrow> string \<Rightarrow> nat \<Rightarrow> (bool \<times> string) option" where
  "copy_loop os i j src dst readCount =
     (case os_read os i of
        Transfer k \<Rightarrow>
          (let n = (if src = [] then 0 else max 1 (min k (min 4096 (length src))));
               (ok, j', dst') = copy_write os j (take n src) dst
           in if ok \<and> 0 < n then copy_loop os (Suc i) j' (drop n src) dst' n else Some (ok, dst'))
      | Interrupted \<Rightarrow>
          if 0 < readCount then copy_loop os (Suc i) j src dst readCount else Some (True, dst)
      | IoError \<Rightarrow> Some (False, dst))"

definition copyFile :: "os \<Rightarrow> string \<Rightarrow> string \<Rightarrow> bool io" where
  "copyFile os sourcePath destPath w =
     (case file_of w sourcePath of
        None \<Rightarrow> (Inr False, w)
      | Some _ \<Rightarrow>
          if \<not> os_open_dest os destPath (disk w) then (Inr False, w)
          else (let w1 = set_file destPath (Some []) w
                in case copy_loop os 0 0 (the (file_of w1 sourcePath)) [] 0 of
                     None \<Rightarrow> (Inl Diverges, w1)
                   | Some (ok, dst) \<Rightarrow> (Inr ok, set_file destPath (Some dst) w1)))"

definition readFileHashes :: "Configuration \<Rightarrow> os \<Rightarrow> string \<Rightarrow> (bool \<times> FileHashes) io" where
  "readFileHashes cfg os filePath w =
     (case file_of w filePath of
        None \<Rightarrow> (Inr (False, []), w)
      | Some content \<Rightarrow>
          (ebind (readText (unittestPath cfg) (os_heap os) content) (\<lambda>h. Inr (True, h)), w))"

definition saveFileHashes :: "Configuration \<Rightarrow> os \<Rightarrow> FileHashes \<Rightarrow> string \<Rightarrow> bool io" where
  "saveFileHashes cfg os h filePath w =
     (if \<not> os_fopen_w os filePath (disk w) then (Inr False, w)
      else (Inr True, set_file filePath (Some (saveText (unittestPath cfg) h)) w))"

definition hashFile :: "Configuration \<Rightarrow> os \<Rightarrow> string \<Rightarrow> string io" where
  "hashFile cfg os fileToProcess =
     (let executable = toolsFolder cfg @ ''meowhash'';
          cmdLine = [executable, fileToProcess, ''--nologo'']
      in ibind (runSubprocess os cmdLine) (\<lambda>hashResult.
           case getErrorState hashResult of (err, hashResult) \<Rightarrow>
             if err
             then ibind (printf (''ERROR during hashing of '' @ fileToProcess @ '' ('' @
                    getErrorString hashResult @ '')'')) (\<lambda>_. ifail (ExitCode (-1)))
             else ilift (valueOrDie (debug_build os) hashResult)))"

text \<open>The extension tests shared by \<open>compressFile\<close> and \<open>decompressFile\<close>.\<close>

definition is_jpeg :: "string \<Rightarrow> bool" where
  "is_jpeg extension \<longleftrightarrow> extension = ''jpg'' \<or> extension = ''jpeg''"

definition is_mp3 :: "string \<Rightarrow> bool" where
  "is_mp3 extension \<longleftrightarrow> extension = ''mp3''"

definition is_packed :: "string \<Rightarrow> bool" where
  "is_packed extension \<longleftrightarrow> extension = ''png'' \<or> extension = ''pdf'' \<or> extension = ''zip'' \<or>
     extension = ''gzip'' \<or> extension = ''bzip2''"

definition compressCommand :: "Configuration \<Rightarrow> string \<Rightarrow> string \<Rightarrow> string \<Rightarrow> nat \<Rightarrow> string list" where
  "compressCommand cfg extension inputFilename outputFilename tempCounter =
     (if is_jpeg extension then
        [toolsFolder cfg @ ''lepton'', ''-singlethread'', ''-allowprogressive'', inputFilename,
         outputFilename @ ''.lepton'']
      else if is_mp3 extension then
        [toolsFolder cfg @ ''precomnp-cpp'', ''-lt1'', ''-cn'', ''-o'' @ outputFilename @ ''.pcf'',
         ''-u'' @ temporaryFolder cfg @ ''/~precomp_temp_'' @ to_string tempCounter, inputFilename]
      else if is_packed extension then
        [toolsFolder cfg @ ''precomnp-cpp'', ''-lt1'', ''-cl'', ''-o'' @ outputFilename @ ''.pcf'',
         ''-u'' @ temporaryFolder cfg @ ''/~precomp_temp_'' @ to_string tempCounter, inputFilename]
      else
        [toolsFolder cfg @ ''zpaq715'', ''a'', outputFilename @ ''.zpaq'', inputFilename, ''-m4'', ''-t1''])"

definition compressOutputName :: "Configuration \<Rightarrow> string \<Rightarrow> string" where
  "compressOutputName cfg inputFilename =
     outputFolder cfg @ eraseUnittestPath (unittestPath cfg) inputFilename"

definition compressFile :: "Configuration \<Rightarrow> os \<Rightarrow> string \<Rightarrow> nat \<Rightarrow> string io" where
  "compressFile cfg os inputFilename tempCounter =
     (let outputFilename = compressOutputName cfg inputFilename;
          extension = toLower (extractFileExtensionFromFilePatch inputFilename);
          cmdLine = compressCommand cfg extension inputFilename outputFilename tempCounter
      in if dryRunFlag cfg
         then ibind (printf (''would start '' @ concat (map (\<lambda>a. a @ '' '') cmdLine))) (\<lambda>_. iret '''')
         else ibind (runSubprocess os cmdLine) (\<lambda>compressResult.
           case getErrorState compressResult of (err, compressResult) \<Rightarrow>
             if err
             then ibind (printf (''ERROR during compression of '' @ inputFilename @ '' ('' @
                    getErrorString compressResult @ '')'')) (\<lambda>_.
                  ibind (copyFile os inputFilename outputFilename) (\<lambda>copied.
                    if copied = False
                    then ibind (printf ''ERROR during file copy!'') (\<lambda>_. ifail (ExitCode (-1)))
                    else iret ''ERROR''))
             else ilift (valueOrDie (debug_build os) compressResult)))"

definition decompressCommand :: "Configuration \<Rightarrow> string \<Rightarrow> string \<Rightarrow> string \<Rightarrow> string list \<times> string" where
  "decompressCommand cfg extension inputFilename outputFile =
     (if is_jpeg extension then
        (let inputFilename = inputFilename @ ''.lepton''
         in ([toolsFolder cfg @ ''lepton'', ''-singlethread'', ''-allowprogressive'', inputFilename, outputFile],
             inputFilename))
      else if is_mp3 extension \<or> is_packed extension then
        (let inputFilename = inputFilename @ ''.pcf''
         in ([toolsFolder cfg @ ''precomp-cpp'', ''-r'', ''-lt1'', ''-o'' @ outputFile, inputFilename],
             inputFilename))
      else
        (let inputFilename = inputFilename @ ''.zpaq''
         in ([toolsFolder cfg @ ''zpaq715'', ''x'', inputFilename, ''-to'', outputFile, ''-t1''],
             inputFilename)))"

definition decompressFile :: "Configuration \<Rightarrow> os \<Rightarrow> string \<Rightarrow> string io" where
  "decompressFile cfg os inputFilename =
     (let extension = toLower (extractFileExtensionFromFilePatch inputFilename);
          outputFile = temporaryFolder cfg @ inputFilename;
          (cmdLine, inputFilename) = decompressCommand cfg extension inputFilename outputFile
      in ibind (runSubprocess os cmdLine) (\<lambda>uncompResult.
           case getErrorState uncompResult of (err, uncompResult) \<Rightarrow>
             if err
             then ibind (printf (''error during uncompression of '' @ inputFilename @ '' ('' @
                    getErrorString uncompResult @ '')'')) (\<lambda>_. iret ''ERROR'')
             else ibind (hashFile cfg os outputFile) (\<lambda>uncompressedHash.
                  ibind (deleteFile outputFile) (\<lambda>_. iret uncompressedHash))))"

definition blank_world :: world where
  "blank_world = \<lparr>disk = \<lparr>files = (\<lambda>_. None), folders = (\<lambda>_. False)\<rparr>, open_fds = [0, 1, 2], console = []\<rparr>"

definition archiveSuffix :: "string \<Rightarrow> string" where
  "archiveSuffix extension =
     (if is_jpeg extension then ''.lepton''
      else if is_mp3 extension \<or> is_packed extension then ''.pcf'' else ''.zpaq'')"

text \<open>The tools the build makes (\<open>units.lua\<close>), and that no other program can be started.\<close>

definition only_tools :: "os \<Rightarrow> string \<Rightarrow> bool" where
  "only_tools os folder \<longleftrightarrow>
     (\<forall>argv env d. hd argv \<notin> (\<lambda>t. folder @ t) ` {''lepton'', ''precomp-cpp'', ''zpaq715'', ''meowhash''} \<longrightarrow>
        (\<exists>code. os_posix_spawn os argv env d = (Inl code, d)))"

definition demo_cfg :: Configuration where
  "demo_cfg = \<lparr>inputFolder = ''in/'', outputFolder = ''out/'', toolsFolder = ''bin/'',
     temporaryFolder = ''/tmp/'', databaseFilename = ''database.txt'', unittestPath = [],
     database = [], dryRunFlag = False\<rparr>"

section \<open>copyFile\<close>

lemma copy_write_appends:
  "copy_write os j buf dst = (True, j', dst') \<Longrightarrow> dst' = dst @ buf"
proof (induction os j buf dst rule: copy_write.induct)
  case (1 os j buf dst)
  show ?case
  proof (cases "buf = []")
    case True
    with "1.prems" show ?thesis by (simp add: copy_write.simps [of os j "[]" dst])
  next
    case False
    with "1.prems" obtain k where k: "os_write os j = Transfer k"
      by (auto simp: copy_write.simps [of os j buf dst] split: io_event.splits)
    let ?n = "max 1 (min k (length buf))"
    have "copy_write os (Suc j) (drop ?n buf) (dst @ take ?n buf) = (True, j', dst')"
      using "1.prems" False k by (simp add: copy_write.simps [of os j buf dst] Let_def)
    with "1.IH" [OF False k refl] have "dst' = (dst @ take ?n buf) @ drop ?n buf" by blast
    then show ?thesis by simp
  qed
qed

lemma copy_write_total:
  "\<forall>j. \<exists>k. os_write os j = Transfer k \<Longrightarrow> \<exists>j'. copy_write os j buf dst = (True, j', dst @ buf)"
proof (induction os j buf dst rule: copy_write.induct)
  case (1 os j buf dst)
  show ?case
  proof (cases "buf = []")
    case True
    then show ?thesis by (simp add: copy_write.simps)
  next
    case False
    from "1.prems" obtain k where k: "os_write os j = Transfer k" by blast
    from "1.IH" [OF False k refl "1.prems"] show ?thesis
      using False k by (simp add: copy_write.simps [of os j buf dst] Let_def)
  qed
qed

lemma copy_loop_sound:
  assumes "copy_loop os i j src dst rc = Some (True, out)" and "0 < rc \<or> os_read os i \<noteq> Interrupted"
  shows "out = dst @ src"
proof -
  have "0 < rc \<or> os_read os i \<noteq> Interrupted \<longrightarrow> fst (True, out) \<longrightarrow> snd (True, out) = dst @ src"
  proof (rule copy_loop.raw_induct [where P = "\<lambda>os i j src dst rc r.
        0 < rc \<or> os_read os i \<noteq> Interrupted \<longrightarrow> fst r \<longrightarrow> snd r = dst @ src", OF _ assms(1)])
    fix loop os i j src dst rc r
    assume IH: "\<And>os i j src dst rc r. loop os i j src dst rc = Some r \<Longrightarrow>
        0 < rc \<or> os_read os i \<noteq> Interrupted \<longrightarrow> fst r \<longrightarrow> snd r = dst @ src"
      and eq: "(case os_read os i of
        Transfer k \<Rightarrow>
          (let n = (if src = [] then 0 else max 1 (min k (min 4096 (length src))));
               (ok, j', dst') = copy_write os j (take n src) dst
           in if ok \<and> 0 < n then loop os (Suc i) j' (drop n src) dst' n else Some (ok, dst'))
      | Interrupted \<Rightarrow> if 0 < rc then loop os (Suc i) j src dst rc else Some (True, dst)
      | IoError \<Rightarrow> Some (False, dst)) = Some r"
    show "0 < rc \<or> os_read os i \<noteq> Interrupted \<longrightarrow> fst r \<longrightarrow> snd r = dst @ src"
    proof (intro impI)
      assume h: "0 < rc \<or> os_read os i \<noteq> Interrupted" and ok: "fst r"
      show "snd r = dst @ src"
      proof (cases "os_read os i")
        case (Transfer k)
        define n where "n = (if src = [] then 0 else max 1 (min k (min 4096 (length src))))"
        obtain b j' dst' where w: "copy_write os j (take n src) dst = (b, j', dst')"
          by (metis prod_cases3)
        show ?thesis
        proof (cases "b \<and> 0 < n")
          case True
          with eq Transfer w have "loop os (Suc i) j' (drop n src) dst' n = Some r"
            by (simp add: n_def [symmetric] Let_def)
          from IH [OF this] True ok have "snd r = dst' @ drop n src" by blast
          with copy_write_appends [of os j "take n src" dst j' dst'] w True show ?thesis by simp
        next
          case False
          with eq Transfer w have r: "r = (b, dst')" by (auto simp: n_def [symmetric] Let_def)
          with ok False have "n = 0" "b" by auto
          then have "src = []" by (auto simp: n_def split: if_splits)
          with copy_write_appends [of os j "take n src" dst j' dst'] w r ok show ?thesis by simp
        qed
      next
        case Interrupted
        with h have rc: "0 < rc" by simp
        with eq Interrupted have "loop os (Suc i) j src dst rc = Some r" by simp
        from IH [OF this] rc ok show ?thesis by blast
      next
        case IoError
        with eq ok show ?thesis by auto
      qed
    qed
  qed
  then show ?thesis using assms(2) by simp
qed

lemma copy_loop_total:
  assumes "\<forall>i. \<exists>k. os_read os i = Transfer k" and "\<forall>j. \<exists>k. os_write os j = Transfer k"
  shows "copy_loop os i j src dst rc = Some (True, dst @ src)"
proof (induction src arbitrary: i j dst rc rule: length_induct)
  case (1 src)
  from assms(1) obtain k where k: "os_read os i = Transfer k" by blast
  define n where "n = (if src = [] then 0 else max 1 (min k (min 4096 (length src))))"
  from copy_write_total [OF assms(2)] obtain j' where
    w: "copy_write os j (take n src) dst = (True, j', dst @ take n src)" by blast
  show ?case
  proof (cases "src = []")
    case True
    with w k show ?thesis by (subst copy_loop.simps) (simp add: n_def)
  next
    case False
    then have n: "0 < n" by (simp add: n_def)
    with False have "length (drop n src) < length src" by simp
    with "1.IH" have "copy_loop os (Suc i) j' (drop n src) (dst @ take n src) n
        = Some (True, (dst @ take n src) @ drop n src)" by blast
    moreover have "copy_loop os i j src dst rc = copy_loop os (Suc i) j' (drop n src) (dst @ take n src) n"
      using n by (subst copy_loop.simps) (simp add: k n_def [symmetric] w Let_def)
    ultimately show ?thesis by simp
  qed
qed

lemma copyFile_copies:
  assumes "file_of w source = Some c" and "source \<noteq> dest" and "os_open_dest os dest (disk w)"
    and "\<forall>i. \<exists>k. os_read os i = Transfer k" and "\<forall>j. \<exists>k. os_write os j = Transfer k"
  shows "copyFile os source dest w = (Inr True, set_file dest (Some c) w)"
  using copy_loop_total [OF assms(4,5), of 0 0 c "[]" 0] assms(1-3)
  by (simp add: copyFile_def Let_def set_file_def)

text \<open>C34. \<open>copyFile\<close> never reports success for a copy that differs from the source,
  unless the very first \<open>read\<close> is interrupted by a signal: then it reports
  success and leaves an empty file.  With calls that only move bytes (in pieces
  of any size) it succeeds and the destination holds the source.
\<close>

theorem copyFile_correct:
  assumes "file_of w source = Some c" and "source \<noteq> dest" and "os_open_dest os dest (disk w)"
  shows "(os_read os 0 \<noteq> Interrupted \<longrightarrow> copyFile os source dest w = (Inr True, w') \<longrightarrow>
      file_of w' dest = Some c) \<and>
    (os_read os 0 = Interrupted \<longrightarrow>
      copyFile os source dest w = (Inr True, set_file dest (Some []) w)) \<and>
    ((\<forall>i. \<exists>k. os_read os i = Transfer k) \<and> (\<forall>j. \<exists>k. os_write os j = Transfer k) \<longrightarrow>
      copyFile os source dest w = (Inr True, set_file dest (Some c) w))"
proof (intro conjI impI)
  have src: "the (file_of (set_file dest (Some []) w) source) = c"
    using assms by (simp add: set_file_def)
  show "file_of w' dest = Some c"
    if first: "os_read os 0 \<noteq> Interrupted" and run: "copyFile os source dest w = (Inr True, w')"
  proof -
    from run assms src obtain out where "copy_loop os 0 0 c [] 0 = Some (True, out)"
      "w' = set_file dest (Some out) (set_file dest (Some []) w)"
      by (auto simp: copyFile_def Let_def split: option.splits)
    with copy_loop_sound [of os 0 0 c "[]" 0 out] first show ?thesis by (simp add: set_file_def)
  qed
  show "copyFile os source dest w = (Inr True, set_file dest (Some []) w)"
    if "os_read os 0 = Interrupted"
    using that assms src by (simp add: copyFile_def copy_loop.simps [of os 0] Let_def set_file_def)
  show "copyFile os source dest w = (Inr True, set_file dest (Some c) w)"
    if "(\<forall>i. \<exists>k. os_read os i = Transfer k) \<and> (\<forall>j. \<exists>k. os_write os j = Transfer k)"
    using copyFile_copies [OF assms] that by blast
qed

theorem copyFile_correct_witness:
  "copyFile (demo_os (\<lambda>argv env d. (Inl 2, d))) ''a'' ''b'' (set_file ''a'' (Some ''xy'') blank_world)
     = (Inr True, set_file ''b'' (Some ''xy'') (set_file ''a'' (Some ''xy'') blank_world))"
proof -
  let ?os = "demo_os (\<lambda>argv env d. (Inl 2, d))"
  let ?w = "set_file ''a'' (Some ''xy'') blank_world"
  have "file_of ?w ''a'' = Some ''xy''" "''a'' \<noteq> ''b''" "os_open_dest ?os ''b'' (disk ?w)"
    by (simp_all add: set_file_def demo_os_def)
  from copyFile_correct [OF this] show ?thesis by (simp add: demo_os_def)
qed

section \<open>The table on the disk\<close>



section \<open>Running a tool\<close>

text \<open>
  The two ways a call of a tool can go on a healthy system, as the rest of the
  program sees them: the tool is there and ends, or it is not there.
\<close>

lemma hashFile_runs:
  assumes "os_healthy os" and "child_ends os ch" and "run_ok ch"
    and "os_posix_spawn os [toolsFolder cfg @ ''meowhash'', f, ''--nologo''] (os_environ os) (disk w) = (Inr ch, d)"
  shows "hashFile cfg os f w = (Inr (c_str (fgets 128 (stdout_text ch))), w\<lparr>disk := d\<rparr>)"
proof -
  from runSubprocess_spawned [OF assms(1,4,2)] assms(3) obtain r where
    "runSubprocess os [toolsFolder cfg @ ''meowhash'', f, ''--nologo''] w = (Inr r, w\<lparr>disk := d\<rparr>)"
    "\<not> mIsInErrorState r" "mValue r = c_str (fgets 128 (stdout_text ch))" by auto
  then show ?thesis
    by (simp add: hashFile_def Let_def ibind_def getErrorState_def ilift_def valueOrDie_def)
qed

lemma hashFile_not_ok:
  assumes "os_healthy os" and "child_ends os ch" and "\<not> run_ok ch"
    and "os_posix_spawn os [toolsFolder cfg @ ''meowhash'', f, ''--nologo''] (os_environ os) (disk w) = (Inr ch, d)"
  shows "fst (hashFile cfg os f w) = Inl (ExitCode (-1))"
proof -
  from runSubprocess_spawned [OF assms(1,4,2)] assms(3) obtain r where
    "runSubprocess os [toolsFolder cfg @ ''meowhash'', f, ''--nologo''] w = (Inr r, w\<lparr>disk := d\<rparr>)"
    "mIsInErrorState r" by auto
  then show ?thesis
    by (simp add: hashFile_def Let_def ibind_def getErrorState_def printf_def ifail_def)
qed

section \<open>Which archive belongs to which file\<close>

lemma find_last_of_append:
  "c \<in> set p \<Longrightarrow> find_last_of (d @ p) [c] = map_option (\<lambda>n. length d + n) (find_last_of p [c])"
proof -
  assume "c \<in> set p"
  then obtain a b where p: "p = a @ c # b" "c \<notin> set b" by (metis split_list_last)
  then show ?thesis
    using find_last_of_split [of c b a] find_last_of_split [of c b "d @ a"] by simp
qed

lemma extension_in_folder:
  "CHR ''.'' \<in> set p \<Longrightarrow>
     extractFileExtensionFromFilePatch (d @ p) = extractFileExtensionFromFilePatch p"
  using find_last_of_append [of "CHR ''.''" p d]
  by (auto simp: extractFileExtensionFromFilePatch_def split: option.split)

lemma tolower_slash: "tolower c = CHR ''/'' \<longleftrightarrow> c = CHR ''/''"
proof -
  have "tolower c \<noteq> CHR ''/''" if "65 \<le> (of_char c :: nat)" "of_char c \<le> (90 :: nat)"
  proof
    assume "tolower c = CHR ''/''"
    then have "of_char (char_of (of_char c + 32 :: nat)) = (of_char CHR ''/'' :: nat)"
      using that by (simp add: tolower_def)
    then show False using that by (simp add: take_bit_eq_mod)
  qed
  moreover have "c \<noteq> CHR ''/''" if "65 \<le> (of_char c :: nat)"
    using that by auto
  ultimately show ?thesis by (auto simp: tolower_def Let_def split: if_splits)
qed

lemma archiveSuffix_slash: "CHR ''/'' \<in> set e \<Longrightarrow> archiveSuffix (toLower e) = ''.zpaq''"
proof -
  assume "CHR ''/'' \<in> set e"
  then have "CHR ''/'' \<in> set (toLower e)"
    using tolower_slash by (auto simp: toLower_def image_iff intro: sym)
  then have "\<not> is_jpeg (toLower e)" "\<not> is_mp3 (toLower e)" "\<not> is_packed (toLower e)"
    by (auto simp: is_jpeg_def is_mp3_def is_packed_def)
  then show ?thesis by (simp add: archiveSuffix_def)
qed

lemma extension_of_folder:
  assumes "CHR ''.'' \<notin> set p"
  shows "extractFileExtensionFromFilePatch ((d @ ''/'') @ p) = [] \<or>
    CHR ''/'' \<in> set (extractFileExtensionFromFilePatch ((d @ ''/'') @ p))"
proof (cases "CHR ''.'' \<in> set d")
  case True
  then obtain a b where d: "d = a @ CHR ''.'' # b" "CHR ''.'' \<notin> set b" by (metis split_list_last)
  then have "extractFileExtensionFromFilePatch ((d @ ''/'') @ p) = b @ ''/'' @ p"
    using extension_append [of "b @ ''/'' @ p" a] assms by simp
  then show ?thesis by simp
next
  case False
  with assms show ?thesis using extension_none [of "(d @ ''/'') @ p"] by simp
qed

lemma archiveSuffix_in_folder:
  "archiveSuffix (toLower (extractFileExtensionFromFilePatch ((d @ ''/'') @ p)))
     = archiveSuffix (toLower (extractFileExtensionFromFilePatch p))"
proof (cases "CHR ''.'' \<in> set p")
  case True
  then show ?thesis using extension_in_folder [of p "d @ ''/''"] by simp
next
  case False
  have "archiveSuffix (toLower []) = ''.zpaq''"
    by (simp add: archiveSuffix_def toLower_def is_jpeg_def is_mp3_def is_packed_def)
  with extension_of_folder [OF False, of d] extension_none [OF False] archiveSuffix_slash show ?thesis
    by auto
qed

lemma decompressCommand_archive:
  "snd (decompressCommand cfg e f out) = f @ archiveSuffix e"
  by (simp add: decompressCommand_def archiveSuffix_def Let_def)

text \<open>For every file, the archive name \<open>compressFile\<close> puts on its tool's command
  line is the one \<open>decompressFile\<close> opens when the output folder is verified; the
  two run the same tool exactly when the file is not one of those handled by
  precomp.
\<close>

theorem archive_names_agree:
  assumes "outputFolder cfg = d @ ''/''" and "inputFolder vcfg = outputFolder cfg"
    and "unittestPath cfg = []" and "toolsFolder vcfg = toolsFolder cfg"
  shows "let e = toLower (extractFileExtensionFromFilePatch p);
      cmd = compressCommand cfg e p (compressOutputName cfg p) n;
      ve = toLower (extractFileExtensionFromFilePatch (inputFolder vcfg @ p));
      (vcmd, archive) = decompressCommand vcfg ve (inputFolder vcfg @ p) out
    in (archive \<in> set cmd \<or> ''-o'' @ archive \<in> set cmd) \<and>
       (hd cmd = hd vcmd \<longleftrightarrow> \<not> is_mp3 e \<and> \<not> is_packed e)"
proof -
  let ?e = "toLower (extractFileExtensionFromFilePatch p)"
  let ?ve = "toLower (extractFileExtensionFromFilePatch (inputFolder vcfg @ p))"
  have suf: "archiveSuffix ?ve = archiveSuffix ?e"
    using archiveSuffix_in_folder [of d p] assms by simp
  have out: "compressOutputName cfg p = inputFolder vcfg @ p"
    using assms by (simp add: compressOutputName_def eraseUnittestPath_def)
  have j: "is_jpeg e \<Longrightarrow> \<not> is_mp3 e \<and> \<not> is_packed e" for e
    by (auto simp: is_jpeg_def is_mp3_def is_packed_def)
  show ?thesis
    using suf j [of ?e] j [of ?ve] assms(4) unfolding out
    by (auto simp: compressCommand_def decompressCommand_def archiveSuffix_def Let_def split: if_splits)
qed

theorem archive_names_agree_witness:
  "''out/a.txt.zpaq'' \<in> set (compressCommand
       (demo_cfg\<lparr>outputFolder := ''out/''\<rparr>) (toLower (extractFileExtensionFromFilePatch ''a.txt'')) ''a.txt''
       (compressOutputName (demo_cfg\<lparr>outputFolder := ''out/''\<rparr>) ''a.txt'') 0)"
  using archive_names_agree [of "demo_cfg\<lparr>outputFolder := ''out/''\<rparr>" "''out''"
      "demo_cfg\<lparr>inputFolder := ''out/''\<rparr>" "''a.txt''" 0 "''x''"]
  by (simp add: demo_cfg_def compressCommand_def decompressCommand_def Let_def
      extractFileExtensionFromFilePatch_def find_last_of_def toLower_def tolower_def
      is_jpeg_def is_mp3_def is_packed_def compressOutputName_def eraseUnittestPath_def)

section \<open>The misspelt tool\<close>

text \<open>C39. With the tools the build makes, a file handled by precomp (mp3, png, pdf,
  zip, gzip, bzip2) is never compressed: \<open>compressFile\<close> starts \<open>precomnp-cpp\<close>,
  which does not exist, answers \<open>ERROR\<close>, writes no \<open>.pcf\<close> archive, leaks the six
  descriptors of the failed start and leaves an uncompressed copy.
\<close>

theorem precomp_files_only_copied:
  assumes "os_healthy os" and "only_tools os (toolsFolder cfg)" and "\<not> dryRunFlag cfg"
    and "is_mp3 e \<or> is_packed e" and "e = toLower (extractFileExtensionFromFilePatch f)"
    and "file_of w f = Some c" and "f \<noteq> compressOutputName cfg f"
    and "os_open_dest os (compressOutputName cfg f) (disk w)"
    and "\<forall>i. \<exists>k. os_read os i = Transfer k" and "\<forall>j. \<exists>k. os_write os j = Transfer k"
  shows "\<exists>w'. compressFile cfg os f n w = (Inr ''ERROR'', w') \<and>
    files (disk w') = (files (disk w))(compressOutputName cfg f \<mapsto> c) \<and>
    length (open_fds w') = length (open_fds w) + 6"
proof -
  let ?out = "compressOutputName cfg f"
  let ?cmd = "compressCommand cfg e f ?out n"
  have "\<not> is_jpeg e" using assms(4) by (auto simp: is_jpeg_def is_mp3_def is_packed_def)
  then have "hd ?cmd = toolsFolder cfg @ ''precomnp-cpp''"
    using assms(4) by (auto simp: compressCommand_def)
  then have "hd ?cmd \<notin> (\<lambda>t. toolsFolder cfg @ t) ` {''lepton'', ''precomp-cpp'', ''zpaq715'', ''meowhash''}"
    by simp
  with assms(2) obtain code where
    sp: "os_posix_spawn os ?cmd (os_environ os) (disk w) = (Inl code, disk w)"
    unfolding only_tools_def by blast
  from runSubprocess_fails [OF assms(1) sp] obtain fds r where
    run: "runSubprocess os ?cmd w = (Inr r, w\<lparr>open_fds := fds @ open_fds w, disk := disk w,
      console := console w @ [''linux posix spawn return '' @ to_string code]\<rparr>)"
    and r: "length fds = 6" "mIsInErrorState r" by blast
  define w1 where "w1 = w\<lparr>open_fds := fds @ open_fds w, disk := disk w,
    console := console w @ [''linux posix spawn return '' @ to_string code,
      ''ERROR during compression of '' @ f @ '' ('' @ getErrorString r @ '')'']\<rparr>"
  have "file_of w1 f = Some c" "os_open_dest os ?out (disk w1)"
    using assms by (simp_all add: w1_def)
  from copyFile_copies [OF this(1) assms(7) this(2) assms(9,10)] have
    copy: "copyFile os f ?out w1 = (Inr True, set_file ?out (Some c) w1)" .
  have "compressFile cfg os f n w = (Inr ''ERROR'', set_file ?out (Some c) w1)"
    using run r copy assms(3)
    by (simp add: compressFile_def Let_def assms(5) [symmetric] ibind_def getErrorState_def
        printf_def iret_def getErrorString_def w1_def)
  then show ?thesis using r by (simp add: set_file_def w1_def)
qed

theorem precomp_files_only_copied_witness:
  "\<exists>w'. compressFile (demo_cfg\<lparr>outputFolder := ''out/''\<rparr>) (demo_os (\<lambda>argv env d. (Inl 2, d))) ''a.PNG'' 0
       (set_file ''a.PNG'' (Some ''data'') blank_world) = (Inr ''ERROR'', w') \<and>
     file_of w' ''out/a.PNG'' = Some ''data''"
proof -
  let ?cfg = "demo_cfg\<lparr>outputFolder := ''out/''\<rparr>"
  let ?os = "demo_os (\<lambda>argv env d. (Inl 2, d))"
  let ?w = "set_file ''a.PNG'' (Some ''data'') blank_world"
  have e: "toLower (extractFileExtensionFromFilePatch ''a.PNG'') = ''png''"
    by code_simp
  have out: "compressOutputName ?cfg ''a.PNG'' = ''out/a.PNG''"
    by (simp add: compressOutputName_def eraseUnittestPath_def demo_cfg_def)
  have "\<exists>w'. compressFile ?cfg ?os ''a.PNG'' 0 ?w = (Inr ''ERROR'', w') \<and>
    files (disk w') = (files (disk ?w))(compressOutputName ?cfg ''a.PNG'' \<mapsto> ''data'') \<and>
    length (open_fds w') = length (open_fds ?w) + 6"
  proof (rule precomp_files_only_copied [where e = "''png''"])
    show "os_healthy ?os" by (rule demo_os_healthy)
    show "only_tools ?os (toolsFolder ?cfg)" by (auto simp: only_tools_def demo_os_def)
  qed (use e out in \<open>simp_all add: demo_cfg_def demo_os_def is_packed_def set_file_def\<close>)
  then show ?thesis unfolding out by auto
qed

end
