(* ===== verification/Dirs.thy ===== *)
theory Dirs
  imports Tools "HOL-Library.Multiset"
begin

text \<open>
  Directories: \<open>tinydir\<close> of \<open>tinydir.h\<close> (POSIX branch), the folder helpers of
  \<open>tinydirhelper.h\<close>, and the work-list scan of \<open>createOrUpdateArchive\<close> that
  collects the files below a folder.  The scan follows whatever the system calls
  a folder, so on a cyclic disk it does not end: it is a partial function, and
  for folders that form a tree it is proved to find every file exactly once.
\<close>

section \<open>Definitions\<close>

function stripSeparators :: "string \<Rightarrow> string" where
  "stripSeparators src =
     (if src \<noteq> [] \<and> (last src = CHR ''/'' \<or> last src = CHR 0x5C) then stripSeparators (butlast src) else src)"
  by pat_completeness auto
termination
  by (relation "measure length") auto

declare stripSeparators.simps [simp del]

text \<open>
  The loop over \<open>readdir\<close>: the calls of \<open>yield\<close> (name, is-folder, size) and the
  messages about entries that cannot be examined.
\<close>

fun tinydir_entries :: "string \<Rightarrow> (string \<times> (bool \<times> nat) option) list \<Rightarrow>
    (string \<times> bool \<times> nat) list \<times> string list" where
  "tinydir_entries src [] = ([], [])"
| "tinydir_entries src ((d_name, st) # eps) =
     (let (ys, msgs) = tinydir_entries src eps in
      if d_name = ''.'' then (ys, msgs)
      else if d_name = ''..'' then (ys, msgs)
      else case st of
             None \<Rightarrow> (ys, (''failed to stat '' @ d_name) # msgs)
           | Some (isDir, st_size) \<Rightarrow> ((src @ ''/'' @ d_name, isDir, st_size) # ys, msgs))"

text \<open>\<open>tinydir\<close>: \<^const>\<open>None\<close> when the folder cannot be opened (the call returns \<open>false\<close>).\<close>

definition tinydir :: "os \<Rightarrow> disk \<Rightarrow> string \<Rightarrow> ((string \<times> bool \<times> nat) list \<times> string list) option" where
  "tinydir os d directory =
     (let src = stripSeparators directory in
      case os_readdir os (src @ ''/'') d of
        None \<Rightarrow> None
      | Some eps \<Rightarrow> Some (tinydir_entries src eps))"

text \<open>The callback: folders go to the work list, files to the result, sizes are summed in 64 bits.\<close>

fun scan_callback :: "(string \<times> bool \<times> nat) list \<Rightarrow> string list \<Rightarrow> string list \<Rightarrow> u64 \<Rightarrow>
    string list \<times> string list \<times> u64" where
  "scan_callback [] recursiveFolders filesToProcess inputSetSize = (recursiveFolders, filesToProcess, inputSetSize)"
| "scan_callback ((name, is_dir, fileSize) # ys) recursiveFolders filesToProcess inputSetSize =
     (if is_dir then scan_callback ys (recursiveFolders @ [name]) filesToProcess inputSetSize
      else scan_callback ys recursiveFolders (filesToProcess @ [name]) (inputSetSize + of_nat fileSize))"

partial_function (option) scan_loop ::
    "os \<Rightarrow> disk \<Rightarrow> string list \<Rightarrow> string list \<Rightarrow> u64 \<Rightarrow> string list \<Rightarrow> (string list \<times> u64 \<times> string list) option" where
  "scan_loop os d recursiveFolders filesToProcess setSize lines =
     (if recursiveFolders \<noteq> [] then
        (let dir = last recursiveFolders @ ''/'';
             rest = butlast recursiveFolders
         in case tinydir os d dir of
              None \<Rightarrow> scan_loop os d rest filesToProcess setSize lines
            | Some (ys, msgs) \<Rightarrow>
                (let (folders', files', setSize') = scan_callback ys rest filesToProcess setSize
                 in scan_loop os d folders' files' setSize' (lines @ msgs)))
      else Some (filesToProcess, setSize, lines))"

definition dirExists :: "string \<Rightarrow> world \<Rightarrow> bool" where
  "dirExists dir w = folders (disk w) dir"

text \<open>\<open>mkdir\<close> fails with \<open>EEXIST\<close> on a name that is taken, else the system decides.\<close>

definition createSingleDir :: "os \<Rightarrow> string \<Rightarrow> bool io" where
  "createSingleDir os dir0 w =
     (if dir0 = [] then (Inl Undefined, w)
      else let dir = (if last dir0 = CHR ''/'' then butlast dir0 else dir0) in
        if folders (disk w) dir \<or> file_of w dir \<noteq> None then (Inr True, w)
        else if os_mkdir os dir (disk w)
        then (Inr True, w\<lparr>disk := (disk w)\<lparr>folders := (folders (disk w))(dir := True)\<rparr>\<rparr>)
        else (Inr False, w))"

function smartCreate_loop :: "os \<Rightarrow> string \<Rightarrow> nat \<Rightarrow> bool io" where
  "smartCreate_loop os directory cursor w =
     (case std_find directory ''/'' cursor of
        None \<Rightarrow>
          if cursor = 0 \<and> \<not> dirExists directory w then createSingleDir os directory w else (Inr True, w)
      | Some foundPos \<Rightarrow>
          if foundPos = 0 then smartCreate_loop os directory (foundPos + 1) w
          else (case createSingleDir os (take foundPos directory) w of
                  (Inl e, w1) \<Rightarrow> (Inl e, w1)
                | (Inr _, w1) \<Rightarrow> smartCreate_loop os directory (foundPos + 1) w1))"
  by pat_completeness auto
termination
  by (relation "measure (\<lambda>(os, directory, cursor, w). Suc (length directory) - cursor)")
    (auto dest!: std_find_SomeD)

declare smartCreate_loop.simps [simp del]

definition smartCreate :: "os \<Rightarrow> string \<Rightarrow> bool io" where
  "smartCreate os directory = smartCreate_loop os directory 0"

definition getEnvVar :: "os \<Rightarrow> string \<Rightarrow> string" where
  "getEnvVar os key = (case os_getenv os key of None \<Rightarrow> '''' | Some val \<Rightarrow> val)"

definition getTemporaryFolder :: "os \<Rightarrow> string" where
  "getTemporaryFolder os =
     (if length (getEnvVar os ''TMPDIR'') \<noteq> 0 then getEnvVar os ''TMPDIR''
      else if length (getEnvVar os ''TMP'') \<noteq> 0 then getEnvVar os ''TMP''
      else if length (getEnvVar os ''TEMP'') \<noteq> 0 then getEnvVar os ''TEMP''
      else if length (getEnvVar os ''TEMPDIR'') \<noteq> 0 then getEnvVar os ''TEMPDIR''
      else ''/tmp'')"

text \<open>
  The disk as a tree: what a folder holds, the files below it, and that the
  system reports exactly this below a path (next to the entries \<open>.\<close> and \<open>..\<close>).
\<close>

datatype dirtree = Leaf nat | Node "(string \<times> dirtree) list"

fun is_node :: "dirtree \<Rightarrow> bool" where
  "is_node (Leaf _) = False"
| "is_node (Node _) = True"

fun leaf_size :: "dirtree \<Rightarrow> nat" where
  "leaf_size (Leaf n) = n"
| "leaf_size (Node _) = 0"

fun tree_files :: "string \<Rightarrow> dirtree \<Rightarrow> string list" where
  "tree_files p (Leaf n) = [p]"
| "tree_files p (Node kids) = concat (map (\<lambda>(n, t). tree_files (p @ ''/'' @ n) t) kids)"

fun tree_bytes :: "dirtree \<Rightarrow> nat" where
  "tree_bytes (Leaf n) = n"
| "tree_bytes (Node kids) = sum_list (map (\<lambda>(n, t). tree_bytes t) kids)"

fun nodes :: "dirtree \<Rightarrow> nat" where
  "nodes (Leaf n) = 0"
| "nodes (Node kids) = Suc (sum_list (map (\<lambda>(n, t). nodes t) kids))"

definition plain_name :: "string \<Rightarrow> bool" where
  "plain_name n \<longleftrightarrow> n \<noteq> [] \<and> n \<noteq> ''.'' \<and> n \<noteq> ''..'' \<and> last n \<noteq> CHR ''/'' \<and> last n \<noteq> CHR 0x5C"

definition good_path :: "string \<Rightarrow> bool" where
  "good_path p \<longleftrightarrow> p = [] \<or> last p \<noteq> CHR ''/'' \<and> last p \<noteq> CHR 0x5C"

fun listed :: "os \<Rightarrow> disk \<Rightarrow> string \<Rightarrow> dirtree \<Rightarrow> bool" where
  "listed os d p (Leaf n) = True"
| "listed os d p (Node kids) =
     (os_readdir os (p @ ''/'') d =
        Some ((''.'', Some (True, 0)) # (''..'', Some (True, 0)) #
          map (\<lambda>(n, t). (n, Some (is_node t, leaf_size t))) kids) \<and>
      (\<forall>(n, t) \<in> set kids. plain_name n \<and> listed os d (p @ ''/'' @ n) t))"

text \<open>
  What \<open>mkdir\<close> is documented to need: every enclosing folder is there.
  \<open>enclosing p q\<close> says that \<open>q\<close> is a proper enclosing folder name of path \<open>p\<close>.
\<close>

definition enclosing :: "string \<Rightarrow> string \<Rightarrow> bool" where
  "enclosing p q \<longleftrightarrow> q \<noteq> [] \<and> last q \<noteq> CHR ''/'' \<and> prefix (q @ ''/'') p"

definition mkdir_works :: "os \<Rightarrow> bool" where
  "mkdir_works os \<longleftrightarrow> (\<forall>d p. p \<noteq> [] \<and> (\<forall>q. enclosing p q \<longrightarrow> folders d q) \<longrightarrow> os_mkdir os p d)"

definition demo_listing :: os where
  "demo_listing = (demo_os (\<lambda>argv env d. (Inl 2, d)))\<lparr>os_readdir := (\<lambda>p d.
     if p = ''in/'' then Some [(''.'', Some (True, 0)), (''..'', Some (True, 0)), (''a'', Some (False, 3)), (''s'', Some (True, 0))]
     else if p = ''in/s/'' then Some [(''.'', Some (True, 0)), (''..'', Some (True, 0)), (''b'', Some (False, 4))]
     else None)\<rparr>"

section \<open>tinydir\<close>

lemma stripSeparators_id:
  "src = [] \<or> last src \<noteq> CHR ''/'' \<and> last src \<noteq> CHR 0x5C \<Longrightarrow> stripSeparators src = src"
  by (subst stripSeparators.simps) auto

lemma stripSeparators_slash: "stripSeparators (src @ ''/'') = stripSeparators src"
  by (subst stripSeparators.simps) simp

lemma stripSeparators_slashes: "stripSeparators (src @ ''//'') = stripSeparators src"
  using stripSeparators_slash [of "src @ ''/''"] stripSeparators_slash [of src] by simp

lemma tinydir_entries_kids:
  assumes "\<forall>(n, t) \<in> set kids. plain_name n"
  shows "tinydir_entries src (map (\<lambda>(n, t). (n, Some (is_node t, leaf_size t))) kids)
    = (map (\<lambda>(n, t). (src @ ''/'' @ n, is_node t, leaf_size t)) kids, [])"
  using assms by (induction kids) (auto simp: plain_name_def)

lemma tinydir_listed:
  assumes "listed os d p (Node kids)" and "p = [] \<or> last p \<noteq> CHR ''/'' \<and> last p \<noteq> CHR 0x5C"
  shows "tinydir os d (p @ ''/'') = Some (map (\<lambda>(n, t). (p @ ''/'' @ n, is_node t, leaf_size t)) kids, [])"
proof -
  have "\<forall>(n, t) \<in> set kids. plain_name n" using assms(1) by auto
  from tinydir_entries_kids [OF this] assms show ?thesis
    by (simp add: tinydir_def stripSeparators_slash stripSeparators_id)
qed

lemma scan_callback_kids:
  "scan_callback (map (\<lambda>(n, t). (p @ CHR ''/'' # n, is_node t, leaf_size t)) kids) stack acc sz =
     (stack @ map (\<lambda>(n, t). p @ CHR ''/'' # n) (filter (is_node \<circ> snd) kids),
      acc @ map (\<lambda>(n, t). p @ CHR ''/'' # n) (filter (Not \<circ> is_node \<circ> snd) kids),
      sz + of_nat (sum_list (map (leaf_size \<circ> snd) kids)))"
proof (induction kids arbitrary: stack acc sz)
  case (Cons k kids)
  obtain n t where k: "k = (n, t)" by fastforce
  show ?case
    by (cases t) (simp_all add: k Cons.IH)
qed simp

section \<open>The scan finds every file once\<close>

lemma nodes_of_folders:
  "sum_list (map (\<lambda>(n, t). nodes t) (filter (is_node \<circ> snd) kids)) = sum_list (map (\<lambda>(n, t). nodes t) kids)"
proof (induction kids)
  case (Cons k kids)
  then show ?case by (cases k; cases "snd k") auto
qed simp

lemma files_of_kids:
  "mset (map (\<lambda>(n, t). p @ CHR ''/'' # n) (filter (Not \<circ> is_node \<circ> snd) kids)) +
   mset (concat (map (\<lambda>(n, t). tree_files (p @ CHR ''/'' # n) t) (filter (is_node \<circ> snd) kids)))
     = mset (tree_files p (Node kids))"
proof (induction kids)
  case (Cons k kids)
  obtain n t where "k = (n, t)" by fastforce
  with Cons show ?case by (cases t) (auto simp: union_assoc)
qed simp

lemma bytes_of_kids:
  "sum_list (map (leaf_size \<circ> snd) kids) + sum_list (map (\<lambda>(n, t). tree_bytes t) (filter (is_node \<circ> snd) kids))
     = tree_bytes (Node kids)"
proof (induction kids)
  case (Cons k kids)
  obtain n t where "k = (n, t)" by fastforce
  with Cons show ?case by (cases t) auto
qed simp

lemma good_path_child: "plain_name n \<Longrightarrow> good_path (p @ CHR ''/'' # n)"
  by (auto simp: good_path_def plain_name_def)

lemma scan_step:
  assumes "listed os d p (Node kids)" and "good_path p"
  shows "scan_loop os d (stack @ [p]) acc sz lines =
    scan_loop os d (stack @ map (\<lambda>(n, t). p @ CHR ''/'' # n) (filter (is_node \<circ> snd) kids))
      (acc @ map (\<lambda>(n, t). p @ CHR ''/'' # n) (filter (Not \<circ> is_node \<circ> snd) kids))
      (sz + of_nat (sum_list (map (leaf_size \<circ> snd) kids))) lines"
  using tinydir_listed [of os d p kids] assms
  by (subst scan_loop.simps) (simp add: good_path_def scan_callback_kids)

lemma scan_trees:
  assumes "\<forall>(p, t) \<in> set ts. is_node t \<and> listed os d p t \<and> good_path p"
  shows "\<exists>out. scan_loop os d (map fst ts) acc sz lines =
      Some (acc @ out, sz + of_nat (sum_list (map (\<lambda>(p, t). tree_bytes t) ts)), lines) \<and>
    mset out = mset (concat (map (\<lambda>(p, t). tree_files p t) ts))"
  using assms
proof (induction "sum_list (map (\<lambda>(p, t). nodes t) ts)" arbitrary: ts acc sz rule: less_induct)
  case less
  show ?case
  proof (cases ts rule: rev_cases)
    case Nil
    then show ?thesis by (subst scan_loop.simps) simp
  next
    case (snoc ts0 x)
    obtain p t where x: "x = (p, t)" by fastforce
    with snoc less.prems obtain kids where t: "t = Node kids" by (cases t) auto
    from snoc x t less.prems have pk: "listed os d p (Node kids)" "good_path p" by auto
    let ?fk = "filter (is_node \<circ> snd) kids"
    let ?lf = "map (\<lambda>(n, t). p @ CHR ''/'' # n) (filter (Not \<circ> is_node \<circ> snd) kids)"
    let ?ts = "ts0 @ map (\<lambda>(n, t). (p @ CHR ''/'' # n, t)) ?fk"
    have fst_ts: "map fst ?ts = map fst ts0 @ map (\<lambda>(n, t). p @ CHR ''/'' # n) ?fk"
      by (auto simp: case_prod_unfold)
    have "sum_list (map (\<lambda>(p, t). nodes t) ?ts) < sum_list (map (\<lambda>(p, t). nodes t) ts)"
      using nodes_of_folders [of kids] by (simp add: snoc x t comp_def case_prod_unfold)
    moreover have "\<forall>(p, t) \<in> set ?ts. is_node t \<and> listed os d p t \<and> good_path p"
      using less.prems pk(1) good_path_child by (fastforce simp: snoc)
    ultimately obtain out where
      out: "scan_loop os d (map fst ?ts) (acc @ ?lf) (sz + of_nat (sum_list (map (leaf_size \<circ> snd) kids))) lines =
        Some ((acc @ ?lf) @ out,
          (sz + of_nat (sum_list (map (leaf_size \<circ> snd) kids))) + of_nat (sum_list (map (\<lambda>(p, t). tree_bytes t) ?ts)), lines)"
      "mset out = mset (concat (map (\<lambda>(p, t). tree_files p t) ?ts))"
      using less.hyps by blast
    have files: "mset (?lf @ out) = mset (concat (map (\<lambda>(p, t). tree_files p t) ts))"
      using out(2) files_of_kids [of p kids] by (simp add: snoc x t comp_def case_prod_unfold ac_simps)
    have bytes: "sum_list (map (leaf_size \<circ> snd) kids) + sum_list (map (\<lambda>(p, t). tree_bytes t) ?ts)
        = sum_list (map (\<lambda>(p, t). tree_bytes t) ts)"
      using bytes_of_kids [of kids] by (simp add: snoc x t comp_def case_prod_unfold)
    have "scan_loop os d (map fst ts) acc sz lines = scan_loop os d (map fst ?ts) (acc @ ?lf)
        (sz + of_nat (sum_list (map (leaf_size \<circ> snd) kids))) lines"
      using scan_step [OF pk, of "map fst ts0" acc sz lines] unfolding fst_ts by (simp add: snoc x)
    then show ?thesis
      using out(1) files bytes
      by (intro exI [of _ "?lf @ out"]) (simp add: add.assoc flip: of_nat_add)
  qed
qed



section \<open>smartCreate\<close>

lemma createSingleDir_creates:
  assumes "mkdir_works os" and "dir \<noteq> []" and "last dir \<noteq> CHR ''/''"
    and "\<forall>q. enclosing dir q \<longrightarrow> folders (disk w) q" and "file_of w dir = None"
  shows "\<exists>w'. createSingleDir os dir w = (Inr True, w') \<and> files (disk w') = files (disk w) \<and>
    folders (disk w') = (folders (disk w))(dir := True)"
proof -
  have "os_mkdir os dir (disk w)" using assms by (auto simp: mkdir_works_def)
  with assms show ?thesis by (auto simp: createSingleDir_def fun_upd_idem)
qed

lemma createSingleDir_grows:
  "dir \<noteq> [] \<Longrightarrow> \<exists>b w'. createSingleDir os dir w = (Inr b, w') \<and> files (disk w') = files (disk w) \<and>
     (\<forall>q. folders (disk w) q \<longrightarrow> folders (disk w') q)"
  by (auto simp: createSingleDir_def Let_def)

lemma enclosing_position:
  "enclosing p q \<Longrightarrow> length q < length p \<and> p ! length q = CHR ''/'' \<and> q = take (length q) p"
  by (auto simp: enclosing_def prefix_def nth_append)

lemma enclosing_take:
  assumes "enclosing (take n p) q"
  shows "enclosing p q \<and> length q < n"
proof -
  have "prefix (q @ ''/'') p" using assms take_is_prefix [of n p]
    by (auto simp: enclosing_def intro: prefix_order.trans)
  moreover have "length q < n" using enclosing_position [OF assms] by simp
  ultimately show ?thesis using assms by (simp add: enclosing_def)
qed

lemma smartCreate_loop_creates:
  assumes "mkdir_works os" and "\<forall>q. enclosing directory q \<longrightarrow> file_of w q = None"
    and "\<forall>q. enclosing directory q \<and> length q < cursor \<longrightarrow> folders (disk w) q" and "directory \<noteq> []"
  shows "\<exists>b w'. smartCreate_loop os directory cursor w = (Inr b, w') \<and> files (disk w') = files (disk w) \<and>
    (\<forall>q. folders (disk w) q \<or> enclosing directory q \<longrightarrow> folders (disk w') q)"
  using assms
proof (induction os directory cursor w rule: smartCreate_loop.induct)
  case (1 os directory cursor w)
  note first = std_find_char_first [where s = directory and c = "CHR ''/''" and pos = cursor]
  have known: "folders (disk w) q" if "enclosing directory q" "\<forall>k. cursor \<le> k \<and> k < m \<longrightarrow> directory ! k \<noteq> CHR ''/''"
    "length q < m" for q m
    using "1.prems"(3) that enclosing_position [OF that(1)] by (metis not_less)
  show ?case
  proof (cases "std_find directory ''/'' cursor")
    case None
    with first known [of _ "length directory"] have "folders (disk w) q" if "enclosing directory q" for q
      using enclosing_position [OF that] that by auto
    with None createSingleDir_grows [OF "1.prems"(4), of os w] show ?thesis
      by (subst smartCreate_loop.simps) auto
  next
    case (Some n)
    with first have n: "n < length directory" "directory ! n = CHR ''/''"
      "\<forall>k. cursor \<le> k \<and> k < n \<longrightarrow> directory ! k \<noteq> CHR ''/''" by auto
    show ?thesis
    proof (cases "n = 0")
      case True
      have "\<forall>q. enclosing directory q \<and> length q < n + 1 \<longrightarrow> folders (disk w) q"
        using True by (auto simp: enclosing_def)
      from "1.IH"(1) [OF Some True "1.prems"(1,2) this "1.prems"(4)] Some True show ?thesis
        by (simp add: smartCreate_loop.simps [of os directory cursor w])
    next
      case False
      let ?sub = "take n directory"
      have sub: "?sub \<noteq> []" using False n(1) by auto
      obtain b w1 where c: "createSingleDir os ?sub w = (Inr b, w1)" "files (disk w1) = files (disk w)"
        "\<forall>q. folders (disk w) q \<longrightarrow> folders (disk w1) q"
        using createSingleDir_grows [OF sub] by blast
      have new: "folders (disk w1) q" if q: "enclosing directory q" "length q < n + 1" for q
      proof (cases "length q < n")
        case True
        with known [OF q(1) n(3)] c(3) show ?thesis by blast
      next
        case False
        with q have q': "q = ?sub" using enclosing_position [OF q(1)] by (metis Suc_eq_plus1 less_antisym)
        with q(1) have "last ?sub \<noteq> CHR ''/''" "file_of w ?sub = None"
          using "1.prems"(2) by (auto simp: enclosing_def)
        moreover have "\<forall>r. enclosing ?sub r \<longrightarrow> folders (disk w) r"
          using known [OF _ n(3)] enclosing_take by blast
        ultimately obtain w2 where "createSingleDir os ?sub w = (Inr True, w2)" "folders (disk w2) ?sub"
          using createSingleDir_creates [OF "1.prems"(1) sub] by fastforce
        with c(1) q' show ?thesis by simp
      qed
      have "\<forall>q. enclosing directory q \<longrightarrow> file_of w1 q = None" using "1.prems"(2) c(2) by simp
      from "1.IH"(2) [OF Some False c(1) [symmetric] refl "1.prems"(1) this _ "1.prems"(4)] new
      obtain b' w' where "smartCreate_loop os directory (n + 1) w1 = (Inr b', w')"
        "files (disk w') = files (disk w1)"
        "\<forall>q. folders (disk w1) q \<or> enclosing directory q \<longrightarrow> folders (disk w') q" by blast
      with Some False c show ?thesis by (subst smartCreate_loop.simps) auto
    qed
  qed
qed

text \<open>C38. \<open>smartCreate\<close> makes the whole chain of folders of a path, outermost first:
  if \<open>mkdir\<close> works wherever the enclosing folders are there and no file has the
  name of one of them, afterwards every enclosing folder of the path exists, no
  file has changed and no folder is gone.
\<close>

theorem smartCreate_creates:
  assumes "mkdir_works os" and "directory \<noteq> []"
    and "\<forall>q. enclosing directory q \<longrightarrow> file_of w q = None"
  shows "\<exists>b w'. smartCreate os directory w = (Inr b, w') \<and> files (disk w') = files (disk w) \<and>
    (\<forall>q. folders (disk w) q \<or> enclosing directory q \<longrightarrow> folders (disk w') q)"
  using smartCreate_loop_creates [OF assms(1,3) _ assms(2), where cursor = 0] by (simp add: smartCreate_def)

theorem smartCreate_creates_witness:
  "\<exists>b w'. smartCreate (demo_os (\<lambda>argv env d. (Inl 2, d))) ''out/a/'' blank_world = (Inr b, w') \<and>
     folders (disk w') ''out'' \<and> folders (disk w') ''out/a''"
proof -
  have "mkdir_works (demo_os (\<lambda>argv env d. (Inl 2, d)))" by (simp add: mkdir_works_def demo_os_def)
  moreover have "enclosing ''out/a/'' ''out''" "enclosing ''out/a/'' ''out/a''" by (simp_all add: enclosing_def)
  moreover have "\<forall>q. enclosing ''out/a/'' q \<longrightarrow> file_of blank_world q = None" by (simp add: blank_world_def)
  ultimately show ?thesis
    using smartCreate_creates [of "demo_os (\<lambda>argv env d. (Inl 2, d))" "''out/a/''" blank_world] by blast
qed

end
