(* ===== verification/Human.thy ===== *)
theory Human
  imports Backup_Prelude
begin

text \<open>
  \<open>humanize\<close> of \<open>ctrlcenter2/tinyhuman.h\<close>: the size of a file set with a unit.
  The cursor \<open>prefixp\<close> walks the array \<open>" KMGTPE"\<close>; reading behind its NUL would
  be undefined behaviour.
\<close>

section \<open>Definitions\<close>

definition prefixes :: string where
  "prefixes = '' KMGTPE'' @ [CHR 0x00]"

text \<open>The \<open>while\<close> loop: the number, the fraction and the position of \<open>prefixp\<close>.\<close>

function humanize_loop :: "nat \<Rightarrow> nat \<Rightarrow> nat \<Rightarrow> (nat \<times> nat \<times> nat) result" where
  "humanize_loop i d prefixp =
     (if 1024 < i then
        (if length prefixes \<le> prefixp then Inl Undefined
         else if prefixes ! prefixp \<noteq> CHR 0x00
         then humanize_loop (i div 1024) ((i mod 1024) div 10) (Suc prefixp)
         else Inr (i, d, Suc prefixp))
      else Inr (i, d, prefixp))"
  by pat_completeness auto
termination
  by (relation "measure (\<lambda>(i, d, p). i)") auto

declare humanize_loop.simps [simp del]

definition humanize :: "u64 \<Rightarrow> string \<Rightarrow> string result" where
  "humanize num sfx =
     ebind (humanize_loop (unat num) 0 0) (\<lambda>(i, d, prefixp).
       if length prefixes \<le> prefixp then Inl Undefined
       else if 0 < d then Inr (to_string i @ ''.'' @ to_string d @ sfx @ [prefixes ! prefixp])
       else Inr (to_string i @ sfx @ [prefixes ! prefixp]))"

section \<open>The unit and the number\<close>

lemma prefixes_nonzero: "p \<le> 6 \<Longrightarrow> prefixes ! p \<noteq> CHR 0x00 \<and> p < length prefixes"
proof -
  assume "p \<le> 6"
  then consider "p = 0" | "p = 1" | "p = 2" | "p = 3" | "p = 4" | "p = 5" | "p = 6" by linarith
  then show ?thesis by cases (simp_all add: prefixes_def)
qed

lemma humanize_loop_spec:
  assumes "i = num div 1024 ^ p" and "num < 1024 ^ 7" and "d \<le> 102" and "p \<le> 6"
    and "p = 0 \<or> 0 < i"
  shows "\<exists>i' d' p'. humanize_loop i d p = Inr (i', d', p') \<and> i' = num div 1024 ^ p' \<and> i' \<le> 1024 \<and>
    d' \<le> 102 \<and> p' \<le> 6 \<and> (p' = 0 \<or> 0 < i')"
  using assms
proof (induction i d p rule: humanize_loop.induct)
  case (1 i d p)
  show ?case
  proof (cases "1024 < i")
    case False
    then have "humanize_loop i d p = Inr (i, d, p)" by (simp add: humanize_loop.simps [of i d p])
    then show ?thesis using "1.prems" False by (intro exI [of _ i] exI [of _ d] exI [of _ p]) simp
  next
    case True
    have p: "p \<noteq> 6"
    proof
      assume "p = 6"
      with "1.prems"(1,2) have "i < 1024" by (simp add: less_mult_imp_div_less)
      with True show False by simp
    qed
    with "1.prems"(4) have p5: "Suc p \<le> 6" by simp
    have "i div 1024 = num div 1024 ^ Suc p"
      using "1.prems"(1) by (simp add: div_mult2_eq [symmetric] mult.commute)
    moreover have "(i mod 1024) div 10 \<le> 102"
    proof -
      have "i mod 1024 < 1024" by simp
      then have "(i mod 1024) div 10 < 103" by (simp add: less_mult_imp_div_less)
      then show ?thesis by simp
    qed
    moreover have "0 < i div 1024" using True by (simp add: div_greater_zero_iff)
    ultimately show ?thesis
      using "1.IH" [OF True] prefixes_nonzero [OF "1.prems"(4)] "1.prems"(2) True p5
      by (simp add: humanize_loop.simps [of i d p] not_le)
  qed
qed

lemma humanize_loop_u64:
  "\<exists>i d u. humanize_loop (unat (num :: u64)) 0 0 = Inr (i, d, u) \<and> i = unat num div 1024 ^ u \<and> i \<le> 1024 \<and> d \<le> 102 \<and> u \<le> 6"
proof -
  have "unat num < 2 ^ 64" using unsigned_less [of num] by simp
  then have "unat num < 1024 ^ 7" by (rule less_trans) simp
  from humanize_loop_spec [OF _ this, of "unat num" 0 0] show ?thesis by auto
qed

lemma humanize_returns: "\<exists>r. humanize num s = Inr r"
  using humanize_loop_u64 [of num] prefixes_nonzero by (force simp: humanize_def)

text \<open>For every 64-bit size \<open>humanize\<close> returns (the cursor never leaves the
  array): the printed number is the size divided by \<open>1024^u\<close>, rounded down and
  at most 1024, with the \<open>u\<close>-th of the seven units; the digits behind the point
  are the next remainder divided by ten, a number up to 102.
\<close>

theorem humanize_correct:
  "\<exists>u i d. u \<le> 6 \<and> i = unat num div 1024 ^ u \<and> i \<le> 1024 \<and> d \<le> 102 \<and>
     humanize num s = Inr (to_string i @ (if 0 < d then ''.'' @ to_string d else []) @ s @ [prefixes ! u])"
proof -
  from humanize_loop_u64 [of num] obtain i d u where
    "humanize_loop (unat num) 0 0 = Inr (i, d, u)" "i = unat num div 1024 ^ u" "i \<le> 1024" "d \<le> 102" "u \<le> 6"
    by auto
  then show ?thesis
    using prefixes_nonzero [of u] by (intro exI [of _ u] exI [of _ i] exI [of _ d]) (simp add: humanize_def)
qed

end
