(* ===== verification/CtrlCenter.thy ===== *)
theory CtrlCenter
  imports Dirs Human
begin

text \<open>
  The three modes of \<open>ctrlcenter2.cpp\<close> and its \<open>main\<close>.  Tasks handed to the
  thread pool with \<open>quickpool::async\<close> run in the order a schedule gives, each as
  one step on the world; the calling thread waits until the pool is done and
  then collects the results by index.  The schedule is a parameter: theorems
  hold for every order of the tasks.  What the command line gave is the record
  \<open>args\<close> (parsing it is \<open>argtable3\<close>'s work).
\<close>

section \<open>Definitions\<close>

text \<open>
  Running the tasks of one batch: the results are put where their futures are,
  and \<open>get\<close> on a future whose task never ran waits forever.
\<close>

fun run_schedule :: "('a \<Rightarrow> 'b io) \<Rightarrow> 'a list \<Rightarrow> nat list \<Rightarrow> 'b option list \<Rightarrow> 'b option list io" where
  "run_schedule task xs [] results = iret results"
| "run_schedule task xs (i # is) results =
     ibind (task (xs ! i)) (\<lambda>r. run_schedule task xs is (results[i := Some r]))"

definition async_all :: "(nat \<Rightarrow> nat list) \<Rightarrow> ('a \<Rightarrow> 'b io) \<Rightarrow> 'a list \<Rightarrow> 'b list io" where
  "async_all schedule task xs =
     ibind (run_schedule task xs (schedule (length xs)) (replicate (length xs) None)) (\<lambda>results.
       if None \<in> set results then ifail Diverges else iret (map the results))"

definition valid_schedule :: "(nat \<Rightarrow> nat list) \<Rightarrow> bool" where
  "valid_schedule schedule \<longleftrightarrow> (\<forall>n. distinct (schedule n) \<and> set (schedule n) = {..<n})"

text \<open>The folder scans of \<open>createOrUpdateArchive\<close>: the files found and their size.\<close>

definition scanFolder :: "os \<Rightarrow> string \<Rightarrow> (string list \<times> u64) io" where
  "scanFolder os folder w =
     (case scan_loop os (disk w) [folder] [] 0 [] of
        None \<Rightarrow> (Inl Diverges, w)
      | Some (filesToProcess, setSize, lines) \<Rightarrow>
          (Inr (filesToProcess, setSize), w\<lparr>console := console w @ lines\<rparr>))"

definition foundLine :: "nat \<Rightarrow> u64 \<Rightarrow> unit io" where
  "foundLine n setSize =
     ibind (ilift (humanize setSize '' '')) (\<lambda>h.
       printf (''   found '' @ to_string n @ '' files ('' @ h @ '' / '' @ to_string (unat setSize) @ '' bytes)''))"

text \<open>The loop that parses the output of the hash tool; \<open>c_str()\<close> ends the text with a NUL.\<close>

fun parseResults :: "FileHashes \<Rightarrow> string list \<Rightarrow> FileHashes result" where
  "parseResults filesHashes [] = Inr filesHashes"
| "parseResults filesHashes (res # results) =
     ebind (parseBuffer filesHashes (res @ [CHR 0x00]) (length res)) (\<lambda>h. parseResults h results)"

text \<open>The loop that creates the folders of the new and changed files.\<close>

fun createFolders :: "Configuration \<Rightarrow> os \<Rightarrow> (FileEntry \<times> CompareResult) list \<Rightarrow> string \<Rightarrow> unit io" where
  "createFolders cfg os [] cachedDir = iret ()"
| "createFolders cfg os ((entry, cmp) # rest) cachedDir =
     (if cmp \<noteq> eSame then
        ibind (ilift (extractFolderFromFilePath (mPath entry))) (\<lambda>extractedFolder.
          if cachedDir \<noteq> extractedFolder then
            (let folder = outputFolder cfg @ eraseUnittestPath (unittestPath cfg) extractedFolder
             in if dryRunFlag cfg
                then ibind (printf (''would now create dir '' @ folder)) (\<lambda>_.
                       createFolders cfg os rest extractedFolder)
                else ibind (smartCreate os folder) (\<lambda>_. createFolders cfg os rest extractedFolder))
          else createFolders cfg os rest cachedDir)
      else createFolders cfg os rest cachedDir)"

text \<open>The compression tasks with the counter for their temporary files.\<close>

definition compressTasks :: "FileHashes \<Rightarrow> CompareResult list \<Rightarrow> (string \<times> nat) list" where
  "compressTasks filesHashes compare =
     (let changed = map (mPath \<circ> fst) (filter (\<lambda>(e, c). c \<noteq> eSame) (zip filesHashes compare))
      in zip changed [0 ..< length changed])"

definition createOrUpdateArchive :: "os \<Rightarrow> (nat \<Rightarrow> nat list) \<Rightarrow> Configuration \<Rightarrow> Configuration io" where
  "createOrUpdateArchive os schedule cfg0 =
     ibind (readFileHashes cfg0 os (databaseFilename cfg0)) (\<lambda>(loaded, db).
     let cfg = cfg0\<lparr>database := db\<rparr> in
     ibind (printf (if loaded
        then ''- loaded available database ('' @ to_string (getNumberEntries db) @ '' entries)''
        else ''- no database found, start with new one'')) (\<lambda>_.
     ibind (printf ''- scan for files'') (\<lambda>_.
     ibind (scanFolder os (inputFolder cfg)) (\<lambda>(filesToProcess, inputSetSize).
     ibind (foundLine (length filesToProcess) inputSetSize) (\<lambda>_.
     ibind (printf ''- generate hashes for all input files'') (\<lambda>_.
     ibind (async_all schedule (hashFile cfg os) filesToProcess) (\<lambda>results.
     ibind (ilift (parseResults [] results)) (\<lambda>filesHashes.
     let compare = compareToFileHashes filesHashes (database cfg) in
     ibind (printf ''- create output folder structure'') (\<lambda>_.
     ibind (createFolders cfg os (zip filesHashes compare) '''') (\<lambda>_.
     ibind (printf ''- compress changed files to output folder'') (\<lambda>_.
     ibind (async_all schedule (\<lambda>(inputFilename, tempCounter). compressFile cfg os inputFilename tempCounter)
              (compressTasks filesHashes compare)) (\<lambda>_.
     ibind (printf ''- scan for outputfiles'') (\<lambda>_.
     ibind (scanFolder os (outputFolder cfg)) (\<lambda>(_, outputSetSize).
     ibind (foundLine (length filesToProcess) outputSetSize) (\<lambda>_.
     ibind (printf ''- writing filehashes.txt'') (\<lambda>_.
     ibind (if dryRunFlag cfg
            then ibind (printf ''would now write filehash.txt to output folder'') (\<lambda>_. iret False)
            else saveFileHashes cfg os filesHashes (outputFolder cfg @ ''filehashes.txt'')) (\<lambda>_.
     let cfg = cfg\<lparr>database := mergeUpdates (database cfg) filesHashes\<rparr> in
     ibind (printf ''- writing new database file'') (\<lambda>_.
     if dryRunFlag cfg
     then ibind (printf ''would now write new database'') (\<lambda>_. iret cfg)
     else
       let cfg = cfg\<lparr>database := mergeUpdates (database cfg) filesHashes\<rparr> in
       ibind (saveFileHashes cfg os (database cfg) (databaseFilename cfg)) (\<lambda>saved.
         if saved = False
         then ibind (printf ''ERROR during writing database file!'') (\<lambda>_. iret cfg)
         else iret cfg)))))))))))))))))))"

text \<open>The comparison at the end of \<open>verifyArchive\<close>: the second word of a result is the hash.\<close>

definition computedHash :: "string \<Rightarrow> string" where
  "computedHash filehashComputed =
     (let startToken = filehashComputed @ [CHR 0x00];
          readCursor = skipNonWhitespace startToken;
          startToken = skipWhitespace readCursor;
          readCursor = skipNonWhitespace startToken
      in span startToken readCursor)"

definition mismatchLine :: "FileEntry \<Rightarrow> string \<Rightarrow> string" where
  "mismatchLine entry hashValue =
     ''ERROR: hash mismatch found! '' @ c_str (mPath entry) @ '' : <'' @ c_str (mHashValue entry) @ ''> <'' @
     c_str hashValue @ ''>''"

fun compareHashes :: "FileHashes \<Rightarrow> string list \<Rightarrow> unit io" where
  "compareHashes (entry # entries) (res # results) =
     ibind (if mHashValue entry \<noteq> computedHash res
            then printf (mismatchLine entry (computedHash res)) else iret ()) (\<lambda>_.
       compareHashes entries results)"
| "compareHashes _ _ = iret ()"

definition verifyArchive :: "os \<Rightarrow> (nat \<Rightarrow> nat list) \<Rightarrow> Configuration \<Rightarrow> unit io" where
  "verifyArchive os schedule cfg =
     ibind (readFileHashes cfg os (inputFolder cfg @ ''filehashes.txt'')) (\<lambda>(_, filehashes).
     ibind (printf (''- number of fileentries to check: '' @ to_string (getNumberEntries filehashes))) (\<lambda>_.
     ibind (printf ''- generate hashes for all input files'') (\<lambda>_.
     ibind (async_all schedule (\<lambda>entry. decompressFile cfg os (inputFolder cfg @ mPath entry)) filehashes) (\<lambda>results.
     ibind (printf ''- comparing hashes'') (\<lambda>_.
     ibind (compareHashes filehashes results) (\<lambda>_.
     printf ''- finished comparing hashes''))))))"

definition mergeFilelistToDatabase :: "os \<Rightarrow> Configuration \<Rightarrow> Configuration io" where
  "mergeFilelistToDatabase os cfg0 =
     ibind (readFileHashes cfg0 os (inputFolder cfg0 @ ''filehashes.txt'')) (\<lambda>(_, filehashes).
     ibind (printf (''- number database entries BEFORE update: '' @ to_string (getNumberEntries (database cfg0)))) (\<lambda>_.
     let cfg = cfg0\<lparr>database := mergeUpdates (database cfg0) filehashes\<rparr> in
     ibind (printf (''- number database entries AFTER update: '' @ to_string (getNumberEntries (database cfg)))) (\<lambda>_.
     ibind (printf ''- writing new database file'') (\<lambda>_.
     if dryRunFlag cfg
     then ibind (printf ''would now write new database'') (\<lambda>_. iret cfg)
     else ibind (saveFileHashes cfg os (database cfg) (databaseFilename cfg)) (\<lambda>saved.
            if saved = False
            then ibind (printf ''ERROR during writing database file!'') (\<lambda>_. iret cfg)
            else iret cfg)))))"

text \<open>
  What \<open>arg_parse\<close> leaves behind: the number of errors, the counts of the
  flags and the values of the options.  The value of a missing \<open>-o\<close> is the empty
  string, which \<open>main\<close> uses without asking for the count.
\<close>

record args =
  numberArgErrors :: nat
  usageLines :: "string list"
  errorLines :: "string list"
  helpFlag :: bool
  inputDir :: string
  outputDir :: string
  tools :: "string option"
  databaseArg :: "string option"
  createFlag :: bool
  verifyFlag :: bool
  mergeFlag :: bool
  unittestpathArg :: "string option"
  dryFlag :: bool

definition printLines :: "string list \<Rightarrow> unit io" where
  "printLines ls w = (Inr (), w\<lparr>console := console w @ ls\<rparr>)"

definition configure :: "os \<Rightarrow> args \<Rightarrow> Configuration result" where
  "configure os a =
     ebind (normalizeDirPath (inputDir a)) (\<lambda>inDir.
     ebind (normalizeDirPath (outputDir a)) (\<lambda>outDir.
     ebind (case tools a of None \<Rightarrow> Inr ''bin_lnx64_release'' | Some t \<Rightarrow> normalizeDirPath t) (\<lambda>toolsDir.
     ebind (case databaseArg a of None \<Rightarrow> Inr ''database.txt'' | Some f \<Rightarrow> normalizeFilePath f) (\<lambda>dbFile.
     ebind (case unittestpathArg a of None \<Rightarrow> Inr '''' | Some u \<Rightarrow> normalizeDirPath u) (\<lambda>unitPath.
     ebind (normalizeDirPath (getTemporaryFolder os)) (\<lambda>tmpDir.
     Inr \<lparr>inputFolder = inDir, outputFolder = outDir, toolsFolder = toolsDir, temporaryFolder = tmpDir,
          databaseFilename = dbFile, unittestPath = unitPath, database = [], dryRunFlag = dryFlag a\<rparr>))))))"

definition dumpConfiguration :: "Configuration \<Rightarrow> unit io" where
  "dumpConfiguration cfg = printLines
     ['' BackupSuite - CtrlCenter2'',
      ''-=========================-'',
      ''inputFolder:      '' @ inputFolder cfg,
      ''outputFolder:     '' @ outputFolder cfg,
      ''toolsFolder:      '' @ toolsFolder cfg,
      ''temporaryFolder:  '' @ temporaryFolder cfg,
      ''databasefilename: '' @ databaseFilename cfg,
      ''unittestpath:     '' @ unittestPath cfg,
      ''dryrun:           '' @ (if dryRunFlag cfg then ''true'' else ''false'')]"

definition main :: "os \<Rightarrow> (nat \<Rightarrow> nat list) \<Rightarrow> args \<Rightarrow> int io" where
  "main os schedule a =
     (if helpFlag a then ibind (printLines (usageLines a)) (\<lambda>_. iret 0)
      else if 0 < numberArgErrors a
      then ibind (printLines (errorLines a @ [''try ctrlcenter2 --help for more information''])) (\<lambda>_. iret 1)
      else
        ibind (ilift (configure os a)) (\<lambda>cfg.
        ibind (dumpConfiguration cfg) (\<lambda>_.
        if verifyFlag a
        then ibind (printf ''*mode: verify archive(compare filelist to uncompressed files in archive)'') (\<lambda>_.
             ibind (verifyArchive os schedule cfg) (\<lambda>_. iret 0))
        else
          ibind (readFileHashes cfg os (databaseFilename cfg)) (\<lambda>(loaded, db).
          let cfg = cfg\<lparr>database := db\<rparr> in
          ibind (printf (if loaded
             then ''- read database '' @ databaseFilename cfg @ '' successfully, '' @
                  to_string (getNumberEntries db) @ '' entries''
             else ''- database '' @ databaseFilename cfg @ '' not found, start with blank one'')) (\<lambda>_.
          if createFlag a
          then ibind (printf ''*mode: create new archive'') (\<lambda>_.
               ibind (createOrUpdateArchive os schedule cfg) (\<lambda>_. iret 0))
          else if mergeFlag a
          then ibind (printf ''*mode: merge old filelist to database'') (\<lambda>_.
               ibind (mergeFilelistToDatabase os cfg) (\<lambda>_. iret 0))
          else iret 0)))))"

text \<open>An action that leaves the disk alone, whatever it returns.\<close>

definition keeps_disk :: "'a io \<Rightarrow> bool" where
  "keeps_disk m \<longleftrightarrow> (\<forall>w. disk (snd (m w)) = disk w)"

text \<open>The hash tool only reads: a spawn of \<open>meowhash\<close> leaves the disk as it is.\<close>

definition hash_tool_reads :: "os \<Rightarrow> Configuration \<Rightarrow> bool" where
  "hash_tool_reads os cfg \<longleftrightarrow>
     (\<forall>f env d. snd (os_posix_spawn os [toolsFolder cfg @ ''meowhash'', f, ''--nologo''] env d) = d)"

section \<open>The pool of tasks\<close>

lemma run_schedule_results:
  assumes "\<And>x w. x \<in> set xs \<Longrightarrow> I w \<Longrightarrow>
      \<exists>r w'. task x w = (Inr r, w') \<and> P x r \<and> I w' \<and> Q x w' \<and> (\<forall>y \<in> set xs. Q y w \<longrightarrow> Q y w')"
    and "I w" and "set is \<subseteq> {..<length xs}" and "length results = length xs"
  shows "\<exists>w' results'. run_schedule task xs is results w = (Inr results', w') \<and> I w' \<and>
    length results' = length xs \<and>
    (\<forall>i<length xs. (\<exists>r. results' ! i = Some r \<and> P (xs ! i) r) \<or> i \<notin> set is \<and> results' ! i = results ! i) \<and>
    (\<forall>i<length xs. i \<in> set is \<or> Q (xs ! i) w \<longrightarrow> Q (xs ! i) w')"
  using assms(2-)
proof (induction "is" arbitrary: w results)
  case Nil
  then show ?case by (simp add: iret_def)
next
  case (Cons i "is")
  then have i: "i < length xs" by simp
  with assms(1) [of "xs ! i" w] Cons.prems obtain r w1 where
    w1: "task (xs ! i) w = (Inr r, w1)" "P (xs ! i) r" "I w1" "Q (xs ! i) w1" "\<forall>y \<in> set xs. Q y w \<longrightarrow> Q y w1" by auto
  from Cons.IH [OF w1(3), of "results[i := Some r]"] Cons.prems obtain w2 results2 where
    2: "run_schedule task xs is (results[i := Some r]) w1 = (Inr results2, w2)" "I w2"
    "length results2 = length xs"
    "\<forall>j<length xs. (\<exists>r. results2 ! j = Some r \<and> P (xs ! j) r) \<or> j \<notin> set is \<and> results2 ! j = results[i := Some r] ! j"
    "\<forall>j<length xs. j \<in> set is \<or> Q (xs ! j) w1 \<longrightarrow> Q (xs ! j) w2"
    by auto
  have "(\<exists>r. results2 ! j = Some r \<and> P (xs ! j) r) \<or> j \<notin> set (i # is) \<and> results2 ! j = results ! j"
    if "j < length xs" for j
    using 2(4) that w1(2) Cons.prems(3) i by (cases "j = i") auto
  with 2 w1 i show ?case by (auto simp: ibind_def)
qed

text \<open>
  Tasks whose outcome does not depend on how the others have changed the world
  have it under every schedule; what one has established and no other destroys
  holds at the end.
\<close>

lemma async_all_results:
  assumes "valid_schedule schedule"
    and "\<And>x w. x \<in> set xs \<Longrightarrow> I w \<Longrightarrow>
      \<exists>r w'. task x w = (Inr r, w') \<and> P x r \<and> I w' \<and> Q x w' \<and> (\<forall>y \<in> set xs. Q y w \<longrightarrow> Q y w')" and "I w"
  shows "\<exists>results w'. async_all schedule task xs w = (Inr results, w') \<and> list_all2 P xs results \<and> I w' \<and>
    (\<forall>x \<in> set xs. Q x w')"
proof -
  have sched: "set (schedule (length xs)) = {..<length xs}"
    using assms(1) by (simp add: valid_schedule_def)
  from run_schedule_results [of xs I task P Q w "schedule (length xs)" "replicate (length xs) None"] assms(2,3) sched
  obtain w' results where run: "run_schedule task xs (schedule (length xs)) (replicate (length xs) None) w = (Inr results, w')"
    and inv: "I w'" and results: "length results = length xs" "\<forall>i<length xs. \<exists>r. results ! i = Some r \<and> P (xs ! i) r"
    and post: "\<forall>i<length xs. Q (xs ! i) w'"
    by auto
  from results have "None \<notin> set results" by (auto simp: in_set_conv_nth)
  moreover have "list_all2 P xs (map the results)"
    using results by (auto simp: list_all2_conv_all_nth)
  ultimately show ?thesis using run inv post by (auto simp: async_all_def ibind_def iret_def in_set_conv_nth)
qed

lemma list_all2_results: "list_all2 (\<lambda>x r. r = g x) xs rs \<longleftrightarrow> rs = map g xs"
  by (auto simp: list_all2_conv_all_nth intro: nth_equalityI)

lemma async_all_nil:
  assumes "valid_schedule schedule"
  shows "async_all schedule task [] w = (Inr [], w)"
proof -
  have "schedule 0 = []" using assms unfolding valid_schedule_def by (metis lessThan_0 set_empty)
  then show ?thesis by (simp add: async_all_def iret_def)
qed

section \<open>What the dry run may touch\<close>

named_theorems frame

lemma keeps_disk_ibind [frame]: "keeps_disk m \<Longrightarrow> (\<And>v. keeps_disk (f v)) \<Longrightarrow> keeps_disk (ibind m f)"
  by (auto simp: keeps_disk_def intro!: ibind_disk)

lemma keeps_disk_basic [frame]:
  "keeps_disk (iret v)" "keeps_disk (ifail e)" "keeps_disk (ilift r)" "keeps_disk (printf s)"
  by (simp_all add: keeps_disk_def iret_def ifail_def ilift_def printf_def)

lemma keeps_disk_if [frame]: "(b \<Longrightarrow> keeps_disk m) \<Longrightarrow> (\<not> b \<Longrightarrow> keeps_disk n) \<Longrightarrow> keeps_disk (if b then m else n)"
  by simp

lemma keeps_disk_prod [frame]: "(\<And>a b. p = (a, b) \<Longrightarrow> keeps_disk (f a b)) \<Longrightarrow> keeps_disk (case p of (a, b) \<Rightarrow> f a b)"
  by (cases p) simp

lemma keeps_disk_run_schedule [frame]: "(\<And>x. keeps_disk (task x)) \<Longrightarrow> keeps_disk (run_schedule task xs is results)"
  by (induction "is" arbitrary: results) (auto intro!: frame)

lemma keeps_disk_async_all [frame]: "(\<And>x. keeps_disk (task x)) \<Longrightarrow> keeps_disk (async_all schedule task xs)"
  unfolding async_all_def by (intro frame)

lemma keeps_disk_readFileHashes [frame]: "keeps_disk (readFileHashes cfg os f)"
  by (auto simp: keeps_disk_def readFileHashes_def split: option.split)

lemma keeps_disk_scanFolder [frame]: "keeps_disk (scanFolder os folder)"
  by (auto simp: keeps_disk_def scanFolder_def split: option.split)

lemma keeps_disk_foundLine [frame]: "keeps_disk (foundLine n s)"
  unfolding foundLine_def by (intro frame)

lemma keeps_disk_hashFile: "hash_tool_reads os cfg \<Longrightarrow> keeps_disk (hashFile cfg os f)"
  using runSubprocess_disk [of os "[toolsFolder cfg @ ''meowhash'', f, ''--nologo'']"]
  unfolding hashFile_def Let_def
  by (intro frame) (auto simp: keeps_disk_def hash_tool_reads_def)

lemma keeps_disk_createFolders:
  "dryRunFlag cfg \<Longrightarrow> keeps_disk (createFolders cfg os ecs cached)"
  by (induction cfg os ecs cached rule: createFolders.induct) (auto simp: Let_def intro!: frame)

lemma keeps_disk_compressFile: "dryRunFlag cfg \<Longrightarrow> keeps_disk (compressFile cfg os f n)"
  unfolding compressFile_def Let_def by (simp add: frame)

lemma keeps_disk_createOrUpdateArchive:
  assumes "dryRunFlag cfg" and "hash_tool_reads os cfg"
  shows "keeps_disk (createOrUpdateArchive os schedule cfg)"
proof -
  have "hash_tool_reads os (cfg\<lparr>database := db\<rparr>)" for db
    using assms(2) by (simp add: hash_tool_reads_def)
  then show ?thesis
    unfolding createOrUpdateArchive_def Let_def
    by (intro frame keeps_disk_hashFile keeps_disk_createFolders keeps_disk_compressFile) (auto simp: assms(1))
qed

lemma ibind_ilift_Inr: "ibind (ilift (Inr v)) f = f v"
  by (rule ext) simp

lemma keeps_disk_printLines [frame]: "keeps_disk (printLines ls)"
  by (simp add: keeps_disk_def printLines_def)

lemma keeps_disk_merge: "dryRunFlag cfg \<Longrightarrow> keeps_disk (mergeFilelistToDatabase os cfg)"
  unfolding mergeFilelistToDatabase_def Let_def by (intro frame) (auto simp: frame)

lemma configure_dryRun: "configure os a = Inr cfg \<Longrightarrow> dryRunFlag cfg = dryFlag a"
  by (auto simp: configure_def ebind_eq_Inr)

text \<open>C5. A dry run writes nothing: with \<open>--dryrun\<close> and without \<open>-v\<close>, whatever the
  command line, the database and the input are, for every order of the tasks,
  and even when the run ends in an error, the disk is afterwards what it was,
  provided only that the hash tool does not write.
\<close>

theorem dry_run_writes_nothing:
  assumes "dryFlag a" and "\<not> verifyFlag a"
    and "\<forall>cfg. configure os a = Inr cfg \<longrightarrow> hash_tool_reads os cfg"
  shows "disk (snd (main os schedule a w)) = disk w"
proof (cases "configure os a")
  case (Inl e)
  then show ?thesis by (simp add: main_def printLines_def ibind_def iret_def ilift_def)
next
  case (Inr cfg)
  have cfg: "dryRunFlag cfg" "hash_tool_reads os cfg"
    using assms configure_dryRun [OF Inr] Inr by auto
  have "hash_tool_reads os (cfg\<lparr>database := db\<rparr>)" for db
    using cfg by (simp add: hash_tool_reads_def)
  then have "keeps_disk (main os schedule a)"
    unfolding main_def Inr Let_def dumpConfiguration_def ibind_ilift_Inr
    using cfg assms(2)
    by (auto intro!: frame keeps_disk_merge keeps_disk_createOrUpdateArchive)
  then show ?thesis by (simp add: keeps_disk_def)
qed

theorem dry_run_writes_nothing_witness:
  "disk (snd (main demo_listing (\<lambda>n. [0..<n])
     \<lparr>numberArgErrors = 0, usageLines = [], errorLines = [], helpFlag = False, inputDir = ''in'',
      outputDir = ''out'', tools = Some ''bin'', databaseArg = None, createFlag = True, verifyFlag = False,
      mergeFlag = False, unittestpathArg = None, dryFlag = True\<rparr> blank_world)) = disk blank_world"
  by (rule dry_run_writes_nothing) (simp_all add: hash_tool_reads_def demo_listing_def demo_os_def)

end
