(* ===== verification/Backup_Runs.thy ===== *)
theory Backup_Runs
  imports CtrlCenter
begin

text \<open>
  What whole runs of the program achieve: a backup stores every new or changed
  file and records it in the database, the next run over the same files finds
  nothing to do, and a verification run reports exactly the archives that do not
  give back what was hashed.  The external tools are parameters; what the runs
  rely on is that the hash tool prints one line per file and writes nothing, and
  that the archivers write the archive (the restored file) they are asked for.
\<close>

section \<open>Definitions\<close>

definition archiveName :: "Configuration \<Rightarrow> string \<Rightarrow> string" where
  "archiveName cfg f =
     compressOutputName cfg f @ archiveSuffix (toLower (extractFileExtensionFromFilePatch f))"

definition hashLine :: "string \<Rightarrow> string \<Rightarrow> string" where
  "hashLine h f = ''MeowHash '' @ h @ '' '' @ f"

text \<open>Paths are shorter than \<open>PATH_MAX\<close>.\<close>

definition path_max :: nat where
  "path_max = 4096"

definition hash_tool :: "os \<Rightarrow> Configuration \<Rightarrow> (string \<Rightarrow> string) \<Rightarrow> bool" where
  "hash_tool os cfg hash \<longleftrightarrow>
     (\<forall>f d c. files d f = Some c \<and> length f < path_max \<longrightarrow>
        (\<exists>ch. os_posix_spawn os [toolsFolder cfg @ ''meowhash'', f, ''--nologo''] (os_environ os) d = (Inr ch, d) \<and>
           child_ends os ch \<and> run_ok ch \<and> stdout_text ch = hashLine (hash c) f))"

definition pack_tool :: "os \<Rightarrow> Configuration \<Rightarrow> (string \<Rightarrow> string) \<Rightarrow> string \<Rightarrow> bool" where
  "pack_tool os cfg pack f \<longleftrightarrow>
     (\<forall>n d c. files d f = Some c \<longrightarrow>
        (\<exists>ch. os_posix_spawn os (compressCommand cfg (toLower (extractFileExtensionFromFilePatch f)) f
                 (compressOutputName cfg f) n) (os_environ os) d
             = (Inr ch, d\<lparr>files := (files d)(archiveName cfg f \<mapsto> pack c)\<rparr>) \<and>
           child_ends os ch \<and> run_ok ch))"

definition unpack_tool :: "os \<Rightarrow> Configuration \<Rightarrow> (string \<Rightarrow> string) \<Rightarrow> string \<Rightarrow> bool" where
  "unpack_tool os cfg unpack f \<longleftrightarrow>
     (\<forall>d a. files d (f @ archiveSuffix (toLower (extractFileExtensionFromFilePatch f))) = Some a \<longrightarrow>
        (\<exists>ch. os_posix_spawn os (fst (decompressCommand cfg (toLower (extractFileExtensionFromFilePatch f)) f
                 (temporaryFolder cfg @ f))) (os_environ os) d
             = (Inr ch, d\<lparr>files := (files d)(temporaryFolder cfg @ f \<mapsto> unpack a)\<rparr>) \<and>
           child_ends os ch \<and> run_ok ch))"

text \<open>The entry a run makes of a file, and what its name and hash must be like.\<close>

definition entryOf :: "(string \<Rightarrow> string) \<Rightarrow> disk \<Rightarrow> string \<Rightarrow> FileEntry" where
  "entryOf hash d f = \<lparr>mHashFunc = ''MeowHash'', mHashValue = hash (the (files d f)), mPath = f\<rparr>"

definition hashable :: "Configuration \<Rightarrow> (string \<Rightarrow> string) \<Rightarrow> disk \<Rightarrow> string \<Rightarrow> bool" where
  "hashable cfg hash d f \<longleftrightarrow> files d f \<noteq> None \<and> wf_path f \<and>
     wf_stored (unittestPath cfg) (entryOf hash d f) \<and> length (hashLine (hash (the (files d f))) f) \<le> 127"

text \<open>No input file is one of the files the run writes, and those are different.\<close>

definition separate :: "Configuration \<Rightarrow> string list \<Rightarrow> bool" where
  "separate cfg fs \<longleftrightarrow>
     (\<forall>f \<in> set fs. archiveName cfg f \<notin> set fs \<and> archiveName cfg f \<noteq> databaseFilename cfg \<and>
        archiveName cfg f \<noteq> outputFolder cfg @ ''filehashes.txt'') \<and>
     databaseFilename cfg \<notin> set fs \<and> outputFolder cfg @ ''filehashes.txt'' \<notin> set fs \<and>
     databaseFilename cfg \<noteq> outputFolder cfg @ ''filehashes.txt''"

text \<open>
  The setting of a backup: a working system, the tools, an input folder that the
  scan reads as the files \<open>fs\<close> as long as these files are there, an output
  folder whose scan ends.
\<close>

definition backup_setting :: "os \<Rightarrow> Configuration \<Rightarrow> (string \<Rightarrow> string) \<Rightarrow> (string \<Rightarrow> string) \<Rightarrow>
    string list \<Rightarrow> u64 \<Rightarrow> disk \<Rightarrow> bool" where
  "backup_setting os cfg hash pack fs sz d0 \<longleftrightarrow>
     os_healthy os \<and> hash_tool os cfg hash \<and> (\<forall>f \<in> set fs. pack_tool os cfg pack f) \<and>
     (\<forall>p d. os_fopen_w os p d) \<and> distinct fs \<and> (\<forall>f \<in> set fs. hashable cfg hash d0 f) \<and> separate cfg fs \<and>
     (\<forall>d. (\<forall>f \<in> set fs. files d f = files d0 f) \<longrightarrow>
        scan_loop os d [inputFolder cfg] [] 0 [] = Some (fs, sz, [])) \<and>
     (\<forall>d. \<exists>r. scan_loop os d [outputFolder cfg] [] 0 [] = Some r) \<and>
     outputFolder cfg \<noteq> [] \<and> \<not> dryRunFlag cfg"

text \<open>
  The setting of a verification of the entries \<open>es\<close>: their archives are there,
  can be unpacked to temporary files that are no archives, and hashes are words
  of a length the result line has room for.
\<close>

definition archiveOf :: "Configuration \<Rightarrow> FileEntry \<Rightarrow> string" where
  "archiveOf cfg e =
     (let f = inputFolder cfg @ mPath e in f @ archiveSuffix (toLower (extractFileExtensionFromFilePatch f)))"

definition tempOf :: "Configuration \<Rightarrow> FileEntry \<Rightarrow> string" where
  "tempOf cfg e = temporaryFolder cfg @ inputFolder cfg @ mPath e"

definition verify_setting :: "os \<Rightarrow> Configuration \<Rightarrow> (string \<Rightarrow> string) \<Rightarrow> (string \<Rightarrow> string) \<Rightarrow>
    FileEntry list \<Rightarrow> world \<Rightarrow> bool" where
  "verify_setting os cfg hash unpack es w \<longleftrightarrow>
     os_healthy os \<and> hash_tool os cfg hash \<and>
     file_of w (inputFolder cfg @ ''filehashes.txt'') = Some (saveText (unittestPath cfg) es) \<and>
     (\<forall>e \<in> set es. wf_stored (unittestPath cfg) e \<and> unpack_tool os cfg unpack (inputFolder cfg @ mPath e) \<and>
        file_of w (archiveOf cfg e) \<noteq> None \<and> archiveOf cfg e \<notin> tempOf cfg ` set es \<and>
        length (tempOf cfg e) < path_max) \<and>
     (\<forall>c. wf_token (hash c) \<and> length (hash c) \<le> 117)"

definition restoredHash :: "Configuration \<Rightarrow> (string \<Rightarrow> string) \<Rightarrow> (string \<Rightarrow> string) \<Rightarrow> world \<Rightarrow> FileEntry \<Rightarrow> string" where
  "restoredHash cfg hash unpack w e = hash (unpack (the (file_of w (archiveOf cfg e))))"

text \<open>The database file on disk is either missing or the text form of the entries \<open>db\<close>.\<close>

definition database_on_disk :: "Configuration \<Rightarrow> FileHashes \<Rightarrow> world \<Rightarrow> bool" where
  "database_on_disk cfg db w \<longleftrightarrow>
     (case file_of w (databaseFilename cfg) of
        None \<Rightarrow> db = []
      | Some t \<Rightarrow> t = saveText (unittestPath cfg) db \<and> (\<forall>e \<in> set db. wf_stored (unittestPath cfg) e))"

text \<open>An action returns, and the postcondition holds of its value and the new world.\<close>

definition returns :: "'a io \<Rightarrow> world \<Rightarrow> ('a \<Rightarrow> world \<Rightarrow> bool) \<Rightarrow> bool" where
  "returns m w P \<longleftrightarrow> (\<exists>v w'. m w = (Inr v, w') \<and> P v w')"

text \<open>
  A concrete system for the witnesses: one input file \<open>in/a.txt\<close>, a hash tool
  and an archiver that puts a letter in front of the content.
\<close>

definition demo_hash :: "string \<Rightarrow> string" where
  "demo_hash c = (if c = ''abc'' then ''1F'' else ''00'')"

definition demo_child :: "string \<Rightarrow> child" where
  "demo_child out = \<lparr>wait_ok = True, exited = True, exit_status = 0, stdout_text = out, stderr_text = []\<rparr>"

definition demo_spawn :: "string list \<Rightarrow> string list \<Rightarrow> disk \<Rightarrow> (nat + child) \<times> disk" where
  "demo_spawn argv env d =
     (if hd argv = ''bin/meowhash'' then
        (case files d (argv ! 1) of
           None \<Rightarrow> (Inl 2, d)
         | Some c \<Rightarrow> (Inr (demo_child (hashLine (demo_hash c) (argv ! 1))), d))
      else if hd argv = ''bin/zpaq715'' \<and> argv ! 1 = ''a'' then
        (Inr (demo_child []), d\<lparr>files := (files d)(argv ! 2 \<mapsto> CHR ''z'' # the (files d (argv ! 3)))\<rparr>)
      else if hd argv = ''bin/zpaq715'' then
        (Inr (demo_child []), d\<lparr>files := (files d)(argv ! 4 \<mapsto> tl (the (files d (argv ! 2))))\<rparr>)
      else (Inl 2, d))"

definition demo_system :: os where
  "demo_system = (demo_os demo_spawn)\<lparr>os_pipe_capacity := 65536, os_readdir := (\<lambda>p d.
     if p = ''in/'' then Some [(''.'', Some (True, 0)), (''..'', Some (True, 0)), (''a.txt'', Some (False, 3))]
     else None)\<rparr>"

definition demo_world :: world where
  "demo_world = set_file ''in/a.txt'' (Some ''abc'') blank_world"

section \<open>The phases of a backup\<close>

lemma returns_ibind: "returns m w R \<Longrightarrow> (\<And>v w'. R v w' \<Longrightarrow> returns (f v) w' P) \<Longrightarrow> returns (ibind m f) w P"
  by (auto simp: returns_def ibind_def split: prod.splits sum.splits)

lemma returns_iret: "P v w \<Longrightarrow> returns (iret v) w P"
  by (simp add: returns_def iret_def)

lemma returns_print:
  "(\<And>w'. disk w' = disk w \<Longrightarrow> returns (f ()) w' P) \<Longrightarrow> returns (ibind (printf s) f) w P"
  by (auto simp: returns_def)

lemma returns_foundLine: "returns (foundLine n s) w (\<lambda>_ w'. disk w' = disk w)"
  using humanize_returns [of s "'' ''"] by (auto simp: returns_def foundLine_def printf_def)

lemma returns_scanFolder:
  "scan_loop os (disk w) [folder] [] 0 [] = Some r \<Longrightarrow>
     returns (scanFolder os folder) w (\<lambda>v w'. v = (fst r, fst (snd r)) \<and> disk w' = disk w)"
  by (auto simp: returns_def scanFolder_def split: prod.split)

lemma compressCommand_database [simp]: "compressCommand (cfg\<lparr>database := db\<rparr>) = compressCommand cfg"
  by (intro ext) (simp add: compressCommand_def cong: if_cong)

lemma database_fields:
  "inputFolder (cfg\<lparr>database := db\<rparr>) = inputFolder cfg" "outputFolder (cfg\<lparr>database := db\<rparr>) = outputFolder cfg"
  "databaseFilename (cfg\<lparr>database := db\<rparr>) = databaseFilename cfg" "database (cfg\<lparr>database := db\<rparr>) = db"
  "dryRunFlag (cfg\<lparr>database := db\<rparr>) = dryRunFlag cfg"
  "cfg\<lparr>database := db, database := db'\<rparr> = cfg\<lparr>database := db'\<rparr>"
  by simp_all

lemma database_update [simp]:
  "hashFile (cfg\<lparr>database := db\<rparr>) = hashFile cfg"
  "compressFile (cfg\<lparr>database := db\<rparr>) = compressFile cfg"
  "createFolders (cfg\<lparr>database := db\<rparr>) os ecs cached = createFolders cfg os ecs cached"
  "saveFileHashes (cfg\<lparr>database := db\<rparr>) = saveFileHashes cfg"
proof -
  show "hashFile (cfg\<lparr>database := db\<rparr>) = hashFile cfg" by (intro ext) (simp add: hashFile_def)
  show "compressFile (cfg\<lparr>database := db\<rparr>) = compressFile cfg"
    by (intro ext) (simp add: compressFile_def compressOutputName_def)
  show "createFolders (cfg\<lparr>database := db\<rparr>) os ecs cached = createFolders cfg os ecs cached"
    by (induction cfg os ecs cached rule: createFolders.induct) (auto simp: Let_def cong: if_cong)
  show "saveFileHashes (cfg\<lparr>database := db\<rparr>) = saveFileHashes cfg"
    by (intro ext) (simp add: saveFileHashes_def)
qed

lemma hashLine_read:
  assumes "length (hashLine h f) \<le> 127" and "wf_token h" and "wf_path f"
  shows "c_str (fgets 128 (hashLine h f)) = hashLine h f"
proof -
  have "CHR 0x0A \<notin> set (hashLine h f)" "CHR 0x00 \<notin> set (hashLine h f)"
    using assms(2,3) by (auto simp: hashLine_def wf_token_def wf_path_def list_all_iff token_char_def line_char_def)
  then show ?thesis using assms(1) by (simp add: fgets_short)
qed

lemma hash_phase:
  assumes "os_healthy os" and "hash_tool os cfg hash" and "valid_schedule schedule"
    and "\<forall>f \<in> set fs. hashable cfg hash d0 f" and "\<forall>f \<in> set fs. file_of w f = files d0 f"
  shows "async_all schedule (hashFile cfg os) fs w =
    (Inr (map (\<lambda>f. hashLine (hash (the (files d0 f))) f) fs), w)"
proof -
  have "hashFile cfg os f w = (Inr (hashLine (hash (the (files d0 f))) f), w)" if "f \<in> set fs" for f
  proof -
    from that assms(4,5) obtain c where c: "file_of w f = Some c" "files d0 f = Some c"
      and f: "wf_path f" "wf_token (hash c)" "length (hashLine (hash c) f) \<le> 127"
      by (auto simp: hashable_def wf_stored_def entryOf_def)
    from f(3) have "length f < path_max" by (simp add: hashLine_def path_max_def)
    with assms(2) c(1) obtain ch where
      "os_posix_spawn os [toolsFolder cfg @ ''meowhash'', f, ''--nologo''] (os_environ os) (disk w) = (Inr ch, disk w)"
      "child_ends os ch" "run_ok ch" "stdout_text ch = hashLine (hash c) f"
      unfolding hash_tool_def by blast
    with hashFile_runs [OF assms(1), of ch cfg f w "disk w"] hashLine_read [OF f(3,2,1)] c show ?thesis by simp
  qed
  then have "\<exists>results w'. async_all schedule (hashFile cfg os) fs w = (Inr results, w') \<and>
     list_all2 (\<lambda>f r. r = hashLine (hash (the (files d0 f))) f) fs results \<and> w' = w \<and> (\<forall>f \<in> set fs. True)"
    using assms(3) by (intro async_all_results) auto
  then show ?thesis unfolding list_all2_results by auto
qed

lemma parse_phase:
  assumes "\<forall>f \<in> set fs. hashable cfg hash d0 f"
  shows "parseResults acc (map (\<lambda>f. hashLine (hash (the (files d0 f))) f) fs) = Inr (acc @ map (entryOf hash d0) fs)"
  using assms
proof (induction fs arbitrary: acc)
  case (Cons f fs)
  let ?h = "hash (the (files d0 f))"
  let ?l = "hashLine ?h f"
  from Cons.prems have f: "wf_token ''MeowHash''" "wf_token ?h" "wf_path f"
    by (auto simp: hashable_def wf_stored_def entryOf_def)
  have entry: "parseEntry (?l @ [CHR 0x00]) = (entryOf hash d0 f, [CHR 0x00])"
    using parseEntry_line [OF f, of "CHR 0x00" "[]"] by (simp add: hashLine_def entryOf_def line_char_def)
  have "parseBuffer acc (?l @ [CHR 0x00]) (length ?l) = Inr (acc @ [entryOf hash d0 f])"
    unfolding parseBuffer_def
    by (subst parseBuffer_loop.simps)
      (simp add: entry ptr_less_def parseBuffer_loop.simps [of _ "[CHR 0x00]"], simp add: hashLine_def)
  then show ?case using Cons by simp
qed simp

lemma smartCreate_loop_files:
  "directory \<noteq> [] \<Longrightarrow> \<exists>b w'. smartCreate_loop os directory cursor w = (Inr b, w') \<and> files (disk w') = files (disk w)"
proof (induction os directory cursor w rule: smartCreate_loop.induct)
  case (1 os directory cursor w)
  have single: "\<exists>b w'. createSingleDir os dir v = (Inr b, w') \<and> files (disk w') = files (disk v)"
    if "dir \<noteq> []" for dir v
    using that by (auto simp: createSingleDir_def Let_def)
  show ?case
  proof (cases "std_find directory ''/'' cursor")
    case None
    with "1.prems" single [of directory w] show ?thesis
      by (auto simp: smartCreate_loop.simps [of os directory cursor])
  next
    case (Some pos)
    show ?thesis
    proof (cases "pos = 0")
      case True
      with Some "1.IH"(1) [OF Some True "1.prems"] show ?thesis
        by (simp add: smartCreate_loop.simps [of os directory cursor])
    next
      case False
      with "1.prems" have "take pos directory \<noteq> []" by auto
      from single [OF this, of w] obtain b w1 where
        w1: "createSingleDir os (take pos directory) w = (Inr b, w1)" "files (disk w1) = files (disk w)" by blast
      from "1.IH"(2) [OF Some False, of "Inr b" w1 b] w1 "1.prems" Some False show ?thesis
        by (simp add: smartCreate_loop.simps [of os directory cursor])
    qed
  qed
qed

lemma folder_phase:
  assumes "outputFolder cfg \<noteq> []" and "\<not> dryRunFlag cfg"
  shows "\<exists>w'. createFolders cfg os ecs cached w = (Inr (), w') \<and> files (disk w') = files (disk w) \<and>
    ((\<forall>(e, c) \<in> set ecs. c = eSame) \<longrightarrow> w' = w)"
  using assms
proof (induction cfg os ecs cached arbitrary: w rule: createFolders.induct)
  case (1 cfg os cached)
  then show ?case by (simp add: iret_def)
next
  case (2 cfg os e c ecs cached)
  obtain x where x: "extractFolderFromFilePath (mPath e) = Inr x"
    by (simp add: extractFolderFromFilePath_def normalizeFilePath_eq)
  let ?folder = "outputFolder cfg @ eraseUnittestPath (unittestPath cfg) x"
  from "2.prems" have "?folder \<noteq> []" by simp
  from smartCreate_loop_files [OF this, of os 0 w] obtain b w1 where
    w1: "smartCreate os ?folder w = (Inr b, w1)" "files (disk w1) = files (disk w)"
    unfolding smartCreate_def by blast
  show ?case
  proof (cases "c \<noteq> eSame \<and> cached \<noteq> x")
    case True
    with "2.prems" have "createFolders cfg os ((e, c) # ecs) cached w = createFolders cfg os ecs x w1"
      by (simp add: x Let_def ibind_Inr [where m = "smartCreate os ?folder", OF w1(1)])
    with True "2.IH"(2) [of x ?folder w1] "2.prems" w1(2) show ?thesis by auto
  next
    case False
    with "2.IH"(3) [of x w] "2.IH"(4) [of w] "2.prems" show ?thesis by (cases "c = eSame") (auto simp: x)
  qed
qed

lemma archiveSuffix_cases: "archiveSuffix e \<in> {''.lepton'', ''.pcf'', ''.zpaq''}"
  by (simp add: archiveSuffix_def)

text \<open>Different files have different archives.\<close>

lemma archiveName_inj:
  assumes "prefix (unittestPath cfg) f" and "prefix (unittestPath cfg) g"
    and "archiveName cfg f = archiveName cfg g"
  shows "f = g"
proof -
  let ?s = "\<lambda>f. archiveSuffix (toLower (extractFileExtensionFromFilePatch f))"
  let ?u = "length (unittestPath cfg)"
  have eq: "drop ?u f @ ?s f = drop ?u g @ ?s g"
    using assms by (simp add: archiveName_def compressOutputName_def eraseUnittestPath_prefix)
  then have "last (drop ?u f @ ?s f) = last (drop ?u g @ ?s g)" by simp
  then have "?s f = ?s g"
    using archiveSuffix_cases [of "toLower (extractFileExtensionFromFilePatch f)"]
      archiveSuffix_cases [of "toLower (extractFileExtensionFromFilePatch g)"] by auto
  with eq have "drop ?u f = drop ?u g" by simp
  with assms show ?thesis by (auto simp: prefix_def)
qed

lemma compressFile_runs:
  assumes "os_healthy os" and "pack_tool os cfg pack f" and "\<not> dryRunFlag cfg" and "file_of w f = Some c"
  shows "\<exists>r. compressFile cfg os f n w = (Inr r, set_file (archiveName cfg f) (Some (pack c)) w)"
proof -
  let ?cmd = "compressCommand cfg (toLower (extractFileExtensionFromFilePatch f)) f (compressOutputName cfg f) n"
  from assms(2,4) obtain ch where
    "os_posix_spawn os ?cmd (os_environ os) (disk w)
      = (Inr ch, (disk w)\<lparr>files := (files (disk w))(archiveName cfg f \<mapsto> pack c)\<rparr>)"
    "child_ends os ch" "run_ok ch" unfolding pack_tool_def by blast
  from runSubprocess_spawned [OF assms(1) this(1,2)] this(3) obtain r where
    "runSubprocess os ?cmd w = (Inr r, set_file (archiveName cfg f) (Some (pack c)) w)" "\<not> mIsInErrorState r"
    by (auto simp: set_file_def)
  then show ?thesis
    using assms(3) by (simp add: compressFile_def Let_def ibind_def getErrorState_def ilift_def valueOrDie_def)
qed

lemma compressTasks_set:
  "fst ` set (compressTasks es cs) = {mPath e | e c. (e, c) \<in> set (zip es cs) \<and> c \<noteq> eSame}"
proof -
  have "fst ` set (compressTasks es cs) = set (map fst (compressTasks es cs))" by simp
  also have "map fst (compressTasks es cs) = map (mPath \<circ> fst) (filter (\<lambda>(e, c). c \<noteq> eSame) (zip es cs))"
    by (simp add: compressTasks_def)
  finally show ?thesis by (auto simp: image_def split_beta)
qed

lemma compress_phase:
  assumes "os_healthy os" and "valid_schedule schedule" and "\<not> dryRunFlag cfg"
    and tool: "\<forall>f \<in> set fs. pack_tool os cfg pack f"
    and pre: "\<forall>f \<in> set fs. prefix (unittestPath cfg) f" and sep: "separate cfg fs"
    and here: "\<forall>f \<in> set fs. files d0 f \<noteq> None"
    and tasks: "fst ` set ts \<subseteq> set fs" and w: "\<forall>f \<in> set fs. file_of w f = files d0 f"
  shows "\<exists>rs w'. async_all schedule (\<lambda>(f, n). compressFile cfg os f n) ts w = (Inr rs, w') \<and>
    (\<forall>f \<in> set fs. file_of w' f = files d0 f) \<and>
    (\<forall>(f, n) \<in> set ts. file_of w' (archiveName cfg f) = Some (pack (the (files d0 f))))"
proof -
  let ?I = "\<lambda>w. \<forall>f \<in> set fs. file_of w f = files d0 f"
  let ?Q = "\<lambda>(f, n :: nat) w. file_of w (archiveName cfg f) = Some (pack (the (files d0 f)))"
  have "\<exists>r w'. (case x of (f, n) \<Rightarrow> compressFile cfg os f n) v = (Inr r, w') \<and> True \<and> ?I w' \<and> ?Q x w' \<and>
      (\<forall>y \<in> set ts. ?Q y v \<longrightarrow> ?Q y w')" if "x \<in> set ts" "?I v" for x v
  proof -
    obtain f n where x: "x = (f, n)" by force
    with that(1) tasks have f: "f \<in> set fs" by force
    with here obtain c where c: "files d0 f = Some c" by auto
    with that(2) f have "file_of v f = Some c" by simp
    from compressFile_runs [OF assms(1) _ assms(3) this, of pack n] tool f obtain r where
      r: "compressFile cfg os f n v = (Inr r, set_file (archiveName cfg f) (Some (pack c)) v)" by blast
    let ?v = "set_file (archiveName cfg f) (Some (pack c)) v"
    have "archiveName cfg f \<notin> set fs" using sep f by (simp add: separate_def)
    with that(2) have "?I ?v" by (auto simp: set_file_def)
    moreover have "?Q x ?v" by (simp add: x c set_file_def)
    moreover have inj: "g = f" if "(g, k) \<in> set ts" "archiveName cfg g = archiveName cfg f" for g k
    proof -
      from that(1) tasks have "g \<in> set fs" by force
      with archiveName_inj [of cfg g f] pre f that(2) show ?thesis by blast
    qed
    have "?Q (g, k) ?v" if "(g, k) \<in> set ts" "?Q (g, k) v" for g k
      using that inj [of g k] c by (cases "archiveName cfg g = archiveName cfg f") (auto simp: set_file_def)
    ultimately show ?thesis using r by (intro exI [of _ r] exI [of _ ?v]) (auto simp: x)
  qed
  from async_all_results [where I = ?I and P = "\<lambda>_ _. True" and Q = ?Q, OF assms(2) this w]
  show ?thesis by blast
qed

section \<open>A whole backup\<close>

lemma backup_settingD:
  assumes "backup_setting os cfg hash pack fs sz d0"
  shows "os_healthy os" "hash_tool os cfg hash" "\<forall>f \<in> set fs. pack_tool os cfg pack f"
    "\<And>p d. os_fopen_w os p d" "distinct fs" "\<forall>f \<in> set fs. hashable cfg hash d0 f" "separate cfg fs"
    "\<And>d. \<forall>f \<in> set fs. files d f = files d0 f \<Longrightarrow> scan_loop os d [inputFolder cfg] [] 0 [] = Some (fs, sz, [])"
    "\<And>d. \<exists>r. scan_loop os d [outputFolder cfg] [] 0 [] = Some r"
    "outputFolder cfg \<noteq> []" "\<not> dryRunFlag cfg"
  using assms by (auto simp: backup_setting_def)

lemma mPath_entryOf [simp]: "mPath (entryOf hash d f) = f"
  by (simp add: entryOf_def)

lemma entries_distinct: "distinct fs \<Longrightarrow> distinct_paths (map (entryOf hash d0) fs)"
  by (simp add: distinct_paths_def entryOf_def comp_def)

text \<open>The stored files of a backup: what the compression left, then the two tables.\<close>

lemma returns_save:
  "(\<And>p d. os_fopen_w os p d) \<Longrightarrow> returns (saveFileHashes cfg os h p) w
     (\<lambda>b w'. b = True \<and> w' = set_file p (Some (saveText (unittestPath cfg) h)) w)"
  by (auto simp: returns_def saveFileHashes_def)

lemma backup_run:
  assumes setting: "backup_setting os cfg hash pack fs sz d0" and "valid_schedule schedule"
    and same: "\<forall>f \<in> set fs. file_of w f = files d0 f"
    and read: "readFileHashes cfg os (databaseFilename cfg) w = (Inr (loaded, db), w)"
  defines "es \<equiv> map (entryOf hash d0) fs"
  shows "returns (createOrUpdateArchive os schedule cfg) w (\<lambda>cfg' w'.
    cfg' = cfg\<lparr>database := mergeUpdates db es\<rparr> \<and>
    file_of w' (databaseFilename cfg) = Some (saveText (unittestPath cfg) (mergeUpdates db es)) \<and>
    file_of w' (outputFolder cfg @ ''filehashes.txt'') = Some (saveText (unittestPath cfg) es) \<and>
    (\<forall>f \<in> set fs. file_of w' f = files d0 f) \<and>
    (\<forall>f \<in> set fs. compareEntry db (entryOf hash d0 f) \<noteq> eSame \<longrightarrow>
       file_of w' (archiveName cfg f) = Some (pack (the (files d0 f)))) \<and>
    ((\<forall>f \<in> set fs. compareEntry db (entryOf hash d0 f) = eSame) \<longrightarrow>
       folders (disk w') = folders (disk w) \<and>
       files (disk w') = (files (disk w))(outputFolder cfg @ ''filehashes.txt'' \<mapsto> saveText (unittestPath cfg) es,
         databaseFilename cfg \<mapsto> saveText (unittestPath cfg) (mergeUpdates db es))))"
proof -
  note S = backup_settingD [OF setting]
  have twice: "mergeUpdates (mergeUpdates db es) es = mergeUpdates db es"
    using entries_distinct [OF S(5), of hash d0] unfolding es_def mergeUpdates_def distinct_paths_def
    by (rule vec.fold_idem)
  have zip: "zip es (compareToFileHashes es db) = map (\<lambda>e. (e, compareEntry db e)) es"
    by (induction es) (simp_all add: compareToFileHashes_def)
  let ?ts = "compressTasks es (compareToFileHashes es db)"
  have tasks: "fst ` set ?ts = {f \<in> set fs. compareEntry db (entryOf hash d0 f) \<noteq> eSame}"
    unfolding compressTasks_set zip unfolding es_def set_map image_image by force
  have prefix: "\<forall>f \<in> set fs. prefix (unittestPath cfg) f" and here: "\<forall>f \<in> set fs. files d0 f \<noteq> None"
    using S(6) by (auto simp: hashable_def wf_stored_def entryOf_def)
  have read': "returns (readFileHashes cfg os (databaseFilename cfg)) w (\<lambda>v w1. v = (loaded, db) \<and> w1 = w)"
    using read by (simp add: returns_def)
  have hash: "returns (async_all schedule (hashFile cfg os) fs) v
      (\<lambda>rs w1. rs = map (\<lambda>f. hashLine (hash (the (files d0 f))) f) fs \<and> w1 = v)"
    if "\<forall>f \<in> set fs. file_of v f = files d0 f" for v
    using hash_phase [OF S(1,2) assms(2) S(6) that] by (simp add: returns_def)
  note parse = parse_phase [OF S(6), of "[]", folded es_def]
  have comp: "returns (async_all schedule (\<lambda>(f, n). compressFile cfg os f n) ?ts) v (\<lambda>_ w'.
      (\<forall>f \<in> set fs. file_of w' f = files d0 f) \<and>
      (\<forall>f \<in> set fs. compareEntry db (entryOf hash d0 f) \<noteq> eSame \<longrightarrow>
         file_of w' (archiveName cfg f) = Some (pack (the (files d0 f)))) \<and>
      ((\<forall>f \<in> set fs. compareEntry db (entryOf hash d0 f) = eSame) \<longrightarrow> w' = v))"
    if "\<forall>f \<in> set fs. file_of v f = files d0 f" for v
  proof -
    show ?thesis
    proof (cases "?ts = []")
      case True
      with tasks have "\<forall>f \<in> set fs. compareEntry db (entryOf hash d0 f) = eSame" by auto
      then show ?thesis using that True by (simp add: returns_def async_all_nil [OF assms(2)])
    next
      case False
      then have "fst ` set ?ts \<noteq> {}" by simp
      then have some: "\<not> (\<forall>f \<in> set fs. compareEntry db (entryOf hash d0 f) = eSame)" unfolding tasks by blast
      have all: "\<exists>n. (f, n) \<in> set ?ts" if "f \<in> set fs" "compareEntry db (entryOf hash d0 f) \<noteq> eSame" for f
      proof -
        from that have "f \<in> fst ` set ?ts" unfolding tasks by simp
        then show ?thesis by auto
      qed
      have "fst ` set ?ts \<subseteq> set fs" unfolding tasks by blast
      from compress_phase [OF S(1) assms(2) S(11,3) prefix S(7) here this that] obtain rs w' where
        "async_all schedule (\<lambda>(f, n). compressFile cfg os f n) ?ts v = (Inr rs, w')"
        "\<forall>f \<in> set fs. file_of w' f = files d0 f"
        "\<forall>(f, n) \<in> set ?ts. file_of w' (archiveName cfg f) = Some (pack (the (files d0 f)))" by blast
      with some all show ?thesis unfolding returns_def by (intro exI [of _ rs] exI [of _ w']) blast
    qed
  qed
  have folders: "returns (createFolders cfg os (zip es (compareToFileHashes es db)) []) v (\<lambda>_ w'.
      files (disk w') = files (disk v) \<and>
      ((\<forall>f \<in> set fs. compareEntry db (entryOf hash d0 f) = eSame) \<longrightarrow> w' = v))" for v
    using folder_phase [OF S(10,11), of os "zip es (compareToFileHashes es db)" "[]" v]
    unfolding zip by (auto simp: returns_def es_def)
  show ?thesis
    unfolding createOrUpdateArchive_def Let_def
    apply (rule returns_ibind [OF read'], elim conjE, simp only: prod.case database_update database_fields)
    apply (rule returns_print, rule returns_print)
    apply (rule returns_ibind [OF returns_scanFolder [OF S(8)]])
     subgoal using same by simp
    apply (elim conjE, simp only: prod.case fst_conv snd_conv)
    apply (rule returns_ibind [OF returns_foundLine], rule returns_print)
    apply (rule returns_ibind [OF hash])
     subgoal using same by simp
    apply (elim conjE, simp only: parse ibind_ilift_Inr append_Nil)
    apply (rule returns_print)
    apply (rule returns_ibind [OF folders])
    apply (rule returns_print, rule returns_ibind [OF comp])
     subgoal using same by simp
    apply (rule returns_print)
    apply (rule exE [OF S(9)], rule returns_ibind [OF returns_scanFolder], assumption)
    apply (elim conjE, simp only: prod.case S(11) if_False twice)
    apply (rule returns_ibind [OF returns_foundLine], rule returns_print)
    apply (rule returns_ibind [OF returns_save [OF S(4)]], rule returns_print)
    apply (rule returns_ibind [OF returns_save [OF S(4)]])
    apply (elim conjE, simp only: simp_thms if_False)
    apply (rule returns_iret)
    using S(7) by (auto simp: separate_def set_file_def)
qed

lemma map_of_rev_same: "distinct (map fst xs) \<Longrightarrow> map_of (rev xs) = map_of xs"
  by (simp add: map_of_inject_set rev_map [symmetric])

lemma read_database:
  assumes "database_on_disk cfg db w"
  shows "\<exists>loaded. readFileHashes cfg os (databaseFilename cfg) w = (Inr (loaded, db), w)"
  using assms readText_saveText [of db "unittestPath cfg"]
  by (auto simp: database_on_disk_def readFileHashes_def split: option.splits)

lemma merged_entries:
  assumes "backup_setting os cfg hash pack fs sz d0" and "f \<in> set fs"
  shows "entry_map (mergeUpdates db (map (entryOf hash d0) fs)) f = Some (entryOf hash d0 f)"
  using vec.look_fold_distinct [of "map (entryOf hash d0) fs" "entryOf hash d0 f" db]
    entries_distinct [OF backup_settingD(5) [OF assms(1)], of hash d0] assms(2)
  by (simp add: mergeUpdates_def distinct_paths_def)

lemma mergeEntry_set: "set (mergeEntry e h) \<subseteq> insert e (set h)"
  by (auto simp: mergeEntry_def Let_def dest: set_update_subset_insert [THEN subsetD])

lemma mergeUpdates_set: "set (mergeUpdates h es) \<subseteq> set h \<union> set es"
proof (induction es arbitrary: h)
  case (Cons e es)
  from Cons.IH [of "mergeEntry e h"] mergeEntry_set [of e h] show ?case by (auto simp: mergeUpdates_def)
qed (simp add: mergeUpdates_def)



section \<open>Verification\<close>

lemma fgets_prefix:
  assumes "CHR 0x0A \<notin> set pre" and "length pre \<le> n - 1"
  shows "\<exists>r. fgets n (pre @ p) = pre @ r"
proof -
  have "takeWhile (\<lambda>c. c \<noteq> CHR 0x0A) (pre @ p) = pre @ takeWhile (\<lambda>c. c \<noteq> CHR 0x0A) p"
    using assms(1) by (intro takeWhile_append2) auto
  then show ?thesis using assms(2) by (auto simp: fgets_def Let_def)
qed

lemma computedHash_line:
  assumes "wf_token h" and "length h \<le> 117"
  shows "computedHash (c_str (fgets 128 (hashLine h p))) = h"
proof -
  have h: "h \<noteq> []" "\<not> is_blank (hd h)" "list_all token_char h"
    using assms(1) by (auto simp: wf_token_def token_char_def list_all_iff)
  have "CHR 0x0A \<notin> set h" "CHR 0x00 \<notin> set h" using h(3) by (auto simp: list_all_iff token_char_def)
  then have pre: "CHR 0x0A \<notin> set (''MeowHash '' @ h @ '' '')" "CHR 0x00 \<notin> set (''MeowHash '' @ h @ '' '')"
    by auto
  from fgets_prefix [OF pre(1), of 128 p] assms(2) obtain r where
    "fgets 128 ((''MeowHash '' @ h @ '' '') @ p) = (''MeowHash '' @ h @ '' '') @ r" by auto
  then have "c_str (fgets 128 (hashLine h p)) = ''MeowHash '' @ h @ '' '' @ c_str r"
    using c_str_append [OF pre(2), of r] by (simp add: hashLine_def)
  moreover have "skipNonWhitespace (''MeowHash '' @ t) = '' '' @ t" for t by simp
  moreover have "skipWhitespace ('' '' @ h @ t) = h @ t" for t using hd_blank_skip [OF h(1,2)] by simp
  moreover have "skipNonWhitespace (h @ '' '' @ t) = '' '' @ t" for t
    using skipNonWhitespace_token [OF h(3)] by simp
  ultimately show ?thesis by (simp only: computedHash_def Let_def append_assoc span_append)
qed

lemma decompressFile_runs:
  assumes "os_healthy os" and "hash_tool os cfg hash" and "unpack_tool os cfg unpack f"
    and "\<forall>c. wf_token (hash c) \<and> length (hash c) \<le> 117"
    and "file_of w (f @ archiveSuffix (toLower (extractFileExtensionFromFilePatch f))) = Some a"
    and "length (temporaryFolder cfg @ f) < path_max"
  shows "\<exists>r. decompressFile cfg os f w = (Inr r, set_file (temporaryFolder cfg @ f) None w) \<and>
    computedHash r = hash (unpack a)"
proof -
  let ?out = "temporaryFolder cfg @ f"
  let ?e = "toLower (extractFileExtensionFromFilePatch f)"
  let ?w = "set_file ?out (Some (unpack a)) w"
  obtain cmd where cmd: "decompressCommand cfg ?e f ?out = (cmd, f @ archiveSuffix ?e)"
    using decompressCommand_archive [of cfg ?e f ?out] by (cases "decompressCommand cfg ?e f ?out") auto
  from assms(3,5) obtain ch where
    "os_posix_spawn os cmd (os_environ os) (disk w) = (Inr ch, (disk w)\<lparr>files := (files (disk w))(?out \<mapsto> unpack a)\<rparr>)"
    "child_ends os ch" "run_ok ch" unfolding unpack_tool_def cmd fst_conv by blast
  from runSubprocess_spawned [OF assms(1) this(1,2)] this(3) obtain r where
    run: "runSubprocess os cmd w = (Inr r, ?w)" "\<not> mIsInErrorState r" by (auto simp: set_file_def)
  have "file_of ?w ?out = Some (unpack a)" by (simp add: set_file_def)
  with assms(2,6) obtain ch2 where
    "os_posix_spawn os [toolsFolder cfg @ ''meowhash'', ?out, ''--nologo''] (os_environ os) (disk ?w) = (Inr ch2, disk ?w)"
    "child_ends os ch2" "run_ok ch2" "stdout_text ch2 = hashLine (hash (unpack a)) ?out"
    unfolding hash_tool_def by blast
  from hashFile_runs [OF assms(1) this(2,3,1)] this(4) have
    "hashFile cfg os ?out ?w = (Inr (c_str (fgets 128 (hashLine (hash (unpack a)) ?out))), ?w)" by simp
  with run have "decompressFile cfg os f w =
      (Inr (c_str (fgets 128 (hashLine (hash (unpack a)) ?out))), set_file ?out None w)"
    by (simp add: decompressFile_def Let_def cmd ibind_def getErrorState_def deleteFile_def iret_def set_file_def)
  then show ?thesis using computedHash_line [of "hash (unpack a)" ?out] assms(4) by blast
qed

lemma compareHashes_lines:
  "list_all2 (\<lambda>e r. computedHash r = g e) es rs \<Longrightarrow>
     compareHashes es rs w = (Inr (), w\<lparr>console := console w @
       map (\<lambda>e. mismatchLine e (g e)) (filter (\<lambda>e. mHashValue e \<noteq> g e) es)\<rparr>)"
proof (induction es rs arbitrary: w rule: list_all2_induct)
  case Nil
  show ?case by (simp add: iret_def)
next
  case (Cons e es r rs)
  then show ?case by (cases "mHashValue e = g e") (simp_all)
qed

lemma verify_run:
  assumes setting: "verify_setting os cfg hash unpack es w" and "valid_schedule schedule"
  shows "\<exists>w'. verifyArchive os schedule cfg w = (Inr (), w') \<and>
    console w' = console w @
      [''- number of fileentries to check: '' @ to_string (length es), ''- generate hashes for all input files'',
       ''- comparing hashes''] @
      map (\<lambda>e. mismatchLine e (restoredHash cfg hash unpack w e))
        (filter (\<lambda>e. mHashValue e \<noteq> restoredHash cfg hash unpack w e) es) @
      [''- finished comparing hashes''] \<and>
    (\<forall>p. p \<notin> tempOf cfg ` set es \<longrightarrow> file_of w' p = file_of w p)"
proof -
  let ?h = "restoredHash cfg hash unpack w"
  let ?I = "\<lambda>c v. console v = c \<and> (\<forall>p. p \<notin> tempOf cfg ` set es \<longrightarrow> file_of v p = file_of w p)"
  from setting have S: "os_healthy os" "hash_tool os cfg hash" "\<forall>c. wf_token (hash c) \<and> length (hash c) \<le> 117"
    and E: "\<And>e. e \<in> set es \<Longrightarrow> wf_stored (unittestPath cfg) e \<and> unpack_tool os cfg unpack (inputFolder cfg @ mPath e) \<and>
        file_of w (archiveOf cfg e) \<noteq> None \<and> archiveOf cfg e \<notin> tempOf cfg ` set es \<and>
        length (tempOf cfg e) < path_max"
    and T: "file_of w (inputFolder cfg @ ''filehashes.txt'') = Some (saveText (unittestPath cfg) es)"
    by (auto simp: verify_setting_def)
  have task: "\<exists>r w'. decompressFile cfg os (inputFolder cfg @ mPath e) v = (Inr r, w') \<and> computedHash r = ?h e \<and>
      ?I c w' \<and> True \<and> (\<forall>y \<in> set es. True \<longrightarrow> True)" if "e \<in> set es" "?I c v" for e v c
  proof -
    from E [OF that(1)] that(2) obtain a where a: "file_of v (archiveOf cfg e) = Some a" "file_of w (archiveOf cfg e) = Some a"
      by auto
    from decompressFile_runs [OF S(1,2) _ S(3) a(1) [unfolded archiveOf_def Let_def]] E [OF that(1), unfolded tempOf_def]
    obtain r where
      "decompressFile cfg os (inputFolder cfg @ mPath e) v = (Inr r, set_file (tempOf cfg e) None v)"
      "computedHash r = hash (unpack a)"
      unfolding tempOf_def by blast
    then show ?thesis using that a(2) by (auto simp: set_file_def restoredHash_def)
  qed
  have read: "readFileHashes cfg os (inputFolder cfg @ ''filehashes.txt'') w = (Inr (True, es), w)"
    using T E readText_saveText [of es "unittestPath cfg" "os_heap os"] by (simp add: readFileHashes_def)
  define w1 where "w1 = w\<lparr>console := console w @
     [''- number of fileentries to check: '' @ to_string (length es), ''- generate hashes for all input files'']\<rparr>"
  have "?I (console w1) w1" by (simp add: w1_def)
  with assms(2) task have "\<exists>rs w2. async_all schedule (\<lambda>entry. decompressFile cfg os (inputFolder cfg @ mPath entry)) es w1
      = (Inr rs, w2) \<and> list_all2 (\<lambda>e r. computedHash r = ?h e) es rs \<and> ?I (console w1) w2 \<and> (\<forall>x \<in> set es. True)"
    by (intro async_all_results) blast+
  then obtain rs w2 where run: "async_all schedule (\<lambda>entry. decompressFile cfg os (inputFolder cfg @ mPath entry)) es w1 = (Inr rs, w2)"
    and rs: "list_all2 (\<lambda>e r. computedHash r = ?h e) es rs" and w2: "?I (console w1) w2" by blast
  have "verifyArchive os schedule cfg w =
     (Inr (), w2\<lparr>console := console w2 @ ''- comparing hashes'' #
       map (\<lambda>e. mismatchLine e (?h e)) (filter (\<lambda>e. mHashValue e \<noteq> ?h e) es) @ [''- finished comparing hashes'']\<rparr>)"
    using run unfolding verifyArchive_def w1_def
    by (simp add: ibind_Inr [where m = "readFileHashes cfg os (inputFolder cfg @ ''filehashes.txt'')", OF read]
        getNumberEntries_def ibind_def [of "async_all schedule t es" for t]
        ibind_Inr [where m = "compareHashes es rs", OF compareHashes_lines [OF rs]] printf_def)
  with w2 show ?thesis by (simp add: w1_def)
qed



section \<open>A concrete run\<close>

lemma demo_setting:
  "backup_setting demo_system demo_cfg demo_hash (\<lambda>c. CHR ''z'' # c) [''in/a.txt''] 3 (disk demo_world)"
proof -
  have ext: "toLower (extractFileExtensionFromFilePatch ''in/a.txt'') = ''txt''" by code_simp
  have arc: "archiveName demo_cfg ''in/a.txt'' = ''out/in/a.txt.zpaq''"
    by (simp add: archiveName_def ext archiveSuffix_def is_jpeg_def is_mp3_def is_packed_def
        compressOutputName_def eraseUnittestPath_def demo_cfg_def)
  have tree: "listed demo_system d ''in'' (Node [(''a.txt'', Leaf 3)])" for d
    by (simp add: demo_system_def plain_name_def)
  have scan_in: "scan_loop demo_system d [''in/''] [] 0 [] = Some ([''in/a.txt''], 3, [])" for d
  proof -
    have t: "tinydir demo_system d ''in//'' = Some ([(''in/a.txt'', False, 3)], [])"
      using stripSeparators_slashes [of "''in''"] stripSeparators_id [of "''in''"]
      by (simp add: tinydir_def demo_system_def)
    show ?thesis
      by (subst scan_loop.simps, simp add: t, subst scan_loop.simps, simp)
  qed
  have scan_out: "scan_loop demo_system d [''out/''] [] 0 [] = Some ([], 0, [])" for d
  proof -
    have t: "tinydir demo_system d ''out//'' = None"
      using stripSeparators_slashes [of "''out''"] stripSeparators_id [of "''out''"]
      by (simp add: tinydir_def demo_system_def)
    show ?thesis by (subst scan_loop.simps, simp add: t, subst scan_loop.simps, simp)
  qed
  have healthy: "os_healthy demo_system"
    using demo_os_healthy [of demo_spawn] by (simp add: os_healthy_def fresh_pipes_def demo_system_def)
  have hash: "hash_tool demo_system demo_cfg demo_hash"
    by (simp add: hash_tool_def demo_system_def demo_os_def demo_cfg_def demo_spawn_def demo_child_def
        child_ends_def run_ok_def hashLine_def path_max_def demo_hash_def)
  have pack: "pack_tool demo_system demo_cfg (\<lambda>c. CHR ''z'' # c) ''in/a.txt''"
    unfolding pack_tool_def ext arc
    by (simp add: demo_system_def demo_os_def demo_cfg_def demo_spawn_def demo_child_def compressCommand_def
        is_jpeg_def is_mp3_def is_packed_def child_ends_def run_ok_def compressOutputName_def eraseUnittestPath_def)
  have "hashable demo_cfg demo_hash (disk demo_world) ''in/a.txt''"
    by (simp add: hashable_def demo_world_def set_file_def demo_cfg_def entryOf_def wf_stored_def wf_token_def
        wf_path_def token_char_def line_char_def hashLine_def demo_hash_def)
  moreover have "separate demo_cfg [''in/a.txt'']"
    by (simp add: separate_def arc) (simp add: demo_cfg_def)
  ultimately show ?thesis
    using healthy hash pack scan_in scan_out
    by (simp add: backup_setting_def) (simp add: demo_system_def demo_os_def demo_cfg_def)
qed

lemma demo_schedule: "valid_schedule (\<lambda>n. [0..<n])" "valid_schedule (\<lambda>n. rev [0..<n])"
  by (auto simp: valid_schedule_def)

lemma demo_database: "database_on_disk demo_cfg [] demo_world"
  by (simp add: database_on_disk_def demo_world_def demo_cfg_def set_file_def blank_world_def)



lemma demo_unpack: "unpack_tool demo_system (demo_cfg\<lparr>inputFolder := ''out/''\<rparr>) tl ''out/in/a.txt''"
proof -
  have ext: "toLower (extractFileExtensionFromFilePatch ''out/in/a.txt'') = ''txt''" by code_simp
  show ?thesis
    unfolding unpack_tool_def ext
    by (simp add: demo_system_def demo_os_def demo_cfg_def demo_spawn_def demo_child_def decompressCommand_def
        archiveSuffix_def is_jpeg_def is_mp3_def is_packed_def child_ends_def run_ok_def Let_def)
qed

lemma demo_hash_token: "wf_token (demo_hash c) \<and> length (demo_hash c) \<le> 117"
  by (simp add: demo_hash_def wf_token_def token_char_def)



end
