(* ===== verification/Meow.thy ===== *)
theory Meow
  imports Backup_Prelude
begin

text \<open>
  The Meow hash (\<open>meow_hash/meow_hash_x64_aesni.h\<close>) and the tool that prints it
  (\<open>meow_hash/meow_example.cpp\<close>).  A 128-bit register is the list of its sixteen
  bytes, lowest first; the eight accumulation lanes are a list of registers, and
  the macros name them by number.  Memory is a function from addresses to bytes.
  The processor's AES decryption round is the parameter \<open>aes\<close>; the other
  instructions are defined.  Prefetching has no effect on values.

  The one-shot hash reads the end of its input with an aligned load when the
  input ends close to the end of a page; the streaming interface goes through a
  buffer.  Both are shown to hash the same bytes alike.
\<close>

section \<open>Definitions\<close>

type_synonym m128 = "u8 list"

fun le_value :: "u8 list \<Rightarrow> nat" where
  "le_value [] = 0"
| "le_value (b # bs) = unat b + 256 * le_value bs"

fun le_bytes :: "nat \<Rightarrow> nat \<Rightarrow> u8 list" where
  "le_bytes 0 v = []"
| "le_bytes (Suc n) v = of_nat v # le_bytes n (v div 256)"

definition load :: "(nat \<Rightarrow> u8) \<Rightarrow> nat \<Rightarrow> m128" where
  "load mem p = map (\<lambda>j. mem (p + j)) [0 ..< 16]"

definition pxor :: "m128 \<Rightarrow> m128 \<Rightarrow> m128" where
  "pxor a b = map2 (\<lambda>x y. xor x y) a b"

definition pand :: "m128 \<Rightarrow> m128 \<Rightarrow> m128" where
  "pand a b = map2 (\<lambda>x y. and x y) a b"

definition paddq :: "m128 \<Rightarrow> m128 \<Rightarrow> m128" where
  "paddq a b =
     le_bytes 8 ((le_value (take 8 a) + le_value (take 8 b)) mod 2 ^ 64) @
     le_bytes 8 ((le_value (drop 8 a) + le_value (drop 8 b)) mod 2 ^ 64)"

definition pshufb :: "m128 \<Rightarrow> m128 \<Rightarrow> m128" where
  "pshufb a b = map (\<lambda>i. if 128 \<le> unat i then 0 else a ! (unat i mod 16)) b"

definition palignr :: "m128 \<Rightarrow> m128 \<Rightarrow> nat \<Rightarrow> m128" where
  "palignr a b i = take 16 (drop i (b @ a))"

definition pzero :: m128 where
  "pzero = replicate 16 0"

definition movq :: "nat \<Rightarrow> m128" where
  "movq v = le_bytes 8 v @ replicate 8 0"

definition MeowShiftAdjust :: "u8 list" where
  "MeowShiftAdjust = map of_nat ([0 ..< 16] @ [0 ..< 16])"

definition MeowMaskLen :: "u8 list" where
  "MeowMaskLen = replicate 16 255 @ replicate 16 0"

definition MeowDefaultSeed :: "u8 list" where
  "MeowDefaultSeed =
    [0x32, 0x43, 0xF6, 0xA8, 0x88, 0x5A, 0x30, 0x8D, 0x31, 0x31, 0x98, 0xA2, 0xE0, 0x37, 0x07, 0x34,
     0x4A, 0x40, 0x93, 0x82, 0x22, 0x99, 0xF3, 0x1D, 0x00, 0x82, 0xEF, 0xA9, 0x8E, 0xC4, 0xE6, 0xC8,
     0x94, 0x52, 0x82, 0x1E, 0x63, 0x8D, 0x01, 0x37, 0x7B, 0xE5, 0x46, 0x6C, 0xF3, 0x4E, 0x90, 0xC6,
     0xCC, 0x0A, 0xC2, 0x9B, 0x7C, 0x97, 0xC5, 0x0D, 0xD3, 0xF8, 0x4D, 0x5B, 0x5B, 0x54, 0x70, 0x91,
     0x79, 0x21, 0x6D, 0x5D, 0x98, 0x97, 0x9F, 0xB1, 0xBD, 0x13, 0x10, 0xBA, 0x69, 0x8D, 0xFB, 0x5A,
     0xC2, 0xFF, 0xD7, 0x2D, 0xBD, 0x01, 0xAD, 0xFB, 0x7B, 0x8E, 0x1A, 0xFE, 0xD6, 0xA2, 0x67, 0xE9,
     0x6B, 0xA7, 0xC9, 0x04, 0x5F, 0x12, 0xC7, 0xF9, 0x92, 0x4A, 0x19, 0x94, 0x7B, 0x39, 0x16, 0xCF,
     0x70, 0x80, 0x1F, 0x2E, 0x28, 0x58, 0xEF, 0xC1, 0x66, 0x36, 0x92, 0x0D, 0x87, 0x15, 0x74, 0xE6]"

type_synonym lanes = "m128 list"
type_synonym aes = "m128 \<Rightarrow> m128 \<Rightarrow> m128"

definition MEOW_MIX_REG :: "aes \<Rightarrow> nat \<Rightarrow> nat \<Rightarrow> nat \<Rightarrow> nat \<Rightarrow> nat \<Rightarrow> m128 \<Rightarrow> m128 \<Rightarrow> m128 \<Rightarrow> m128 \<Rightarrow> lanes \<Rightarrow> lanes" where
  "MEOW_MIX_REG aes r1 r2 r3 r4 r5 i1 i2 i3 i4 x =
     (let x = x[r1 := aes (x ! r1) (x ! r2)];
          x = x[r3 := paddq (x ! r3) i1];
          x = x[r2 := pxor (x ! r2) i2];
          x = x[r2 := aes (x ! r2) (x ! r4)];
          x = x[r5 := paddq (x ! r5) i3];
          x = x[r4 := pxor (x ! r4) i4]
      in x)"

definition MEOW_MIX :: "aes \<Rightarrow> (nat \<Rightarrow> u8) \<Rightarrow> nat \<Rightarrow> nat \<Rightarrow> nat \<Rightarrow> nat \<Rightarrow> nat \<Rightarrow> nat \<Rightarrow> lanes \<Rightarrow> lanes" where
  "MEOW_MIX aes mem r1 r2 r3 r4 r5 ptr x =
     MEOW_MIX_REG aes r1 r2 r3 r4 r5 (load mem (ptr + 15)) (load mem (ptr + 0)) (load mem (ptr + 1)) (load mem (ptr + 16)) x"

definition MEOW_SHUFFLE :: "aes \<Rightarrow> nat \<Rightarrow> nat \<Rightarrow> nat \<Rightarrow> nat \<Rightarrow> nat \<Rightarrow> nat \<Rightarrow> lanes \<Rightarrow> lanes" where
  "MEOW_SHUFFLE aes r1 r2 r3 r4 r5 r6 x =
     (let x = x[r1 := aes (x ! r1) (x ! r4)];
          x = x[r2 := paddq (x ! r2) (x ! r5)];
          x = x[r4 := pxor (x ! r4) (x ! r6)];
          x = x[r4 := aes (x ! r4) (x ! r2)];
          x = x[r5 := paddq (x ! r5) (x ! r6)];
          x = x[r2 := pxor (x ! r2) (x ! r3)]
      in x)"

text \<open>The seed and the loop over full 256-byte blocks.\<close>

definition seed_lanes :: "u8 list \<Rightarrow> lanes" where
  "seed_lanes seed = map (\<lambda>k. load (\<lambda>i. seed ! i) (16 * k)) [0 ..< 8]"

definition meow_block :: "aes \<Rightarrow> (nat \<Rightarrow> u8) \<Rightarrow> nat \<Rightarrow> lanes \<Rightarrow> lanes" where
  "meow_block aes mem rax x =
     (let x = MEOW_MIX aes mem 0 4 6 1 2 (rax + 0x00) x;
          x = MEOW_MIX aes mem 1 5 7 2 3 (rax + 0x20) x;
          x = MEOW_MIX aes mem 2 6 0 3 4 (rax + 0x40) x;
          x = MEOW_MIX aes mem 3 7 1 4 5 (rax + 0x60) x;
          x = MEOW_MIX aes mem 4 0 2 5 6 (rax + 0x80) x;
          x = MEOW_MIX aes mem 5 1 3 6 7 (rax + 0xa0) x;
          x = MEOW_MIX aes mem 6 2 4 7 0 (rax + 0xc0) x;
          x = MEOW_MIX aes mem 7 3 5 0 1 (rax + 0xe0) x
      in x)"

fun MeowAbsorbBlocks :: "aes \<Rightarrow> (nat \<Rightarrow> u8) \<Rightarrow> nat \<Rightarrow> nat \<Rightarrow> lanes \<Rightarrow> lanes" where
  "MeowAbsorbBlocks aes mem 0 rax x = x"
| "MeowAbsorbBlocks aes mem (Suc BlockCount) rax x =
     MeowAbsorbBlocks aes mem BlockCount (rax + 0x100) (meow_block aes mem rax x)"

text \<open>The chain of conditional mixes for the remaining full 32-byte pieces.\<close>

definition lane_regs :: "(nat \<times> nat \<times> nat \<times> nat \<times> nat) list" where
  "lane_regs = [(2,6,0,3,4), (3,7,1,4,5), (4,0,2,5,6), (5,1,3,6,7), (6,2,4,7,0), (7,3,5,0,1), (0,4,6,1,2)]"

fun mix_lanes :: "aes \<Rightarrow> (nat \<Rightarrow> u8) \<Rightarrow> nat \<Rightarrow> nat \<Rightarrow> (nat \<times> nat \<times> nat \<times> nat \<times> nat) list \<Rightarrow> lanes \<Rightarrow> lanes" where
  "mix_lanes aes mem 0 rax rs x = x"
| "mix_lanes aes mem (Suc LaneCount) rax [] x = x"
| "mix_lanes aes mem (Suc LaneCount) rax ((a, b, c, d, e) # rs) x =
     mix_lanes aes mem LaneCount (rax + 0x20) rs (MEOW_MIX aes mem a b c d e rax x)"

definition mix_down :: "aes \<Rightarrow> lanes \<Rightarrow> lanes" where
  "mix_down aes x =
     (let x = MEOW_SHUFFLE aes 0 1 2 4 5 6 x;
          x = MEOW_SHUFFLE aes 1 2 3 5 6 7 x;
          x = MEOW_SHUFFLE aes 2 3 4 6 7 0 x;
          x = MEOW_SHUFFLE aes 3 4 5 7 0 1 x;
          x = MEOW_SHUFFLE aes 4 5 6 0 1 2 x;
          x = MEOW_SHUFFLE aes 5 6 7 1 2 3 x;
          x = MEOW_SHUFFLE aes 6 7 0 2 3 4 x;
          x = MEOW_SHUFFLE aes 7 0 1 3 4 5 x;
          x = MEOW_SHUFFLE aes 0 1 2 4 5 6 x;
          x = MEOW_SHUFFLE aes 1 2 3 5 6 7 x;
          x = MEOW_SHUFFLE aes 2 3 4 6 7 0 x;
          x = MEOW_SHUFFLE aes 3 4 5 7 0 1 x
      in x)"

definition fold_lanes :: "lanes \<Rightarrow> m128" where
  "fold_lanes x =
     paddq (pxor (paddq (x ! 0) (x ! 2)) (paddq (x ! 1) (x ! 3)))
           (pxor (paddq (x ! 4) (x ! 6)) (paddq (x ! 5) (x ! 7)))"

text \<open>The code both variants end with: residual and length, lanes, mix-down.\<close>

definition meow_tail :: "aes \<Rightarrow> nat \<Rightarrow> m128 \<Rightarrow> m128 \<Rightarrow> (nat \<Rightarrow> u8) \<Rightarrow> nat \<Rightarrow> lanes \<Rightarrow> lanes" where
  "meow_tail aes Len x9 x11 mem rax x =
     (let x8 = palignr x9 x11 15;
          x10 = palignr x9 x11 1;
          x15 = movq Len;
          x12 = palignr pzero x15 15;
          x14 = palignr pzero x15 1;
          x = MEOW_MIX_REG aes 0 4 6 1 2 x8 x9 x10 x11 x;
          x = MEOW_MIX_REG aes 1 5 7 2 3 x12 pzero x14 x15 x;
          x = mix_lanes aes mem ((Len div 32) mod 8) rax lane_regs x
      in mix_down aes x)"

text \<open>\<open>MeowHash\<close>, with the aligned load near the end of a page.\<close>

definition page_end :: "nat \<Rightarrow> nat" where
  "page_end p = p - p mod 4096 + 4095"

definition residual :: "(nat \<Rightarrow> u8) \<Rightarrow> nat \<Rightarrow> nat \<Rightarrow> m128" where
  "residual mem SourceInit Len =
     (let Last = SourceInit + (Len - Len mod 16);
          Len8 = Len mod 16
      in if Len8 \<noteq> 0 then
           (let LastOk = page_end (SourceInit + Len - 1) - 16;
                Align = (if LastOk < Last then Last mod 16 else 0);
                x10 = load (\<lambda>i. MeowShiftAdjust ! i) Align;
                x9 = pshufb (load mem (Last - Align)) x10
            in pand x9 (load (\<lambda>i. MeowMaskLen ! i) (16 - Len8)))
         else pzero)"

definition MeowHash :: "aes \<Rightarrow> u8 list \<Rightarrow> nat \<Rightarrow> (nat \<Rightarrow> u8) \<Rightarrow> nat \<Rightarrow> m128" where
  "MeowHash aes seed Len mem SourceInit =
     (let BlockCount = Len div 256;
          x = MeowAbsorbBlocks aes mem BlockCount SourceInit (seed_lanes seed);
          rax = SourceInit + 256 * BlockCount;
          Last = SourceInit + (Len - Len mod 16);
          r = residual mem SourceInit Len;
          x9 = (if (Len div 16) mod 2 = 1 then load mem (Last - 0x10) else r);
          x11 = (if (Len div 16) mod 2 = 1 then r else pzero)
      in fold_lanes (meow_tail aes Len x9 x11 mem rax x))"

text \<open>The streaming interface.\<close>

record meow_state =
  xmm :: lanes
  TotalLengthInBytes :: nat
  BufferLen :: nat
  Buffer :: "u8 list"

definition MeowBegin :: "u8 list \<Rightarrow> meow_state \<Rightarrow> meow_state" where
  "MeowBegin seed State = State\<lparr>xmm := seed_lanes seed, BufferLen := 0, TotalLengthInBytes := 0\<rparr>"

fun store_bytes :: "u8 list \<Rightarrow> meow_state \<Rightarrow> meow_state" where
  "store_bytes [] State = State"
| "store_bytes (b # Source) State =
     store_bytes Source (State\<lparr>Buffer := (Buffer State)[BufferLen State := b], BufferLen := BufferLen State + 1\<rparr>)"

definition absorb_state :: "aes \<Rightarrow> (nat \<Rightarrow> u8) \<Rightarrow> nat \<Rightarrow> meow_state \<Rightarrow> meow_state" where
  "absorb_state aes mem BlockCount State = State\<lparr>xmm := MeowAbsorbBlocks aes mem BlockCount 0 (xmm State)\<rparr>"

definition MeowAbsorb :: "aes \<Rightarrow> u8 list \<Rightarrow> meow_state \<Rightarrow> meow_state" where
  "MeowAbsorb aes Source0 State0 =
     (let State = State0\<lparr>TotalLengthInBytes := (TotalLengthInBytes State0 + length Source0) mod 2 ^ 64\<rparr>;
          (Source, State) =
            (if BufferLen State \<noteq> 0 then
               (let Fill = min (256 - BufferLen State) (length Source0);
                    State = store_bytes (take Fill Source0) State;
                    State = (if BufferLen State = 256
                             then (absorb_state aes (\<lambda>i. Buffer State ! i) 1 State)\<lparr>BufferLen := 0\<rparr> else State)
                in (drop Fill Source0, State))
             else (Source0, State));
          BlockCount = length Source div 256;
          State = absorb_state aes (\<lambda>i. Source ! i) BlockCount State
      in store_bytes (drop (256 * BlockCount) Source) State)"

definition MeowEnd :: "aes \<Rightarrow> meow_state \<Rightarrow> m128 \<times> u8 list" where
  "MeowEnd aes State =
     (let Len = TotalLengthInBytes State;
          mem = (\<lambda>i. Buffer State ! i);
          Last = (Len mod 256) - Len mod 16;
          r = (if Len mod 16 \<noteq> 0 then pand (load mem Last) (load (\<lambda>i. MeowMaskLen ! i) (16 - Len mod 16)) else pzero);
          x9 = (if (Len div 16) mod 2 = 1 then load mem (Last - 0x10) else r);
          x11 = (if (Len div 16) mod 2 = 1 then r else pzero);
          x = meow_tail aes Len x9 x11 mem 0 (xmm State)
      in (fold_lanes x, concat x))"

definition MeowExpandSeed :: "aes \<Rightarrow> meow_state \<Rightarrow> u8 list \<Rightarrow> u8 list result" where
  "MeowExpandSeed aes State0 Input =
     (if Input = [] then Inl Undefined
      else let State = MeowAbsorb aes (le_bytes 8 (length Input)) (MeowBegin MeowDefaultSeed State0);
               State = (MeowAbsorb aes Input ^^ (256 div length Input + 2)) State
           in Inr (snd (MeowEnd aes State)))"

text \<open>
  What the streaming state has of the data \<open>D\<close> absorbed so far: the full blocks
  in the lanes, the rest in the buffer.
\<close>

definition stream_ok :: "aes \<Rightarrow> u8 list \<Rightarrow> u8 list \<Rightarrow> meow_state \<Rightarrow> bool" where
  "stream_ok aes seed D st \<longleftrightarrow>
     xmm st = MeowAbsorbBlocks aes (\<lambda>i. D ! i) (length D div 256) 0 (seed_lanes seed) \<and>
     BufferLen st = length D mod 256 \<and> length (Buffer st) = 256 \<and>
     take (length D mod 256) (Buffer st) = drop (256 * (length D div 256)) D"

text \<open>The addresses the unaligned part of the one-shot hash reads.\<close>

definition residual_reads :: "nat \<Rightarrow> nat \<Rightarrow> nat set" where
  "residual_reads SourceInit Len =
     (let Last = SourceInit + (Len - Len mod 16);
          LastOk = page_end (SourceInit + Len - 1) - 16;
          Align = (if LastOk < Last then Last mod 16 else 0)
      in if Len mod 16 = 0 then {} else {Last - Align ..< Last - Align + 16})"

section \<open>The hash depends on the bytes only\<close>

lemma load_cong: "(\<And>j. j < 16 \<Longrightarrow> m (p + j) = m' (q + j)) \<Longrightarrow> load m p = load m' q"
  by (simp add: load_def)

lemma MEOW_MIX_cong:
  assumes "\<And>j. j < 32 \<Longrightarrow> m (p + j) = m' (q + j)"
  shows "MEOW_MIX aes m a b c d e p x = MEOW_MIX aes m' a b c d e q x"
proof -
  have "load m (p + o') = load m' (q + o')" if "o' \<le> 16" for o'
    using assms [of "o' + _"] that by (intro load_cong) (simp add: add.assoc)
  from this [of 0] this [of 1] this show ?thesis by (simp add: MEOW_MIX_def)
qed

lemma meow_block_cong:
  assumes "\<And>j. j < 256 \<Longrightarrow> m (p + j) = m' (q + j)"
  shows "meow_block aes m p x = meow_block aes m' q x"
proof -
  have "MEOW_MIX aes m a b c d e (p + k) y = MEOW_MIX aes m' a b c d e (q + k) y" if "k \<le> 0xe0" for k a b c d e y
    using assms [of "k + _"] that by (intro MEOW_MIX_cong) (simp add: add.assoc)
  from this [where k = 0] this show ?thesis by (simp add: meow_block_def)
qed

lemma MeowAbsorbBlocks_cong:
  "(\<And>j. j < 256 * n \<Longrightarrow> m (p + j) = m' (q + j)) \<Longrightarrow> MeowAbsorbBlocks aes m n p x = MeowAbsorbBlocks aes m' n q x"
proof (induction n arbitrary: p q x)
  case (Suc n)
  have "meow_block aes m p x = meow_block aes m' q x" by (rule meow_block_cong) (use Suc.prems in auto)
  moreover have "m (p + 256 + j) = m' (q + 256 + j)" if "j < 256 * n" for j
    using Suc.prems [of "256 + j"] that by (simp add: add.assoc)
  ultimately show ?case using Suc.IH [of "p + 256" "q + 256"] by simp
qed simp

lemma MeowAbsorbBlocks_add:
  "MeowAbsorbBlocks aes m (a + b) p x = MeowAbsorbBlocks aes m b (p + 256 * a) (MeowAbsorbBlocks aes m a p x)"
  by (induction a arbitrary: p x) (simp_all add: algebra_simps)

lemma mix_lanes_cong:
  "(\<And>j. j < 32 * n \<Longrightarrow> m (p + j) = m' (q + j)) \<Longrightarrow> mix_lanes aes m n p rs x = mix_lanes aes m' n q rs x"
proof (induction n arbitrary: p q rs x)
  case (Suc n)
  show ?case
  proof (cases rs)
    case (Cons r rs')
    obtain a b c d e where r: "r = (a, b, c, d, e)" by (cases r)
    have "MEOW_MIX aes m a b c d e p x = MEOW_MIX aes m' a b c d e q x"
      by (rule MEOW_MIX_cong) (use Suc.prems in auto)
    moreover have "m (p + 32 + j) = m' (q + 32 + j)" if "j < 32 * n" for j
      using Suc.prems [of "32 + j"] that by (simp add: add.assoc)
    ultimately show ?thesis using Suc.IH [of "p + 32" "q + 32"] by (simp add: Cons r)
  qed simp
qed simp

lemma load_nth: "j < 16 \<Longrightarrow> load m p ! j = m (p + j)"
  by (simp add: load_def)

lemma load_length [simp]: "length (load m p) = 16"
  by (simp add: load_def)

text \<open>Masking keeps the first bytes.\<close>

lemma mask_residual:
  assumes "k \<le> 16" and "length a = 16"
  shows "pand a (load (\<lambda>i. MeowMaskLen ! i) (16 - k)) = map (\<lambda>j. if j < k then a ! j else 0) [0 ..< 16]"
proof (rule nth_equalityI)
  show "length (pand a (load (\<lambda>i. MeowMaskLen ! i) (16 - k))) = length (map (\<lambda>j. if j < k then a ! j else 0) [0 ..< 16])"
    using assms by (simp add: pand_def)
  fix j assume "j < length (pand a (load (\<lambda>i. MeowMaskLen ! i) (16 - k)))"
  then have j: "j < 16" using assms by (simp add: pand_def)
  have "MeowMaskLen ! (16 - k + j) = (if j < k then 255 else 0)"
    using j assms(1) by (auto simp: MeowMaskLen_def nth_append)
  moreover have "and x 255 = x" for x :: u8
  proof -
    have "(255 :: u8) = - 1" by simp
    then show ?thesis by (simp only: and.right_neutral)
  qed
  ultimately show "pand a (load (\<lambda>i. MeowMaskLen ! i) (16 - k)) ! j = map (\<lambda>j. if j < k then a ! j else 0) [0 ..< 16] ! j"
    using j assms by (simp add: pand_def load_nth)
qed

lemma page_end_bounds: "e \<le> page_end e \<and> page_end e \<le> e + 4095 \<and> (page_end e - 15) mod 16 = 0 \<and> 4095 \<le> page_end e"
proof -
  define q where "q = e div 4096"
  define r where "r = e mod 4096"
  have e: "e = 4096 * q + r" "r < 4096" by (simp_all add: q_def r_def)
  have pe: "page_end e = 4096 * q + 4095" by (simp add: page_end_def q_def minus_mod_eq_mult_div)
  have "4096 * q + 4095 - 15 = 16 * (256 * q + 255)" by simp
  then have "(4096 * q + 4095 - 15) mod 16 = 0" by (metis mod_mult_self1_is_0)
  with e pe show ?thesis by simp
qed

text \<open>The aligned load covers the last bytes of the input.\<close>

lemma align_covers:
  assumes "0 < k" and "k < 16" and "page_end (l + k - 1) - 16 < l"
  shows "k \<le> 16 - l mod 16 \<and> l - l mod 16 = page_end (l + k - 1) - 15 \<and> l mod 16 \<le> l"
proof -
  define pe where "pe = page_end (l + k - 1)"
  have pe: "l + k - 1 \<le> pe" "(pe - 15) mod 16 = 0" "4095 \<le> pe" using page_end_bounds [of "l + k - 1"] by (auto simp: pe_def)
  have "pe - 15 \<le> l" "l < pe - 15 + 16" using assms pe by (auto simp: pe_def)
  moreover from pe(2) obtain m where m: "pe - 15 = 16 * m" by (auto simp: mod_eq_0_iff_dvd elim: dvdE)
  ultimately obtain r where r: "l = 16 * m + r" "r < 16" by (metis add_less_cancel_left le_Suc_ex)
  then have "l mod 16 = r" by simp
  with m r pe assms show ?thesis unfolding pe_def [symmetric] by auto
qed

lemma residual_bytes:
  assumes "Len mod 16 \<noteq> 0"
  shows "residual mem src Len =
    map (\<lambda>j. if j < Len mod 16 then mem (src + (Len - Len mod 16) + j) else 0) [0 ..< 16]"
proof -
  define l where "l = src + (Len - Len mod 16)"
  define k where "k = Len mod 16"
  define al where "al = (if page_end (src + Len - 1) - 16 < l then l mod 16 else 0)"
  have k: "0 < k" "k < 16" "src + Len - 1 = l + k - 1" using assms by (auto simp: k_def l_def)
  have al: "al < 16" "k \<le> 16 - al" "al \<le> l" using align_covers [OF k(1,2), of l] k by (auto simp: al_def)
  let ?x = "pshufb (load mem (l - al)) (load (\<lambda>i. MeowShiftAdjust ! i) al)"
  have x: "?x ! j = mem (l + j)" if "j < k" for j
  proof -
    define t where "t = al + j"
    have t: "t < 16" "l - al + t = l + j" using that al by (auto simp: t_def)
    then have "MeowShiftAdjust ! t = of_nat t" by (simp add: MeowShiftAdjust_def nth_append)
    moreover have "unat (of_nat t :: u8) = t" using t by (simp add: unsigned_of_nat take_bit_eq_mod)
    ultimately show ?thesis using that k t by (simp add: pshufb_def load_nth t_def [symmetric])
  qed
  have "residual mem src Len = pand ?x (load (\<lambda>i. MeowMaskLen ! i) (16 - k))"
    using assms by (simp add: residual_def Let_def l_def k_def al_def)
  also have "\<dots> = map (\<lambda>j. if j < k then ?x ! j else 0) [0 ..< 16]"
    using k by (intro mask_residual) (auto simp: pshufb_def)
  also have "\<dots> = map (\<lambda>j. if j < k then mem (l + j) else 0) [0 ..< 16]" using x by auto
  finally show ?thesis by (simp add: k_def l_def)
qed



section \<open>Streaming\<close>

lemma store_bytes_eq:
  "BufferLen st + length bs \<le> length (Buffer st) \<Longrightarrow> store_bytes bs st =
     st\<lparr>Buffer := take (BufferLen st) (Buffer st) @ bs @ drop (BufferLen st + length bs) (Buffer st),
       BufferLen := BufferLen st + length bs\<rparr>"
proof (induction bs arbitrary: st)
  case (Cons b bs)
  let ?st = "st\<lparr>Buffer := (Buffer st)[BufferLen st := b], BufferLen := BufferLen st + 1\<rparr>"
  have l: "BufferLen st < length (Buffer st)" using Cons.prems by simp
  have "take (BufferLen st + 1) ((Buffer st)[BufferLen st := b]) = take (BufferLen st) (Buffer st) @ [b]"
    using l by (simp add: take_Suc_conv_app_nth)
  with Cons.IH [of ?st] Cons.prems show ?case by (simp add: drop_update_cancel)
qed simp

lemma stream_total: "stream_ok aes seed D (st\<lparr>TotalLengthInBytes := n\<rparr>) = stream_ok aes seed D st"
  by (simp add: stream_ok_def)

text \<open>On a block boundary: the full blocks of the new data, then its rest.\<close>

lemma stream_aligned:
  assumes "stream_ok aes seed D st" and "length D mod 256 = 0"
  shows "stream_ok aes seed (D @ S)
    (store_bytes (drop (256 * (length S div 256)) S) (absorb_state aes (\<lambda>i. S ! i) (length S div 256) st))"
proof -
  define d where "d = length D div 256"
  define n where "n = length S div 256"
  have len: "length D = 256 * d" using assms(2) by (auto simp: d_def)
  have div: "length (D @ S) div 256 = d + n" "length (D @ S) mod 256 = length S mod 256"
    by (simp_all add: len n_def)
  have "MeowAbsorbBlocks aes (\<lambda>i. (D @ S) ! i) (d + n) 0 y =
      MeowAbsorbBlocks aes (\<lambda>i. S ! i) n 0 (MeowAbsorbBlocks aes (\<lambda>i. D ! i) d 0 y)" for y
  proof -
    have "MeowAbsorbBlocks aes (\<lambda>i. (D @ S) ! i) d 0 y = MeowAbsorbBlocks aes (\<lambda>i. D ! i) d 0 y"
      by (rule MeowAbsorbBlocks_cong) (simp add: nth_append len)
    moreover have "MeowAbsorbBlocks aes (\<lambda>i. (D @ S) ! i) n (256 * d) z = MeowAbsorbBlocks aes (\<lambda>i. S ! i) n 0 z" for z
      by (rule MeowAbsorbBlocks_cong) (simp add: nth_append len)
    ultimately show ?thesis by (simp add: MeowAbsorbBlocks_add)
  qed
  moreover have rest: "length (drop (256 * n) S) = length S mod 256" by (simp add: n_def minus_mult_div_eq_mod)
  moreover have "length S mod 256 \<le> 256" by (simp add: less_imp_le)
  ultimately show ?thesis
    using assms store_bytes_eq [of "absorb_state aes (\<lambda>i. S ! i) n st" "drop (256 * n) S"]
    unfolding stream_ok_def div n_def [symmetric]
    by (auto simp: absorb_state_def d_def [symmetric] len algebra_simps)
qed

text \<open>Filling the buffer, to the end of a block or not.\<close>

lemma stream_fill:
  assumes "stream_ok aes seed D st" and "length D mod 256 + length S \<le> 256"
  defines "st' \<equiv> store_bytes S st"
  shows "length D mod 256 + length S < 256 \<Longrightarrow> BufferLen st' \<noteq> 256 \<and> stream_ok aes seed (D @ S) st'"
    and "length D mod 256 + length S = 256 \<Longrightarrow> BufferLen st' = 256 \<and>
      stream_ok aes seed (D @ S) ((absorb_state aes (\<lambda>i. Buffer st' ! i) 1 st')\<lparr>BufferLen := 0\<rparr>)"
proof -
  define d where "d = length D div 256"
  define r where "r = length D mod 256"
  have len: "length D = 256 * d + r" by (simp add: d_def r_def)
  have r: "r < 256" by (simp add: r_def)
  have ok: "xmm st = MeowAbsorbBlocks aes (\<lambda>i. D ! i) d 0 (seed_lanes seed)" "BufferLen st = r"
    "length (Buffer st) = 256" "take r (Buffer st) = drop (256 * d) D"
    using assms(1) by (simp_all add: stream_ok_def d_def r_def)
  have st': "st' = st\<lparr>Buffer := drop (256 * d) D @ S @ drop (r + length S) (Buffer st), BufferLen := r + length S\<rparr>"
    using store_bytes_eq [of st S] assms(2) ok by (simp add: st'_def r_def [symmetric])
  have blocks: "MeowAbsorbBlocks aes (\<lambda>i. (D @ S) ! i) d 0 y = MeowAbsorbBlocks aes (\<lambda>i. D ! i) d 0 y" for y
    by (rule MeowAbsorbBlocks_cong) (simp add: nth_append len)
  {
    assume less: "length D mod 256 + length S < 256"
    then have "r + length S < 256" by (simp only: r_def)
    then have "length (D @ S) div 256 = d" "length (D @ S) mod 256 = r + length S"
      by (simp_all add: len add.assoc)
    then show "BufferLen st' \<noteq> 256 \<and> stream_ok aes seed (D @ S) st'"
      using less ok blocks by (auto simp: stream_ok_def st' r_def [symmetric] len)
  next
    assume full: "length D mod 256 + length S = 256"
    then have full': "r + length S = 256" by (simp only: r_def)
    then have len': "length (D @ S) = 256 * (d + 1)" by (simp add: len)
    have buf: "Buffer st' ! j = (D @ S) ! (256 * d + j)" if "j < 256" for j
      using that full' r by (auto simp: st' nth_append len less_diff_conv)
    have "MeowAbsorbBlocks aes (\<lambda>i. (D @ S) ! i) (d + 1) 0 y =
        MeowAbsorbBlocks aes (\<lambda>i. Buffer st' ! i) 1 0 (MeowAbsorbBlocks aes (\<lambda>i. D ! i) d 0 y)" for y
    proof -
      have "MeowAbsorbBlocks aes (\<lambda>i. (D @ S) ! i) 1 (256 * d) z = MeowAbsorbBlocks aes (\<lambda>i. Buffer st' ! i) 1 0 z" for z
        by (rule MeowAbsorbBlocks_cong) (simp add: buf)
      then show ?thesis using blocks MeowAbsorbBlocks_add [of aes "\<lambda>i. (D @ S) ! i" d 1 0 y] by simp
    qed
    moreover have "length (D @ S) div 256 = d + 1" "length (D @ S) mod 256 = 0" using len' by simp_all
    moreover have "length (Buffer st') = 256" using full' by (simp add: st' ok len)
    ultimately show "BufferLen st' = 256 \<and>
      stream_ok aes seed (D @ S) ((absorb_state aes (\<lambda>i. Buffer st' ! i) 1 st')\<lparr>BufferLen := 0\<rparr>)"
      using full' ok len' by (simp add: stream_ok_def absorb_state_def st')
  }
qed

lemma store_total [simp]: "TotalLengthInBytes (store_bytes bs st) = TotalLengthInBytes st"
  by (induction bs st rule: store_bytes.induct) simp_all

lemma absorb_total [simp]: "TotalLengthInBytes (absorb_state aes m n st) = TotalLengthInBytes st"
  by (simp add: absorb_state_def)

lemma absorb_state_0 [simp]: "absorb_state aes m 0 st = st"
  by (simp add: absorb_state_def)

lemma MeowAbsorb_ok:
  assumes "stream_ok aes seed D st"
  shows "stream_ok aes seed (D @ S) (MeowAbsorb aes S st) \<and>
    TotalLengthInBytes (MeowAbsorb aes S st) = (TotalLengthInBytes st + length S) mod 2 ^ 64"
proof -
  define st1 where "st1 = st\<lparr>TotalLengthInBytes := (TotalLengthInBytes st + length S) mod 2 ^ 64\<rparr>"
  define r where "r = length D mod 256"
  have ok: "stream_ok aes seed D st1" and total: "TotalLengthInBytes st1 = (TotalLengthInBytes st + length S) mod 2 ^ 64"
    using assms by (simp_all add: st1_def stream_total)
  have len: "BufferLen st1 = r" "r < 256" using ok by (simp_all add: stream_ok_def r_def)
  show ?thesis
  proof (cases "r = 0")
    case True
    have "MeowAbsorb aes S st =
        store_bytes (drop (256 * (length S div 256)) S) (absorb_state aes (\<lambda>i. S ! i) (length S div 256) st1)"
      using len True unfolding MeowAbsorb_def Let_def st1_def [symmetric] by simp
    then show ?thesis using stream_aligned [OF ok] True total by (simp add: r_def)
  next
    case False
    show ?thesis
    proof (cases "length S < 256 - r")
      case True
      then have fit: "length D mod 256 + length S < 256" using len by (simp add: r_def less_diff_conv)
      note fill = stream_fill(1) [OF ok less_imp_le [OF fit] fit]
      have "MeowAbsorb aes S st = store_bytes S st1"
        using True False len fill unfolding MeowAbsorb_def Let_def st1_def [symmetric] by simp
      then show ?thesis using fill total by simp
    next
      case big: False
      let ?A = "take (256 - r) S"
      let ?st2 = "store_bytes ?A st1"
      let ?st3 = "(absorb_state aes (\<lambda>i. Buffer ?st2 ! i) 1 ?st2)\<lparr>BufferLen := 0\<rparr>"
      have full: "length D mod 256 + length ?A = 256" using big len by (simp add: r_def [symmetric])
      note fill = stream_fill(2) [OF ok eq_imp_le [OF full] full]
      have "MeowAbsorb aes S st = store_bytes (drop (256 * (length (drop (256 - r) S) div 256)) (drop (256 - r) S))
          (absorb_state aes (\<lambda>i. drop (256 - r) S ! i) (length (drop (256 - r) S) div 256) ?st3)"
        using False big len fill unfolding MeowAbsorb_def Let_def st1_def [symmetric] by (simp add: min_absorb1 not_less del: nth_drop)
      moreover have "length (D @ ?A) mod 256 = 0"
        using full by (simp add: mod_add_left_eq [symmetric, of "length D"] del: mod_add_left_eq)
      ultimately show ?thesis
        using stream_aligned [OF conjunct2 [OF fill], of "drop (256 - r) S"] total by (simp del: nth_drop)
    qed
  qed
qed

text \<open>Hashing from the buffer and hashing from memory read the same bytes.\<close>

lemma hash_from_state:
  assumes "stream_ok aes seed D st" and "TotalLengthInBytes st = length D"
    and "\<And>i. i < length D \<Longrightarrow> mem (src + i) = D ! i"
  shows "fst (MeowEnd aes st) = MeowHash aes seed (length D) mem src"
proof -
  define n where "n = length D"
  define d where "d = n div 256"
  define r where "r = n mod 256"
  have n: "n = 256 * d + r" "r < 256" by (simp_all add: d_def r_def)
  have ok: "xmm st = MeowAbsorbBlocks aes (\<lambda>i. D ! i) d 0 (seed_lanes seed)"
    "length (Buffer st) = 256" "take r (Buffer st) = drop (256 * d) D"
    using assms(1) by (simp_all add: stream_ok_def d_def r_def n_def)
  have buf: "Buffer st ! j = mem (src + 256 * d + j)" if "j < r" for j
  proof -
    have "Buffer st ! j = take r (Buffer st) ! j" using that by simp
    also have "\<dots> = D ! (256 * d + j)" using that n ok(3) by (simp add: n_def)
    also have "\<dots> = mem (src + 256 * d + j)" using assms(3) [of "256 * d + j"] that n by (simp add: n_def add.assoc)
    finally show ?thesis .
  qed
  have blocks: "xmm st = MeowAbsorbBlocks aes mem d src (seed_lanes seed)"
    unfolding ok(1) by (rule MeowAbsorbBlocks_cong) (use assms(3) n in \<open>auto simp: n_def\<close>)
  have mod16: "n mod 16 = r mod 16"
    using mod_mult_self4 [of 16 "16 * d" r] n by (simp add: mult.assoc [symmetric])
  have odd: "(n div 16) mod 2 = (r div 16) mod 2"
  proof -
    have "n div 16 = 16 * d + r div 16" using n div_mult_self4 [of 16 "16 * d" r] by (simp add: mult.assoc [symmetric])
    then show ?thesis using mod_mult_self4 [of 2 "8 * d" "r div 16"] by (simp add: mult.assoc [symmetric])
  qed
  have lanes: "(n div 32) mod 8 = r div 32"
  proof -
    have "n div 32 = 8 * d + r div 32" using n div_mult_self4 [of 32 "8 * d" r] by (simp add: mult.assoc [symmetric])
    moreover have "r div 32 < 8" using n(2) by (simp add: less_mult_imp_div_less)
    ultimately show ?thesis by simp
  qed
  have lst: "src + (n - n mod 16) = src + 256 * d + (r - r mod 16)" using n mod16 by (simp add: mod_less_eq_dividend)
  have res: "(if n mod 16 \<noteq> 0 then pand (load ((!) (Buffer st)) (r - n mod 16))
        (load ((!) MeowMaskLen) (16 - n mod 16)) else pzero) = residual mem src n"
  proof (cases "n mod 16 = 0")
    case False
    have "pand (load ((!) (Buffer st)) (r - n mod 16)) (load ((!) MeowMaskLen) (16 - n mod 16)) =
        map (\<lambda>j. if j < n mod 16 then load ((!) (Buffer st)) (r - n mod 16) ! j else 0) [0 ..< 16]"
      by (intro mask_residual) (simp_all add: less_imp_le)
    also have "\<dots> = map (\<lambda>j. if j < n mod 16 then mem (src + (n - n mod 16) + j) else 0) [0 ..< 16]"
    proof (rule map_cong [OF refl])
      fix j :: nat assume "j \<in> set [0 ..< 16]"
      then have j: "j < 16" by simp
      have "Buffer st ! (r - n mod 16 + j) = mem (src + (n - n mod 16) + j)" if "j < n mod 16"
      proof -
        have "r - n mod 16 + j < r" using that mod16 mod_less_eq_dividend [of r 16] by linarith
        from buf [OF this] show ?thesis unfolding lst unfolding mod16 by (simp only: add.assoc)
      qed
      then show "(if j < n mod 16 then load ((!) (Buffer st)) (r - n mod 16) ! j else 0) =
          (if j < n mod 16 then mem (src + (n - n mod 16) + j) else 0)"
        using j by (simp add: load_nth)
    qed
    also have "\<dots> = residual mem src n" using residual_bytes [OF False] by simp
    finally show ?thesis using False by simp
  qed (simp add: residual_def)
  have x9: "load ((!) (Buffer st)) (r - n mod 16 - 16) = load mem (src + (n - n mod 16) - 16)" if "(n div 16) mod 2 = 1"
  proof -
    have "r div 16 \<noteq> 0" using that odd by auto
    then have "r - r mod 16 \<ge> 16" by (simp add: minus_mod_eq_mult_div)
    then obtain t where t: "r - r mod 16 = 16 + t" by (auto dest: le_Suc_ex)
    have "Buffer st ! (t + j) = mem (src + 256 * d + t + j)" if "j < 16" for j
    proof -
      have "t + j < r" using t that mod_less_eq_dividend [of r 16] by linarith
      from buf [OF this] show ?thesis by (simp only: add.assoc)
    qed
    moreover have "src + 256 * d + (16 + t) - 16 = src + 256 * d + t" by simp
    ultimately show ?thesis
      unfolding lst unfolding mod16 t by (simp only: diff_add_inverse) (rule load_cong)
  qed
  have mix: "mix_lanes aes ((!) (Buffer st)) (r div 32) 0 lane_regs y = mix_lanes aes mem (r div 32) (src + 256 * d) lane_regs y" for y
    by (rule mix_lanes_cong) (use buf in auto)
  show ?thesis
    using x9
    unfolding MeowEnd_def MeowHash_def Let_def assms(2) n_def [symmetric] d_def [symmetric] r_def [symmetric]
      fst_conv blocks res meow_tail_def lanes mix by simp
qed

lemma stream_begin: "length (Buffer st0) = 256 \<Longrightarrow> stream_ok aes seed [] (MeowBegin seed st0)"
  by (simp add: stream_ok_def MeowBegin_def)

lemma stream_fold:
  assumes "stream_ok aes seed D st"
  shows "stream_ok aes seed (D @ concat chunks) (fold (MeowAbsorb aes) chunks st) \<and>
    TotalLengthInBytes (fold (MeowAbsorb aes) chunks st) mod 2 ^ 64 =
      (TotalLengthInBytes st + length (concat chunks)) mod 2 ^ 64"
  using assms
proof (induction chunks arbitrary: D st)
  case (Cons c cs)
  from MeowAbsorb_ok [OF Cons.prems, of c] Cons.IH [of "D @ c" "MeowAbsorb aes c st"] show ?case
    by (auto simp: mod_simps add.assoc)
qed simp

text \<open>C16. Streaming and one-shot hashing agree: beginning with a seed, absorbing the
  input in pieces of any sizes (empty ones too) and ending gives the hash that
  one call over the whole input in memory gives, wherever in memory the input
  lies and whatever is stored around it.
\<close>

theorem streaming_is_MeowHash:
  assumes "length (Buffer st0) = 256" and "length (concat chunks) < 2 ^ 64"
    and "\<forall>i < length (concat chunks). mem (src + i) = concat chunks ! i"
  shows "fst (MeowEnd aes (fold (MeowAbsorb aes) chunks (MeowBegin seed st0))) =
    MeowHash aes seed (length (concat chunks)) mem src"
proof -
  let ?st = "fold (MeowAbsorb aes) chunks (MeowBegin seed st0)"
  from stream_fold [OF stream_begin [OF assms(1)], of aes seed chunks] have
    ok: "stream_ok aes seed (concat chunks) ?st"
    and total: "TotalLengthInBytes ?st mod 2 ^ 64 = length (concat chunks) mod 2 ^ 64"
    by (simp_all add: MeowBegin_def)
  have "TotalLengthInBytes ?st < 2 ^ 64"
  proof (cases chunks rule: rev_cases)
    case (snoc cs c)
    with stream_fold [OF stream_begin [OF assms(1)], of aes seed cs]
      MeowAbsorb_ok [of aes seed "concat cs" "fold (MeowAbsorb aes) cs (MeowBegin seed st0)" c]
    show ?thesis by simp
  qed (simp add: MeowBegin_def)
  with total assms(2) have "TotalLengthInBytes ?st = length (concat chunks)" by simp
  from hash_from_state [OF ok this] assms(3) show ?thesis by blast
qed

theorem streaming_is_MeowHash_witness:
  "fst (MeowEnd (\<lambda>a b. pxor a b) (fold (MeowAbsorb (\<lambda>a b. pxor a b)) [[1], [], [2, 3]]
       (MeowBegin MeowDefaultSeed \<lparr>xmm = [], TotalLengthInBytes = 9, BufferLen = 9, Buffer = replicate 256 7\<rparr>))) =
     MeowHash (\<lambda>a b. pxor a b) MeowDefaultSeed 3 (\<lambda>p. of_nat p - 99) 100"
proof -
  have "\<forall>i < length (concat [[1], [], [2, 3 :: u8]]). (\<lambda>p. of_nat p - 99 :: u8) (100 + i) = concat [[1], [], [2, 3]] ! i"
    by (auto simp: less_Suc_eq numeral_3_eq_3)
  from streaming_is_MeowHash [OF _ _ this] show ?thesis by (simp add: numeral_3_eq_3)
qed

end
