(* ===== verification/Meow_Tool.thy ===== *)
theory Meow_Tool
  imports Meow Backup_Runs
begin

text \<open>
  \<open>meow_hash/meow_example.cpp\<close>, the program \<open>ctrlcenter2\<close> starts as \<open>meowhash\<close>:
  what it prints for its command line and the content of the named file.  The
  parameters are the processor's AES round, the address \<open>malloc\<close> gives the
  buffer (none when memory is short) and the bytes that lie around it.
\<close>

section \<open>Definitions\<close>

definition hex_digit :: "nat \<Rightarrow> char" where
  "hex_digit d = (if d < 10 then char_of (48 + d) else char_of (55 + d))"

text \<open>\<open>%08X\<close> of a 32-bit value.\<close>

definition hex8 :: "nat \<Rightarrow> string" where
  "hex8 v = map (\<lambda>k. hex_digit ((v div 16 ^ (7 - k)) mod 16)) [0 ..< 8]"

definition MeowU32From :: "m128 \<Rightarrow> nat \<Rightarrow> nat" where
  "MeowU32From h i = le_value (take 4 (drop (4 * i) h))"

definition PrintHash :: "m128 \<Rightarrow> string" where
  "PrintHash Hash =
     hex8 (MeowU32From Hash 3) @ ''-'' @ hex8 (MeowU32From Hash 2) @ ''-'' @
     hex8 (MeowU32From Hash 1) @ ''-'' @ hex8 (MeowU32From Hash 0)"

text \<open>
  \<open>ReadEntireFile\<close>: the size, the address of the copy (if there is one) and what
  was printed.
\<close>

record machine =
  cpu_aes :: aes
  malloc_at :: "nat \<Rightarrow> nat option"
  other_memory :: "nat \<Rightarrow> u8"

definition memory :: "machine \<Rightarrow> nat \<Rightarrow> string \<Rightarrow> nat \<Rightarrow> u8" where
  "memory mc p c a = (if p \<le> a \<and> a < p + length c then of_char (c ! (a - p)) else other_memory mc a)"

definition ReadEntireFile :: "machine \<Rightarrow> string \<Rightarrow> string option \<Rightarrow> (nat \<times> nat option) \<times> string" where
  "ReadEntireFile mc Filename file =
     (case file of
        None \<Rightarrow> ((0, None), ''ERROR: Unable to load '' @ [CHR 0x22] @ Filename @ [CHR 0x22, CHR 0x0A])
      | Some c \<Rightarrow>
          (case malloc_at mc (length c) of
             None \<Rightarrow> ((0, None), [])
           | Some p \<Rightarrow> ((length c, Some p), [])))"

definition HashOneFile :: "machine \<Rightarrow> string \<Rightarrow> string option \<Rightarrow> string" where
  "HashOneFile mc FilenameA file =
     (let ((Size, Contents), printed) = ReadEntireFile mc FilenameA file
      in case Contents of
           None \<Rightarrow> printed
         | Some p \<Rightarrow>
             (let HashA = MeowHash (cpu_aes mc) MeowDefaultSeed Size (memory mc p (the file)) p
              in printed @ ''MeowHash '' @ PrintHash HashA @ '' '' @ FilenameA))"

definition banner :: string where
  "banner = ''meowhash 0.5/calico'' @ [CHR 0x0A] @
     ''(C) Copyright 2018-2019 by Molly Rocket, Inc. (https://mollyrocket.com)'' @ [CHR 0x0A] @
     ''See https://mollyrocket.com/meowhash for details.'' @ [CHR 0x0A, CHR 0x0A]"

definition meow_main :: "machine \<Rightarrow> string list \<Rightarrow> (string \<Rightarrow> string option) \<Rightarrow> int \<times> string" where
  "meow_main mc Args readable =
     (0,
      (if length Args \<le> 2 then banner else []) @
      (if length Args = 2 \<or> length Args = 3 then HashOneFile mc (Args ! 1) (readable (Args ! 1))
       else ''dunno what to do, this is a special (modified) meowhash app, so default params does'' @ [CHR 0x6E, CHR 0x27] @
            ''t work!'' @ [CHR 0x0A]))"

text \<open>The hash of a file's content, as the tool prints it.\<close>

definition content_hash :: "machine \<Rightarrow> string \<Rightarrow> string" where
  "content_hash mc c = PrintHash (MeowHash (cpu_aes mc) MeowDefaultSeed (length c) (\<lambda>i. of_char (c ! i)) 0)"

text \<open>A system on which the spawned \<open>meowhash\<close> is this program.\<close>

definition runs_meowhash :: "os \<Rightarrow> Configuration \<Rightarrow> machine \<Rightarrow> bool" where
  "runs_meowhash os cfg mc \<longleftrightarrow>
     path_max + 64 \<le> os_pipe_capacity os \<and>
     (\<forall>f d. length f < path_max \<longrightarrow>
        os_posix_spawn os [toolsFolder cfg @ ''meowhash'', f, ''--nologo''] (os_environ os) d =
          (let (code, out) = meow_main mc [toolsFolder cfg @ ''meowhash'', f, ''--nologo''] (files d)
           in (Inr \<lparr>wait_ok = True, exited = True, exit_status = nat code, stdout_text = out, stderr_text = []\<rparr>, d)))"

section \<open>The printed line\<close>

lemma MeowHash_bytes:
  assumes "\<And>i. i < length c \<Longrightarrow> m (p + i) = m' (q + i)"
  shows "MeowHash aes seed (length c) m p = MeowHash aes seed (length c) m' q"
proof -
  define D where "D = map (\<lambda>i. m (p + i)) [0 ..< length c]"
  obtain st where st: "stream_ok aes seed D st" "TotalLengthInBytes st = length D"
  proof -
    let ?st = "\<lparr>xmm = [], TotalLengthInBytes = 0, BufferLen = 0, Buffer = replicate 256 0\<rparr>"
    have "stream_ok aes seed ([] @ D) (MeowAbsorb aes D (MeowBegin seed ?st))"
      using MeowAbsorb_ok [OF stream_begin, of ?st aes seed D] by simp
    then have "stream_ok aes seed D ((MeowAbsorb aes D (MeowBegin seed ?st))\<lparr>TotalLengthInBytes := length D\<rparr>)"
      by (simp add: stream_total)
    then show ?thesis by (rule that) simp
  qed
  have "fst (MeowEnd aes st) = MeowHash aes seed (length D) m p"
    by (rule hash_from_state [OF st]) (simp add: D_def)
  moreover have "fst (MeowEnd aes st) = MeowHash aes seed (length D) m' q"
    by (rule hash_from_state [OF st]) (use assms in \<open>simp add: D_def\<close>)
  ultimately show ?thesis by (simp add: D_def)
qed

lemma hex_digit_token: "d < 16 \<Longrightarrow> token_char (hex_digit d)"
proof -
  assume "d < 16"
  then have "d \<in> {..<16}" by simp
  then have "d \<in> set [0 ..< 16]" by auto
  moreover have "list_all (\<lambda>d. token_char (hex_digit d)) [0 ..< 16]" by code_simp
  ultimately show ?thesis unfolding list_all_iff by blast
qed

lemma hex8_token: "list_all token_char (hex8 v)" "length (hex8 v) = 8"
  by (auto simp: hex8_def list_all_iff intro!: hex_digit_token)

lemma PrintHash_token: "wf_token (PrintHash h) \<and> length (PrintHash h) = 35"
proof -
  have "token_char CHR ''-''" by (simp add: token_char_def)
  moreover have "PrintHash h \<noteq> []" by (simp add: PrintHash_def)
  ultimately show ?thesis using hex8_token by (simp add: wf_token_def PrintHash_def)
qed

lemma HashOneFile_line:
  assumes "malloc_at mc (length c) = Some p"
  shows "HashOneFile mc f (Some c) = hashLine (content_hash mc c) f"
proof -
  have "MeowHash (cpu_aes mc) MeowDefaultSeed (length c) (memory mc p c) p =
      MeowHash (cpu_aes mc) MeowDefaultSeed (length c) (\<lambda>i. of_char (c ! i)) 0"
    by (rule MeowHash_bytes) (simp add: memory_def)
  then show ?thesis by (simp add: HashOneFile_def ReadEntireFile_def assms hashLine_def content_hash_def)
qed



end
