(* ===== verification/Task_Queue.thy ===== *)
theory Task_Queue
  imports Backup_Prelude
begin

text \<open>
  \<open>RingBuffer\<close> and \<open>TaskQueue\<close> of \<open>ctrlcenter2/quickpool.h\<close>.  First the
  operations as a whole, which refine an unbounded first-in first-out list
  (locale \<open>fifo\<close>); then the queue under concurrency, where a push holds the
  mutex but the pops are lock free: every atomic load, store and
  compare-exchange is a step of its own, and any number of threads interleave.
  Steps are sequentially consistent.  Buffers that were enlarged stay alive in
  \<open>old_buffers_\<close>, since a pop may still read them.
\<close>

unbundle bit_operations_syntax

section \<open>Definitions\<close>

record 'a RingBuffer =
  rb_buffer :: "'a list"
  rb_capacity :: nat
  rb_mask :: nat

text \<open>A new ring buffer; the array's initial content \<open>x\<close> is not looked at.\<close>

definition newRingBuffer :: "'a \<Rightarrow> nat \<Rightarrow> 'a RingBuffer" where
  "newRingBuffer x capacity = \<lparr>rb_buffer = replicate capacity x, rb_capacity = capacity, rb_mask = capacity - 1\<rparr>"

definition set_entry :: "nat \<Rightarrow> 'a \<Rightarrow> 'a RingBuffer \<Rightarrow> 'a RingBuffer" where
  "set_entry i val r = r\<lparr>rb_buffer := (rb_buffer r)[i AND rb_mask r := val]\<rparr>"

definition get_entry :: "'a RingBuffer \<Rightarrow> nat \<Rightarrow> 'a" where
  "get_entry r i = rb_buffer r ! (i AND rb_mask r)"

fun copy_entries :: "'a RingBuffer \<Rightarrow> nat \<Rightarrow> nat \<Rightarrow> 'a RingBuffer \<Rightarrow> 'a RingBuffer" where
  "copy_entries r i 0 new_buffer = new_buffer"
| "copy_entries r i (Suc n) new_buffer = copy_entries r (Suc i) n (set_entry i (get_entry r i) new_buffer)"

definition enlarged_copy :: "'a RingBuffer \<Rightarrow> nat \<Rightarrow> nat \<Rightarrow> 'a RingBuffer" where
  "enlarged_copy r b t =
     copy_entries r t (b - t) (newRingBuffer (get_entry r t) (2 * rb_capacity r))"

text \<open>
  The queue: the indices only grow, and \<open>buffers\<close> is \<open>old_buffers_\<close> with the
  current buffer behind them.
\<close>

record 'a TaskQueue =
  q_top :: nat
  q_bottom :: nat
  buffers :: "'a RingBuffer list"
  q_stopped :: bool

abbreviation current :: "'a TaskQueue \<Rightarrow> 'a RingBuffer" where
  "current q \<equiv> last (buffers q)"

definition newTaskQueue :: "'a \<Rightarrow> nat \<Rightarrow> 'a TaskQueue" where
  "newTaskQueue x capacity = \<lparr>q_top = 0, q_bottom = 0, buffers = [newRingBuffer x capacity], q_stopped = False\<rparr>"

definition queue_empty :: "'a TaskQueue \<Rightarrow> bool" where
  "queue_empty q \<longleftrightarrow> q_bottom q \<le> q_top q"

text \<open>
  \<open>push\<close>: the indices are 32-bit \<open>int\<close>s, so the \<open>2^31\<close>-th push overflows.  The
  test on the old top \<open>t\<close> and the enlargement come first.
\<close>

definition int_max :: nat where
  "int_max = 2147483647"

definition make_room :: "nat \<Rightarrow> nat \<Rightarrow> 'a TaskQueue \<Rightarrow> 'a TaskQueue" where
  "make_room b t q =
     (if rb_capacity (current q) < (b - t) + 1
      then q\<lparr>buffers := buffers q @ [enlarged_copy (current q) b t]\<rparr> else q)"

definition store_task :: "nat \<Rightarrow> 'a \<Rightarrow> 'a TaskQueue \<Rightarrow> 'a TaskQueue" where
  "store_task b task q = q\<lparr>buffers := butlast (buffers q) @ [set_entry b task (current q)]\<rparr>"

definition push_task :: "'a \<Rightarrow> 'a TaskQueue \<Rightarrow> 'a TaskQueue" where
  "push_task task q =
     (let b = q_bottom q; t = q_top q
      in (store_task b task (make_room b t q))\<lparr>q_bottom := b + 1\<rparr>)"

definition queue_push :: "'a \<Rightarrow> 'a TaskQueue \<Rightarrow> 'a TaskQueue result" where
  "queue_push task q = (if int_max \<le> q_bottom q then Inl Undefined else Inr (push_task task q))"

definition queue_try_pop :: "'a TaskQueue \<Rightarrow> 'a option \<times> 'a TaskQueue" where
  "queue_try_pop q =
     (let t = q_top q; b = q_bottom q
      in if t < b then (Some (get_entry (current q) t), q\<lparr>q_top := t + 1\<rparr>) else (None, q))"

definition queue_stop :: "'a TaskQueue \<Rightarrow> 'a TaskQueue" where
  "queue_stop q = q\<lparr>q_stopped := True\<rparr>"

text \<open>The condition \<open>wait\<close> blocks on.\<close>

definition queue_wait_ends :: "'a TaskQueue \<Rightarrow> bool" where
  "queue_wait_ends q \<longleftrightarrow> \<not> queue_empty q \<or> q_stopped q"

text \<open>
  Concurrency.  A popper is where it stands in \<open>try_pop\<close>; the thread in \<open>push\<close>
  (at most one: it holds the mutex) likewise.
\<close>

datatype 'a popper =
    PopIdle
  | PopTop nat \<comment> \<open>\<open>top_\<close> loaded\<close>
  | PopBottom nat nat \<comment> \<open>\<open>bottom_\<close> loaded\<close>
  | PopBuffer nat nat \<comment> \<open>the buffer pointer loaded, as an index into \<open>buffers\<close>\<close>
  | PopTask nat 'a \<comment> \<open>the task pointer loaded\<close>

datatype 'a pusher =
    PushIdle
  | PushLocked 'a
  | PushBottom 'a nat
  | PushTop 'a nat nat
  | PushRoom 'a nat
  | PushStored 'a nat

record 'a qstate =
  queue :: "'a TaskQueue"
  poppers :: "nat \<Rightarrow> 'a popper"
  pusher :: "'a pusher"
  pushed :: "'a list" \<comment> \<open>the tasks in the order of their pushes\<close>
  popped :: "'a list" \<comment> \<open>the tasks in the order the pops won them\<close>

definition set_popper :: "nat \<Rightarrow> 'a popper \<Rightarrow> 'a qstate \<Rightarrow> 'a qstate" where
  "set_popper i p s = s\<lparr>poppers := (poppers s)(i := p)\<rparr>"

inductive qstep :: "'a qstate \<Rightarrow> 'a qstate \<Rightarrow> bool" where
  pop_top: "poppers s i = PopIdle \<Longrightarrow> qstep s (set_popper i (PopTop (q_top (queue s))) s)"
| pop_bottom: "poppers s i = PopTop t \<Longrightarrow> qstep s (set_popper i (PopBottom t (q_bottom (queue s))) s)"
| pop_empty: "poppers s i = PopBottom t b \<Longrightarrow> \<not> t < b \<Longrightarrow> qstep s (set_popper i PopIdle s)"
| pop_buffer: "poppers s i = PopBottom t b \<Longrightarrow> t < b \<Longrightarrow>
    qstep s (set_popper i (PopBuffer t (length (buffers (queue s)) - 1)) s)"
| pop_task: "poppers s i = PopBuffer t k \<Longrightarrow>
    qstep s (set_popper i (PopTask t (get_entry (buffers (queue s) ! k) t)) s)"
| pop_won: "poppers s i = PopTask t x \<Longrightarrow> q_top (queue s) = t \<Longrightarrow>
    qstep s (set_popper i PopIdle (s\<lparr>queue := (queue s)\<lparr>q_top := t + 1\<rparr>, popped := popped s @ [x]\<rparr>))"
| pop_lost: "poppers s i = PopTask t x \<Longrightarrow> q_top (queue s) \<noteq> t \<Longrightarrow> qstep s (set_popper i PopIdle s)"
| push_lock: "pusher s = PushIdle \<Longrightarrow> qstep s (s\<lparr>pusher := PushLocked x\<rparr>)"
| push_bottom: "pusher s = PushLocked x \<Longrightarrow> q_bottom (queue s) < int_max \<Longrightarrow>
    qstep s (s\<lparr>pusher := PushBottom x (q_bottom (queue s))\<rparr>)"
| push_top: "pusher s = PushBottom x b \<Longrightarrow> qstep s (s\<lparr>pusher := PushTop x b (q_top (queue s))\<rparr>)"
| push_room: "pusher s = PushTop x b t \<Longrightarrow>
    qstep s (s\<lparr>pusher := PushRoom x b, queue := make_room b t (queue s)\<rparr>)"
| push_store: "pusher s = PushRoom x b \<Longrightarrow>
    qstep s (s\<lparr>pusher := PushStored x b, queue := store_task b x (queue s)\<rparr>)"
| push_publish: "pusher s = PushStored x b \<Longrightarrow>
    qstep s (s\<lparr>pusher := PushIdle, queue := (queue s)\<lparr>q_bottom := b + 1\<rparr>, pushed := pushed s @ [x]\<rparr>)"

inductive_cases qstepE: "qstep s s'"

definition qinit :: "'a \<Rightarrow> nat \<Rightarrow> 'a qstate" where
  "qinit x capacity =
     \<lparr>queue = newTaskQueue x capacity, poppers = (\<lambda>_. PopIdle), pusher = PushIdle, pushed = [], popped = []\<rparr>"

text \<open>The invariants: ring buffers whose capacity is a power of two, and what a queue holds.\<close>

definition wf_ring :: "'a RingBuffer \<Rightarrow> bool" where
  "wf_ring r \<longleftrightarrow> (\<exists>k. rb_capacity r = 2 ^ k) \<and> rb_mask r = rb_capacity r - 1 \<and> length (rb_buffer r) = rb_capacity r"

definition queue_list :: "'a TaskQueue \<Rightarrow> 'a list" where
  "queue_list q = map (get_entry (current q)) [q_top q ..< q_bottom q]"

definition wf_queue :: "'a TaskQueue \<Rightarrow> bool" where
  "wf_queue q \<longleftrightarrow> buffers q \<noteq> [] \<and> wf_ring (current q) \<and> q_top q \<le> q_bottom q \<and>
     q_bottom q - q_top q \<le> rb_capacity (current q)"

definition popper_ok :: "'a TaskQueue \<Rightarrow> 'a list \<Rightarrow> 'a popper \<Rightarrow> bool" where
  "popper_ok q H p =
     (case p of
        PopIdle \<Rightarrow> True
      | PopTop t \<Rightarrow> t \<le> q_top q
      | PopBottom t b \<Rightarrow> t \<le> q_top q \<and> b \<le> q_bottom q
      | PopBuffer t k \<Rightarrow> t \<le> q_top q \<and> t < q_bottom q \<and> k < length (buffers q) \<and>
          (q_top q = t \<longrightarrow> get_entry (buffers q ! k) t = H ! t)
      | PopTask t x \<Rightarrow> t \<le> q_top q \<and> t < q_bottom q \<and> (q_top q = t \<longrightarrow> x = H ! t))"

definition pusher_ok :: "'a TaskQueue \<Rightarrow> 'a pusher \<Rightarrow> bool" where
  "pusher_ok q p =
     (case p of
        PushIdle \<Rightarrow> True
      | PushLocked x \<Rightarrow> True
      | PushBottom x b \<Rightarrow> b = q_bottom q
      | PushTop x b t \<Rightarrow> b = q_bottom q \<and> t \<le> q_top q \<and> b - t \<le> rb_capacity (current q)
      | PushRoom x b \<Rightarrow> b = q_bottom q \<and> b - q_top q < rb_capacity (current q)
      | PushStored x b \<Rightarrow> b = q_bottom q \<and> b - q_top q < rb_capacity (current q) \<and> get_entry (current q) b = x)"

definition holds :: "'a TaskQueue \<Rightarrow> 'a list \<Rightarrow> bool" where
  "holds q H \<longleftrightarrow> wf_queue q \<and> length H = q_bottom q \<and>
     (\<forall>i. q_top q \<le> i \<and> i < q_bottom q \<longrightarrow> get_entry (current q) i = H ! i)"

definition qinv :: "'a qstate \<Rightarrow> bool" where
  "qinv s \<longleftrightarrow> holds (queue s) (pushed s) \<and> popped s = take (q_top (queue s)) (pushed s) \<and>
     pusher_ok (queue s) (pusher s) \<and> (\<forall>i. popper_ok (queue s) (pushed s) (poppers s i))"

section \<open>Ring buffers\<close>

lemma mask_mod: "capacity = 2 ^ k \<Longrightarrow> i AND (capacity - 1 :: nat) = i mod capacity"
  using take_bit_eq_mask [of k i] by (simp add: mask_eq_exp_minus_1 take_bit_eq_mod)

lemma slot_mod: "wf_ring r \<Longrightarrow> i AND rb_mask r = i mod rb_capacity r"
  by (metis mask_mod wf_ring_def)

lemma ring_length: "wf_ring r \<Longrightarrow> length (rb_buffer r) = rb_capacity r"
  by (simp add: wf_ring_def)

lemma capacity_pos: "wf_ring r \<Longrightarrow> 0 < rb_capacity r"
  by (auto simp: wf_ring_def)

lemma mod_inj_window:
  fixes i j c :: nat
  assumes "i mod c = j mod c" and "i < j + c" and "j < i + c"
  shows "i = j"
proof (rule ccontr)
  assume "i \<noteq> j"
  then have "i < j \<or> j < i" by auto
  then show False
  proof
    assume "i < j"
    with assms(1) have "c dvd j - i" by (metis mod_eq_dvd_iff_nat less_imp_le)
    with \<open>i < j\<close> assms(3) show False by (auto dest!: dvd_imp_le)
  next
    assume "j < i"
    with assms(1) have "c dvd i - j" by (metis mod_eq_dvd_iff_nat less_imp_le)
    with \<open>j < i\<close> assms(2) show False by (auto dest!: dvd_imp_le)
  qed
qed

lemma wf_ring_new: "capacity = 2 ^ k \<Longrightarrow> wf_ring (newRingBuffer x capacity)"
  by (auto simp: wf_ring_def newRingBuffer_def)

lemma wf_ring_set [simp]: "wf_ring (set_entry i v r) = wf_ring r"
  by (simp add: wf_ring_def set_entry_def)

lemma capacity_set [simp]: "rb_capacity (set_entry i v r) = rb_capacity r"
  by (simp add: set_entry_def)

lemma get_set_same: "wf_ring r \<Longrightarrow> get_entry (set_entry i v r) i = v"
  using capacity_pos [of r] by (simp add: get_entry_def set_entry_def slot_mod ring_length)

text \<open>Entries less than a capacity apart are in different slots.\<close>

lemma get_set_other:
  "wf_ring r \<Longrightarrow> i \<noteq> j \<Longrightarrow> i < j + rb_capacity r \<Longrightarrow> j < i + rb_capacity r \<Longrightarrow>
     get_entry (set_entry i v r) j = get_entry r j"
  using mod_inj_window [of i "rb_capacity r" j]
  by (auto simp: get_entry_def set_entry_def slot_mod nth_list_update split: if_splits)
    (metis nth_list_update_neq)

lemma copy_entries_wf:
  "wf_ring new \<Longrightarrow> wf_ring (copy_entries r i n new) \<and> rb_capacity (copy_entries r i n new) = rb_capacity new"
  by (induction r i n new rule: copy_entries.induct) auto

lemma copy_entries_below:
  "wf_ring new \<Longrightarrow> j < i \<Longrightarrow> i + n \<le> j + rb_capacity new \<Longrightarrow>
     get_entry (copy_entries r i n new) j = get_entry new j"
  by (induction r i n new rule: copy_entries.induct) (auto simp: get_set_other)

lemma copy_entries_get:
  "wf_ring new \<Longrightarrow> n \<le> rb_capacity new \<Longrightarrow> i \<le> j \<Longrightarrow> j < i + n \<Longrightarrow>
     get_entry (copy_entries r i n new) j = get_entry r j"
proof (induction r i n new rule: copy_entries.induct)
  case (2 r i n new)
  show ?case
  proof (cases "j = i")
    case False
    with "2.prems" show ?thesis by (simp add: "2.IH")
  next
    case True
    with "2.prems" show ?thesis by (simp add: copy_entries_below get_set_same)
  qed
qed simp

lemma enlarged_copy_spec:
  assumes "wf_ring r" and "b - t \<le> rb_capacity r"
  shows "wf_ring (enlarged_copy r b t) \<and> rb_capacity (enlarged_copy r b t) = 2 * rb_capacity r \<and>
    (\<forall>i. t \<le> i \<and> i < b \<longrightarrow> get_entry (enlarged_copy r b t) i = get_entry r i)"
proof -
  from assms(1) obtain k where "rb_capacity r = 2 ^ k" by (auto simp: wf_ring_def)
  then have new: "wf_ring (newRingBuffer x (2 * rb_capacity r))" for x :: 'a
    by (intro wf_ring_new [of _ "Suc k"]) simp
  have cap: "rb_capacity (newRingBuffer x c) = c" for x :: 'a and c by (simp add: newRingBuffer_def)
  show ?thesis
    unfolding enlarged_copy_def
    using copy_entries_wf [OF new] copy_entries_get [OF new] assms(2) by (auto simp: cap)
qed

section \<open>The queue as a whole refines a list\<close>

text \<open>
  What a user of a first-in first-out queue relies on; the whole content that
  goes in comes out, in order.
\<close>

locale fifo =
  fixes content :: "'q \<Rightarrow> 'a list"
    and enq :: "'a \<Rightarrow> 'q \<Rightarrow> 'q"
    and deq :: "'q \<Rightarrow> 'a option \<times> 'q"
    and ok :: "'q \<Rightarrow> bool"
  assumes content_enq: "ok q \<Longrightarrow> content (enq x q) = content q @ [x]"
    and ok_enq: "ok q \<Longrightarrow> ok (enq x q)"
    and deq_empty: "ok q \<Longrightarrow> content q = [] \<Longrightarrow> deq q = (None, q)"
    and deq_cons: "ok q \<Longrightarrow> content q = x # xs \<Longrightarrow> fst (deq q) = Some x \<and> content (snd (deq q)) = xs \<and> ok (snd (deq q))"
begin

primrec drain :: "nat \<Rightarrow> 'q \<Rightarrow> 'a list \<times> 'q" where
  "drain 0 q = ([], q)"
| "drain (Suc n) q = (case deq q of (None, q') \<Rightarrow> ([], q') | (Some x, q') \<Rightarrow> let (xs, q'') = drain n q' in (x # xs, q''))"

lemma content_fold: "ok q \<Longrightarrow> ok (fold enq xs q) \<and> content (fold enq xs q) = content q @ xs"
  by (induction xs arbitrary: q) (auto simp: ok_enq content_enq)

lemma drain_content: "ok q \<Longrightarrow> length (content q) \<le> n \<Longrightarrow> fst (drain n q) = content q"
proof (induction n arbitrary: q)
  case (Suc n)
  show ?case
  proof (cases "content q")
    case Nil
    with Suc.prems deq_empty show ?thesis by simp
  next
    case (Cons x xs)
    with deq_cons [OF Suc.prems(1) Cons] Suc.IH [of "snd (deq q)"] Suc.prems show ?thesis
      by (auto simp: Let_def split: prod.splits)
  qed
qed simp

lemma all_come_out: "ok q \<Longrightarrow> content q = [] \<Longrightarrow> fst (drain (length xs) (fold enq xs q)) = xs"
  using content_fold [of q xs] drain_content [of "fold enq xs q" "length xs"] by simp

end

lemma make_room_spec:
  assumes "wf_queue q" and "t \<le> q_top q" and "q_bottom q - t \<le> rb_capacity (current q)"
  shows "wf_queue (make_room (q_bottom q) t q) \<and> q_top (make_room (q_bottom q) t q) = q_top q \<and>
    q_bottom (make_room (q_bottom q) t q) = q_bottom q \<and>
    q_bottom q - q_top q < rb_capacity (current (make_room (q_bottom q) t q)) \<and>
    (\<forall>i. q_top q \<le> i \<and> i < q_bottom q \<longrightarrow>
       get_entry (current (make_room (q_bottom q) t q)) i = get_entry (current q) i) \<and>
    (\<exists>bs. buffers (make_room (q_bottom q) t q) = buffers q @ bs)"
proof (cases "rb_capacity (current q) < (q_bottom q - t) + 1")
  case True
  have "wf_ring (current q)" using assms(1) by (simp add: wf_queue_def)
  from enlarged_copy_spec [OF this assms(3)] capacity_pos [OF this] assms True show ?thesis
    by (auto simp: make_room_def wf_queue_def)
next
  case False
  then show ?thesis using assms by (auto simp: make_room_def wf_queue_def)
qed

lemma store_task_spec:
  fixes x :: 'a and q :: "'a TaskQueue"
  assumes "wf_queue q" and "q_bottom q - q_top q < rb_capacity (current q)"
  defines "q' \<equiv> store_task (q_bottom q) x q"
  shows "wf_queue q' \<and> q_top q' = q_top q \<and> q_bottom q' = q_bottom q \<and> get_entry (current q') (q_bottom q) = x \<and>
    rb_capacity (current q') = rb_capacity (current q) \<and> length (buffers q') = length (buffers q) \<and>
    (\<forall>i k. q_top q \<le> i \<and> i < q_bottom q \<and> k < length (buffers q) \<longrightarrow>
       get_entry (buffers q' ! k) i = get_entry (buffers q ! k) i)"
proof -
  have wf: "wf_ring (current q)" "buffers q \<noteq> []" using assms(1) by (simp_all add: wf_queue_def)
  have entry: "get_entry (set_entry (q_bottom q) x (current q)) i = get_entry (current q) i"
    if "q_top q \<le> i" "i < q_bottom q" for i
    using that assms(2) by (intro get_set_other [OF wf(1)]) auto
  have nth: "buffers q' ! k = (if Suc k < length (buffers q) then buffers q ! k else set_entry (q_bottom q) x (current q))"
    if "k < length (buffers q)" for k
    using that wf(2) by (auto simp: q'_def store_task_def nth_append nth_butlast)
  have "buffers q ! k = current q" if "k < length (buffers q)" "\<not> Suc k < length (buffers q)" for k
    using that wf(2) by (metis Suc_lessI diff_Suc_1 last_conv_nth)
  then have "\<forall>i k. q_top q \<le> i \<and> i < q_bottom q \<and> k < length (buffers q) \<longrightarrow>
       get_entry (buffers q' ! k) i = get_entry (buffers q ! k) i"
    using nth entry by auto
  then show ?thesis
    using assms(1) wf by (auto simp: q'_def store_task_def wf_queue_def get_set_same)
qed

lemma last_get: "buffers q \<noteq> [] \<Longrightarrow> current q = buffers q ! (length (buffers q) - 1)"
  by (rule last_conv_nth)

lemma push_task_spec:
  assumes "wf_queue q"
  shows "wf_queue (push_task x q) \<and> queue_list (push_task x q) = queue_list q @ [x] \<and>
    q_bottom (push_task x q) = Suc (q_bottom q)"
proof -
  define q1 where "q1 = make_room (q_bottom q) (q_top q) q"
  define q2 where "q2 = store_task (q_bottom q1) x q1"
  have wf: "q_bottom q - q_top q \<le> rb_capacity (current q)" "q_top q \<le> q_bottom q"
    using assms by (simp_all add: wf_queue_def)
  from make_room_spec [OF assms order_refl wf(1)] have q1: "wf_queue q1" "q_top q1 = q_top q" "q_bottom q1 = q_bottom q"
    "q_bottom q1 - q_top q1 < rb_capacity (current q1)"
    "\<And>i. q_top q \<le> i \<Longrightarrow> i < q_bottom q \<Longrightarrow> get_entry (current q1) i = get_entry (current q) i"
    by (auto simp: q1_def)
  from store_task_spec [OF q1(1,4), of x] have q2: "wf_queue q2" "q_top q2 = q_top q" "q_bottom q2 = q_bottom q"
    "get_entry (current q2) (q_bottom q) = x" "rb_capacity (current q2) = rb_capacity (current q1)"
    "length (buffers q2) = length (buffers q1)"
    "\<And>i k. q_top q \<le> i \<Longrightarrow> i < q_bottom q \<Longrightarrow> k < length (buffers q1) \<Longrightarrow>
       get_entry (buffers q2 ! k) i = get_entry (buffers q1 ! k) i"
    by (auto simp: q2_def q1)
  have ne: "buffers q1 \<noteq> []" "buffers q2 \<noteq> []" using q1(1) q2(1) by (simp_all add: wf_queue_def)
  have entry: "get_entry (current q2) i = get_entry (current q) i" if "q_top q \<le> i" "i < q_bottom q" for i
    using that q2(6,7) q1(5) ne by (simp add: last_get)
  have push: "push_task x q = q2\<lparr>q_bottom := q_bottom q + 1\<rparr>"
    by (simp add: push_task_def Let_def q2_def q1_def [symmetric] q1(3))
  then show ?thesis
    using q2 q1 wf entry by (auto simp: wf_queue_def queue_list_def)
qed

lemma queue_try_pop_spec:
  assumes "wf_queue q"
  shows "case queue_list q of [] \<Rightarrow> queue_try_pop q = (None, q)
    | x # xs \<Rightarrow> fst (queue_try_pop q) = Some x \<and> queue_list (snd (queue_try_pop q)) = xs \<and> wf_queue (snd (queue_try_pop q))"
proof (cases "q_top q < q_bottom q")
  case True
  then have "queue_list q = get_entry (current q) (q_top q) # map (get_entry (current q)) [Suc (q_top q) ..< q_bottom q]"
    by (simp add: queue_list_def upt_conv_Cons)
  with True assms show ?thesis by (auto simp: queue_try_pop_def queue_list_def wf_queue_def Let_def)
next
  case False
  then show ?thesis by (simp add: queue_list_def queue_try_pop_def)
qed

interpretation ring: fifo queue_list push_task queue_try_pop wf_queue
proof unfold_locales
  fix q :: "'a TaskQueue" and x xs
  assume q: "wf_queue q"
  show "queue_list (push_task x q) = queue_list q @ [x]" "wf_queue (push_task x q)"
    using push_task_spec [OF q, of x] by simp_all
  show "queue_list q = [] \<Longrightarrow> queue_try_pop q = (None, q)"
    using queue_try_pop_spec [OF q] by simp
  show "queue_list q = x # xs \<Longrightarrow> fst (queue_try_pop q) = Some x \<and> queue_list (snd (queue_try_pop q)) = xs \<and>
      wf_queue (snd (queue_try_pop q))"
    using queue_try_pop_spec [OF q] by simp
qed

text \<open>C8. The ring buffer queue refines an unbounded list: on a well-formed queue a
  push appends to the content (growing the buffer when it is full) unless it
  would be the $2^{31}$-th, which overflows the index; a pop takes the first
  element, or reports that there is none; both keep the queue well-formed.
\<close>

theorem queue_refines_list:
  assumes "wf_queue q"
  shows "(q_bottom q < int_max \<longrightarrow>
      (\<exists>q'. queue_push x q = Inr q' \<and> wf_queue q' \<and> queue_list q' = queue_list q @ [x])) \<and>
    (int_max \<le> q_bottom q \<longrightarrow> queue_push x q = Inl Undefined) \<and>
    (case queue_list q of
       [] \<Rightarrow> queue_try_pop q = (None, q)
     | y # ys \<Rightarrow> \<exists>q'. queue_try_pop q = (Some y, q') \<and> wf_queue q' \<and> queue_list q' = ys)"
  using ring.content_enq [OF assms, of x] ring.ok_enq [OF assms, of x] ring.deq_empty [OF assms] ring.deq_cons [OF assms]
  by (auto simp: queue_push_def prod_eq_iff split: list.split)

lemma wf_newTaskQueue: "wf_queue (newTaskQueue x (2 ^ k))"
  using wf_ring_new [of "2 ^ k" k x] by (simp add: wf_queue_def newTaskQueue_def)

theorem queue_refines_list_witness:
  "\<exists>q'. queue_push (7 :: nat) (newTaskQueue 0 2) = Inr q' \<and> queue_list q' = [7]"
  using queue_refines_list [OF wf_newTaskQueue, where x = "7 :: nat" and x1 = 0 and k1 = 1]
  by (auto simp: newTaskQueue_def int_max_def queue_list_def)

section \<open>The queue under concurrency\<close>

lemma holdsD:
  "holds q H \<Longrightarrow> wf_queue q \<and> buffers q \<noteq> [] \<and> length H = q_bottom q \<and> q_top q \<le> q_bottom q \<and>
     q_bottom q - q_top q \<le> rb_capacity (current q)"
  "holds q H \<Longrightarrow> q_top q \<le> i \<Longrightarrow> i < q_bottom q \<Longrightarrow> get_entry (current q) i = H ! i"
  by (auto simp: holds_def wf_queue_def)

lemma qinit_inv: "qinv (qinit x (2 ^ k))"
  using wf_newTaskQueue [of x k]
  by (simp add: qinv_def qinit_def holds_def pusher_ok_def popper_ok_def newTaskQueue_def)

text \<open>A step of a popper that leaves the queue alone.\<close>

lemma qinv_set_popper:
  "qinv s \<Longrightarrow> popper_ok (queue s) (pushed s) p \<Longrightarrow> qinv (set_popper i p s)"
  by (simp add: qinv_def set_popper_def)

lemma qinv_won:
  assumes "qinv s" and "poppers s i = PopTask t x" and "q_top (queue s) = t"
  shows "qinv (set_popper i PopIdle (s\<lparr>queue := (queue s)\<lparr>q_top := t + 1\<rparr>, popped := popped s @ [x]\<rparr>))"
proof -
  have inv: "holds (queue s) (pushed s)" "popped s = take t (pushed s)" "pusher_ok (queue s) (pusher s)"
    "\<And>j. popper_ok (queue s) (pushed s) (poppers s j)"
    using assms(1,3) by (auto simp: qinv_def)
  from inv(4) [of i] assms(2,3) have x: "t < q_bottom (queue s)" "x = pushed s ! t"
    by (simp_all add: popper_ok_def)
  note h = holdsD(1) [OF inv(1)]
  have "holds ((queue s)\<lparr>q_top := t + 1\<rparr>) (pushed s)"
    using inv(1) x assms(3) by (auto simp: holds_def wf_queue_def)
  moreover have "popped s @ [x] = take (t + 1) (pushed s)"
    using inv(2) x h by (simp add: take_Suc_conv_app_nth)
  moreover have "pusher_ok ((queue s)\<lparr>q_top := t + 1\<rparr>) (pusher s)"
    using inv(3) assms(3) by (auto simp: pusher_ok_def split: pusher.splits)
  moreover have "popper_ok ((queue s)\<lparr>q_top := t + 1\<rparr>) (pushed s) (poppers s j)" for j
    using inv(4) [of j] assms(3) by (auto simp: popper_ok_def split: popper.splits)
  ultimately show ?thesis by (simp add: qinv_def set_popper_def popper_ok_def)
qed

lemma qinv_room:
  assumes "qinv s" and "pusher s = PushTop x b t"
  shows "qinv (s\<lparr>pusher := PushRoom x b, queue := make_room b t (queue s)\<rparr>)"
proof -
  let ?q = "make_room b t (queue s)"
  have inv: "holds (queue s) (pushed s)" "\<And>j. popper_ok (queue s) (pushed s) (poppers s j)"
    and b: "b = q_bottom (queue s)" "t \<le> q_top (queue s)" "b - t \<le> rb_capacity (current (queue s))"
    using assms by (auto simp: qinv_def pusher_ok_def)
  from make_room_spec [OF conjunct1 [OF holdsD(1) [OF inv(1)]] b(2) b(3) [unfolded b(1)]] obtain bs where
    q: "wf_queue ?q" "q_top ?q = q_top (queue s)" "q_bottom ?q = q_bottom (queue s)"
    "q_bottom (queue s) - q_top (queue s) < rb_capacity (current ?q)" "buffers ?q = buffers (queue s) @ bs"
    "\<And>i. q_top (queue s) \<le> i \<Longrightarrow> i < q_bottom (queue s) \<Longrightarrow> get_entry (current ?q) i = get_entry (current (queue s)) i"
    unfolding b(1) by blast
  have "popper_ok ?q (pushed s) (poppers s j)" for j
    using inv(2) [of j] q(2,3,5) by (auto simp: popper_ok_def nth_append split: popper.splits)
  moreover have "holds ?q (pushed s)" using inv(1) q by (auto simp: holds_def)
  ultimately show ?thesis
    using assms(1) q by (auto simp: qinv_def pusher_ok_def b(1))
qed

lemma qinv_store:
  assumes "qinv s" and "pusher s = PushRoom x b"
  shows "qinv (s\<lparr>pusher := PushStored x b, queue := store_task b x (queue s)\<rparr>)"
proof -
  let ?q = "store_task b x (queue s)"
  have inv: "holds (queue s) (pushed s)" "\<And>j. popper_ok (queue s) (pushed s) (poppers s j)"
    and b: "b = q_bottom (queue s)" "b - q_top (queue s) < rb_capacity (current (queue s))"
    using assms by (auto simp: qinv_def pusher_ok_def)
  note h = holdsD(1) [OF inv(1)]
  from store_task_spec [OF conjunct1 [OF h] b(2) [unfolded b(1)], of x] have
    q: "wf_queue ?q" "q_top ?q = q_top (queue s)" "q_bottom ?q = q_bottom (queue s)"
    "get_entry (current ?q) b = x" "rb_capacity (current ?q) = rb_capacity (current (queue s))"
    "length (buffers ?q) = length (buffers (queue s))"
    and old: "\<And>i k. q_top (queue s) \<le> i \<Longrightarrow> i < q_bottom (queue s) \<Longrightarrow> k < length (buffers (queue s)) \<Longrightarrow>
       get_entry (buffers ?q ! k) i = get_entry (buffers (queue s) ! k) i"
    unfolding b(1) by blast+
  have ne: "buffers ?q \<noteq> []" using q(1) by (simp add: wf_queue_def)
  have "get_entry (current ?q) i = pushed s ! i" if "q_top (queue s) \<le> i" "i < q_bottom (queue s)" for i
    using that holdsD(2) [OF inv(1) that] old [OF that, of "length (buffers (queue s)) - 1"] h ne q(6)
    by (simp add: last_get)
  then have "holds ?q (pushed s)" using q h by (auto simp: holds_def)
  moreover have "popper_ok ?q (pushed s) (poppers s j)" for j
    using inv(2) [of j] q(2,3,6) old by (auto simp: popper_ok_def split: popper.splits)
  ultimately show ?thesis
    using assms(1) q b by (auto simp: qinv_def pusher_ok_def)
qed

lemma qinv_publish:
  assumes "qinv s" and "pusher s = PushStored x b"
  shows "qinv (s\<lparr>pusher := PushIdle, queue := (queue s)\<lparr>q_bottom := b + 1\<rparr>, pushed := pushed s @ [x]\<rparr>)"
proof -
  let ?q = "(queue s)\<lparr>q_bottom := b + 1\<rparr>"
  have inv: "holds (queue s) (pushed s)" "\<And>j. popper_ok (queue s) (pushed s) (poppers s j)"
    and b: "b = q_bottom (queue s)" "b - q_top (queue s) < rb_capacity (current (queue s))"
      "get_entry (current (queue s)) b = x"
    using assms by (auto simp: qinv_def pusher_ok_def)
  note h = holdsD(1) [OF inv(1)]
  have "holds ?q (pushed s @ [x])"
    using inv(1) b h by (auto simp: holds_def wf_queue_def nth_append less_Suc_eq)
  moreover have "popper_ok ?q (pushed s @ [x]) (poppers s j)" for j
    using inv(2) [of j] b(1) h by (auto simp: popper_ok_def nth_append split: popper.splits)
  ultimately show ?thesis
    using assms(1) h by (auto simp: qinv_def pusher_ok_def)
qed

lemma qstep_inv:
  assumes "qstep s s'" and "qinv s"
  shows "qinv s'"
  using assms
proof (cases rule: qstep.cases)
  case (pop_buffer i t b)
  have h: "holds (queue s) (pushed s)" and p: "popper_ok (queue s) (pushed s) (PopBottom t b)"
    using assms(2) pop_buffer(2) by (auto simp: qinv_def dest!: spec [of _ i])
  have cur: "buffers (queue s) ! (length (buffers (queue s)) - 1) = current (queue s)"
    using holdsD(1) [OF h] by (simp add: last_conv_nth)
  have "popper_ok (queue s) (pushed s) (PopBuffer t (length (buffers (queue s)) - 1))"
    using p pop_buffer(3) holdsD(1) [OF h] holdsD(2) [OF h, of t] unfolding popper_ok_def popper.case cur by auto
  then show ?thesis using qinv_set_popper [OF assms(2)] pop_buffer(1) by blast
next
  case (pop_task i t k)
  have "popper_ok (queue s) (pushed s) (PopTask t (get_entry (buffers (queue s) ! k) t))"
    using assms(2) pop_task(2) by (auto simp: qinv_def popper_ok_def dest!: spec [of _ i])
  then show ?thesis using qinv_set_popper [OF assms(2)] pop_task(1) by blast
next
  case (pop_bottom i t)
  have "popper_ok (queue s) (pushed s) (PopBottom t (q_bottom (queue s)))"
    using assms(2) pop_bottom(2) by (auto simp: qinv_def popper_ok_def dest!: spec [of _ i])
  then show ?thesis using qinv_set_popper [OF assms(2)] pop_bottom(1) by blast
next
  case (push_top x b)
  then show ?thesis
    using assms(2) holdsD(1) [of "queue s" "pushed s"] by (auto simp: qinv_def pusher_ok_def)
next
  case (pop_top i)
  then show ?thesis using qinv_set_popper [OF assms(2)] by (simp add: popper_ok_def)
next
  case (pop_empty i t b)
  then show ?thesis using qinv_set_popper [OF assms(2)] by (simp add: popper_ok_def)
next
  case (pop_lost i t x)
  then show ?thesis using qinv_set_popper [OF assms(2)] by (simp add: popper_ok_def)
next
  case (pop_won i t x)
  then show ?thesis using qinv_won [OF assms(2)] by blast
next
  case (push_room x b t)
  then show ?thesis using qinv_room [OF assms(2)] by blast
next
  case (push_store x b)
  then show ?thesis using qinv_store [OF assms(2)] by blast
next
  case (push_publish x b)
  then show ?thesis using qinv_publish [OF assms(2)] by blast
qed (use assms(2) in \<open>auto simp: qinv_def pusher_ok_def\<close>)

lemma qreach_inv: "qstep\<^sup>*\<^sup>* (qinit x (2 ^ k)) s \<Longrightarrow> qinv s"
  by (induction rule: rtranclp_induct) (auto intro: qinit_inv qstep_inv)

text \<open>C7. Under any interleaving of any number of popping threads with the pushes,
  the tasks popped so far are the first tasks pushed, in the order of the
  pushes, and the queue holds exactly the rest: no task is lost, popped twice or
  read from a slot that was reused, also while the buffer is being replaced.
\<close>

theorem queue_linearizable:
  assumes "qstep\<^sup>*\<^sup>* (qinit x (2 ^ k)) s"
  shows "popped s @ queue_list (queue s) = pushed s"
proof -
  have inv: "holds (queue s) (pushed s)" "popped s = take (q_top (queue s)) (pushed s)"
    using qreach_inv [OF assms] by (auto simp: qinv_def)
  have "queue_list (queue s) = drop (q_top (queue s)) (pushed s)"
    using holdsD(1) [OF inv(1)] holdsD(2) [OF inv(1)]
    by (intro nth_equalityI) (auto simp: queue_list_def)
  with inv(2) show ?thesis by simp
qed

theorem queue_linearizable_witness:
  "\<exists>s. qstep\<^sup>*\<^sup>* (qinit (0 :: nat) 1) s \<and> pushed s = [7] \<and> popped s @ queue_list (queue s) = [7]"
proof -
  define s0 where "s0 = qinit (0 :: nat) 1"
  define s1 where "s1 = s0\<lparr>pusher := PushLocked 7\<rparr>"
  define s2 where "s2 = s1\<lparr>pusher := PushBottom 7 (q_bottom (queue s1))\<rparr>"
  define s3 where "s3 = s2\<lparr>pusher := PushTop 7 0 (q_top (queue s2))\<rparr>"
  define s4 where "s4 = s3\<lparr>pusher := PushRoom 7 0, queue := make_room 0 0 (queue s3)\<rparr>"
  define s5 where "s5 = s4\<lparr>pusher := PushStored 7 0, queue := store_task 0 7 (queue s4)\<rparr>"
  define s6 where "s6 = s5\<lparr>pusher := PushIdle, queue := (queue s5)\<lparr>q_bottom := 0 + 1\<rparr>, pushed := pushed s5 @ [7]\<rparr>"
  note d = s0_def s1_def s2_def s3_def s4_def s5_def s6_def qinit_def newTaskQueue_def int_max_def
  have "qstep s0 s1" unfolding s1_def by (rule push_lock) (simp add: d)
  moreover have "qstep s1 s2" unfolding s2_def by (rule push_bottom) (simp_all add: d)
  moreover have "qstep s2 s3" unfolding s3_def by (rule push_top) (simp add: d)
  moreover have "qstep s3 s4" unfolding s4_def by (rule push_room) (simp add: d)
  moreover have "qstep s4 s5" unfolding s5_def by (rule push_store) (simp add: d)
  moreover have "qstep s5 s6" unfolding s6_def by (rule push_publish) (simp add: d)
  ultimately have run: "qstep\<^sup>*\<^sup>* (qinit 0 (2 ^ 0)) s6"
    unfolding s0_def [symmetric] power_0 by (meson converse_rtranclp_into_rtranclp rtranclp.rtrancl_refl)
  moreover have "pushed s6 = [7]" by (simp add: d)
  ultimately show ?thesis using queue_linearizable [OF run] by (intro exI [of _ s6]) (simp add: power_0)
qed

end
