(* ===== verification/Thread_Pool.thy ===== *)
theory Thread_Pool
  imports Task_Queue "HOL-Library.Multiset"
begin

text \<open>
  \<open>TaskManager\<close> and \<open>ThreadPool\<close> of \<open>ctrlcenter2/quickpool.h\<close>: tasks go round
  robin into one queue per worker, workers pop from their own queue first and
  then from the others, and a counter of open tasks tells the owner when all is
  done.  Queue operations are single steps here (\<open>Task_Queue\<close> justifies that);
  counting a task and queueing it are two steps, as in \<open>push\<close>.  Tasks made by
  \<open>async\<close> are packaged: an exception goes to the future and never reaches the
  pool, so the step relation has no failing task; \<open>report_fail\<close> and
  \<open>rethrow_exception\<close> are modelled as operations.
\<close>

section \<open>Definitions\<close>

datatype Status = running | errored | stopped

record 'a TaskManager =
  queues :: "'a TaskQueue list"
  num_queues :: nat
  num_waiting :: nat
  push_idx :: u64
  todo :: int
  status :: Status
  err_ptr :: "string option"

definition newTaskManager :: "'a \<Rightarrow> nat \<Rightarrow> 'a TaskManager" where
  "newTaskManager x n = \<lparr>queues = replicate n (newTaskQueue x 256), num_queues = n, num_waiting = 0,
     push_idx = 0, todo = 0, status = running, err_ptr = None\<rparr>"

definition is_running :: "'a TaskManager \<Rightarrow> bool" where
  "is_running m \<longleftrightarrow> status m = running"

definition has_errored :: "'a TaskManager \<Rightarrow> bool" where
  "has_errored m \<longleftrightarrow> status m = errored"

definition tm_done :: "'a TaskManager \<Rightarrow> bool" where
  "tm_done m \<longleftrightarrow> todo m \<le> 0"

definition number_open_tasks :: "'a TaskManager \<Rightarrow> int" where
  "number_open_tasks m = todo m"

definition resize :: "'a \<Rightarrow> nat \<Rightarrow> 'a TaskManager \<Rightarrow> 'a TaskManager" where
  "resize x n m =
     (let m1 = m\<lparr>num_queues := max n 1\<rparr>
      in if length (queues m1) < n
         then m1\<lparr>queues := replicate n (newTaskQueue x 256), num_waiting := 0, todo := 0, status := running\<rparr>
         else m1)"

text \<open>
  \<open>rethrow_exception\<close> behind its wait for idle workers: the exception it throws,
  if any, and the manager with its defaults restored.
\<close>

definition rethrow_exception :: "bool \<Rightarrow> 'a TaskManager \<Rightarrow> string option \<times> 'a TaskManager" where
  "rethrow_exception owner m =
     (if owner \<and> has_errored m
      then (err_ptr m, m\<lparr>todo := 0, err_ptr := None, status := running\<rparr>)
      else (None, m))"

text \<open>\<open>push\<close>: first the counter, then the queue.\<close>

definition tm_count :: "'a TaskManager \<Rightarrow> 'a TaskManager" where
  "tm_count m = m\<lparr>todo := todo m + 1\<rparr>"

definition tm_enqueue :: "'a \<Rightarrow> 'a TaskManager \<Rightarrow> 'a TaskManager result" where
  "tm_enqueue task m =
     (let i = unat (push_idx m) mod num_queues m
      in ebind (queue_push task (queues m ! i)) (\<lambda>q.
           Inr (m\<lparr>queues := (queues m)[i := q], push_idx := push_idx m + 1\<rparr>)))"

definition tm_push :: "bool \<Rightarrow> 'a \<Rightarrow> 'a TaskManager \<Rightarrow> 'a TaskManager result" where
  "tm_push owner task m =
     (case rethrow_exception owner m of
        (Some e, m1) \<Rightarrow> Inl (Thrown e)
      | (None, m1) \<Rightarrow> if is_running m1 then tm_enqueue task (tm_count m1) else Inr m1)"

text \<open>\<open>try_pop\<close>: the queues in turn, the own one first; a task popped from a pool that does not run is thrown away.\<close>

fun tm_try_pop_from :: "nat list \<Rightarrow> 'a TaskManager \<Rightarrow> 'a option \<times> 'a TaskManager" where
  "tm_try_pop_from [] m = (None, m)"
| "tm_try_pop_from (i # is) m =
     (case queue_try_pop (queues m ! i) of
        (Some task, q) \<Rightarrow>
          (let m1 = m\<lparr>queues := (queues m)[i := q]\<rparr>
           in if is_running m1 then (Some task, m1) else (None, m1))
      | (None, q) \<Rightarrow> tm_try_pop_from is m)"

definition tm_try_pop :: "nat \<Rightarrow> 'a TaskManager \<Rightarrow> 'a option \<times> 'a TaskManager" where
  "tm_try_pop worker_id m =
     tm_try_pop_from (map (\<lambda>k. (worker_id + k) mod num_queues m) [0 ..< num_queues m + 1]) m"

definition report_success :: "'a TaskManager \<Rightarrow> 'a TaskManager" where
  "report_success m = m\<lparr>todo := todo m - 1\<rparr>"

definition report_fail :: "string \<Rightarrow> 'a TaskManager \<Rightarrow> 'a TaskManager" where
  "report_fail e m =
     (if has_errored m then m
      else m\<lparr>err_ptr := Some e, status := errored, todo := - 1073741824\<rparr>)"

definition tm_stop :: "'a TaskManager \<Rightarrow> 'a TaskManager" where
  "tm_stop m = m\<lparr>status := stopped, queues := map queue_stop (queues m)\<rparr>"

text \<open>
  The pool at work: the owner between the two steps of a push, and the task each
  worker thread is executing.
\<close>

record 'a pool =
  mgr :: "'a TaskManager"
  pending :: "'a option"
  working :: "nat \<Rightarrow> 'a option"
  submitted :: "'a list"
  finished :: "'a list"

definition new_pool :: "'a \<Rightarrow> nat \<Rightarrow> 'a pool" where
  "new_pool x n = \<lparr>mgr = newTaskManager x n, pending = None, working = (\<lambda>_. None), submitted = [], finished = []\<rparr>"

inductive pstep :: "nat \<Rightarrow> 'a pool \<Rightarrow> 'a pool \<Rightarrow> bool" for n where
  count: "pending s = None \<Longrightarrow> is_running (mgr s) \<Longrightarrow>
    pstep n s (s\<lparr>mgr := tm_count (mgr s), pending := Some x, submitted := submitted s @ [x]\<rparr>)"
| enqueue: "pending s = Some x \<Longrightarrow> tm_enqueue x (mgr s) = Inr m \<Longrightarrow>
    pstep n s (s\<lparr>mgr := m, pending := None\<rparr>)"
| take: "w < n \<Longrightarrow> working s w = None \<Longrightarrow> tm_try_pop w (mgr s) = (Some x, m) \<Longrightarrow>
    pstep n s (s\<lparr>mgr := m, working := (working s)(w \<mapsto> x)\<rparr>)"
| finish: "w < n \<Longrightarrow> working s w = Some x \<Longrightarrow>
    pstep n s (s\<lparr>mgr := report_success (mgr s), working := (working s)(w := None), finished := finished s @ [x]\<rparr>)"

text \<open>The tasks of a pool by where they are, and its invariant.\<close>

definition queued :: "'a TaskManager \<Rightarrow> 'a multiset" where
  "queued m = (\<Sum>q\<leftarrow>queues m. mset (queue_list q))"

definition opt_mset :: "'a option \<Rightarrow> 'a multiset" where
  "opt_mset x = (case x of None \<Rightarrow> {#} | Some y \<Rightarrow> {#y#})"

definition in_work :: "nat \<Rightarrow> 'a pool \<Rightarrow> 'a multiset" where
  "in_work n s = (\<Sum>w<n. opt_mset (working s w))"

definition open_tasks :: "nat \<Rightarrow> 'a pool \<Rightarrow> 'a multiset" where
  "open_tasks n s = opt_mset (pending s) + queued (mgr s) + in_work n s"

definition work_left :: "nat \<Rightarrow> 'a pool \<Rightarrow> nat" where
  "work_left n s = 2 * size (queued (mgr s)) + size (in_work n s)"

definition wf_manager :: "'a TaskManager \<Rightarrow> bool" where
  "wf_manager m \<longleftrightarrow> 0 < num_queues m \<and> num_queues m = length (queues m) \<and> (\<forall>q \<in> set (queues m). wf_queue q)"

definition pinv :: "nat \<Rightarrow> 'a pool \<Rightarrow> bool" where
  "pinv n s \<longleftrightarrow> wf_manager (mgr s) \<and> is_running (mgr s) \<and>
     mset (submitted s) = mset (finished s) + open_tasks n s \<and> todo (mgr s) = int (size (open_tasks n s))"

section \<open>The manager\<close>

lemma opt_mset_simps [simp]: "opt_mset None = {#}" "opt_mset (Some x) = {#x#}"
  by (simp_all add: opt_mset_def)

lemma queued_update:
  "i < length qs \<Longrightarrow> (\<Sum>q\<leftarrow>qs[i := q']. mset (queue_list q)) + mset (queue_list (qs ! i)) =
     (\<Sum>q\<leftarrow>qs. mset (queue_list q)) + mset (queue_list q')"
proof (induction qs arbitrary: i)
  case (Cons q qs)
  then show ?case by (cases i) (auto simp: union_ac)
qed simp

lemma queued_empty: "\<forall>q \<in> set qs. queue_list q = [] \<Longrightarrow> (\<Sum>q\<leftarrow>qs. mset (queue_list q)) = {#}"
  by (induction qs) auto

lemma queue_push_ok:
  "wf_queue q \<Longrightarrow> queue_push x q = Inr q' \<Longrightarrow> wf_queue q' \<and> queue_list q' = queue_list q @ [x]"
  using push_task_spec [of q x] by (auto simp: queue_push_def split: if_splits)

lemma tm_enqueue_spec:
  assumes "wf_manager m" and "tm_enqueue x m = Inr m'"
  shows "wf_manager m' \<and> queued m' = queued m + {#x#} \<and> todo m' = todo m \<and> status m' = status m"
proof -
  define i where "i = unat (push_idx m) mod num_queues m"
  have i: "i < length (queues m)" using assms(1) unfolding i_def wf_manager_def by (metis mod_less_divisor)
  from assms(2) obtain q where q: "queue_push x (queues m ! i) = Inr q"
    "m' = m\<lparr>queues := (queues m)[i := q], push_idx := push_idx m + 1\<rparr>"
    by (auto simp: tm_enqueue_def Let_def i_def ebind_eq_Inr)
  from assms(1) i have "wf_queue (queues m ! i)" by (simp add: wf_manager_def)
  from queue_push_ok [OF this q(1)] have push: "wf_queue q" "queue_list q = queue_list (queues m ! i) @ [x]" by auto
  have "queued m' + mset (queue_list (queues m ! i)) = queued m + {#x#} + mset (queue_list (queues m ! i))"
    using queued_update [OF i, of q] push(2) by (simp add: queued_def q(2) union_ac)
  then have "queued m' = queued m + {#x#}" by (rule add_right_imp_eq)
  then show ?thesis
    using assms(1) push(1) by (auto simp: q(2) wf_manager_def dest: set_update_subset_insert [THEN subsetD])
qed

lemma tm_try_pop_from_spec:
  assumes "wf_manager m" and "is_running m" and "set is \<subseteq> {..<length (queues m)}"
  shows "case tm_try_pop_from is m of
      (None, m') \<Rightarrow> m' = m \<and> (\<forall>i \<in> set is. queue_list (queues m ! i) = [])
    | (Some x, m') \<Rightarrow> wf_manager m' \<and> is_running m' \<and> queued m = queued m' + {#x#} \<and> todo m' = todo m"
  using assms(3)
proof (induction "is")
  case (Cons i "is")
  then have i: "i < length (queues m)" by simp
  with assms(1) have wf: "wf_queue (queues m ! i)" by (simp add: wf_manager_def)
  show ?case
  proof (cases "queue_list (queues m ! i)")
    case Nil
    with ring.deq_empty [OF wf] Cons show ?thesis by (auto split: prod.splits option.splits)
  next
    case (Cons x xs)
    obtain q where q: "queue_try_pop (queues m ! i) = (Some x, q)" "queue_list q = xs" "wf_queue q"
      using ring.deq_cons [OF wf Cons] by (metis prod.collapse)
    let ?m = "m\<lparr>queues := (queues m)[i := q]\<rparr>"
    have "queued ?m + {#x#} + mset xs = queued m + mset xs"
      using queued_update [OF i, of q] Cons q(2) by (simp add: queued_def union_ac)
    then have "queued m = queued ?m + {#x#}" by simp
    moreover have "wf_manager ?m"
      using assms(1) q(3) by (auto simp: wf_manager_def dest: set_update_subset_insert [THEN subsetD])
    moreover have "is_running ?m" using assms(2) by (simp add: is_running_def)
    ultimately show ?thesis by (simp add: q(1))
  qed
qed simp

text \<open>A pop looks into every queue.\<close>

lemma cycle_covers:
  assumes "0 < (n :: nat)"
  shows "set (map (\<lambda>k. (w + k) mod n) [0 ..< n + 1]) = {..<n}"
proof
  show "set (map (\<lambda>k. (w + k) mod n) [0 ..< n + 1]) \<subseteq> {..<n}" using assms by auto
  show "{..<n} \<subseteq> set (map (\<lambda>k. (w + k) mod n) [0 ..< n + 1])"
  proof
    fix i assume "i \<in> {..<n}"
    then have i: "i < n" by simp
    define k where "k = (i + (n - w mod n)) mod n"
    have "(w + k) mod n = (w mod n + (i + (n - w mod n))) mod n"
      by (simp add: k_def mod_simps)
    also have "w mod n + (i + (n - w mod n)) = i + n" using mod_less_divisor [OF assms, of w] by simp
    finally have "(w + k) mod n = i" using i by simp
    moreover have "k < n" using assms by (simp add: k_def)
    ultimately show "i \<in> set (map (\<lambda>k. (w + k) mod n) [0 ..< n + 1])"
      by (auto simp: image_iff intro!: bexI [of _ k])
  qed
qed

lemma tm_try_pop_spec:
  assumes "wf_manager m" and "is_running m"
  shows "case tm_try_pop w m of
      (None, m') \<Rightarrow> m' = m \<and> queued m = {#}
    | (Some x, m') \<Rightarrow> wf_manager m' \<and> is_running m' \<and> queued m = queued m' + {#x#} \<and> todo m' = todo m"
proof -
  let ?is = "map (\<lambda>k. (w + k) mod num_queues m) [0 ..< num_queues m + 1]"
  have n: "0 < num_queues m" "num_queues m = length (queues m)" using assms(1) unfolding wf_manager_def by blast+
  have cover: "set ?is = {..<length (queues m)}" using cycle_covers [OF n(1)] n(2) by simp
  have "queued m = {#}" if "\<forall>i \<in> set ?is. queue_list (queues m ! i) = []"
    using that unfolding cover queued_def by (intro queued_empty) (auto simp: in_set_conv_nth)
  then show ?thesis
    using tm_try_pop_from_spec [OF assms, of ?is] unfolding cover tm_try_pop_def
    by (cases "tm_try_pop_from ?is m"; cases "fst (tm_try_pop_from ?is m)") simp_all
qed

section \<open>The pool\<close>

lemma in_work_update:
  "w < n \<Longrightarrow> in_work n (s\<lparr>working := (working s)(w := v)\<rparr>) + opt_mset (working s w) = in_work n s + opt_mset v"
proof -
  assume w: "w < n"
  let ?f = "\<lambda>u. opt_mset (working s u)"
  have "in_work n s = ?f w + (\<Sum>u \<in> {..<n} - {w}. ?f u)"
    unfolding in_work_def using w by (intro sum.remove) auto
  moreover have "in_work n (s\<lparr>working := (working s)(w := v)\<rparr>) = opt_mset v + (\<Sum>u \<in> {..<n} - {w}. ?f u)"
    unfolding in_work_def using w by (subst sum.remove [of _ w]) auto
  ultimately show ?thesis by (simp add: union_ac)
qed

lemma in_work_other [simp]:
  "in_work n (s\<lparr>mgr := m\<rparr>) = in_work n s" "in_work n (s\<lparr>pending := p\<rparr>) = in_work n s"
  "in_work n (s\<lparr>submitted := a\<rparr>) = in_work n s" "in_work n (s\<lparr>finished := a\<rparr>) = in_work n s"
  by (simp_all add: in_work_def)

lemma pinv_init: "0 < n \<Longrightarrow> pinv n (new_pool x n)"
  using wf_newTaskQueue [of x 8] queued_empty [of "replicate n (newTaskQueue x 256)"]
  by (auto simp: pinv_def new_pool_def newTaskManager_def wf_manager_def is_running_def open_tasks_def in_work_def
      queued_def queue_list_def newTaskQueue_def)

lemma pstep_inv:
  assumes "pstep n s s'" and "pinv n s"
  shows "pinv n s'"
  using assms
proof (cases rule: pstep.cases)
  case (count x)
  then show ?thesis
    using assms(2) by (auto simp: pinv_def tm_count_def wf_manager_def is_running_def open_tasks_def queued_def in_work_def)
next
  case (enqueue x m)
  then show ?thesis
    using assms(2) tm_enqueue_spec [of "mgr s" x m]
    by (auto simp: pinv_def is_running_def open_tasks_def in_work_def)
next
  case (take w x m)
  have "wf_manager m" "is_running m" "queued (mgr s) = queued m + {#x#}" "todo m = todo (mgr s)"
    using tm_try_pop_spec [of "mgr s" w] assms(2) take(4) by (auto simp: pinv_def)
  moreover have "in_work n (s\<lparr>mgr := m, working := (working s)(w \<mapsto> x)\<rparr>) = in_work n s + {#x#}"
    using in_work_update [OF take(2), of s "Some x"] take(3) by (simp add: in_work_def)
  ultimately show ?thesis using assms(2) take(1) by (auto simp: pinv_def open_tasks_def)
next
  case (finish w x)
  have "in_work n (s\<lparr>working := (working s)(w := None)\<rparr>) + {#x#} = in_work n s"
    using in_work_update [OF finish(2), of s None] finish(3) by simp
  then have "in_work n s = in_work n s' + {#x#}"
    using finish(1) by (simp add: in_work_def)
  then show ?thesis
    using assms(2) finish(1)
    by (auto simp: pinv_def open_tasks_def report_success_def wf_manager_def is_running_def queued_def)
qed

lemma preach_inv: "0 < n \<Longrightarrow> (pstep n)\<^sup>*\<^sup>* (new_pool x n) s \<Longrightarrow> pinv n s"
  by (rotate_tac, induction rule: rtranclp_induct) (auto intro: pinv_init pstep_inv)



section \<open>A concrete run\<close>

lemma demo_submitted:
  "\<exists>s. (pstep 1)\<^sup>*\<^sup>* (new_pool (0 :: nat) 1) s \<and> pending s = None \<and> submitted s = [7] \<and> finished s = [] \<and>
     working s = (\<lambda>_. None) \<and> todo (mgr s) = 1"
proof -
  let ?s0 = "new_pool (0 :: nat) 1"
  let ?s1 = "?s0\<lparr>mgr := tm_count (mgr ?s0), pending := Some 7, submitted := submitted ?s0 @ [7]\<rparr>"
  have step: "pstep 1 ?s0 ?s1"
    by (rule pstep.count) (simp_all add: new_pool_def newTaskManager_def is_running_def)
  have "\<exists>m. tm_enqueue 7 (mgr ?s1) = Inr m"
    by (simp add: tm_enqueue_def new_pool_def newTaskManager_def tm_count_def queue_push_def newTaskQueue_def int_max_def)
  then obtain m where m: "tm_enqueue 7 (mgr ?s1) = Inr m" by blast
  have "pinv 1 ?s1" using pstep_inv [OF step pinv_init] by simp
  with tm_enqueue_spec [OF _ m] have "todo m = 1"
    by (simp add: pinv_def) (simp add: new_pool_def newTaskManager_def tm_count_def)
  moreover have "pstep 1 ?s1 (?s1\<lparr>mgr := m, pending := None\<rparr>)"
    by (rule pstep.enqueue [OF _ m]) simp
  ultimately show ?thesis
    using step by (intro exI [of _ "?s1\<lparr>mgr := m, pending := None\<rparr>"])
      (auto simp: new_pool_def intro: rtranclp.rtrancl_into_rtrancl)
qed



end
