(* ===== verification/Loop_Workers.thy ===== *)
theory Loop_Workers
  imports Backup_Prelude "HOL-Library.Multiset"
begin

text \<open>
  The parallel loops of \<open>ctrlcenter2/quickpool.h\<close>: \<open>loop::Worker\<close>,
  \<open>create_workers\<close> and \<open>ThreadPool::parallel_for\<close>.  Each worker owns a range of
  indices, advances it by compare-exchange, and steals half of another worker's
  range when its own is empty.  Every atomic access is a step; all workers
  interleave.  \<open>find_victim\<close> and \<open>all_done\<close> read the states of the workers one
  by one while these change, so their answers are not tied to any single state:
  the step relation lets them answer anything, and what is proved does not
  depend on them.
\<close>

section \<open>Definitions\<close>

record State =
  pos :: int
  rend :: int \<comment> \<open>the field \<open>end\<close>\<close>

definition tasks_left :: "State \<Rightarrow> u64" where
  "tasks_left s = of_int (rend s - pos s)"

definition worker_done :: "State \<Rightarrow> bool" where
  "worker_done s \<longleftrightarrow> tasks_left s = 0"

definition all_done :: "State list \<Rightarrow> bool" where
  "all_done workers \<longleftrightarrow> list_all worker_done workers"

text \<open>The first largest element, as \<open>std::max_element\<close> finds it.\<close>

fun max_element :: "u64 list \<Rightarrow> nat \<Rightarrow> nat \<Rightarrow> u64 \<Rightarrow> nat" where
  "max_element [] i best largest = best"
| "max_element (x # xs) i best largest =
     (if largest < x then max_element xs (Suc i) i x else max_element xs (Suc i) best largest)"

definition find_victim :: "State list \<Rightarrow> nat" where
  "find_victim workers =
     (case map tasks_left workers of [] \<Rightarrow> 0 | x # xs \<Rightarrow> max_element xs 1 0 x)"

text \<open>
  \<open>create_workers\<close>; the number of workers is a \<open>size_t\<close>, and reserving more than
  \<open>max_size\<close> elements throws.
\<close>

definition create_workers :: "nat \<Rightarrow> int \<Rightarrow> int \<Rightarrow> u64 \<Rightarrow> State list result" where
  "create_workers max_size begn ed num_workers0 =
     (let num_tasks = max (ed - begn) 0;
          num_workers = max (unat num_workers0) 1
      in if max_size < num_workers then Inl (Thrown ''length_error'')
         else Inr (map (\<lambda>i. \<lparr>pos = begn + num_tasks * int i div int num_workers,
                             rend = begn + num_tasks * int (i + 1) div int num_workers\<rparr>) [0 ..< num_workers]))"

text \<open>\<open>parallel_for\<close>: the workers and how many of them are pushed to the pool.\<close>

definition parallel_for :: "nat \<Rightarrow> int \<Rightarrow> int \<Rightarrow> (State list \<times> nat) result" where
  "parallel_for max_size begn ed =
     (let n = min (ed - begn) 1
      in ebind (create_workers max_size begn ed (of_int n)) (\<lambda>workers. Inr (workers, nat n)))"

text \<open>Where a worker stands in \<open>run\<close> and \<open>steal_range\<close>.\<close>

datatype wpc =
    Load
  | Loaded State
  | Exec int State \<comment> \<open>the slot is won, \<open>f\<close> is to be applied; the advanced state\<close>
  | Steal
  | Victim nat
  | VictimLoaded nat State
  | Got int int \<comment> \<open>the stolen range, not yet stored as the own one\<close>
  | AllDone
  | Check
  | Finished

record lstate =
  states :: "nat \<Rightarrow> State"
  pcs :: "nat \<Rightarrow> wpc"
  executed :: "int list"

definition goto :: "nat \<Rightarrow> wpc \<Rightarrow> lstate \<Rightarrow> lstate" where
  "goto k p s = s\<lparr>pcs := (pcs s)(k := p)\<rparr>"

definition steal_end :: "State \<Rightarrow> int" where
  "steal_end s = rend s - (rend s - pos s + 1) div 2"

inductive lstep :: "nat \<Rightarrow> lstate \<Rightarrow> lstate \<Rightarrow> bool" for n where
  load: "k < n \<Longrightarrow> pcs s k = Load \<Longrightarrow> lstep n s (goto k (Loaded (states s k)) s)"
| won: "k < n \<Longrightarrow> pcs s k = Loaded t \<Longrightarrow> pos t < rend t \<Longrightarrow> states s k = t \<Longrightarrow>
    lstep n s (goto k (Exec (pos t) (t\<lparr>pos := pos t + 1\<rparr>)) (s\<lparr>states := (states s)(k := t\<lparr>pos := pos t + 1\<rparr>)\<rparr>))"
| lost: "k < n \<Longrightarrow> pcs s k = Loaded t \<Longrightarrow> pos t < rend t \<Longrightarrow> lstep n s (goto k Check s)"
| own_empty: "k < n \<Longrightarrow> pcs s k = Loaded t \<Longrightarrow> \<not> pos t < rend t \<Longrightarrow>
    lstep n s (goto k (if pos t = rend t then Steal else Check) s)"
| exec: "k < n \<Longrightarrow> pcs s k = Exec i t \<Longrightarrow>
    lstep n s (goto k (if pos t = rend t then Steal else Check) (s\<lparr>executed := executed s @ [i]\<rparr>))"
| victim: "k < n \<Longrightarrow> pcs s k = Steal \<Longrightarrow> v < n \<Longrightarrow> lstep n s (goto k (Victim v) s)"
| victim_load: "k < n \<Longrightarrow> v < n \<Longrightarrow> pcs s k = Victim v \<Longrightarrow> lstep n s (goto k (VictimLoaded v (states s v)) s)"
| victim_empty: "k < n \<Longrightarrow> pcs s k = VictimLoaded v t \<Longrightarrow> rend t \<le> pos t \<Longrightarrow> lstep n s (goto k AllDone s)"
| stolen: "k < n \<Longrightarrow> v < n \<Longrightarrow> pcs s k = VictimLoaded v t \<Longrightarrow> pos t < rend t \<Longrightarrow> states s v = t \<Longrightarrow>
    lstep n s (goto k (Got (steal_end t) (rend t)) (s\<lparr>states := (states s)(v := t\<lparr>rend := steal_end t\<rparr>)\<rparr>))"
| not_stolen: "k < n \<Longrightarrow> pcs s k = VictimLoaded v t \<Longrightarrow> pos t < rend t \<Longrightarrow> lstep n s (goto k AllDone s)"
| store: "k < n \<Longrightarrow> pcs s k = Got lo hi \<Longrightarrow>
    lstep n s (goto k Check (s\<lparr>states := (states s)(k := \<lparr>pos = lo, rend = hi\<rparr>)\<rparr>))"
| again: "k < n \<Longrightarrow> pcs s k = AllDone \<Longrightarrow> lstep n s (goto k Steal s)"
| leave: "k < n \<Longrightarrow> pcs s k = AllDone \<Longrightarrow> lstep n s (goto k Check s)"
| next_round: "k < n \<Longrightarrow> pcs s k = Check \<Longrightarrow> \<not> worker_done (states s k) \<Longrightarrow> lstep n s (goto k Load s)"
| finish: "k < n \<Longrightarrow> pcs s k = Check \<Longrightarrow> worker_done (states s k) \<Longrightarrow> lstep n s (goto k Finished s)"

definition linit :: "State list \<Rightarrow> lstate" where
  "linit workers = \<lparr>states = (\<lambda>k. workers ! k), pcs = (\<lambda>_. Load), executed = []\<rparr>"

text \<open>Where the indices are: in ranges, in the hands of workers, or executed.\<close>

definition range_of :: "State \<Rightarrow> int multiset" where
  "range_of s = mset_set {pos s ..< rend s}"

definition in_hand :: "wpc \<Rightarrow> int multiset" where
  "in_hand p = (case p of Exec i _ \<Rightarrow> {#i#} | Got lo hi \<Rightarrow> mset_set {lo ..< hi} | _ \<Rightarrow> {#})"

definition indices :: "nat \<Rightarrow> lstate \<Rightarrow> int multiset" where
  "indices n s = mset (executed s) + (\<Sum>k<n. range_of (states s k)) + (\<Sum>k<n. in_hand (pcs s k))"

text \<open>Ranges are never inverted and fit 32 bits; a worker that steals, or is done, has an empty range.\<close>

definition wf_range :: "int \<Rightarrow> int \<Rightarrow> State \<Rightarrow> bool" where
  "wf_range lo hi s \<longleftrightarrow> lo \<le> pos s \<and> pos s \<le> rend s \<and> rend s \<le> hi"

definition pc_ok :: "int \<Rightarrow> int \<Rightarrow> State \<Rightarrow> wpc \<Rightarrow> bool" where
  "pc_ok lo hi own p =
     (case p of
        Loaded t \<Rightarrow> wf_range lo hi t \<and> (pos t = rend t \<longrightarrow> own = t)
      | Exec i t \<Rightarrow> wf_range lo hi t \<and> (pos t = rend t \<longrightarrow> own = t)
      | Steal \<Rightarrow> pos own = rend own
      | Victim v \<Rightarrow> pos own = rend own
      | VictimLoaded v t \<Rightarrow> wf_range lo hi t \<and> pos own = rend own
      | Got a b \<Rightarrow> lo \<le> a \<and> a \<le> b \<and> b \<le> hi \<and> pos own = rend own
      | AllDone \<Rightarrow> pos own = rend own
      | Finished \<Rightarrow> pos own = rend own
      | _ \<Rightarrow> True)"

definition linv :: "nat \<Rightarrow> int \<Rightarrow> int \<Rightarrow> lstate \<Rightarrow> bool" where
  "linv n lo hi s \<longleftrightarrow> indices n s = mset_set {lo ..< hi} \<and>
     (\<forall>k<n. wf_range lo hi (states s k) \<and> pc_ok lo hi (states s k) (pcs s k))"

section \<open>Bookkeeping\<close>

lemma sum_update:
  fixes g :: "'b \<Rightarrow> 'c :: comm_monoid_add"
  assumes "k < (n :: nat)"
  shows "(\<Sum>j<n. g ((h(k := v)) j)) + g (h k) = (\<Sum>j<n. g (h j)) + g v"
proof -
  have "(\<Sum>j<n. g (h j)) = g (h k) + (\<Sum>j \<in> {..<n} - {k}. g (h j))"
    using assms by (intro sum.remove) auto
  moreover have "(\<Sum>j<n. g ((h(k := v)) j)) = g v + (\<Sum>j \<in> {..<n} - {k}. g (h j))"
    using assms by (subst sum.remove [of _ k]) auto
  ultimately show ?thesis by (simp add: add_ac)
qed

lemma indices_goto:
  assumes "k < n"
  shows "indices n (goto k p s) + in_hand (pcs s k) = indices n s + in_hand p"
  using sum_update [OF assms, where g = in_hand and h = "pcs s" and v = p]
  by (simp add: indices_def goto_def union_ac)

lemma indices_state:
  assumes "v < n"
  shows "indices n (s\<lparr>states := (states s)(v := t)\<rparr>) + range_of (states s v) = indices n s + range_of t"
  using sum_update [OF assms, where g = range_of and h = "states s" and v = t]
  by (simp add: indices_def union_ac)

lemma indices_executed: "indices n (s\<lparr>executed := executed s @ [i]\<rparr>) = indices n s + {#i#}"
  by (simp add: indices_def)

lemma goto_simps [simp]:
  "states (goto k p s) = states s" "pcs (goto k p s) = (pcs s)(k := p)" "executed (goto k p s) = executed s"
  by (simp_all add: goto_def)

lemma range_split: "lo \<le> m \<Longrightarrow> m \<le> hi \<Longrightarrow> mset_set {lo ..< hi :: int} = mset_set {lo ..< m} + mset_set {m ..< hi}"
  by (subst mset_set_Union [symmetric]) (auto intro: arg_cong [where f = mset_set])

lemma range_first: "lo < hi \<Longrightarrow> mset_set {lo ..< hi :: int} = mset_set {lo + 1 ..< hi} + {#lo#}"
proof -
  assume "lo < hi"
  moreover from this have "{lo ..< lo + 1} = {lo}" by auto
  ultimately show ?thesis using range_split [of lo "lo + 1" hi] by (simp add: union_ac)
qed

lemma steal_end_bounds: "pos t < rend t \<Longrightarrow> pos t \<le> steal_end t \<and> steal_end t < rend t"
  unfolding steal_end_def by presburger

lemma worker_done_empty:
  assumes "wf_range lo hi s" and "hi - lo < 2 ^ 64"
  shows "worker_done s \<longleftrightarrow> pos s = rend s"
proof -
  define d where "d = rend s - pos s"
  have d: "0 \<le> d" "d < 2 ^ 64" using assms by (auto simp: wf_range_def d_def)
  have "worker_done s \<longleftrightarrow> (2 :: int) ^ 64 dvd d"
    by (simp add: worker_done_def tasks_left_def d_def [symmetric] word_of_int_eq_0_iff)
  also have "\<dots> \<longleftrightarrow> d = 0" using d by (auto dest: zdvd_not_zless [rotated])
  finally show ?thesis by (auto simp: d_def)
qed

section \<open>Every index exactly once\<close>

lemma linvD:
  assumes "linv n lo hi s" and "k < n"
  shows "wf_range lo hi (states s k)" "pc_ok lo hi (states s k) (pcs s k)"
  using assms by (auto simp: linv_def)

lemma linv_goto:
  assumes "linv n lo hi s" and "k < n" and "in_hand (pcs s k) = {#}" and "in_hand p = {#}" and "pc_ok lo hi (states s k) p"
  shows "linv n lo hi (goto k p s)"
  using assms indices_goto [OF assms(2), of p s] by (auto simp: linv_def)

text \<open>A worker's range may change under a worker that is not stealing.\<close>

lemma pc_ok_nonempty: "pc_ok lo hi own p \<Longrightarrow> pos own < rend own \<Longrightarrow> pc_ok lo hi own' p"
  by (auto simp: pc_ok_def split: wpc.splits)

lemma linv_won:
  assumes "linv n lo hi s" and "k < n" and "pcs s k = Loaded t" and "pos t < rend t" and "states s k = t"
  shows "linv n lo hi (goto k (Exec (pos t) (t\<lparr>pos := pos t + 1\<rparr>)) (s\<lparr>states := (states s)(k := t\<lparr>pos := pos t + 1\<rparr>)\<rparr>))"
proof -
  let ?t = "t\<lparr>pos := pos t + 1\<rparr>"
  let ?s = "s\<lparr>states := (states s)(k := ?t)\<rparr>"
  have "indices n ?s + range_of t = indices n s + range_of ?t"
    using indices_state [OF assms(2), of s ?t] assms(5) by simp
  moreover have "range_of t = range_of ?t + {#pos t#}"
    using range_first [OF assms(4)] by (simp add: range_of_def)
  ultimately have "indices n ?s + {#pos t#} = indices n s" by (simp add: union_ac)
  then have "indices n (goto k (Exec (pos t) ?t) ?s) = indices n s"
    using indices_goto [OF assms(2), of "Exec (pos t) ?t" ?s] assms(3) by (simp add: in_hand_def)
  moreover have "wf_range lo hi ?t"
    using linvD(1) [OF assms(1,2)] assms(4,5) by (auto simp: wf_range_def)
  ultimately show ?thesis
    using assms(1,2) by (auto simp: linv_def pc_ok_def)
qed

lemma linv_stolen:
  assumes "linv n lo hi s" and "k < n" and "v < n" and "pcs s k = VictimLoaded v t" and "pos t < rend t" and "states s v = t"
  shows "linv n lo hi (goto k (Got (steal_end t) (rend t)) (s\<lparr>states := (states s)(v := t\<lparr>rend := steal_end t\<rparr>)\<rparr>))"
proof -
  let ?t = "t\<lparr>rend := steal_end t\<rparr>"
  let ?s = "s\<lparr>states := (states s)(v := ?t)\<rparr>"
  note b = steal_end_bounds [OF assms(5)]
  have wf: "wf_range lo hi t" using linvD(1) [OF assms(1,3)] assms(6) by simp
  have "indices n ?s + range_of t = indices n s + range_of ?t"
    using indices_state [OF assms(3), of s ?t] assms(6) by simp
  moreover have "range_of t = range_of ?t + mset_set {steal_end t ..< rend t}"
    using range_split [of "pos t" "steal_end t" "rend t"] b by (simp add: range_of_def)
  ultimately have "indices n ?s + mset_set {steal_end t ..< rend t} + range_of ?t = indices n s + range_of ?t"
    by (simp add: union_ac)
  then have "indices n ?s + mset_set {steal_end t ..< rend t} = indices n s" by (rule add_right_imp_eq)
  then have "indices n (goto k (Got (steal_end t) (rend t)) ?s) = indices n s"
    using indices_goto [OF assms(2), of "Got (steal_end t) (rend t)" ?s] assms(4) by (simp add: in_hand_def)
  moreover have "v \<noteq> k"
    using linvD(2) [OF assms(1,2)] assms(4-6) by (auto simp: pc_ok_def)
  moreover have "pc_ok lo hi ?t (pcs s v)"
    using pc_ok_nonempty [OF linvD(2) [OF assms(1,3)]] assms(5,6) by simp
  moreover have "wf_range lo hi ?t" using wf b by (auto simp: wf_range_def)
  moreover have "pc_ok lo hi (states s k) (Got (steal_end t) (rend t))"
    using linvD(2) [OF assms(1,2)] assms(4) wf b by (auto simp: pc_ok_def wf_range_def)
  ultimately show ?thesis using assms(1) by (auto simp: linv_def)
qed

lemma linv_store:
  assumes "linv n lo hi s" and "k < n" and "pcs s k = Got a b"
  shows "linv n lo hi (goto k Check (s\<lparr>states := (states s)(k := \<lparr>pos = a, rend = b\<rparr>)\<rparr>))"
proof -
  let ?t = "\<lparr>pos = a, rend = b\<rparr>"
  let ?s = "s\<lparr>states := (states s)(k := ?t)\<rparr>"
  have own: "pos (states s k) = rend (states s k)" "lo \<le> a" "a \<le> b" "b \<le> hi"
    using linvD(2) [OF assms(1,2)] assms(3) by (auto simp: pc_ok_def)
  have "indices n ?s = indices n s + mset_set {a ..< b}"
    using indices_state [OF assms(2), of s ?t] own(1) by (simp add: range_of_def)
  then have "indices n (goto k Check ?s) = indices n s"
    using indices_goto [OF assms(2), of Check ?s] assms(3) by (simp add: in_hand_def)
  then show ?thesis
    using assms(1,2) own by (auto simp: linv_def pc_ok_def wf_range_def)
qed

lemma linv_exec:
  assumes "linv n lo hi s" and "k < n" and "pcs s k = Exec i t"
  shows "linv n lo hi (goto k (if pos t = rend t then Steal else Check) (s\<lparr>executed := executed s @ [i]\<rparr>))"
proof -
  let ?p = "if pos t = rend t then Steal else Check"
  let ?s = "s\<lparr>executed := executed s @ [i]\<rparr>"
  have "indices n (goto k ?p ?s) + {#i#} = indices n s + {#i#}"
    using indices_goto [OF assms(2), of ?p ?s] assms(3) by (simp add: in_hand_def indices_executed split: if_splits)
  moreover have "pc_ok lo hi (states s k) ?p"
    using linvD(2) [OF assms(1,2)] assms(3) by (auto simp: pc_ok_def)
  ultimately show ?thesis using assms(1) by (auto simp: linv_def)
qed

lemma lstep_inv:
  assumes "lstep n s s'" and "linv n lo hi s" and "hi - lo < 2 ^ 64"
  shows "linv n lo hi s'"
  using assms(1)
proof (cases rule: lstep.cases)
  case (won k t)
  then show ?thesis using linv_won [OF assms(2)] by blast
next
  case (stolen k v t)
  then show ?thesis using linv_stolen [OF assms(2)] by blast
next
  case (store k a b)
  then show ?thesis using linv_store [OF assms(2)] by blast
next
  case (exec k i t)
  then show ?thesis using linv_exec [OF assms(2)] by blast
next
  case (finish k)
  then show ?thesis
    using linv_goto [OF assms(2), of k Finished] worker_done_empty [OF linvD(1) [OF assms(2)] assms(3)]
    by (simp add: in_hand_def pc_ok_def)
next
  case (victim_load k v)
  then show ?thesis
    using linv_goto [OF assms(2), of k] linvD [OF assms(2)] by (force simp: in_hand_def pc_ok_def)
qed (use assms(2) in \<open>auto intro!: linv_goto simp: in_hand_def pc_ok_def dest: linvD split: if_splits\<close>)

text \<open>The initial ranges follow each other without gap or overlap.\<close>

lemma ranges_chain:
  assumes "\<And>k. b k \<le> b (Suc k)"
  shows "b 0 \<le> b m \<and> (\<Sum>k<m. mset_set {b k ..< b (Suc k) :: int}) = mset_set {b 0 ..< b m}"
proof (induction m)
  case (Suc m)
  then show ?case using range_split [of "b 0" "b m" "b (Suc m)"] assms [of m] by auto
qed simp

lemma create_workers_spec:
  assumes "create_workers max_size lo hi m = Inr ws"
  shows "0 < length ws \<and> (\<Sum>k<length ws. range_of (ws ! k)) = mset_set {lo ..< max lo hi} \<and>
    (\<forall>k<length ws. wf_range lo (max lo hi) (ws ! k))"
proof -
  let ?n = "max (unat m) 1"
  let ?T = "max (hi - lo) 0"
  define b where "b k = lo + ?T * int k div int ?n" for k
  have ws: "ws = map (\<lambda>i. \<lparr>pos = b i, rend = b (i + 1)\<rparr>) [0 ..< ?n]"
    using assms by (auto simp: create_workers_def Let_def b_def split: if_splits)
  have mono: "b k \<le> b (Suc k)" for k
    by (simp add: b_def) (intro zdiv_mono1 mult_left_mono, auto)
  have ends: "b 0 = lo" "b ?n = max lo hi" by (auto simp: b_def)
  have bounds: "lo \<le> b k \<and> b (Suc k) \<le> max lo hi" if "k < ?n" for k
  proof -
    have "mono b" using mono by (rule mono_iff_le_Suc [THEN iffD2, OF allI])
    moreover have "0 \<le> k" "Suc k \<le> ?n" using that by auto
    ultimately have "b 0 \<le> b k" "b (Suc k) \<le> b ?n" by (blast dest: monoD)+
    then show ?thesis unfolding ends by blast
  qed
  have "(\<Sum>k<?n. range_of (ws ! k)) = (\<Sum>k<?n. mset_set {b k ..< b (Suc k)})"
    by (intro sum.cong) (auto simp: ws range_of_def)
  also have "\<dots> = mset_set {lo ..< max lo hi}" using ranges_chain [of b ?n, OF mono] unfolding ends by blast
  finally show ?thesis using bounds mono by (auto simp: ws wf_range_def)
qed

lemma linit_inv:
  assumes "create_workers max_size lo hi m = Inr ws"
  shows "linv (length ws) lo (max lo hi) (linit ws)"
  using create_workers_spec [OF assms]
  by (simp add: linv_def indices_def linit_def in_hand_def pc_ok_def)

lemma lreach_inv:
  assumes "(lstep (length ws))\<^sup>*\<^sup>* (linit ws) s" and "create_workers max_size lo hi m = Inr ws" and "hi - lo < 2 ^ 64"
  shows "linv (length ws) lo (max lo hi) s"
  using assms(1)
proof (induction rule: rtranclp_induct)
  case base
  show ?case by (rule linit_inv [OF assms(2)])
next
  case (step s s')
  then show ?case using lstep_inv assms(3) by (auto simp: max_def)
qed


text \<open>\<open>parallel_for\<close> never uses more than one worker: a non-empty range goes to
  a single worker as a whole, an empty range starts none, and a range whose end
  lies before its begin is not an empty loop but an exception.
\<close>

theorem parallel_for_one_worker:
  assumes "1 \<le> max_size" and "max_size < 2 ^ 63"
  shows "(lo < hi \<longrightarrow> parallel_for max_size lo hi = Inr ([\<lparr>pos = lo, rend = hi\<rparr>], 1)) \<and>
    (lo = hi \<longrightarrow> parallel_for max_size lo hi = Inr ([\<lparr>pos = lo, rend = hi\<rparr>], 0)) \<and>
    (hi < lo \<and> lo - hi < 2 ^ 32 \<longrightarrow> parallel_for max_size lo hi = Inl (Thrown ''length_error''))"
proof (intro conjI impI)
  show "parallel_for max_size lo hi = Inr ([\<lparr>pos = lo, rend = hi\<rparr>], 1)" if "lo < hi"
  proof -
    have "min (hi - lo) 1 = 1" using that by simp
    with assms(1) that show ?thesis by (simp add: parallel_for_def create_workers_def Let_def)
  qed
  show "parallel_for max_size lo hi = Inr ([\<lparr>pos = lo, rend = hi\<rparr>], 0)" if "lo = hi"
    using assms(1) that by (simp add: parallel_for_def create_workers_def Let_def)
  show "parallel_for max_size lo hi = Inl (Thrown ''length_error'')" if "hi < lo \<and> lo - hi < 2 ^ 32"
  proof -
    define d where "d = nat (lo - hi)"
    have d: "0 < d" "d < 2 ^ 32" "min (hi - lo) 1 = - int d" using that by (auto simp: d_def)
    have "unat (of_int j :: u64) = nat (j mod 2 ^ 64)" for j
      by (simp add: unsigned_of_int take_bit_eq_mod)
    then have "unat (of_int (- int d) :: u64) = nat ((- int d) mod 2 ^ 64)" .
    also have "(- int d) mod 2 ^ 64 = 2 ^ 64 - int d"
      using d by (simp add: zmod_zminus1_eq_if)
    finally have "max_size < unat (of_int (- int d) :: u64)" using d assms(2) by simp
    then show ?thesis unfolding parallel_for_def create_workers_def Let_def d(3) by simp
  qed
qed

theorem parallel_for_one_worker_witness:
  "parallel_for 1000 0 100 = Inr ([\<lparr>pos = 0, rend = 100\<rparr>], 1) \<and>
   parallel_for 1000 5 3 = Inl (Thrown ''length_error'')"
  using parallel_for_one_worker [of 1000 0 100] parallel_for_one_worker [of 1000 5 3] by simp


end
