(* ===== verification/Zpaq_Tables.thy ===== *)
theory Zpaq_Tables
  imports Backup_Prelude
begin

text \<open>
  The tables of the context-mixing predictor (\<open>zpaq715/libzpaq.cpp\<close>): bit histories, divisions,
  \<open>squash\<close> and \<open>stretch\<close>, with the bounds of their entries.
\<close>

section \<open>Tables of the source\<close>

text \<open>The next state if 0, the next state if 1, and the counts of a bit history, four entries a state.\<close>

definition sns :: "u8 list" where
  "sns = [
     1, 2, 0, 0, 3, 5, 1, 0, 4, 6, 0, 1, 7, 9, 2, 0, 8, 11, 1, 1, 8, 11, 1, 1, 10, 12, 0, 2, 13, 15, 3, 0, 14, 17,
     2, 1, 14, 17, 2, 1, 16, 19, 1, 2, 16, 19, 1, 2, 18, 20, 0, 3, 21, 23, 4, 0, 22, 25, 3, 1, 22, 25, 3, 1, 24,
     27, 2, 2, 24, 27, 2, 2, 26, 29, 1, 3, 26, 29, 1, 3, 28, 30, 0, 4, 31, 33, 5, 0, 32, 35, 4, 1, 32, 35, 4, 1,
     34, 37, 3, 2, 34, 37, 3, 2, 36, 39, 2, 3, 36, 39, 2, 3, 38, 41, 1, 4, 38, 41, 1, 4, 40, 42, 0, 5, 43, 33, 6,
     0, 44, 47, 5, 1, 44, 47, 5, 1, 46, 49, 4, 2, 46, 49, 4, 2, 48, 51, 3, 3, 48, 51, 3, 3, 50, 53, 2, 4, 50, 53,
     2, 4, 52, 55, 1, 5, 52, 55, 1, 5, 40, 56, 0, 6, 57, 45, 7, 0, 58, 47, 6, 1, 58, 47, 6, 1, 60, 63, 5, 2, 60,
     63, 5, 2, 62, 65, 4, 3, 62, 65, 4, 3, 64, 67, 3, 4, 64, 67, 3, 4, 66, 69, 2, 5, 66, 69, 2, 5, 52, 71, 1, 6,
     52, 71, 1, 6, 54, 72, 0, 7, 73, 59, 8, 0, 74, 61, 7, 1, 74, 61, 7, 1, 76, 63, 6, 2, 76, 63, 6, 2, 78, 81, 5,
     3, 78, 81, 5, 3, 80, 83, 4, 4, 80, 83, 4, 4, 82, 85, 3, 5, 82, 85, 3, 5, 66, 87, 2, 6, 66, 87, 2, 6, 68, 89,
     1, 7, 68, 89, 1, 7, 70, 90, 0, 8, 91, 59, 9, 0, 92, 77, 8, 1, 92, 77, 8, 1, 94, 79, 7, 2, 94, 79, 7, 2, 96,
     81, 6, 3, 96, 81, 6, 3, 98, 101, 5, 4, 98, 101, 5, 4, 100, 103, 4, 5, 100, 103, 4, 5, 82, 105, 3, 6, 82, 105,
     3, 6, 84, 107, 2, 7, 84, 107, 2, 7, 86, 109, 1, 8, 86, 109, 1, 8, 70, 110, 0, 9, 111, 59, 10, 0, 112, 77, 9,
     1, 112, 77, 9, 1, 114, 97, 8, 2, 114, 97, 8, 2, 116, 99, 7, 3, 116, 99, 7, 3, 62, 101, 6, 4, 62, 101, 6, 4,
     80, 83, 5, 5, 80, 83, 5, 5, 100, 67, 4, 6, 100, 67, 4, 6, 102, 119, 3, 7, 102, 119, 3, 7, 104, 121, 2, 8, 104,
     121, 2, 8, 86, 123, 1, 9, 86, 123, 1, 9, 70, 124, 0, 10, 125, 59, 11, 0, 126, 77, 10, 1, 126, 77, 10, 1, 128,
     97, 9, 2, 128, 97, 9, 2, 60, 63, 8, 3, 60, 63, 8, 3, 66, 69, 3, 8, 66, 69, 3, 8, 104, 131, 2, 9, 104, 131, 2,
     9, 86, 133, 1, 10, 86, 133, 1, 10, 70, 134, 0, 11, 135, 59, 12, 0, 136, 77, 11, 1, 136, 77, 11, 1, 138, 97,
     10, 2, 138, 97, 10, 2, 104, 141, 2, 10, 104, 141, 2, 10, 86, 143, 1, 11, 86, 143, 1, 11, 70, 144, 0, 12, 145,
     59, 13, 0, 146, 77, 12, 1, 146, 77, 12, 1, 148, 97, 11, 2, 148, 97, 11, 2, 104, 151, 2, 11, 104, 151, 2, 11,
     86, 153, 1, 12, 86, 153, 1, 12, 70, 154, 0, 13, 155, 59, 14, 0, 156, 77, 13, 1, 156, 77, 13, 1, 158, 97, 12,
     2, 158, 97, 12, 2, 104, 161, 2, 12, 104, 161, 2, 12, 86, 163, 1, 13, 86, 163, 1, 13, 70, 164, 0, 14, 165, 59,
     15, 0, 166, 77, 14, 1, 166, 77, 14, 1, 168, 97, 13, 2, 168, 97, 13, 2, 104, 171, 2, 13, 104, 171, 2, 13, 86,
     173, 1, 14, 86, 173, 1, 14, 70, 174, 0, 15, 175, 59, 16, 0, 176, 77, 15, 1, 176, 77, 15, 1, 178, 97, 14, 2,
     178, 97, 14, 2, 104, 181, 2, 14, 104, 181, 2, 14, 86, 183, 1, 15, 86, 183, 1, 15, 70, 184, 0, 16, 185, 59, 17,
     0, 186, 77, 16, 1, 186, 77, 16, 1, 74, 97, 15, 2, 74, 97, 15, 2, 104, 89, 2, 15, 104, 89, 2, 15, 86, 187, 1,
     16, 86, 187, 1, 16, 70, 188, 0, 17, 189, 59, 18, 0, 190, 77, 17, 1, 86, 191, 1, 17, 70, 192, 0, 18, 193, 59,
     19, 0, 194, 77, 18, 1, 86, 195, 1, 18, 70, 196, 0, 19, 193, 59, 20, 0, 197, 77, 19, 1, 86, 198, 1, 19, 70,
     196, 0, 20, 199, 77, 20, 1, 86, 200, 1, 20, 201, 77, 21, 1, 86, 202, 1, 21, 203, 77, 22, 1, 86, 204, 1, 22,
     205, 77, 23, 1, 86, 206, 1, 23, 207, 77, 24, 1, 86, 208, 1, 24, 209, 77, 25, 1, 86, 210, 1, 25, 211, 77, 26,
     1, 86, 212, 1, 26, 213, 77, 27, 1, 86, 214, 1, 27, 215, 77, 28, 1, 86, 216, 1, 28, 217, 77, 29, 1, 86, 218, 1,
     29, 219, 77, 30, 1, 86, 220, 1, 30, 221, 77, 31, 1, 86, 222, 1, 31, 223, 77, 32, 1, 86, 224, 1, 32, 225, 77,
     33, 1, 86, 226, 1, 33, 227, 77, 34, 1, 86, 228, 1, 34, 229, 77, 35, 1, 86, 230, 1, 35, 231, 77, 36, 1, 86,
     232, 1, 36, 233, 77, 37, 1, 86, 234, 1, 37, 235, 77, 38, 1, 86, 236, 1, 38, 237, 77, 39, 1, 86, 238, 1, 39,
     239, 77, 40, 1, 86, 240, 1, 40, 241, 77, 41, 1, 86, 242, 1, 41, 243, 77, 42, 1, 86, 244, 1, 42, 245, 77, 43,
     1, 86, 246, 1, 43, 247, 77, 44, 1, 86, 248, 1, 44, 249, 77, 45, 1, 86, 250, 1, 45, 251, 77, 46, 1, 86, 252, 1,
     46, 253, 77, 47, 1, 86, 254, 1, 47, 253, 77, 48, 1, 86, 254, 1, 48, 0, 0, 0, 0]"

definition sdt2k :: "int list" where
  "sdt2k = [
     0, 2048, 1024, 682, 512, 409, 341, 292, 256, 227, 204, 186, 170, 157, 146, 136, 128, 120, 113, 107, 102, 97,
     93, 89, 85, 81, 78, 75, 73, 70, 68, 66, 64, 62, 60, 58, 56, 55, 53, 52, 51, 49, 48, 47, 46, 45, 44, 43, 42,
     41, 40, 40, 39, 38, 37, 37, 36, 35, 35, 34, 34, 33, 33, 32, 32, 31, 31, 30, 30, 29, 29, 28, 28, 28, 27, 27,
     26, 26, 26, 25, 25, 25, 24, 24, 24, 24, 23, 23, 23, 23, 22, 22, 22, 22, 21, 21, 21, 21, 20, 20, 20, 20, 20,
     19, 19, 19, 19, 19, 18, 18, 18, 18, 18, 18, 17, 17, 17, 17, 17, 17, 17, 16, 16, 16, 16, 16, 16, 16, 16, 15,
     15, 15, 15, 15, 15, 15, 15, 14, 14, 14, 14, 14, 14, 14, 14, 14, 14, 13, 13, 13, 13, 13, 13, 13, 13, 13, 13,
     13, 12, 12, 12, 12, 12, 12, 12, 12, 12, 12, 12, 12, 12, 11, 11, 11, 11, 11, 11, 11, 11, 11, 11, 11, 11, 11,
     11, 11, 11, 10, 10, 10, 10, 10, 10, 10, 10, 10, 10, 10, 10, 10, 10, 10, 10, 10, 10, 9, 9, 9, 9, 9, 9, 9, 9, 9,
     9, 9, 9, 9, 9, 9, 9, 9, 9, 9, 9, 9, 9, 9, 8, 8, 8, 8, 8, 8, 8, 8, 8, 8, 8, 8, 8, 8, 8, 8, 8, 8, 8, 8, 8, 8, 8,
     8, 8, 8, 8, 8]"

definition sdt :: "int list" where
  "sdt = [
     87380, 52428, 37448, 29126, 23830, 20164, 17476, 15420, 13796, 12482, 11396, 10484, 9708, 9038, 8456, 7942,
     7488, 7084, 6720, 6392, 6096, 5824, 5576, 5348, 5140, 4946, 4766, 4598, 4442, 4296, 4160, 4032, 3912, 3798,
     3692, 3590, 3494, 3404, 3318, 3236, 3158, 3084, 3012, 2944, 2880, 2818, 2758, 2702, 2646, 2594, 2544, 2496,
     2448, 2404, 2360, 2318, 2278, 2240, 2202, 2166, 2130, 2096, 2064, 2032, 2000, 1970, 1940, 1912, 1884, 1858,
     1832, 1806, 1782, 1758, 1736, 1712, 1690, 1668, 1648, 1628, 1608, 1588, 1568, 1550, 1532, 1514, 1496, 1480,
     1464, 1448, 1432, 1416, 1400, 1386, 1372, 1358, 1344, 1330, 1316, 1304, 1290, 1278, 1266, 1254, 1242, 1230,
     1218, 1208, 1196, 1186, 1174, 1164, 1154, 1144, 1134, 1124, 1114, 1106, 1096, 1086, 1078, 1068, 1060, 1052,
     1044, 1036, 1028, 1020, 1012, 1004, 996, 988, 980, 974, 966, 960, 952, 946, 938, 932, 926, 918, 912, 906, 900,
     894, 888, 882, 876, 870, 864, 858, 852, 848, 842, 836, 832, 826, 820, 816, 810, 806, 800, 796, 790, 786, 782,
     776, 772, 768, 764, 758, 754, 750, 746, 742, 738, 734, 730, 726, 722, 718, 714, 710, 706, 702, 698, 694, 690,
     688, 684, 680, 676, 672, 670, 666, 662, 660, 656, 652, 650, 646, 644, 640, 636, 634, 630, 628, 624, 622, 618,
     616, 612, 610, 608, 604, 602, 598, 596, 594, 590, 588, 586, 582, 580, 578, 576, 572, 570, 568, 566, 562, 560,
     558, 556, 554, 550, 548, 546, 544, 542, 540, 538, 536, 532, 530, 528, 526, 524, 522, 520, 518, 516, 514, 512,
     510, 508, 506, 504, 502, 500, 498, 496, 494, 492, 490, 488, 488, 486, 484, 482, 480, 478, 476, 474, 474, 472,
     470, 468, 466, 464, 462, 462, 460, 458, 456, 454, 454, 452, 450, 448, 448, 446, 444, 442, 442, 440, 438, 436,
     436, 434, 432, 430, 430, 428, 426, 426, 424, 422, 422, 420, 418, 418, 416, 414, 414, 412, 410, 410, 408, 406,
     406, 404, 402, 402, 400, 400, 398, 396, 396, 394, 394, 392, 390, 390, 388, 388, 386, 386, 384, 382, 382, 380,
     380, 378, 378, 376, 376, 374, 372, 372, 370, 370, 368, 368, 366, 366, 364, 364, 362, 362, 360, 360, 358, 358,
     356, 356, 354, 354, 352, 352, 350, 350, 348, 348, 348, 346, 346, 344, 344, 342, 342, 340, 340, 340, 338, 338,
     336, 336, 334, 334, 332, 332, 332, 330, 330, 328, 328, 328, 326, 326, 324, 324, 324, 322, 322, 320, 320, 320,
     318, 318, 316, 316, 316, 314, 314, 312, 312, 312, 310, 310, 310, 308, 308, 308, 306, 306, 304, 304, 304, 302,
     302, 302, 300, 300, 300, 298, 298, 298, 296, 296, 296, 294, 294, 294, 292, 292, 292, 290, 290, 290, 288, 288,
     288, 286, 286, 286, 284, 284, 284, 284, 282, 282, 282, 280, 280, 280, 278, 278, 278, 276, 276, 276, 276, 274,
     274, 274, 272, 272, 272, 272, 270, 270, 270, 268, 268, 268, 268, 266, 266, 266, 266, 264, 264, 264, 262, 262,
     262, 262, 260, 260, 260, 260, 258, 258, 258, 258, 256, 256, 256, 256, 254, 254, 254, 254, 252, 252, 252, 252,
     250, 250, 250, 250, 248, 248, 248, 248, 248, 246, 246, 246, 246, 244, 244, 244, 244, 242, 242, 242, 242, 242,
     240, 240, 240, 240, 238, 238, 238, 238, 238, 236, 236, 236, 236, 234, 234, 234, 234, 234, 232, 232, 232, 232,
     232, 230, 230, 230, 230, 230, 228, 228, 228, 228, 228, 226, 226, 226, 226, 226, 224, 224, 224, 224, 224, 222,
     222, 222, 222, 222, 220, 220, 220, 220, 220, 220, 218, 218, 218, 218, 218, 216, 216, 216, 216, 216, 216, 214,
     214, 214, 214, 214, 212, 212, 212, 212, 212, 212, 210, 210, 210, 210, 210, 210, 208, 208, 208, 208, 208, 208,
     206, 206, 206, 206, 206, 206, 204, 204, 204, 204, 204, 204, 204, 202, 202, 202, 202, 202, 202, 200, 200, 200,
     200, 200, 200, 198, 198, 198, 198, 198, 198, 198, 196, 196, 196, 196, 196, 196, 196, 194, 194, 194, 194, 194,
     194, 194, 192, 192, 192, 192, 192, 192, 192, 190, 190, 190, 190, 190, 190, 190, 188, 188, 188, 188, 188, 188,
     188, 186, 186, 186, 186, 186, 186, 186, 186, 184, 184, 184, 184, 184, 184, 184, 182, 182, 182, 182, 182, 182,
     182, 182, 180, 180, 180, 180, 180, 180, 180, 180, 178, 178, 178, 178, 178, 178, 178, 178, 176, 176, 176, 176,
     176, 176, 176, 176, 176, 174, 174, 174, 174, 174, 174, 174, 174, 172, 172, 172, 172, 172, 172, 172, 172, 172,
     170, 170, 170, 170, 170, 170, 170, 170, 170, 168, 168, 168, 168, 168, 168, 168, 168, 168, 166, 166, 166, 166,
     166, 166, 166, 166, 166, 166, 164, 164, 164, 164, 164, 164, 164, 164, 164, 162, 162, 162, 162, 162, 162, 162,
     162, 162, 162, 160, 160, 160, 160, 160, 160, 160, 160, 160, 160, 158, 158, 158, 158, 158, 158, 158, 158, 158,
     158, 158, 156, 156, 156, 156, 156, 156, 156, 156, 156, 156, 154, 154, 154, 154, 154, 154, 154, 154, 154, 154,
     154, 152, 152, 152, 152, 152, 152, 152, 152, 152, 152, 152, 150, 150, 150, 150, 150, 150, 150, 150, 150, 150,
     150, 150, 148, 148, 148, 148, 148, 148, 148, 148, 148, 148, 148, 148, 146, 146, 146, 146, 146, 146, 146, 146,
     146, 146, 146, 146, 144, 144, 144, 144, 144, 144, 144, 144, 144, 144, 144, 144, 142, 142, 142, 142, 142, 142,
     142, 142, 142, 142, 142, 142, 142, 140, 140, 140, 140, 140, 140, 140, 140, 140, 140, 140, 140, 140, 138, 138,
     138, 138, 138, 138, 138, 138, 138, 138, 138, 138, 138, 138, 136, 136, 136, 136, 136, 136, 136, 136, 136, 136,
     136, 136, 136, 136, 134, 134, 134, 134, 134, 134, 134, 134, 134, 134, 134, 134, 134, 134, 132, 132, 132, 132,
     132, 132, 132, 132, 132, 132, 132, 132, 132, 132, 132, 130, 130, 130, 130, 130, 130, 130, 130, 130, 130, 130,
     130, 130, 130, 130, 128, 128, 128, 128, 128, 128, 128, 128, 128, 128, 128, 128, 128, 128, 128, 128, 126]"

text \<open>The middle of the table of \<open>squash\<close>.\<close>

definition ssquasht :: "int list" where
  "ssquasht = [
     0, 0, 0, 0, 0, 0, 0, 1, 1, 1, 1, 1, 1, 1, 1, 1, 1, 1, 1, 1, 1, 1, 1, 1, 1, 1, 1, 1, 1, 1, 1, 1, 1, 1, 1, 1, 1,
     1, 1, 1, 1, 1, 1, 1, 1, 1, 1, 1, 1, 1, 1, 2, 2, 2, 2, 2, 2, 2, 2, 2, 2, 2, 2, 2, 2, 2, 2, 2, 2, 2, 2, 2, 2, 2,
     2, 2, 2, 3, 3, 3, 3, 3, 3, 3, 3, 3, 3, 3, 3, 3, 3, 3, 3, 3, 3, 3, 4, 4, 4, 4, 4, 4, 4, 4, 4, 4, 4, 4, 4, 4, 5,
     5, 5, 5, 5, 5, 5, 5, 5, 5, 5, 5, 6, 6, 6, 6, 6, 6, 6, 6, 6, 6, 7, 7, 7, 7, 7, 7, 7, 7, 8, 8, 8, 8, 8, 8, 8, 8,
     9, 9, 9, 9, 9, 9, 10, 10, 10, 10, 10, 10, 10, 11, 11, 11, 11, 11, 12, 12, 12, 12, 12, 13, 13, 13, 13, 13, 14,
     14, 14, 14, 15, 15, 15, 15, 15, 16, 16, 16, 17, 17, 17, 17, 18, 18, 18, 18, 19, 19, 19, 20, 20, 20, 21, 21,
     21, 22, 22, 22, 23, 23, 23, 24, 24, 25, 25, 25, 26, 26, 27, 27, 28, 28, 28, 29, 29, 30, 30, 31, 31, 32, 32,
     33, 33, 34, 34, 35, 36, 36, 37, 37, 38, 38, 39, 40, 40, 41, 42, 42, 43, 44, 44, 45, 46, 46, 47, 48, 49, 49,
     50, 51, 52, 53, 54, 54, 55, 56, 57, 58, 59, 60, 61, 62, 63, 64, 65, 66, 67, 68, 69, 70, 71, 72, 73, 74, 76,
     77, 78, 79, 81, 82, 83, 84, 86, 87, 88, 90, 91, 93, 94, 96, 97, 99, 100, 102, 103, 105, 107, 108, 110, 112,
     114, 115, 117, 119, 121, 123, 125, 127, 129, 131, 133, 135, 137, 139, 141, 144, 146, 148, 151, 153, 155, 158,
     160, 163, 165, 168, 171, 173, 176, 179, 182, 184, 187, 190, 193, 196, 199, 202, 206, 209, 212, 215, 219, 222,
     226, 229, 233, 237, 240, 244, 248, 252, 256, 260, 264, 268, 272, 276, 281, 285, 289, 294, 299, 303, 308, 313,
     318, 323, 328, 333, 338, 343, 349, 354, 360, 365, 371, 377, 382, 388, 394, 401, 407, 413, 420, 426, 433, 440,
     446, 453, 460, 467, 475, 482, 490, 497, 505, 513, 521, 529, 537, 545, 554, 562, 571, 580, 589, 598, 607, 617,
     626, 636, 646, 656, 666, 676, 686, 697, 708, 719, 730, 741, 752, 764, 776, 788, 800, 812, 825, 837, 850, 863,
     876, 890, 903, 917, 931, 946, 960, 975, 990, 1005, 1020, 1036, 1051, 1067, 1084, 1100, 1117, 1134, 1151, 1169,
     1186, 1204, 1223, 1241, 1260, 1279, 1298, 1318, 1338, 1358, 1379, 1399, 1421, 1442, 1464, 1486, 1508, 1531,
     1554, 1577, 1600, 1624, 1649, 1673, 1698, 1724, 1749, 1775, 1802, 1829, 1856, 1883, 1911, 1940, 1968, 1998,
     2027, 2057, 2087, 2118, 2149, 2181, 2213, 2245, 2278, 2312, 2345, 2380, 2414, 2450, 2485, 2521, 2558, 2595,
     2633, 2671, 2709, 2748, 2788, 2828, 2869, 2910, 2952, 2994, 3037, 3080, 3124, 3168, 3213, 3259, 3305, 3352,
     3399, 3447, 3496, 3545, 3594, 3645, 3696, 3747, 3799, 3852, 3906, 3960, 4014, 4070, 4126, 4182, 4240, 4298,
     4356, 4416, 4476, 4537, 4598, 4660, 4723, 4786, 4851, 4916, 4981, 5048, 5115, 5183, 5251, 5320, 5390, 5461,
     5533, 5605, 5678, 5752, 5826, 5901, 5977, 6054, 6131, 6210, 6289, 6369, 6449, 6530, 6613, 6695, 6779, 6863,
     6949, 7035, 7121, 7209, 7297, 7386, 7476, 7566, 7658, 7750, 7842, 7936, 8030, 8126, 8221, 8318, 8415, 8513,
     8612, 8712, 8812, 8913, 9015, 9117, 9221, 9324, 9429, 9534, 9640, 9747, 9854, 9962, 10071, 10180, 10290,
     10401, 10512, 10624, 10737, 10850, 10963, 11078, 11192, 11308, 11424, 11540, 11658, 11775, 11893, 12012,
     12131, 12251, 12371, 12491, 12612, 12734, 12856, 12978, 13101, 13224, 13347, 13471, 13595, 13719, 13844,
     13969, 14095, 14220, 14346, 14472, 14599, 14725, 14852, 14979, 15106, 15233, 15361, 15488, 15616, 15744,
     15872, 16000, 16128, 16256, 16384, 16511, 16639, 16767, 16895, 17023, 17151, 17279, 17406, 17534, 17661,
     17788, 17915, 18042, 18168, 18295, 18421, 18547, 18672, 18798, 18923, 19048, 19172, 19296, 19420, 19543,
     19666, 19789, 19911, 20033, 20155, 20276, 20396, 20516, 20636, 20755, 20874, 20992, 21109, 21227, 21343,
     21459, 21575, 21689, 21804, 21917, 22030, 22143, 22255, 22366, 22477, 22587, 22696, 22805, 22913, 23020,
     23127, 23233, 23338, 23443, 23546, 23650, 23752, 23854, 23955, 24055, 24155, 24254, 24352, 24449, 24546,
     24641, 24737, 24831, 24925, 25017, 25109, 25201, 25291, 25381, 25470, 25558, 25646, 25732, 25818, 25904,
     25988, 26072, 26154, 26237, 26318, 26398, 26478, 26557, 26636, 26713, 26790, 26866, 26941, 27015, 27089,
     27162, 27234, 27306, 27377, 27447, 27516, 27584, 27652, 27719, 27786, 27851, 27916, 27981, 28044, 28107,
     28169, 28230, 28291, 28351, 28411, 28469, 28527, 28585, 28641, 28697, 28753, 28807, 28861, 28915, 28968,
     29020, 29071, 29122, 29173, 29222, 29271, 29320, 29368, 29415, 29462, 29508, 29554, 29599, 29643, 29687,
     29730, 29773, 29815, 29857, 29898, 29939, 29979, 30019, 30058, 30096, 30134, 30172, 30209, 30246, 30282,
     30317, 30353, 30387, 30422, 30455, 30489, 30522, 30554, 30586, 30618, 30649, 30680, 30710, 30740, 30769,
     30799, 30827, 30856, 30884, 30911, 30938, 30965, 30992, 31018, 31043, 31069, 31094, 31118, 31143, 31167,
     31190, 31213, 31236, 31259, 31281, 31303, 31325, 31346, 31368, 31388, 31409, 31429, 31449, 31469, 31488,
     31507, 31526, 31544, 31563, 31581, 31598, 31616, 31633, 31650, 31667, 31683, 31700, 31716, 31731, 31747,
     31762, 31777, 31792, 31807, 31821, 31836, 31850, 31864, 31877, 31891, 31904, 31917, 31930, 31942, 31955,
     31967, 31979, 31991, 32003, 32015, 32026, 32037, 32048, 32059, 32070, 32081, 32091, 32101, 32111, 32121,
     32131, 32141, 32150, 32160, 32169, 32178, 32187, 32196, 32205, 32213, 32222, 32230, 32238, 32246, 32254,
     32262, 32270, 32277, 32285, 32292, 32300, 32307, 32314, 32321, 32327, 32334, 32341, 32347, 32354, 32360,
     32366, 32373, 32379, 32385, 32390, 32396, 32402, 32407, 32413, 32418, 32424, 32429, 32434, 32439, 32444,
     32449, 32454, 32459, 32464, 32468, 32473, 32478, 32482, 32486, 32491, 32495, 32499, 32503, 32507, 32511,
     32515, 32519, 32523, 32527, 32530, 32534, 32538, 32541, 32545, 32548, 32552, 32555, 32558, 32561, 32565,
     32568, 32571, 32574, 32577, 32580, 32583, 32585, 32588, 32591, 32594, 32596, 32599, 32602, 32604, 32607,
     32609, 32612, 32614, 32616, 32619, 32621, 32623, 32626, 32628, 32630, 32632, 32634, 32636, 32638, 32640,
     32642, 32644, 32646, 32648, 32650, 32652, 32653, 32655, 32657, 32659, 32660, 32662, 32664, 32665, 32667,
     32668, 32670, 32671, 32673, 32674, 32676, 32677, 32679, 32680, 32681, 32683, 32684, 32685, 32686, 32688,
     32689, 32690, 32691, 32693, 32694, 32695, 32696, 32697, 32698, 32699, 32700, 32701, 32702, 32703, 32704,
     32705, 32706, 32707, 32708, 32709, 32710, 32711, 32712, 32713, 32713, 32714, 32715, 32716, 32717, 32718,
     32718, 32719, 32720, 32721, 32721, 32722, 32723, 32723, 32724, 32725, 32725, 32726, 32727, 32727, 32728,
     32729, 32729, 32730, 32730, 32731, 32731, 32732, 32733, 32733, 32734, 32734, 32735, 32735, 32736, 32736,
     32737, 32737, 32738, 32738, 32739, 32739, 32739, 32740, 32740, 32741, 32741, 32742, 32742, 32742, 32743,
     32743, 32744, 32744, 32744, 32745, 32745, 32745, 32746, 32746, 32746, 32747, 32747, 32747, 32748, 32748,
     32748, 32749, 32749, 32749, 32749, 32750, 32750, 32750, 32750, 32751, 32751, 32751, 32752, 32752, 32752,
     32752, 32752, 32753, 32753, 32753, 32753, 32754, 32754, 32754, 32754, 32754, 32755, 32755, 32755, 32755,
     32755, 32756, 32756, 32756, 32756, 32756, 32757, 32757, 32757, 32757, 32757, 32757, 32757, 32758, 32758,
     32758, 32758, 32758, 32758, 32759, 32759, 32759, 32759, 32759, 32759, 32759, 32759, 32760, 32760, 32760,
     32760, 32760, 32760, 32760, 32760, 32761, 32761, 32761, 32761, 32761, 32761, 32761, 32761, 32761, 32761,
     32762, 32762, 32762, 32762, 32762, 32762, 32762, 32762, 32762, 32762, 32762, 32762, 32763, 32763, 32763,
     32763, 32763, 32763, 32763, 32763, 32763, 32763, 32763, 32763, 32763, 32763, 32764, 32764, 32764, 32764,
     32764, 32764, 32764, 32764, 32764, 32764, 32764, 32764, 32764, 32764, 32764, 32764, 32764, 32764, 32764,
     32765, 32765, 32765, 32765, 32765, 32765, 32765, 32765, 32765, 32765, 32765, 32765, 32765, 32765, 32765,
     32765, 32765, 32765, 32765, 32765, 32765, 32765, 32765, 32765, 32765, 32765, 32766, 32766, 32766, 32766,
     32766, 32766, 32766, 32766, 32766, 32766, 32766, 32766, 32766, 32766, 32766, 32766, 32766, 32766, 32766,
     32766, 32766, 32766, 32766, 32766, 32766, 32766, 32766, 32766, 32766, 32766, 32766, 32766, 32766, 32766,
     32766, 32766, 32766, 32766, 32766, 32766, 32766, 32766, 32766, 32766, 32767, 32767, 32767, 32767, 32767, 32767]"

text \<open>How often each value stands in the upper half of the table of \<open>stretch\<close>.\<close>

definition stdt :: "nat list" where
  "stdt = [
     64, 128, 128, 128, 128, 128, 127, 128, 127, 128, 127, 127, 127, 127, 126, 126, 126, 126, 126, 125, 125, 124,
     125, 124, 123, 123, 123, 123, 122, 122, 121, 121, 120, 120, 119, 119, 118, 118, 118, 116, 117, 115, 116, 114,
     114, 113, 113, 112, 112, 111, 110, 110, 109, 108, 108, 107, 106, 106, 105, 104, 104, 102, 103, 101, 101, 100,
     99, 98, 98, 97, 96, 96, 94, 94, 94, 92, 92, 91, 90, 89, 89, 88, 87, 86, 86, 84, 84, 84, 82, 82, 81, 80, 79,
     79, 78, 77, 76, 76, 75, 74, 73, 73, 72, 71, 70, 70, 69, 68, 67, 67, 66, 65, 65, 64, 63, 62, 62, 61, 61, 59,
     59, 59, 57, 58, 56, 56, 55, 54, 54, 53, 52, 52, 51, 51, 50, 49, 49, 48, 48, 47, 47, 45, 46, 44, 45, 43, 43,
     43, 42, 41, 41, 40, 40, 40, 39, 38, 38, 37, 37, 36, 36, 36, 35, 34, 34, 34, 33, 32, 33, 32, 31, 31, 30, 31,
     29, 30, 28, 29, 28, 28, 27, 27, 27, 26, 26, 25, 26, 24, 25, 24, 24, 23, 23, 23, 23, 22, 22, 21, 22, 21, 20,
     21, 20, 19, 20, 19, 19, 19, 18, 18, 18, 18, 17, 17, 17, 17, 16, 16, 16, 16, 15, 15, 15, 15, 15, 14, 14, 14,
     14, 13, 14, 13, 13, 13, 12, 13, 12, 12, 12, 11, 12, 11, 11, 11, 11, 11, 10, 11, 10, 10, 10, 10, 9, 10, 9, 9,
     9, 9, 9, 8, 9, 8, 9, 8, 8, 8, 7, 8, 8, 7, 7, 8, 7, 7, 7, 6, 7, 7, 6, 6, 7, 6, 6, 6, 6, 6, 6, 5, 6, 5, 6, 5, 5,
     5, 5, 5, 5, 5, 5, 5, 4, 5, 4, 5, 4, 4, 5, 4, 4, 4, 4, 4, 4, 3, 4, 4, 3, 4, 4, 3, 3, 4, 3, 3, 3, 4, 3, 3, 3, 3,
     3, 3, 2, 3, 3, 3, 2, 3, 2, 3, 3, 2, 2, 3, 2, 2, 3, 2, 2, 2, 2, 3, 2, 2, 2, 2, 2, 2, 1, 2, 2, 2, 2, 1, 2, 2, 2,
     1, 2, 1, 2, 2, 1, 2, 1, 2, 1, 1, 2, 1, 1, 2, 1, 1, 2, 1, 1, 1, 1, 2, 1, 1, 1, 1, 1, 1, 1, 1, 1, 1, 1, 1, 1, 1,
     1, 1, 1, 1, 1, 1, 0, 1, 1, 1, 1, 0, 1, 1, 1, 0, 1, 1, 1, 0, 1, 1, 0, 1, 1, 0, 1, 0, 1, 1, 0, 1, 0, 1, 0, 1, 0,
     1, 0, 1, 0, 1, 0, 1, 0, 1, 0, 1, 0, 1, 0, 0, 1, 0, 1, 0, 0, 1, 0, 1, 0, 0, 1, 0, 0, 1, 0, 0, 1, 0, 0, 1, 0, 0,
     0, 1, 0, 0, 1, 0, 0, 0, 1, 0, 0, 0, 1, 0, 0, 0, 1, 0, 0, 0, 0, 1, 0, 0, 0, 0, 1, 0, 0, 0, 0, 1, 0, 0, 0, 0, 0,
     1, 0, 0, 0, 0, 0, 1, 0, 0, 0, 0, 0, 0, 1, 0, 0, 0, 0, 0, 0, 0, 1, 0, 0, 0, 0, 0, 0, 0, 0, 0, 1, 0, 0, 0, 0, 0,
     0, 0, 0, 0, 1, 0, 0, 0, 0, 0, 0, 0, 0, 0, 0, 0, 0, 1, 0, 0, 0, 0, 0, 0, 0, 0, 0, 0, 0, 0, 0, 0, 0, 1, 0, 0, 0,
     0, 0, 0, 0, 0, 0, 0, 0, 0, 0, 0, 0, 0, 0, 0, 0, 0, 0, 1, 0, 0, 0, 0, 0, 0, 0, 0, 0, 0, 0, 0, 0, 0, 0, 0, 0, 0,
     0, 0, 0, 0, 0, 0, 0, 0, 0, 0, 0, 0, 0, 1, 0, 0, 0, 0, 0, 0, 0, 0, 0, 0, 0, 0, 0, 0, 0, 0, 0, 0, 0, 0, 0, 0, 0,
     0, 0, 0, 0, 0, 0, 0, 0, 0, 0, 0, 0, 0, 0, 0, 0, 0, 0, 0, 0, 0, 0, 0, 0, 0, 0, 0, 0, 0, 0, 0, 0, 0, 0, 0, 0, 0,
     0, 0, 0, 0, 0, 0, 0, 0, 0, 0, 1, 0]"

section \<open>Tables of the predictor\<close>

definition squasht :: "int list" where
  "squasht = replicate 1376 0 @ ssquasht @ replicate 1376 32767"

text \<open>The upper half counts up; the lower half is its mirror image, negated.\<close>

definition stretcht_up :: "int list" where
  "stretcht_up = concat (map (\<lambda>(i, n). replicate n (int i)) (zip [0 ..< 712] stdt))"

definition stretcht :: "int list" where
  "stretcht = map uminus (rev stretcht_up) @ stretcht_up"

definition squash :: "int \<Rightarrow> int result" where
  "squash x = (if - 2048 \<le> x \<and> x \<le> 2047 then Inr (squasht ! nat (x + 2048)) else Inl Undefined)"

definition stretch :: "nat \<Rightarrow> int result" where
  "stretch x = (if x \<le> 32767 then Inr (stretcht ! x) else Inl Undefined)"

definition st_next :: "u8 \<Rightarrow> nat \<Rightarrow> u8" where
  "st_next state y = sns ! (unat state * 4 + y)"

definition cminit :: "nat \<Rightarrow> nat" where
  "cminit state = (unat (sns ! (state * 4 + 3)) * 2 + 1) * 2 ^ 22 div (unat (sns ! (state * 4 + 2)) + unat (sns ! (state * 4 + 3)) + 1)"

section \<open>Bounds\<close>

lemma table_lengths: "length sns = 1024" "length sdt2k = 256" "length sdt = 1024" "length ssquasht = 1344" "length stdt = 712"
  by (simp_all add: sns_def sdt2k_def sdt_def ssquasht_def stdt_def)

lemma ssquasht_bounds: "list_all (\<lambda>x. 0 \<le> x \<and> x \<le> 32767) ssquasht"
  by (simp add: ssquasht_def)

lemma sdt_bounds: "hd sdt = 87380" "list_all (\<lambda>x. 0 \<le> x \<and> x \<le> 52428) (tl sdt)"
  by (simp_all add: sdt_def)

lemma stdt_sum: "sum_list stdt = 16384"
  by (simp add: stdt_def)

lemma length_squasht: "length squasht = 4096"
  by (simp add: squasht_def table_lengths)

lemma squash_bounds:
  assumes "- 2048 \<le> x" "x \<le> 2047"
  shows "\<exists>v. squash x = Inr v \<and> 0 \<le> v \<and> v \<le> 32767"
proof -
  have "squasht ! nat (x + 2048) \<in> set squasht" by (rule nth_mem) (use assms in \<open>simp add: length_squasht\<close>)
  moreover have "\<forall>v \<in> set squasht. 0 \<le> v \<and> v \<le> 32767" using ssquasht_bounds by (auto simp: squasht_def list_all_iff)
  ultimately show ?thesis using assms by (simp add: squash_def)
qed

lemma length_stretcht_up: "length stretcht_up = 16384"
proof -
  have "length (concat (map (\<lambda>(i, n). replicate n (int i)) (zip xs ns))) = sum_list ns" if "length xs = length ns" for xs :: "nat list" and ns
    using that by (induction xs ns rule: list_induct2) auto
  then show ?thesis by (simp add: stretcht_up_def table_lengths stdt_sum)
qed

lemma stretch_bounds:
  assumes "x \<le> 32767"
  shows "\<exists>v. stretch x = Inr v \<and> - 711 \<le> v \<and> v \<le> 711"
proof -
  have up: "\<forall>v \<in> set stretcht_up. 0 \<le> v \<and> v \<le> 711"
    by (auto simp: stretcht_up_def dest!: set_zip_leftD)
  then have "\<forall>v \<in> set stretcht. - 711 \<le> v \<and> v \<le> 711" by (auto simp: stretcht_def)
  moreover have "stretcht ! x \<in> set stretcht" by (rule nth_mem) (use assms in \<open>simp add: stretcht_def length_stretcht_up\<close>)
  ultimately show ?thesis using assms by (simp add: stretch_def)
qed

end
