(* ===== verification/Zpaq_Coder.thy ===== *)
theory Zpaq_Coder
  imports Backup_Prelude
begin

text \<open>
  The entropy coder of the archiver (\<open>zpaq715/libzpaq.cpp\<close>): \<open>Encoder\<close> and
  \<open>Decoder\<close>.  With a model they are a binary arithmetic coder driven by the bit
  probabilities of a predictor; without one they store blocks with a length in
  front.  The 32-bit unsigned variables are natural numbers with the reduction
  modulo $2^{32}$ written out; the byte streams are lists.

  The predictor is the record \<open>predictor\<close>, a parameter: its state, the
  prediction (15 bits) and the update with the coded bit.
\<close>

unbundle bit_operations_syntax

section \<open>Definitions\<close>

record 's predictor =
  isModeled :: bool
  pr_init :: 's
  predict :: "'s \<Rightarrow> nat"
  update :: "nat \<Rightarrow> 's \<Rightarrow> 's"

text \<open>\<open>low+=(low==0)\<close>\<close>

definition nonzero :: "nat \<Rightarrow> nat" where
  "nonzero l = l + (if l = 0 then 1 else 0)"

definition shl8 :: "nat \<Rightarrow> nat" where
  "shl8 v = (v * 256) mod 2 ^ 32"

definition midpoint :: "nat \<Rightarrow> nat \<Rightarrow> nat \<Rightarrow> nat" where
  "midpoint low high p = low + ((high - low) * p) div 65536"

record 's Encoder =
  e_low :: nat
  e_high :: nat
  e_pr :: 's
  e_buf :: "nat list" \<comment> \<open>\<open>buf[0..low-1]\<close> of an encoder without a model\<close>
  e_out :: "nat list"

definition Encoder_init :: "'s predictor \<Rightarrow> 's Encoder \<Rightarrow> 's Encoder" where
  "Encoder_init P e = e\<lparr>e_low := (if isModeled P then 1 else 0), e_high := 0xFFFFFFFF, e_pr := pr_init P, e_buf := []\<rparr>"

lemma xor_split: "(x XOR y) div 256 = (x div 256) XOR (y div 256 :: nat)" "(x XOR y) mod 256 = (x mod 256) XOR (y mod 256 :: nat)"
  using drop_bit_xor [of 8 x y] take_bit_xor [of 8 x y] by (simp_all add: drop_bit_eq_div take_bit_eq_mod)

lemma xor_grows:
  fixes h l :: nat
  assumes "h XOR l < 0x1000000"
  shows "h XOR l < (shl8 h + 255) XOR nonzero (shl8 l)"
proof -
  define a where "a = shl8 h"
  define b where "b = shl8 l"
  have ab: "a mod 256 = 0" "b mod 256 = 0" "a div 256 = h mod 2 ^ 24" "b div 256 = l mod 2 ^ 24"
    unfolding a_def b_def shl8_def
    by (simp_all add: mult.commute [of _ "256 :: nat"] mod_mult2_eq [of _ 256 "2 ^ 24", simplified] del: mult_2_right)
  have "h XOR l = (h XOR l) mod 2 ^ 24" using assms by simp
  also have "\<dots> = (h mod 2 ^ 24) XOR (l mod 2 ^ 24)" using take_bit_xor [of 24 h l] by (simp add: take_bit_eq_mod)
  finally have x: "h XOR l = (a div 256) XOR (b div 256)" by (simp add: ab)
  have n: "nonzero b div 256 = b div 256" "nonzero b mod 256 \<in> {0, 1}"
    using ab(2) by (auto simp: nonzero_def)
  let ?z = "(a + 255) XOR nonzero b"
  have "(a + 255) div 256 = a div 256" "(a + 255) mod 256 = 255"
    using ab(1) by (auto simp: mod_eq_0_iff_dvd dvd_def)
  then have z: "?z div 256 = h XOR l" "?z mod 256 = 255 XOR (nonzero b mod 256)"
    by (simp_all add: xor_split x n)
  have "254 \<le> ?z mod 256" using n(2) unfolding z(2) by auto
  moreover have "?z = 256 * (h XOR l) + ?z mod 256" using z(1) by (metis mult_div_mod_eq)
  ultimately have "h XOR l < ?z" by linarith
  then show ?thesis by (simp add: a_def b_def)
qed

text \<open>The shift loop of \<open>Encoder::encode\<close>; the last component is what it puts.\<close>

function enc_shift :: "nat \<Rightarrow> nat \<Rightarrow> nat \<times> nat \<times> nat list" where
  "enc_shift low high =
     (if high XOR low < 0x1000000
      then (case enc_shift (nonzero (shl8 low)) (shl8 high + 255) of
              (low', high', bytes) \<Rightarrow> (low', high', high div 2 ^ 24 # bytes))
      else (low, high, []))"
  by pat_completeness auto
termination
  by (relation "measure (\<lambda>(low, high). 0x1000000 - (high XOR low))") (use xor_grows in \<open>auto intro!: diff_less_mono2\<close>)

declare enc_shift.simps [simp del]

definition encode :: "nat \<Rightarrow> nat \<Rightarrow> 's Encoder \<Rightarrow> 's Encoder" where
  "encode y p e =
     (let mid = midpoint (e_low e) (e_high e) p;
          (low, high) = (if y \<noteq> 0 then (e_low e, mid) else (mid + 1, e_high e));
          (low, high, bytes) = enc_shift low high
      in e\<lparr>e_low := low, e_high := high, e_out := e_out e @ bytes\<rparr>)"

text \<open>The bits of a byte, from the highest: predict, encode, update.\<close>

primrec encode_bits :: "'s predictor \<Rightarrow> nat \<Rightarrow> nat \<Rightarrow> 's Encoder \<Rightarrow> 's Encoder" where
  "encode_bits P 0 c e = e"
| "encode_bits P (Suc i) c e =
     (let p = predict P (e_pr e) * 2 + 1;
          y = (c div 2 ^ i) mod 2;
          e = encode y p e
      in encode_bits P i c (e\<lparr>e_pr := update P y (e_pr e)\<rparr>))"

definition big_endian :: "nat \<Rightarrow> nat list" where
  "big_endian v = [(v div 2 ^ 24) mod 256, (v div 2 ^ 16) mod 256, (v div 2 ^ 8) mod 256, v mod 256]"

definition Encoder_compress :: "'s predictor \<Rightarrow> int \<Rightarrow> 's Encoder \<Rightarrow> 's Encoder" where
  "Encoder_compress P c e =
     (if isModeled P then
        (if c = -1 then encode 1 0 e
         else encode_bits P 8 (nat c) (encode 0 0 e))
      else
        (let e = (if e_low e \<noteq> 0 \<and> (c < 0 \<or> e_low e = 65536)
                  then e\<lparr>e_out := e_out e @ big_endian (e_low e) @ e_buf e, e_low := 0, e_buf := []\<rparr> else e)
         in if 0 \<le> c then e\<lparr>e_buf := e_buf e @ [nat c], e_low := e_low e + 1\<rparr> else e))"

record 's Decoder =
  d_low :: nat
  d_high :: nat
  d_curr :: nat
  d_pr :: 's
  d_in :: "nat list"

definition Decoder_init :: "'s predictor \<Rightarrow> 's Decoder \<Rightarrow> 's Decoder" where
  "Decoder_init P d =
     (if isModeled P then d\<lparr>d_pr := pr_init P, d_low := 1, d_high := 0xFFFFFFFF, d_curr := 0\<rparr>
      else d\<lparr>d_pr := pr_init P, d_low := 0, d_high := 0, d_curr := 0\<rparr>)"

text \<open>\<open>get()\<close>, and \<open>curr=curr<<8|get()\<close>, where the end of the input reads as -1.\<close>

definition d_get :: "'s Decoder \<Rightarrow> int \<times> 's Decoder" where
  "d_get d = (case d_in d of [] \<Rightarrow> (-1, d) | c # rest \<Rightarrow> (int c, d\<lparr>d_in := rest\<rparr>))"

definition shift_in :: "nat \<Rightarrow> int \<Rightarrow> nat" where
  "shift_in cur c = (if c < 0 then 2 ^ 32 - 1 else shl8 cur + nat c)"

primrec load_curr :: "nat \<Rightarrow> 's Decoder \<Rightarrow> 's Decoder" where
  "load_curr 0 d = d"
| "load_curr (Suc n) d = (case d_get d of (c, d') \<Rightarrow> load_curr n (d'\<lparr>d_curr := shift_in (d_curr d') c\<rparr>))"

function dec_shift :: "nat \<Rightarrow> nat \<Rightarrow> nat \<Rightarrow> nat list \<Rightarrow> (nat \<times> nat \<times> nat \<times> nat list) result" where
  "dec_shift low high cur inp =
     (if high XOR low < 0x1000000
      then (case inp of
              [] \<Rightarrow> Inl (Thrown ''unexpected end of file'')
            | c # rest \<Rightarrow> dec_shift (nonzero (shl8 low)) (shl8 high + 255) (shl8 cur + c) rest)
      else Inr (low, high, cur, inp))"
  by pat_completeness auto
termination
  by (relation "measure (\<lambda>(low, high, cur, inp). length inp)") auto

declare dec_shift.simps [simp del]

definition decode :: "nat \<Rightarrow> 's Decoder \<Rightarrow> (nat \<times> 's Decoder) result" where
  "decode p d =
     (if d_curr d < d_low d \<or> d_high d < d_curr d then Inl (Thrown ''archive corrupted'')
      else let mid = midpoint (d_low d) (d_high d) p;
               (y, low, high) = (if d_curr d \<le> mid then (1, d_low d, mid) else (0, mid + 1, d_high d))
           in ebind (dec_shift low high (d_curr d) (d_in d)) (\<lambda>(low, high, cur, inp).
                Inr (y, d\<lparr>d_low := low, d_high := high, d_curr := cur, d_in := inp\<rparr>)))"

text \<open>The loop \<open>while (c<256)\<close>, which runs eight times from \<open>c=1\<close>.\<close>

function decode_bits :: "'s predictor \<Rightarrow> nat \<Rightarrow> 's Decoder \<Rightarrow> (nat \<times> 's Decoder) result" where
  "decode_bits P c d =
     (if 0 < c \<and> c < 256 then
        (let p = predict P (d_pr d) * 2 + 1
         in ebind (decode p d) (\<lambda>(y, d).
              decode_bits P (c + c + y) (d\<lparr>d_pr := update P ((c + c + y) mod 2) (d_pr d)\<rparr>)))
      else Inr (c, d))"
  by pat_completeness auto
termination
  by (relation "measure (\<lambda>(P, c, d). 256 - c)") auto

declare decode_bits.simps [simp del]

definition Decoder_decompress :: "'s predictor \<Rightarrow> 's Decoder \<Rightarrow> (int \<times> 's Decoder) result" where
  "Decoder_decompress P d0 =
     (if isModeled P then
        (let d = (if d_curr d0 = 0 then load_curr 4 d0 else d0)
         in ebind (decode 0 d) (\<lambda>(y, d).
              if y \<noteq> 0 then
                (if d_curr d \<noteq> 0 then Inl (Thrown ''decoding end of stream'') else Inr (-1, d))
              else ebind (decode_bits P 1 d) (\<lambda>(c, d). Inr (int c - 256, d))))
      else
        (let d = (if d_curr d0 = 0 then load_curr 4 d0 else d0)
         in if d_curr d0 = 0 \<and> d_curr d = 0 then Inr (-1, d)
            else case d_get (d\<lparr>d_curr := d_curr d - 1\<rparr>) of (c, d') \<Rightarrow> Inr (c, d')))"

text \<open>\<open>Decoder::skip\<close>: its three loops over a modelled segment, then the stored ones.\<close>

fun skip_start :: "nat \<Rightarrow> nat list \<Rightarrow> nat \<times> nat list" where
  "skip_start cur [] = (if cur = 0 then (2 ^ 32 - 1, []) else (cur, []))"
| "skip_start cur (c # inp) = (if cur = 0 then skip_start c inp else (cur, c # inp))"

fun find_zeros :: "nat \<Rightarrow> nat list \<Rightarrow> nat \<times> nat list" where
  "find_zeros cur [] = (cur, [])"
| "find_zeros cur (c # inp) = (if cur \<noteq> 0 then find_zeros (shl8 cur + c) inp else (cur, c # inp))"

fun skip_zeros :: "nat list \<Rightarrow> int \<times> nat list" where
  "skip_zeros [] = (-1, [])"
| "skip_zeros (c # inp) = (if c = 0 then skip_zeros inp else (int c, inp))"

text \<open>\<open>for (int i=0; i<4 && (c=get())>=0; ++i) curr=curr<<8|c\<close>; the result has the last \<open>c\<close>.\<close>

fun skip_load :: "nat \<Rightarrow> int \<Rightarrow> nat \<Rightarrow> nat list \<Rightarrow> int \<times> nat \<times> nat list" where
  "skip_load 0 c cur inp = (c, cur, inp)"
| "skip_load (Suc i) c cur [] = (-1, cur, [])"
| "skip_load (Suc i) c cur (x # inp) = skip_load i (int x) (shl8 cur + x) inp"

lemma skip_load_length: "skip_load i c cur inp = (c', cur', inp') \<Longrightarrow> length inp' \<le> length inp"
  by (induction i c cur inp rule: skip_load.induct) auto

function skip_blocks :: "int \<Rightarrow> nat \<Rightarrow> nat list \<Rightarrow> (int \<times> nat \<times> nat list) result" where
  "skip_blocks c cur inp =
     (if cur = 0 then Inr (c, cur, inp)
      else if length inp < cur then Inl (Thrown ''skipped to EOF'')
      else (case skip_load 4 c 0 (drop cur inp) of (c', cur', inp') \<Rightarrow> skip_blocks c' cur' inp'))"
  by pat_completeness auto
termination
proof (relation "measure (\<lambda>(c, cur, inp). length inp)", goal_cases)
  case prems: 2
  then show ?case by (auto split: prod.splits dest: skip_load_length [OF sym] skip_load_length)
qed simp

declare skip_blocks.simps [simp del]

definition Decoder_skip :: "'s predictor \<Rightarrow> 's Decoder \<Rightarrow> (int \<times> 's Decoder) result" where
  "Decoder_skip P d =
     (if isModeled P then
        (let (cur, inp) = skip_start (d_curr d) (d_in d);
             (cur, inp) = find_zeros cur inp;
             (c, inp) = skip_zeros inp
         in Inr (c, d\<lparr>d_curr := cur, d_in := inp\<rparr>))
      else
        (let (c, cur, inp) = (if d_curr d = 0 then skip_load 4 (-1) 0 (d_in d) else (-1, d_curr d, d_in d))
         in ebind (skip_blocks c cur inp) (\<lambda>(c, cur, inp).
              let (c, d) = (if 0 \<le> c then d_get (d\<lparr>d_curr := cur, d_in := inp\<rparr>) else (c, d\<lparr>d_curr := cur, d_in := inp\<rparr>))
              in Inr (c, d))))"

text \<open>A predictor as the coder needs it: \<open>predict()\<close> returns 15 bits.\<close>

definition wf_predictor :: "'s predictor \<Rightarrow> bool" where
  "wf_predictor P \<longleftrightarrow> (\<forall>s. predict P s < 32768)"

text \<open>The first four bytes of a stream as the decoder's window has them.\<close>

definition window :: "nat list \<Rightarrow> nat" where
  "window bs = bs ! 0 * 2 ^ 24 + bs ! 1 * 2 ^ 16 + bs ! 2 * 2 ^ 8 + bs ! 3"

definition bytes_ok :: "nat list \<Rightarrow> bool" where
  "bytes_ok bs \<longleftrightarrow> (\<forall>b \<in> set bs. b < 256)"

text \<open>The calls of \<open>Compressor\<close> for the bytes of a segment (\<open>endSegment\<close> puts the four zeros),
  the reading loop of \<open>Decompresser::decompress\<close> with the number of bytes it may take, and
  the segments of a block, which share the state of the coder.\<close>

definition code_segment :: "'s predictor \<Rightarrow> nat list \<Rightarrow> 's Encoder \<Rightarrow> 's Encoder" where
  "code_segment P cs e =
     (let e = Encoder_compress P (-1) (fold (\<lambda>c. Encoder_compress P (int c)) cs e)
      in e\<lparr>e_out := e_out e @ [0, 0, 0, 0]\<rparr>)"

primrec read_segment :: "'s predictor \<Rightarrow> nat \<Rightarrow> 's Decoder \<Rightarrow> (nat list \<times> 's Decoder) result" where
  "read_segment P 0 d = Inl Diverges"
| "read_segment P (Suc n) d =
     ebind (Decoder_decompress P d) (\<lambda>(c, d).
       if c < 0 then Inr ([], d)
       else ebind (read_segment P n d) (\<lambda>(cs, d). Inr (nat c # cs, d)))"

primrec read_segments :: "'s predictor \<Rightarrow> nat \<Rightarrow> nat \<Rightarrow> 's Decoder \<Rightarrow> (nat list list \<times> 's Decoder) result" where
  "read_segments P fuel 0 d = Inr ([], d)"
| "read_segments P fuel (Suc n) d =
     ebind (read_segment P fuel d) (\<lambda>(cs, d).
       ebind (read_segments P fuel n d) (\<lambda>(css, d). Inr (cs # css, d)))"

section \<open>The range of the coder\<close>

text \<open>The two assertions of \<open>encode\<close>: \<open>high>low && low>0\<close>, in 32 bits.\<close>

definition in_range :: "'s Encoder \<Rightarrow> bool" where
  "in_range e \<longleftrightarrow> 0 < e_low e \<and> e_low e < e_high e \<and> e_high e < 2 ^ 32"

text \<open>A stream the decoder may read from the state of the encoder.\<close>

definition fits :: "nat \<Rightarrow> nat \<Rightarrow> nat list \<Rightarrow> bool" where
  "fits low high bs \<longleftrightarrow> bytes_ok bs \<and> 4 \<le> length bs \<and> low \<le> window bs \<and> window bs \<le> high"

definition decoder_at :: "'s Encoder \<Rightarrow> nat list \<Rightarrow> 's Decoder" where
  "decoder_at e bs = \<lparr>d_low = e_low e, d_high = e_high e, d_curr = window bs, d_pr = e_pr e, d_in = drop 4 bs\<rparr>"

lemma midpoint_bounds:
  assumes "low < high" "p < 65536"
  shows "low \<le> midpoint low high p" "midpoint low high p < high"
proof -
  have "(high - low) * p < (high - low) * 65536" using assms by simp
  then have "((high - low) * p) div 65536 < high - low" by (simp add: less_mult_imp_div_less)
  then show "low \<le> midpoint low high p" "midpoint low high p < high" using assms by (auto simp: midpoint_def)
qed

lemma top_bytes: "(h XOR l < 0x1000000) = (h div 2 ^ 24 = (l div 2 ^ 24 :: nat))"
proof -
  have "(h XOR l) div 2 ^ 24 = (h div 2 ^ 24) XOR (l div 2 ^ 24)"
    using drop_bit_xor [of 24 h l] by (simp add: drop_bit_eq_div)
  moreover have "(h XOR l < 0x1000000) = ((h XOR l) div 2 ^ 24 = 0)" by (simp add: div_eq_0_iff)
  moreover have "(a XOR b = 0) = (a = b)" for a b :: nat
    by (metis bit.xor_self bit_xor_iff bit_eq_iff xor_self_eq)
  ultimately show ?thesis by simp
qed

lemma shl8_div: "shl8 v = (v mod 2 ^ 24) * 256"
  by (simp add: shl8_def mult.commute [of _ "256 :: nat"] mult_mod_right)

lemma window_Cons4:
  assumes "b1 < 256" "b2 < 256" "b3 < 256" "b4 < 256"
  shows "window (b1 # b2 # b3 # b4 # r) = ((b1 * 256 + b2) * 256 + b3) * 256 + b4"
    "window (b1 # b2 # b3 # b4 # r) < 2 ^ 32"
  using assms by (simp_all add: window_def)

lemma window_Cons:
  assumes "bytes_ok (b # bs)" "4 \<le> length bs"
  shows "window (b # bs) = b * 2 ^ 24 + window bs div 256"
    "shl8 (window (b # bs)) + bs ! 3 = window bs" "window bs < 2 ^ 32"
proof -
  obtain b1 b2 b3 b4 r where bs: "bs = [b1, b2, b3, b4] @ r"
    using assms(2) by (auto simp: Suc_le_length_iff numeral_eq_Suc)
  then have lt: "b < 256" "b1 < 256" "b2 < 256" "b3 < 256" "b4 < 256" using assms(1) by (auto simp: bytes_ok_def)
  have w: "window bs = ((b1 * 256 + b2) * 256 + b3) * 256 + b4"
    "window (b # bs) = b * 2 ^ 24 + ((b1 * 256 + b2) * 256 + b3)"
    using lt by (simp_all add: bs window_Cons4)
  have "((b1 * 256 + b2) * 256 + b3) * 256 + b4 = b4 + ((b1 * 256 + b2) * 256 + b3) * 256" by simp
  then have d: "(((b1 * 256 + b2) * 256 + b3) * 256 + b4) div 256 = (b1 * 256 + b2) * 256 + b3" using lt(5) by simp
  show "window (b # bs) = b * 2 ^ 24 + window bs div 256" unfolding w d by simp
  have "(b1 * 256 + b2) * 256 + b3 < 2 ^ 24" using lt by simp
  then have "(b * 2 ^ 24 + ((b1 * 256 + b2) * 256 + b3)) mod 2 ^ 24 = (b1 * 256 + b2) * 256 + b3" by simp
  then show "shl8 (window (b # bs)) + bs ! 3 = window bs" unfolding shl8_div w by (simp add: bs)
  show "window bs < 2 ^ 32" using lt by (simp add: bs window_Cons4)
qed

section \<open>The shift loops\<close>

lemma bytes_ok_simps [simp]: "bytes_ok []" "bytes_ok (b # bs) = (b < 256 \<and> bytes_ok bs)"
  "bytes_ok (as @ bs) = (bytes_ok as \<and> bytes_ok bs)"
  by (auto simp: bytes_ok_def)

text \<open>One turn of the loop: the new range is inside the 32 bits, and a stream in the new
  range, with the byte put in front, is in the old one.\<close>

lemma shift_step:
  assumes "h XOR l < 0x1000000" "l \<le> h" "h < 2 ^ 32"
  shows "0 < nonzero (shl8 l)" "nonzero (shl8 l) < shl8 h + 255" "shl8 h + 255 < 2 ^ 32" "h div 2 ^ 24 < 256"
    "fits (nonzero (shl8 l)) (shl8 h + 255) bs \<Longrightarrow> fits l h (h div 2 ^ 24 # bs)"
proof -
  let ?l = "l mod 2 ^ 24" and ?h = "h mod 2 ^ 24" and ?b = "h div 2 ^ 24"
  have b: "?b = l div 2 ^ 24" using assms(1) by (simp add: top_bytes)
  have hl: "h = ?b * 2 ^ 24 + ?h" "l = ?b * 2 ^ 24 + ?l"
    using b div_mult_mod_eq [of h "2 ^ 24"] div_mult_mod_eq [of l "2 ^ 24"] by metis+
  then have le: "?l \<le> ?h" using assms(2) by linarith
  have lt: "?h < 2 ^ 24" by simp
  show "0 < nonzero (shl8 l)" by (simp add: nonzero_def)
  show "nonzero (shl8 l) < shl8 h + 255" using le by (simp add: nonzero_def shl8_div)
  show "shl8 h + 255 < 2 ^ 32" using lt unfolding shl8_div by simp
  show b8: "?b < 256" using assms(3) by (simp add: less_mult_imp_div_less)
  assume f: "fits (nonzero (shl8 l)) (shl8 h + 255) bs"
  then have "?l * 256 \<le> window bs" "window bs \<le> ?h * 256 + 255"
    by (auto simp: fits_def nonzero_def shl8_div split: if_splits)
  then have "?l \<le> window bs div 256" "window bs div 256 \<le> ?h" by linarith+
  then have "l \<le> ?b * 2 ^ 24 + window bs div 256" "?b * 2 ^ 24 + window bs div 256 \<le> h" using hl by linarith+
  then show "fits l h (?b # bs)" using f b8 by (simp add: fits_def window_Cons)
qed

lemma enc_shift_stop: "\<not> h XOR l < 0x1000000 \<Longrightarrow> enc_shift l h = (l, h, [])"
  by (subst enc_shift.simps) simp

lemma enc_shift_go:
  "h XOR l < 0x1000000 \<Longrightarrow> enc_shift (nonzero (shl8 l)) (shl8 h + 255) = (l2, h2, bs2)
    \<Longrightarrow> enc_shift l h = (l2, h2, h div 2 ^ 24 # bs2)"
  by (subst enc_shift.simps) simp

lemma enc_shift_range:
  assumes "enc_shift l h = (l', h', bs)" "0 < l" "l \<le> h" "h < 2 ^ 32"
  shows "0 < l' \<and> l' < h' \<and> h' < 2 ^ 32 \<and> bytes_ok bs"
  using assms
proof (induction l h arbitrary: l' h' bs rule: enc_shift.induct)
  case (1 l h)
  show ?case
  proof (cases "h XOR l < 0x1000000")
    case True
    note s = shift_step(1-4) [OF True 1(4,5)]
    obtain l2 h2 bs2 where e: "enc_shift (nonzero (shl8 l)) (shl8 h + 255) = (l2, h2, bs2)" by (metis prod_cases3)
    have "0 < l2 \<and> l2 < h2 \<and> h2 < 2 ^ 32 \<and> bytes_ok bs2"
      by (rule "1.IH" [OF True e s(1)]) (use s in auto)
    then show ?thesis using "1.prems"(1) enc_shift_go [OF True e] s(4) by auto
  next
    case False
    then have "l \<noteq> h" by (auto simp: top_bytes)
    then show ?thesis using "1.prems" enc_shift_stop [OF False] by auto
  qed
qed

text \<open>The stream of the encoder keeps the decoder's window in the range, and the two
  loops shift the same number of bytes.  No window before the end is zero.\<close>

lemma enc_shift_fits:
  assumes "enc_shift l h = (l', h', bs)" "0 < l" "l \<le> h" "h < 2 ^ 32" "fits l' h' t"
  shows "fits l h (bs @ t) \<and> (\<forall>i < length bs. 0 < window (drop i bs @ t))"
  using assms
proof (induction l h arbitrary: l' h' bs rule: enc_shift.induct)
  case (1 l h)
  show ?case
  proof (cases "h XOR l < 0x1000000")
    case True
    note s = shift_step [OF True 1(4,5)]
    obtain l2 h2 bs2 where e: "enc_shift (nonzero (shl8 l)) (shl8 h + 255) = (l2, h2, bs2)" by (metis prod_cases3)
    then have eq: "l' = l2" "h' = h2" "bs = h div 2 ^ 24 # bs2"
      using "1.prems"(1) enc_shift_go [OF True e] by simp_all
    have ih: "fits (nonzero (shl8 l)) (shl8 h + 255) (bs2 @ t) \<and> (\<forall>i < length bs2. 0 < window (drop i bs2 @ t))"
      by (rule "1.IH" [OF True e s(1)]) (use s "1.prems"(5) eq in auto)
    then have f: "fits l h (bs @ t)" using s(5) by (simp add: eq)
    moreover have "0 < window (drop i bs @ t)" if "i < length bs" for i
      using f ih that \<open>0 < l\<close> by (cases i) (auto simp: eq fits_def)
    ultimately show ?thesis by blast
  next
    case False
    then show ?thesis using "1.prems" enc_shift_stop [OF False] by auto
  qed
qed

lemma dec_shift_follows:
  assumes "enc_shift l h = (l', h', bs)" "bytes_ok (bs @ t)" "4 \<le> length t"
  shows "dec_shift l h (window (bs @ t)) (drop 4 (bs @ t)) = Inr (l', h', window t, drop 4 t)"
  using assms
proof (induction l h arbitrary: l' h' bs rule: enc_shift.induct)
  case (1 l h)
  show ?case
  proof (cases "h XOR l < 0x1000000")
    case True
    obtain l2 h2 bs2 where e: "enc_shift (nonzero (shl8 l)) (shl8 h + 255) = (l2, h2, bs2)" by (metis prod_cases3)
    then have eq: "l' = l2" "h' = h2" "bs = h div 2 ^ 24 # bs2"
      using "1.prems"(1) enc_shift_go [OF True e] by simp_all
    have ih: "dec_shift (nonzero (shl8 l)) (shl8 h + 255) (window (bs2 @ t)) (drop 4 (bs2 @ t)) = Inr (l2, h2, window t, drop 4 t)"
      by (rule "1.IH" [OF True e]) (use "1.prems" eq in auto)
    have d: "drop 4 (bs @ t) = (bs2 @ t) ! 3 # drop 4 (bs2 @ t)"
      using "1.prems"(3) Cons_nth_drop_Suc [of 3 "bs2 @ t"] by (simp add: eq del: drop_append)
    have "bytes_ok (h div 2 ^ 24 # bs2 @ t)" "4 \<le> length (bs2 @ t)" using "1.prems" by (auto simp: eq)
    then have w: "shl8 (window (bs @ t)) + (bs2 @ t) ! 3 = window (bs2 @ t)" by (simp only: eq append_Cons window_Cons(2))
    have "dec_shift l h (window (bs @ t)) (drop 4 (bs @ t))
        = dec_shift (nonzero (shl8 l)) (shl8 h + 255) (shl8 (window (bs @ t)) + (bs2 @ t) ! 3) (drop 4 (bs2 @ t))"
      unfolding d by (subst dec_shift.simps) (simp only: True if_True list.case)
    then show ?thesis unfolding w ih eq(1,2) .
  next
    case False
    then show ?thesis using "1.prems" enc_shift_stop [OF False] by (subst dec_shift.simps) auto
  qed
qed

section \<open>A coded bit and a coded byte\<close>

text \<open>From \<open>e\<close> to \<open>e'\<close> the encoder puts \<open>bs\<close>; whatever stream then fits \<open>e'\<close>,
  the whole stream fits \<open>e\<close> and never shows a window of zeros before its end.\<close>

definition emits :: "'s Encoder \<Rightarrow> 's Encoder \<Rightarrow> nat list \<Rightarrow> bool" where
  "emits e e' bs \<longleftrightarrow> in_range e' \<and> e_out e' = e_out e @ bs \<and> bytes_ok bs \<and>
     (\<forall>t. fits (e_low e') (e_high e') t \<longrightarrow>
        fits (e_low e) (e_high e) (bs @ t) \<and> (\<forall>i < length bs. 0 < window (drop i bs @ t)))"

lemma emits_trans:
  assumes "emits e1 e2 as" "emits e2 e3 bs"
  shows "emits e1 e3 (as @ bs)"
proof -
  have "fits (e_low e1) (e_high e1) (as @ bs @ t) \<and> (\<forall>i < length (as @ bs). 0 < window (drop i (as @ bs) @ t))"
    if t: "fits (e_low e3) (e_high e3) t" for t
  proof -
    have b: "fits (e_low e2) (e_high e2) (bs @ t)" "\<forall>i < length bs. 0 < window (drop i bs @ t)"
      using assms(2) t by (auto simp: emits_def)
    then have a: "fits (e_low e1) (e_high e1) (as @ bs @ t)" "\<forall>i < length as. 0 < window (drop i as @ bs @ t)"
      using assms(1) by (auto simp: emits_def)
    have "0 < window (drop i (as @ bs) @ t)" if "i < length (as @ bs)" for i
      using a(2) b(2) that by (cases "i < length as") auto
    then show ?thesis using a(1) by blast
  qed
  then show ?thesis using assms by (auto simp: emits_def)
qed

lemma encode_step:
  assumes "in_range e" "p < 65536" "y < 2"
  shows "\<exists>bs. emits e (encode y p e) bs \<and> e_pr (encode y p e) = e_pr e \<and>
    (\<forall>t. fits (e_low (encode y p e)) (e_high (encode y p e)) t \<longrightarrow>
       decode p (decoder_at e (bs @ t)) = Inr (y, decoder_at (encode y p e) t))"
proof -
  define mid where "mid = midpoint (e_low e) (e_high e) p"
  define l where "l = (if y \<noteq> 0 then e_low e else mid + 1)"
  define h where "h = (if y \<noteq> 0 then mid else e_high e)"
  have m: "e_low e \<le> mid" "mid < e_high e"
    using midpoint_bounds assms(1,2) by (auto simp: mid_def in_range_def)
  then have r: "0 < l" "l \<le> h" "h < 2 ^ 32" "e_low e \<le> l" "h \<le> e_high e"
    using assms(1) by (auto simp: l_def h_def in_range_def)
  obtain l' h' bs where s: "enc_shift l h = (l', h', bs)" by (metis prod_cases3)
  have e': "encode y p e = e\<lparr>e_low := l', e_high := h', e_out := e_out e @ bs\<rparr>"
    using s by (auto simp: encode_def Let_def mid_def l_def h_def)
  have "in_range (encode y p e)" "bytes_ok bs" using enc_shift_range [OF s r(1-3)] by (auto simp: e' in_range_def)
  moreover have "fits (e_low e) (e_high e) (bs @ t) \<and> (\<forall>i < length bs. 0 < window (drop i bs @ t)) \<and>
      decode p (decoder_at e (bs @ t)) = Inr (y, decoder_at (encode y p e) t)" if t: "fits l' h' t" for t
  proof -
    have f: "fits l h (bs @ t)" "\<forall>i < length bs. 0 < window (drop i bs @ t)"
      using enc_shift_fits [OF s r(1-3) t] by auto
    then have g: "fits (e_low e) (e_high e) (bs @ t)" using r by (auto simp: fits_def)
    have "dec_shift l h (window (bs @ t)) (drop 4 (bs @ t)) = Inr (l', h', window t, drop 4 t)"
      by (rule dec_shift_follows [OF s]) (use f t in \<open>auto simp: fits_def\<close>)
    moreover have "(if window (bs @ t) \<le> mid then (1, e_low e, mid) else (0, mid + 1, e_high e)) = (y, l, h)"
      using f(1) assms(3) by (auto simp: fits_def l_def h_def split: if_splits)
    ultimately have "decode p (decoder_at e (bs @ t)) = Inr (y, decoder_at (encode y p e) t)"
      using g by (auto simp: decode_def decoder_at_def mid_def [symmetric] fits_def e' Let_def simp del: drop_append)
    with f g show ?thesis by blast
  qed
  ultimately show ?thesis by (intro exI [of _ bs]) (auto simp: emits_def e')
qed

lemma decode_bits_done [simp]: "256 \<le> c \<Longrightarrow> decode_bits P c d = Inr (c, d)"
  by (subst decode_bits.simps) simp

lemma decoder_at_pr [simp]: "d_pr (decoder_at e t) = e_pr e" "(decoder_at e t)\<lparr>d_pr := s\<rparr> = decoder_at (e\<lparr>e_pr := s\<rparr>) t"
  by (simp_all add: decoder_at_def)

lemma emits_pr [simp]: "emits e (e'\<lparr>e_pr := s\<rparr>) bs = emits e e' bs" "emits (e\<lparr>e_pr := s\<rparr>) e' bs = emits e e' bs"
  "in_range (e\<lparr>e_pr := s\<rparr>) = in_range e"
  by (simp_all add: emits_def in_range_def)

lemma encode_bits_step:
  assumes "in_range e" "wf_predictor P" "0 < c0" "c0 < 2 ^ (9 - i)" "i \<le> 8"
  shows "\<exists>bs. emits e (encode_bits P i c e) bs \<and>
    (\<forall>t. fits (e_low (encode_bits P i c e)) (e_high (encode_bits P i c e)) t \<longrightarrow>
       decode_bits P c0 (decoder_at e (bs @ t)) = decode_bits P (c0 * 2 ^ i + c mod 2 ^ i) (decoder_at (encode_bits P i c e) t))"
  using assms
proof (induction i arbitrary: c0 e)
  case 0
  then show ?case by (intro exI [of _ "[]"]) (auto simp: emits_def)
next
  case (Suc i)
  let ?p = "predict P (e_pr e) * 2 + 1" and ?y = "(c div 2 ^ i) mod 2"
  define e1 where "e1 = encode ?y ?p e"
  define e2 where "e2 = e1\<lparr>e_pr := update P ?y (e_pr e1)\<rparr>"
  have e': "encode_bits P (Suc i) c e = encode_bits P i c e2" by (simp add: e1_def e2_def Let_def)
  have p: "?p < 65536"
  proof -
    have "predict P (e_pr e) < 32768" using Suc.prems(2) by (simp add: wf_predictor_def)
    then show ?thesis by linarith
  qed
  obtain bs1 where b1: "emits e e1 bs1" "e_pr e1 = e_pr e"
    and d1: "\<And>t. fits (e_low e1) (e_high e1) t \<Longrightarrow> decode ?p (decoder_at e (bs1 @ t)) = Inr (?y, decoder_at e1 t)"
    using encode_step [OF Suc.prems(1) p, of ?y] by (auto simp: e1_def)
  have c: "c0 < 256" "0 < c0 + c0 + ?y" "c0 + c0 + ?y < 2 ^ (9 - i)"
  proof -
    have pw: "(2::nat) ^ (9 - i) = 2 * 2 ^ (9 - Suc i)" using Suc.prems(5) by (simp flip: power_Suc add: Suc_diff_le)
    have "(2::nat) ^ (9 - Suc i) \<le> 2 ^ 8" by (rule power_increasing) simp_all
    then show "c0 < 256" using Suc.prems(4) by simp
    show "0 < c0 + c0 + ?y" using Suc.prems(3) by simp
    have "?y < 2" by simp
    then show "c0 + c0 + ?y < 2 ^ (9 - i)" using Suc.prems(4) unfolding pw by linarith
  qed
  have r2: "in_range e2" using b1(1) by (simp add: e2_def emits_def)
  obtain bs2 where b2: "emits e2 (encode_bits P i c e2) bs2"
    and d2: "\<And>t. fits (e_low (encode_bits P i c e2)) (e_high (encode_bits P i c e2)) t \<Longrightarrow>
       decode_bits P (c0 + c0 + ?y) (decoder_at e2 (bs2 @ t))
         = decode_bits P ((c0 + c0 + ?y) * 2 ^ i + c mod 2 ^ i) (decoder_at (encode_bits P i c e2) t)"
    using Suc.IH [OF r2 Suc.prems(2) c(2,3)] Suc.prems(5) by auto
  have arith: "(c0 + c0 + ?y) * 2 ^ i + c mod 2 ^ i = c0 * 2 ^ Suc i + c mod 2 ^ Suc i"
    using mod_mult2_eq [of c "2 ^ i" 2] by (simp add: algebra_simps)
  have par: "(c0 + c0 + z mod 2) mod 2 = z mod 2" for z :: nat
    unfolding mult_2 [symmetric] by simp
  have b12: "emits e (encode_bits P (Suc i) c e) (bs1 @ bs2)"
    unfolding e' by (rule emits_trans [OF _ b2]) (use b1 in \<open>simp add: e2_def\<close>)
  moreover have "decode_bits P c0 (decoder_at e ((bs1 @ bs2) @ t)) = decode_bits P (c0 * 2 ^ Suc i + c mod 2 ^ Suc i) (decoder_at (encode_bits P (Suc i) c e) t)"
    if t: "fits (e_low (encode_bits P (Suc i) c e)) (e_high (encode_bits P (Suc i) c e)) t" for t
  proof -
    have "fits (e_low e1) (e_high e1) (bs2 @ t)" using b2 t unfolding e' by (auto simp: emits_def e2_def)
    from d1 [OF this] have "decode_bits P c0 (decoder_at e ((bs1 @ bs2) @ t)) = decode_bits P (c0 + c0 + ?y) (decoder_at e2 (bs2 @ t))"
      using c(1) Suc.prems(3) by (subst decode_bits.simps) (simp add: par e2_def b1(2))
    also note d2 [OF t [unfolded e']]
    finally show ?thesis unfolding e' arith .
  qed
  ultimately show ?case by blast
qed

lemma fits_no_load:
  assumes "fits (e_low e) (e_high e) t" "in_range e"
  shows "d_curr (decoder_at e t) \<noteq> 0"
  using assms by (auto simp: decoder_at_def fits_def in_range_def)

lemma compress_byte_step:
  assumes "in_range e" "wf_predictor P" "isModeled P" "c < 256"
  shows "\<exists>bs. emits e (Encoder_compress P (int c) e) bs \<and>
    (\<forall>t. fits (e_low (Encoder_compress P (int c) e)) (e_high (Encoder_compress P (int c) e)) t \<longrightarrow>
       Decoder_decompress P (decoder_at e (bs @ t)) = Inr (int c, decoder_at (Encoder_compress P (int c) e) t))"
proof -
  define e1 where "e1 = encode 0 0 e"
  define e2 where "e2 = encode_bits P 8 c e1"
  have e': "Encoder_compress P (int c) e = e2" using assms(3) by (simp add: Encoder_compress_def e1_def e2_def)
  obtain bs1 where b1: "emits e e1 bs1" "e_pr e1 = e_pr e"
    and d1: "\<And>t. fits (e_low e1) (e_high e1) t \<Longrightarrow> decode 0 (decoder_at e (bs1 @ t)) = Inr (0, decoder_at e1 t)"
    using encode_step [OF assms(1), of 0 0] by (auto simp: e1_def)
  have r1: "in_range e1" using b1(1) by (simp add: emits_def)
  obtain bs2 where b2: "emits e1 e2 bs2"
    and d2: "\<And>t. fits (e_low e2) (e_high e2) t \<Longrightarrow> decode_bits P 1 (decoder_at e1 (bs2 @ t)) = Inr (256 + c, decoder_at e2 t)"
    using encode_bits_step [OF r1 assms(2), of 1 8 c] assms(4) by (auto simp: e2_def)
  have "Decoder_decompress P (decoder_at e ((bs1 @ bs2) @ t)) = Inr (int c, decoder_at e2 t)"
    if t: "fits (e_low e2) (e_high e2) t" for t
  proof -
    have f: "fits (e_low e1) (e_high e1) (bs2 @ t)" using b2 t by (auto simp: emits_def)
    then have "fits (e_low e) (e_high e) (bs1 @ bs2 @ t)" using b1 by (auto simp: emits_def)
    from fits_no_load [OF this assms(1)] show ?thesis using d1 [OF f] d2 [OF t] assms(3)
      by (simp add: Decoder_decompress_def Let_def)
  qed
  then show ?thesis using emits_trans [OF b1(1) b2] unfolding e' by blast
qed

section \<open>The end of a segment\<close>

text \<open>At \<open>encode(1, 0)\<close> both ends are \<open>low\<close>: after \<open>k\<close> turns the upper bytes of the range are
  the last bytes of \<open>low\<close>.\<close>

lemma eos_turn:
  fixes K :: nat
  assumes "K * M = 2 ^ 24" "0 < K" "h = K * a + (K - 1)" "K * a \<le> l" "l \<le> K * a + d" "d < K"
  shows "h XOR l < 0x1000000" "h div 2 ^ 24 = a div M"
    "shl8 h + 255 = K * 256 * (a mod M) + (K * 256 - 1)"
    "K * 256 * (a mod M) \<le> nonzero (shl8 l)" "nonzero (shl8 l) \<le> K * 256 * (a mod M) + (if d = 0 then 1 else d * 256)"
proof -
  obtain r where r: "l = K * a + r" "r \<le> d" using assms(4,5) by (metis le_iff_add add_le_cancel_left)
  have parts: "(K * a + x) div 2 ^ 24 = a div M" "(K * a + x) mod 2 ^ 24 = K * (a mod M) + x" if "x < K" for x
  proof -
    have "(K * a + x) div K = a" "(K * a + x) mod K = x" using that assms(2) by simp_all
    then show "(K * a + x) div 2 ^ 24 = a div M" "(K * a + x) mod 2 ^ 24 = K * (a mod M) + x"
      unfolding assms(1) [symmetric] by (simp_all add: div_mult2_eq mod_mult2_eq)
  qed
  have h: "h div 2 ^ 24 = a div M" "h mod 2 ^ 24 = K * (a mod M) + (K - 1)" using parts [of "K - 1"] assms(2,3) by auto
  have l: "l div 2 ^ 24 = a div M" "l mod 2 ^ 24 = K * (a mod M) + r" using parts [of r] r assms(6) by auto
  show "h XOR l < 0x1000000" unfolding top_bytes h l ..
  show "h div 2 ^ 24 = a div M" by fact
  show "shl8 h + 255 = K * 256 * (a mod M) + (K * 256 - 1)"
    unfolding shl8_div h using assms(2) by (cases K) (simp_all add: algebra_simps)
  show "K * 256 * (a mod M) \<le> nonzero (shl8 l)" unfolding shl8_div l by (simp add: nonzero_def algebra_simps)
  show "nonzero (shl8 l) \<le> K * 256 * (a mod M) + (if d = 0 then 1 else d * 256)"
    unfolding shl8_div l nonzero_def using r(2) by (auto simp: algebra_simps)
qed

lemma eos_shift:
  assumes "l < 2 ^ 32"
  shows "\<exists>l' h'. enc_shift l l = (l', h', big_endian l)"
proof -
  define s where "s = (\<lambda>l. nonzero (shl8 l))"
  define t where "t = (\<lambda>h. shl8 h + 255)"
  define a1 where "a1 = l mod 2 ^ 24"
  define a2 where "a2 = a1 mod 2 ^ 16"
  define a3 where "a3 = a2 mod 2 ^ 8"
  have 1: "l XOR l < 0x1000000" "t l = 256 * a1 + 255" "256 * a1 \<le> s l" "s l \<le> 256 * a1 + 1"
    using eos_turn [of 1 "2 ^ 24" l l l 0] by (auto simp: s_def t_def a1_def)
  have 2: "t l XOR s l < 0x1000000" "t l div 2 ^ 24 = a1 div 2 ^ 16" "t (t l) = 65536 * a2 + 65535"
    "65536 * a2 \<le> s (s l)" "s (s l) \<le> 65536 * a2 + 256"
    using eos_turn [of 256 "2 ^ 16" "t l" a1 "s l" 1] 1 by (auto simp: s_def t_def a2_def)
  have 3: "t (t l) XOR s (s l) < 0x1000000" "t (t l) div 2 ^ 24 = a2 div 2 ^ 8" "t (t (t l)) = 16777216 * a3 + 16777215"
    "16777216 * a3 \<le> s (s (s l))" "s (s (s l)) \<le> 16777216 * a3 + 65536"
    using eos_turn [of 65536 "2 ^ 8" "t (t l)" a2 "s (s l)" 256] 2 by (auto simp: s_def t_def a3_def)
  have 4: "t (t (t l)) XOR s (s (s l)) < 0x1000000" "t (t (t l)) div 2 ^ 24 = a3" "t (t (t (t l))) = 4294967295"
    "s (s (s (s l))) \<le> 16777216"
    using eos_turn [of 16777216 1 "t (t (t l))" a3 "s (s (s l))" 65536] 3 by (auto simp: s_def t_def)
  have "\<not> t (t (t (t l))) XOR s (s (s (s l))) < 0x1000000"
    unfolding top_bytes 4(3) using div_le_mono [OF 4(4), of "2 ^ 24"] by simp
  from enc_shift_stop [OF this]
  have e4: "enc_shift (nonzero (shl8 (s (s (s l))))) (shl8 (t (t (t l))) + 255) = (s (s (s (s l))), t (t (t (t l))), [])"
    by (simp add: s_def t_def)
  note e3 = enc_shift_go [OF 4(1) e4, unfolded 4(2)]
  have "enc_shift (nonzero (shl8 (s (s l)))) (shl8 (t (t l)) + 255) = (s (s (s (s l))), t (t (t (t l))), [a3])"
    using e3 by (simp add: s_def t_def)
  note e2 = enc_shift_go [OF 3(1) this, unfolded 3(2)]
  have "enc_shift (nonzero (shl8 (s l))) (shl8 (t l) + 255) = (s (s (s (s l))), t (t (t (t l))), [a2 div 2 ^ 8, a3])"
    using e2 by (simp add: s_def t_def)
  note e1 = enc_shift_go [OF 2(1) this, unfolded 2(2)]
  have "enc_shift (nonzero (shl8 l)) (shl8 l + 255) = (s (s (s (s l))), t (t (t (t l))), [a1 div 2 ^ 16, a2 div 2 ^ 8, a3])"
    using e1 by (simp add: s_def t_def)
  note e0 = enc_shift_go [OF 1(1) this]
  have "[l div 2 ^ 24, a1 div 2 ^ 16, a2 div 2 ^ 8, a3] = big_endian l"
  proof -
    have "l div 2 ^ 24 < 256" using assms by (simp add: less_mult_imp_div_less)
    moreover have "a1 div 2 ^ 16 = (l div 2 ^ 16) mod 2 ^ 8"
      using drop_bit_take_bit [of 16 24 l] by (simp add: a1_def take_bit_eq_mod drop_bit_eq_div)
    moreover have "a2 div 2 ^ 8 = (l div 2 ^ 8) mod 2 ^ 8" "a3 = l mod 2 ^ 8"
      using drop_bit_take_bit [of 8 16 l] by (simp_all add: a1_def a2_def a3_def take_bit_eq_mod drop_bit_eq_div mod_mod_cancel)
    ultimately show ?thesis by (simp add: big_endian_def)
  qed
  then show ?thesis using e0 by auto
qed

definition boundary :: "'s Encoder \<Rightarrow> nat list \<Rightarrow> 's Decoder" where
  "boundary e bs = \<lparr>d_low = e_low e, d_high = e_high e, d_curr = 0, d_pr = e_pr e, d_in = bs\<rparr>"

lemma big_endian_props:
  assumes "l < 2 ^ 32"
  shows "bytes_ok (big_endian l)" "length (big_endian l) = 4" "window (big_endian l @ t) = l"
proof -
  show "bytes_ok (big_endian l)" "length (big_endian l) = 4" by (simp_all add: big_endian_def)
  have "drop_bit 24 l < 256" using assms by (simp add: drop_bit_eq_div less_mult_imp_div_less)
  then have 1: "(l div 2 ^ 24) mod 256 = l div 2 ^ 24" by (simp add: drop_bit_eq_div)
  have 2: "l div 2 ^ 16 = 256 * (l div 2 ^ 24) + (l div 2 ^ 16) mod 256"
    "l div 2 ^ 8 = 256 * (l div 2 ^ 16) + (l div 2 ^ 8) mod 256" "l = 256 * (l div 2 ^ 8) + l mod 256"
    using div_mult2_eq [of l "2 ^ 16" 256] div_mult2_eq [of l "2 ^ 8" 256] by simp_all
  have horner: "Q * 2 ^ 24 + b * 2 ^ 16 + c * 2 ^ 8 + d = L"
    if "B = 256 * Q + b" "C = 256 * B + c" "L = 256 * C + d" for Q b c d B C L :: nat
    unfolding that by simp
  show "window (big_endian l @ t) = l" using horner [OF 2] 1 by (simp add: window_def big_endian_def)
qed

lemma compress_eos:
  assumes "in_range e" "isModeled P" "bytes_ok rest"
  defines "e' \<equiv> Encoder_compress P (-1) e"
  shows "e_out e' = e_out e @ big_endian (e_low e)" "in_range e'"
    "Decoder_decompress P (decoder_at e (big_endian (e_low e) @ [0, 0, 0, 0] @ rest)) = Inr (-1, boundary e' rest)"
proof -
  let ?l = "e_low e" and ?s = "big_endian (e_low e) @ [0, 0, 0, 0] @ rest"
  have r: "0 < ?l" "?l < e_high e" "?l < 2 ^ 32" using assms(1) by (auto simp: in_range_def)
  have m: "midpoint ?l (e_high e) 0 = ?l" by (simp add: midpoint_def)
  obtain l' h' where s: "enc_shift ?l ?l = (l', h', big_endian ?l)" using eos_shift [OF r(3)] by blast
  have e': "e' = e\<lparr>e_low := l', e_high := h', e_out := e_out e @ big_endian ?l\<rparr>"
    using s m assms(2) by (simp add: e'_def Encoder_compress_def encode_def Let_def)
  show "e_out e' = e_out e @ big_endian ?l" by (simp add: e')
  show "in_range e'" using enc_shift_range [OF s r(1) order_refl r(3)] by (simp add: e' in_range_def)
  have w: "window ?s = ?l" by (rule big_endian_props(3) [OF r(3)])
  have d: "drop 4 ?s = [0, 0, 0, 0] @ rest" by (simp add: big_endian_def)
  have ds: "dec_shift ?l ?l ?l (drop 4 ?s) = Inr (l', h', 0, rest)"
    using dec_shift_follows [OF s, of "[0, 0, 0, 0] @ rest"] assms(3) big_endian_props(1) [OF r(3)]
    unfolding w by (simp add: window_def del: drop_append)
  have "decode 0 (decoder_at e ?s) = Inr (1, boundary e' rest)"
    unfolding decode_def decoder_at_def using r(2) w ds by (simp add: m boundary_def e' del: drop_append append.simps)
  then show "Decoder_decompress P (decoder_at e ?s) = Inr (-1, boundary e' rest)"
    using assms(2) r(1) w by (simp add: Decoder_decompress_def decoder_at_def boundary_def del: append.simps)
qed

lemma load_window:
  assumes "4 \<le> length bs" "bytes_ok bs" "d_curr d = 0" "d_in d = bs"
  shows "load_curr 4 d = d\<lparr>d_curr := window bs, d_in := drop 4 bs\<rparr>"
proof -
  obtain b1 b2 b3 b4 r where bs: "bs = b1 # b2 # b3 # b4 # r"
    using assms(1) by (auto simp: Suc_le_length_iff numeral_eq_Suc)
  then have lt: "b1 < 256" "b2 < 256" "b3 < 256" "b4 < 256" using assms(2) by auto
  have w: "shl8 (shl8 (shl8 (shl8 0 + b1) + b2) + b3) + b4 = window bs"
    using lt by (simp add: bs window_Cons4 shl8_def)
  have 4: "(4::nat) = Suc (Suc (Suc (Suc 0)))" by simp
  show ?thesis using assms(3,4) w unfolding 4
    by (simp add: load_curr.simps d_get_def shift_in_def bs)
qed

text \<open>The bytes and the end of a modelled segment, read from the middle of the stream.\<close>

definition marked :: "nat list \<Rightarrow> bool" where
  "marked bs \<longleftrightarrow> (\<forall>i < length bs. (\<exists>b \<in> set (drop i bs). b \<noteq> 0) \<longrightarrow> (\<exists>b \<in> set (take 4 (drop i bs)). b \<noteq> 0))"

lemma window_nonzero:
  assumes "4 \<le> length bs"
  shows "0 < window bs \<longleftrightarrow> (\<exists>b \<in> set (take 4 bs). b \<noteq> 0)"
proof -
  obtain b1 b2 b3 b4 r where "bs = b1 # b2 # b3 # b4 # r"
    using assms by (auto simp: Suc_le_length_iff numeral_eq_Suc)
  then show ?thesis by (simp add: window_def)
qed

lemma marked_Cons: "marked (b # bs) \<longleftrightarrow> marked bs \<and> ((\<exists>x \<in> set (b # bs). x \<noteq> 0) \<longrightarrow> (\<exists>x \<in> set (take 4 (b # bs)). x \<noteq> 0))"
  unfolding marked_def by (simp add: All_less_Suc2) blast

lemma marked_append:
  assumes "marked bs" "4 \<le> length bs" "\<forall>i < length as. 0 < window (drop i as @ bs @ t)"
  shows "marked (as @ bs)"
  using assms(3)
proof (induction as)
  case Nil
  then show ?case using assms(1) by simp
next
  case (Cons a as)
  have "0 < window ((a # as) @ bs @ t)" using Cons.prems by (metis drop0 length_greater_0_conv list.distinct(1))
  then have "\<exists>b \<in> set (take 4 ((a # as) @ bs)). b \<noteq> 0"
    using window_nonzero [of "(a # as) @ bs @ t"] assms(2) by simp
  moreover have "\<forall>i < length as. 0 < window (drop i as @ bs @ t)" using Cons.prems by (metis Suc_less_eq drop_Suc_Cons length_Cons)
  ultimately show ?case using Cons.IH by (simp add: marked_Cons)
qed

lemma marked_last:
  assumes "length as \<le> 4" "\<forall>b \<in> set bs. b = 0"
  shows "marked (as @ bs)"
  unfolding marked_def
proof (intro allI impI)
  fix i assume "\<exists>b \<in> set (drop i (as @ bs)). b \<noteq> 0"
  then obtain b where b: "b \<noteq> 0" "b \<in> set (drop i as)" using assms(2) by (auto dest: in_set_dropD)
  then have "b \<in> set (take 4 (drop i as))" using assms(1) by simp
  then show "\<exists>b \<in> set (take 4 (drop i (as @ bs))). b \<noteq> 0" using b(1) by auto
qed

lemma modelled_segment:
  assumes "in_range e" "wf_predictor P" "isModeled P" "bytes_ok cs" "bytes_ok rest"
  shows "\<exists>bs. e_out (code_segment P cs e) = e_out e @ bs \<and> in_range (code_segment P cs e) \<and>
    fits (e_low e) (e_high e) (bs @ rest) \<and> marked bs \<and> (\<exists>xs. bs = xs @ [0, 0, 0, 0]) \<and>
    (\<forall>fuel > length cs. read_segment P fuel (decoder_at e (bs @ rest)) = Inr (cs, boundary (code_segment P cs e) rest))"
  using assms(1,4)
proof (induction cs arbitrary: e)
  case Nil
  let ?bs = "big_endian (e_low e) @ [0, 0, 0, 0]"
  note eos = compress_eos [OF Nil(1) assms(3,5)]
  have "fits (e_low e) (e_high e) (?bs @ rest)"
    using Nil(1) big_endian_props assms(5) by (auto simp: fits_def in_range_def)
  moreover have "read_segment P fuel (decoder_at e (?bs @ rest)) = Inr ([], boundary (code_segment P [] e) rest)"
    if "0 < fuel" for fuel
    using that eos(3) by (cases fuel) (auto simp: code_segment_def boundary_def Let_def)
  moreover have "marked ?bs" by (rule marked_last) (simp_all add: big_endian_def)
  ultimately show ?case using eos(1,2)
    by (intro exI [of _ ?bs]) (auto simp: code_segment_def in_range_def Let_def)
next
  case (Cons c cs)
  define e1 where "e1 = Encoder_compress P (int c) e"
  have c: "c < 256" "bytes_ok cs" using Cons.prems(2) by auto
  obtain bs1 where b1: "emits e e1 bs1"
    and d1: "\<And>t. fits (e_low e1) (e_high e1) t \<Longrightarrow> Decoder_decompress P (decoder_at e (bs1 @ t)) = Inr (int c, decoder_at e1 t)"
    using compress_byte_step [OF Cons.prems(1) assms(2,3) c(1)] by (auto simp: e1_def)
  have r1: "in_range e1" using b1 by (simp add: emits_def)
  have seg: "code_segment P (c # cs) e = code_segment P cs e1" by (simp add: code_segment_def e1_def)
  obtain bs2 where b2: "e_out (code_segment P cs e1) = e_out e1 @ bs2" "in_range (code_segment P cs e1)"
      "fits (e_low e1) (e_high e1) (bs2 @ rest)" "marked bs2" "\<exists>xs. bs2 = xs @ [0, 0, 0, 0]"
    and d2: "\<And>fuel. length cs < fuel \<Longrightarrow> read_segment P fuel (decoder_at e1 (bs2 @ rest)) = Inr (cs, boundary (code_segment P cs e1) rest)"
    using Cons.IH [OF r1 c(2)] by blast
  have "fits (e_low e) (e_high e) ((bs1 @ bs2) @ rest)" using b1 b2(3) by (auto simp: emits_def)
  moreover have "marked (bs1 @ bs2)"
    by (rule marked_append [OF b2(4), where t = rest]) (use b1 b2(3,5) in \<open>auto simp: emits_def\<close>)
  moreover have "read_segment P fuel (decoder_at e ((bs1 @ bs2) @ rest)) = Inr (c # cs, boundary (code_segment P (c # cs) e) rest)"
    if "length (c # cs) < fuel" for fuel
    using that d1 [OF b2(3)] d2 by (cases fuel) (auto simp: seg)
  ultimately show ?case using b1 b2(1,2,5) unfolding seg by (intro exI [of _ "bs1 @ bs2"]) (auto simp: emits_def)
qed

section \<open>Stored segments\<close>

text \<open>The blocks of at most 65536 bytes, each with its length in front.\<close>

function stored :: "nat list \<Rightarrow> nat list" where
  "stored xs =
     (if xs = [] then []
      else big_endian (min 65536 (length xs)) @ take 65536 xs @ stored (drop 65536 xs))"
  by pat_completeness auto
termination
  by (relation "measure length") auto

declare stored.simps [simp del]

lemma stored_Nil [simp]: "stored [] = []"
  by (subst stored.simps) simp

lemma stored_block:
  assumes "b \<noteq> []" "length b \<le> 65536" "length b = 65536 \<or> cs = []"
  shows "stored (b @ cs) = big_endian (length b) @ b @ stored cs"
  using assms by (subst stored.simps) auto

lemma stored_bytes_ok: "bytes_ok xs \<Longrightarrow> bytes_ok (stored xs)"
proof (induction xs rule: stored.induct)
  case (1 xs)
  then have "bytes_ok (take 65536 xs)" "bytes_ok (drop 65536 xs)"
    by (auto simp: bytes_ok_def dest: in_set_takeD in_set_dropD)
  then show ?case using 1(1) by (subst stored.simps) (auto simp: big_endian_def)
qed

lemma compress_stored:
  fixes e :: "'s Encoder" and cs :: "nat list"
  assumes "\<not> isModeled P" "e_low e = length (e_buf e)" "e_low e \<le> 65536"
  shows "e_out (Encoder_compress P (-1) (fold (\<lambda>c. Encoder_compress P (int c)) cs e)) = e_out e @ stored (e_buf e @ cs) \<and>
    e_low (Encoder_compress P (-1) (fold (\<lambda>c. Encoder_compress P (int c)) cs e)) = 0 \<and>
    e_buf (Encoder_compress P (-1) (fold (\<lambda>c. Encoder_compress P (int c)) cs e)) = []"
  using assms(2,3)
proof (induction cs arbitrary: e)
  case Nil
  then show ?case using assms(1) stored_block [of "e_buf e" "[]"] by (auto simp: Encoder_compress_def Let_def)
next
  case (Cons c cs)
  define e1 where "e1 = Encoder_compress P (int c) e"
  have "e_low e1 = length (e_buf e1)" "e_low e1 \<le> 65536" "e_out e1 @ stored (e_buf e1 @ cs) = e_out e @ stored (e_buf e @ c # cs)"
    using Cons.prems assms(1) stored_block [of "e_buf e" "c # cs"] by (auto simp: e1_def Encoder_compress_def Let_def)
  then show ?case using Cons.IH [of e1] by (simp add: e1_def)
qed

lemma read_block:
  assumes "\<not> isModeled P" "bytes_ok ys"
  shows "read_segment P (length ys + fuel) (d\<lparr>d_curr := length ys, d_in := ys @ s\<rparr>)
    = ebind (read_segment P fuel (d\<lparr>d_curr := 0, d_in := s\<rparr>)) (\<lambda>(cs, d). Inr (ys @ cs, d))"
  using assms(2)
proof (induction ys)
  case Nil
  then show ?case by (auto simp: ebind_def split: sum.splits)
next
  case (Cons y ys)
  have "Decoder_decompress P (d\<lparr>d_curr := length (y # ys), d_in := (y # ys) @ s\<rparr>) = Inr (int y, d\<lparr>d_curr := length ys, d_in := ys @ s\<rparr>)"
    using assms(1) by (simp add: Decoder_decompress_def d_get_def)
  then show ?case using Cons by (auto simp: ebind_def split: sum.splits)
qed

lemma read_stored:
  assumes "\<not> isModeled P" "bytes_ok xs" "bytes_ok rest" "length xs < fuel"
  shows "read_segment P fuel (d\<lparr>d_curr := 0, d_in := stored xs @ [0, 0, 0, 0] @ rest\<rparr>)
    = Inr (xs, d\<lparr>d_curr := 0, d_in := rest\<rparr>)"
  using assms(2,4)
proof (induction xs arbitrary: fuel rule: stored.induct)
  case (1 xs)
  show ?case
  proof (cases "xs = []")
    case True
    have "load_curr 4 (d\<lparr>d_curr := 0, d_in := [0, 0, 0, 0] @ rest\<rparr>) = d\<lparr>d_curr := 0, d_in := rest\<rparr>"
      using load_window [of "[0, 0, 0, 0] @ rest" "d\<lparr>d_curr := 0, d_in := [0, 0, 0, 0] @ rest\<rparr>"] assms(3)
      by (simp add: window_def)
    then show ?thesis using True 1(3) assms(1) by (cases fuel) (auto simp: Decoder_decompress_def Let_def)
  next
    case False
    define b where "b = take 65536 xs"
    define r where "r = stored (drop 65536 xs) @ [0, 0, 0, 0] @ rest"
    have b: "b \<noteq> []" "length b = min 65536 (length xs)" "bytes_ok b" "bytes_ok (drop 65536 xs)" "xs = b @ drop 65536 xs"
      using False 1(2) by (auto simp: b_def bytes_ok_def dest: in_set_takeD in_set_dropD)
    have st: "stored xs @ [0, 0, 0, 0] @ rest = big_endian (length b) @ b @ r"
      using False b(2) by (subst stored.simps) (simp add: b_def r_def)
    have n: "length b < 2 ^ 32" "0 < length b" using b(1,2) by auto
    let ?d = "d\<lparr>d_curr := 0, d_in := big_endian (length b) @ b @ r\<rparr>"
    have "bytes_ok r" using b(4) assms(3) by (simp add: r_def stored_bytes_ok)
    then have ok: "bytes_ok (big_endian (length b) @ b @ r)" using b(3) big_endian_props [OF n(1)] by simp
    have "load_curr 4 ?d = ?d\<lparr>d_curr := window (big_endian (length b) @ b @ r), d_in := drop 4 (big_endian (length b) @ b @ r)\<rparr>"
      by (rule load_window) (use ok big_endian_props [OF n(1)] in auto)
    then have load: "load_curr 4 ?d = d\<lparr>d_curr := length b, d_in := b @ r\<rparr>" using big_endian_props [OF n(1)] by simp
    define k where "k = fuel - length b"
    have k: "fuel = length b + k" "length (drop 65536 xs) < k"
      using 1(3) unfolding k_def b(2) length_drop by linarith+
    have "read_segment P fuel ?d = read_segment P fuel (d\<lparr>d_curr := length b, d_in := b @ r\<rparr>)"
      using load n(2) assms(1) by (cases fuel) (simp_all add: Decoder_decompress_def)
    also have "\<dots> = ebind (read_segment P k (d\<lparr>d_curr := 0, d_in := r\<rparr>)) (\<lambda>(cs, d). Inr (b @ cs, d))"
      unfolding k(1) by (rule read_block [OF assms(1) b(3)])
    also have "\<dots> = Inr (xs, d\<lparr>d_curr := 0, d_in := rest\<rparr>)"
      using 1(1) [OF False b(4) k(2)] b(5) by (simp add: r_def)
    finally show ?thesis unfolding st .
  qed
qed

section \<open>Round trip of the segments of a block\<close>

text \<open>Encoder and decoder between two segments: the same range and predictor with a
  model, an empty buffer without.\<close>

definition between :: "'s predictor \<Rightarrow> 's Encoder \<Rightarrow> 's Decoder \<Rightarrow> bool" where
  "between P e d \<longleftrightarrow> d_curr d = 0 \<and>
     (if isModeled P then in_range e \<and> d_low d = e_low e \<and> d_high d = e_high e \<and> d_pr d = e_pr e
      else e_low e = 0 \<and> e_buf e = [])"

lemma read_from_boundary:
  assumes "isModeled P" "between P e d" "d_in d = s" "fits (e_low e) (e_high e) s"
  shows "read_segment P fuel d = read_segment P fuel (decoder_at e s)"
proof -
  have "load_curr 4 d = d\<lparr>d_curr := window s, d_in := drop 4 s\<rparr>"
    by (rule load_window) (use assms in \<open>auto simp: fits_def between_def\<close>)
  also have "\<dots> = decoder_at e s" using assms(1,2) by (simp add: decoder_at_def between_def)
  finally have "Decoder_decompress P d = Decoder_decompress P (decoder_at e s)"
    using assms fits_no_load [of e s] by (simp add: Decoder_decompress_def between_def)
  then show ?thesis by (cases fuel) simp_all
qed

lemma segment_roundtrip:
  assumes "between P e d" "wf_predictor P" "bytes_ok cs" "bytes_ok rest" "length cs < fuel"
  shows "\<exists>bs. e_out (code_segment P cs e) = e_out e @ bs \<and> bytes_ok bs \<and>
    (\<exists>d'. read_segment P fuel (d\<lparr>d_in := bs @ rest\<rparr>) = Inr (cs, d') \<and> d_in d' = rest \<and> between P (code_segment P cs e) d')"
proof (cases "isModeled P")
  case True
  then have r: "in_range e" using assms(1) by (simp add: between_def)
  obtain bs where bs: "e_out (code_segment P cs e) = e_out e @ bs" "in_range (code_segment P cs e)"
      "fits (e_low e) (e_high e) (bs @ rest)"
      "read_segment P fuel (decoder_at e (bs @ rest)) = Inr (cs, boundary (code_segment P cs e) rest)"
    using modelled_segment [OF r assms(2) True assms(3,4)] assms(5) by blast
  have "read_segment P fuel (d\<lparr>d_in := bs @ rest\<rparr>) = read_segment P fuel (decoder_at e (bs @ rest))"
    by (rule read_from_boundary [OF True _ _ bs(3)]) (use assms(1) in \<open>auto simp: between_def\<close>)
  then show ?thesis using bs True by (intro exI [of _ bs]) (auto simp: between_def boundary_def fits_def)
next
  case False
  then have e: "e_low e = 0" "e_buf e = []" "d_curr d = 0" using assms(1) by (auto simp: between_def)
  let ?bs = "stored cs @ [0, 0, 0, 0]"
  have out: "e_out (code_segment P cs e) = e_out e @ ?bs \<and> e_low (code_segment P cs e) = 0 \<and> e_buf (code_segment P cs e) = []"
    using compress_stored [OF False, of e cs] e by (auto simp: code_segment_def Let_def)
  have "d\<lparr>d_in := ?bs @ rest\<rparr> = d\<lparr>d_curr := 0, d_in := stored cs @ [0, 0, 0, 0] @ rest\<rparr>" using e(3) by simp
  then have "read_segment P fuel (d\<lparr>d_in := ?bs @ rest\<rparr>) = Inr (cs, d\<lparr>d_curr := 0, d_in := rest\<rparr>)"
    using read_stored [OF False assms(3,4,5), of d] by simp
  then show ?thesis using out False stored_bytes_ok [OF assms(3)]
    by (intro exI [of _ ?bs]) (auto simp: between_def)
qed

lemma segments_roundtrip:
  assumes "between P e d" "wf_predictor P" "\<forall>cs \<in> set css. bytes_ok cs \<and> length cs < fuel" "bytes_ok rest"
  shows "\<exists>bs. e_out (fold (code_segment P) css e) = e_out e @ bs \<and> bytes_ok bs \<and>
    (\<exists>d'. read_segments P fuel (length css) (d\<lparr>d_in := bs @ rest\<rparr>) = Inr (css, d') \<and> d_in d' = rest)"
  using assms(1,3)
proof (induction css arbitrary: e d)
  case Nil
  then show ?case by (intro exI [of _ "[]"]) simp
next
  case (Cons cs css)
  have cs: "bytes_ok cs" "length cs < fuel" using Cons.prems(2) by auto
  obtain bs0 d0 where first: "e_out (code_segment P cs e) = e_out e @ bs0" "between P (code_segment P cs e) d0"
    using segment_roundtrip [OF Cons.prems(1) assms(2) cs(1) assms(4) cs(2)] by blast
  obtain bs2 where bs2: "e_out (fold (code_segment P) css (code_segment P cs e)) = e_out (code_segment P cs e) @ bs2" "bytes_ok bs2"
    using Cons.IH [OF first(2)] Cons.prems(2) by auto
  obtain bs1 d1 where bs1: "e_out (code_segment P cs e) = e_out e @ bs1" "bytes_ok bs1"
      "read_segment P fuel (d\<lparr>d_in := bs1 @ bs2 @ rest\<rparr>) = Inr (cs, d1)" "d_in d1 = bs2 @ rest"
      "between P (code_segment P cs e) d1"
    using segment_roundtrip [OF Cons.prems(1) assms(2) cs(1) _ cs(2), of "bs2 @ rest"] bs2(2) assms(4) by auto
  have "d1\<lparr>d_in := bs2 @ rest\<rparr> = d1" using bs1(4) by simp
  then obtain d2 where "read_segments P fuel (length css) d1 = Inr (css, d2)" "d_in d2 = rest"
    using Cons.IH [OF bs1(5)] Cons.prems(2) bs2(1) by auto
  then show ?case using bs1 bs2 by (intro exI [of _ "bs1 @ bs2"]) auto
qed

definition new_Encoder :: "'s predictor \<Rightarrow> 's Encoder" where
  "new_Encoder P = \<lparr>e_low = 1, e_high = 0xFFFFFFFF, e_pr = pr_init P, e_buf = [], e_out = []\<rparr>"

definition new_Decoder :: "'s predictor \<Rightarrow> nat list \<Rightarrow> 's Decoder" where
  "new_Decoder P bs = \<lparr>d_low = 1, d_high = 0xFFFFFFFF, d_curr = 0, d_pr = pr_init P, d_in = bs\<rparr>"

definition demo_predictor :: "nat predictor" where
  "demo_predictor = \<lparr>isModeled = True, pr_init = 16384, predict = (\<lambda>s. s mod 32768), update = (\<lambda>y s. if y = 1 then (s + 32767) div 2 else s div 2)\<rparr>"

lemma wf_demo: "wf_predictor demo_predictor"
  by (simp add: wf_predictor_def demo_predictor_def)

text \<open>C10. What \<open>Encoder\<close> writes for the segments of a block, with a model or without, each
  ended by its end mark and four zero bytes, \<open>Decoder\<close> reads back: initialised with the same
  predictor it returns the bytes of every segment, in order, and leaves exactly the input after the
  block.  The hypotheses are that the predictor returns 15 bits and that the reading loop may take more
  turns than a segment has bytes.\<close>

theorem block_roundtrip:
  assumes "wf_predictor P" "\<forall>cs \<in> set css. bytes_ok cs \<and> length cs < fuel" "bytes_ok rest"
  shows "\<exists>d'. read_segments P fuel (length css)
      (Decoder_init P (new_Decoder P (e_out (fold (code_segment P) css (Encoder_init P (new_Encoder P))) @ rest)))
    = Inr (css, d') \<and> d_in d' = rest"
proof -
  let ?e = "Encoder_init P (new_Encoder P)" and ?d = "Decoder_init P (new_Decoder P [])"
  have "between P ?e ?d"
    by (auto simp: between_def Encoder_init_def Decoder_init_def new_Encoder_def new_Decoder_def in_range_def)
  from segments_roundtrip [OF this assms] obtain bs d' where
    "e_out (fold (code_segment P) css ?e) = bs"
    "read_segments P fuel (length css) (?d\<lparr>d_in := bs @ rest\<rparr>) = Inr (css, d')" "d_in d' = rest"
    by (auto simp: Encoder_init_def new_Encoder_def)
  moreover have "?d\<lparr>d_in := s\<rparr> = Decoder_init P (new_Decoder P s)" for s
    by (simp add: Decoder_init_def new_Decoder_def)
  ultimately show ?thesis by simp
qed

theorem block_roundtrip_witness:
  "\<exists>d'. read_segments demo_predictor 4 (length [[7, 0, 255], [0::nat]])
      (Decoder_init demo_predictor (new_Decoder demo_predictor
        (e_out (fold (code_segment demo_predictor) [[7, 0, 255], [0]] (Encoder_init demo_predictor (new_Encoder demo_predictor))) @ [254])))
    = Inr ([[7, 0, 255], [0]], d') \<and> d_in d' = [254]"
  by (rule block_roundtrip) (simp_all add: wf_demo)

section \<open>Skipping a segment\<close>

lemma skip_zeros_all: "\<forall>z \<in> set zs. z = 0 \<Longrightarrow> m \<noteq> 0 \<Longrightarrow> skip_zeros (zs @ m # rest) = (int m, rest)"
  by (induction zs) auto

lemma find_zeros_marked:
  assumes "length w = 4" "bytes_ok (w @ bs)" "marked (w @ bs)" "\<exists>b \<in> set w. b \<noteq> 0" "w @ bs = xs @ [0, 0, 0, 0]"
  shows "\<exists>zs. find_zeros (window w) (bs @ m # rest) = (0, zs @ m # rest) \<and> (\<forall>z \<in> set zs. z = 0)"
  using assms
proof (induction bs arbitrary: w xs)
  case Nil
  then have "length xs = 0" using arg_cong [OF Nil(5), of length] by simp
  then show ?case using Nil by auto
next
  case (Cons c bs)
  obtain b1 b2 b3 b4 where w: "w = [b1, b2, b3, b4]"
    using Cons.prems(1) by (auto simp: length_Suc_conv numeral_eq_Suc)
  let ?w = "[b2, b3, b4, c]"
  have pos: "window w \<noteq> 0" using window_nonzero [of w] Cons.prems(1,4) by simp
  have "shl8 (window (b1 # ?w)) + ?w ! 3 = window ?w" by (rule window_Cons(2)) (use Cons.prems(2) w in auto)
  then have step: "find_zeros (window w) ((c # bs) @ m # rest) = find_zeros (window ?w) (bs @ m # rest)"
    using pos by (simp add: w window_def)
  have m: "marked (?w @ bs)" "bytes_ok (?w @ bs)" using Cons.prems(2,3) by (auto simp: w marked_Cons)
  obtain xs' where xs: "?w @ bs = xs' @ [0, 0, 0, 0]"
    using Cons.prems(4,5) by (cases xs) (auto simp: w)
  show ?case
  proof (cases "\<exists>b \<in> set ?w. b \<noteq> 0")
    case True
    show ?thesis unfolding step by (rule Cons.IH [OF _ m(2,1) True xs]) simp
  next
    case False
    then have "window ?w = 0" using window_nonzero [of ?w] by simp
    moreover have "find_zeros 0 (bs @ m # rest) = (0, bs @ m # rest)" by (cases bs) simp_all
    moreover have "\<forall>z \<in> set bs. z = 0" using m(1) False by (auto simp: marked_Cons)
    ultimately show ?thesis unfolding step by auto
  qed
qed

lemma skip_start_zeros: "\<forall>z \<in> set zs. z = 0 \<Longrightarrow> b \<noteq> 0 \<Longrightarrow> skip_start 0 (zs @ b # bs) = (b, bs)"
proof (induction zs)
  case Nil
  then show ?case by (cases bs) auto
qed simp

lemma zeros_after:
  assumes "zs @ b # ys = xs @ [0, 0, 0, 0]" "b \<noteq> (0::nat)"
  shows "\<exists>us. ys = us @ [0, 0, 0, 0]"
  using assms(1)
proof (induction zs arbitrary: xs)
  case Nil
  then show ?case using assms(2) by (cases xs) auto
next
  case (Cons z zs)
  show ?case
  proof (cases xs)
    case Nil
    then have "b \<in> set [0, 0, 0, 0 :: nat]" using arg_cong [OF Cons.prems, of set] by auto
    then show ?thesis using assms(2) by simp
  next
    case (Cons x xs')
    then show ?thesis using Cons.IH [of xs'] Cons.prems by simp
  qed
qed

lemma skip_modelled:
  assumes "isModeled P" "d_curr d = 0" "d_in d = bs @ m # rest" "m \<noteq> 0" "bytes_ok bs" "marked bs"
    "bs = xs @ [0, 0, 0, 0]" "\<exists>b \<in> set bs. b \<noteq> 0"
  shows "Decoder_skip P d = Inr (int m, d\<lparr>d_curr := 0, d_in := rest\<rparr>)"
proof -
  obtain zs b ys where bs: "bs = zs @ b # ys" "b \<noteq> 0" "\<forall>z \<in> set zs. z = 0"
    using assms(8) split_list_first_prop [of bs "\<lambda>b. b \<noteq> 0"] by blast
  have "marked (b # ys)" using assms(6) unfolding bs(1) by (induction zs) (auto simp: marked_Cons)
  then have mk: "marked ([0, 0, 0, b] @ ys)" using bs(2) by (simp add: marked_Cons)
  obtain us where "ys = us @ [0, 0, 0, 0]" using zeros_after [of zs b ys xs] assms(7) bs by auto
  then have sfx: "[0, 0, 0, b] @ ys = ([0, 0, 0, b] @ us) @ [0, 0, 0, 0]" by simp
  have w: "window [0, 0, 0, b] = b" by (simp add: window_def)
  obtain vs where "find_zeros b (ys @ m # rest) = (0, vs @ m # rest)" "\<forall>z \<in> set vs. z = 0"
    using sfx find_zeros_marked [OF _ _ mk, of _ m rest] assms(5) bs w by auto
  moreover have "skip_start (d_curr d) (d_in d) = (b, ys @ m # rest)"
    unfolding assms(2,3) bs(1) append_assoc append_Cons by (rule skip_start_zeros [OF bs(3,2)])
  ultimately show ?thesis using assms(1,4) by (simp add: Decoder_skip_def skip_zeros_all)
qed

lemma skip_load_block:
  assumes "n < 2 ^ 32" "bytes_ok bs"
  shows "skip_load 4 c 0 (big_endian n @ bs) = (int (n mod 256), n, bs)"
proof -
  obtain b1 b2 b3 b4 where be: "big_endian n = [b1, b2, b3, b4]" by (simp add: big_endian_def)
  then have lt: "b1 < 256" "b2 < 256" "b3 < 256" "b4 < 256" "b4 = n mod 256" by (auto simp: big_endian_def)
  have w: "shl8 (shl8 (shl8 (shl8 0 + b1) + b2) + b3) + b4 = window (big_endian n @ bs)"
    using lt by (simp add: be window_Cons4 shl8_def)
  have 4: "(4::nat) = Suc (Suc (Suc (Suc 0)))" by simp
  show ?thesis using w lt(5) big_endian_props(3) [OF assms(1)] unfolding 4 by (simp add: be)
qed

lemma skip_stored_blocks:
  assumes "bytes_ok xs" "bytes_ok rest"
  shows "(case skip_load 4 c 0 (stored xs @ [0, 0, 0, 0] @ rest) of (c, cur, inp) \<Rightarrow> skip_blocks c cur inp) = Inr (0, 0, rest)"
  using assms(1)
proof (induction xs arbitrary: c rule: stored.induct)
  case (1 xs)
  show ?case
  proof (cases "xs = []")
    case True
    then show ?thesis using skip_load_block [of 0 rest c] assms(2)
      by (simp add: big_endian_def skip_blocks.simps)
  next
    case False
    define b where "b = take 65536 xs"
    define r where "r = stored (drop 65536 xs) @ [0, 0, 0, 0] @ rest"
    have b: "length b = min 65536 (length xs)" "bytes_ok b" "bytes_ok (drop 65536 xs)" "0 < length b" "length b < 2 ^ 32"
      using False 1(2) by (auto simp: b_def bytes_ok_def dest: in_set_takeD in_set_dropD)
    have st: "stored xs @ [0, 0, 0, 0] @ rest = big_endian (length b) @ b @ r"
      using False b(1) by (subst stored.simps) (simp add: b_def r_def)
    have "bytes_ok (b @ r)" using b assms(2) by (simp add: r_def stored_bytes_ok)
    note load = skip_load_block [OF b(5) this, of c]
    have "skip_blocks (int (length b mod 256)) (length b) (b @ r)
        = (case skip_load 4 (int (length b mod 256)) 0 r of (c, cur, inp) \<Rightarrow> skip_blocks c cur inp)"
      using b(4) by (subst skip_blocks.simps) simp
    then show ?thesis unfolding st load using 1(1) [OF False b(3)] by (simp add: r_def)
  qed
qed

text \<open>C30. A segment can be skipped without decoding it: from the start of what \<open>Encoder\<close>
  wrote for it, \<open>Decoder::skip\<close> stops behind the four zeros, returns the byte after them, which is the
  segment trailer and never zero, and leaves the input behind that byte.  With a model this holds
  because \<open>low+=(low==0)\<close> keeps every four bytes of the code from being zero.\<close>

theorem skip_finds_end:
  assumes "between P e d" "wf_predictor P" "bytes_ok cs" "0 < m" "m < 256" "bytes_ok rest"
  shows "\<exists>bs. e_out (code_segment P cs e) = e_out e @ bs \<and>
    Decoder_skip P (d\<lparr>d_in := bs @ m # rest\<rparr>) = Inr (int m, d\<lparr>d_curr := 0, d_in := rest\<rparr>)"
proof (cases "isModeled P")
  case True
  then have r: "in_range e" "d_curr d = 0" using assms(1) by (simp_all add: between_def)
  have ok: "bytes_ok (m # rest)" using assms by simp
  obtain bs xs where bs: "e_out (code_segment P cs e) = e_out e @ bs" "fits (e_low e) (e_high e) (bs @ m # rest)"
      "marked bs" "bs = xs @ [0, 0, 0, 0]"
    using modelled_segment [OF r(1) assms(2) True assms(3) ok] by blast
  have "0 < window (bs @ m # rest)" using bs(2) r(1) by (simp add: fits_def in_range_def)
  moreover have "4 \<le> length bs" using bs(4) by simp
  ultimately have "\<exists>b \<in> set (take 4 bs). b \<noteq> 0" using window_nonzero [of "bs @ m # rest"] by simp
  then have "\<exists>b \<in> set bs. b \<noteq> 0" by (meson in_set_takeD)
  from skip_modelled [OF True _ _ _ _ bs(3,4) this, of "d\<lparr>d_in := bs @ m # rest\<rparr>" m rest]
  have "Decoder_skip P (d\<lparr>d_in := bs @ m # rest\<rparr>) = Inr (int m, d\<lparr>d_curr := 0, d_in := rest\<rparr>)"
    using r(2) bs(2) assms(4) by (simp add: fits_def)
  then show ?thesis using bs(1) by blast
next
  case False
  then have e: "e_low e = 0" "e_buf e = []" "d_curr d = 0" using assms(1) by (auto simp: between_def)
  let ?bs = "stored cs @ [0, 0, 0, 0]"
  have "e_out (code_segment P cs e) = e_out e @ ?bs"
    using compress_stored [OF False, of e cs] e by (auto simp: code_segment_def Let_def)
  moreover have "Decoder_skip P (d\<lparr>d_in := ?bs @ m # rest\<rparr>) = Inr (int m, d\<lparr>d_curr := 0, d_in := rest\<rparr>)"
  proof -
    have "bytes_ok (m # rest)" using assms by simp
    from skip_stored_blocks [OF assms(3) this, of "-1"] show ?thesis
      using False e(3) by (auto simp: Decoder_skip_def d_get_def split: prod.splits)
  qed
  ultimately show ?thesis by blast
qed

theorem skip_finds_end_witness:
  "\<exists>bs. e_out (code_segment demo_predictor [1, 2, 0, 0, 0, 0, 0, 0] (Encoder_init demo_predictor (new_Encoder demo_predictor)))
      = e_out (Encoder_init demo_predictor (new_Encoder demo_predictor)) @ bs \<and>
    Decoder_skip demo_predictor ((new_Decoder demo_predictor [])\<lparr>d_in := bs @ 254 # [255]\<rparr>)
      = Inr (int 254, (new_Decoder demo_predictor [])\<lparr>d_curr := 0, d_in := [255]\<rparr>)"
  by (rule skip_finds_end)
    (simp_all add: wf_demo between_def Encoder_init_def new_Encoder_def new_Decoder_def in_range_def)

end
