(* ===== verification/Zpaq_VM.thy ===== *)
theory Zpaq_VM
  imports Backup_Prelude
begin

text \<open>
  The ZPAQL virtual machine of the archiver (\<open>zpaq715/libzpaq.cpp\<close>, class \<open>ZPAQL\<close>):
  reading and writing a program header, the memory of the machine, the interpreter
  \<open>execute\<close> and the loop \<open>run0\<close> (the translation to machine code is not modelled).

  The machine is the record \<open>ZPAQL\<close>.  Every access to the array \<open>header\<close> is checked: outside
  the array it is \<open>Undefined\<close>.  The arrays \<open>m\<close> and \<open>h\<close> are accessed modulo their size, a power of
  two.  The fuel of \<open>run0\<close> bounds the number of instructions; a run that needs more is
  \<open>Diverges\<close>.  Running out of memory is not modelled.
\<close>

unbundle bit_operations_syntax

section \<open>Definitions\<close>

definition compsize :: "nat \<Rightarrow> nat" where
  "compsize t = (let table = [0, 2, 3, 2, 3, 4, 6, 6, 3, 5] in if t < length table then table ! t else 0)"

record ZPAQL =
  header :: "u8 list"
  cend :: nat
  hbegin :: nat
  hend :: nat
  zm :: "u8 list"
  zh :: "u32 list"
  zr :: "u32 list"
  outbuf :: "u8 list"
  za :: u32
  zb :: u32
  zc :: u32
  zd :: u32
  zf :: bool
  pc :: int
  written :: "u8 list" \<comment> \<open>what \<open>output\<close> and \<open>sha1\<close> have been given\<close>

definition zclear :: "ZPAQL \<Rightarrow> ZPAQL" where
  "zclear z = z\<lparr>header := [], cend := 0, hbegin := 0, hend := 0, zm := [], zh := [], zr := [],
     za := 0, zb := 0, zc := 0, zd := 0, zf := False, pc := 0\<rparr>"

definition new_ZPAQL :: ZPAQL where
  "new_ZPAQL = \<lparr>header = [], cend = 0, hbegin = 0, hend = 0, zm = [], zh = [], zr = [], outbuf = [],
     za = 0, zb = 0, zc = 0, zd = 0, zf = False, pc = 0, written = []\<rparr>"

text \<open>\<open>get()\<close> of a reader: -1 at the end of the input.\<close>

fun get :: "nat list \<Rightarrow> int \<times> nat list" where
  "get [] = (-1, [])"
| "get (c # inp) = (int c, inp)"

text \<open>\<open>header[cend++]=c\<close> and \<open>header[hend++]=c\<close>\<close>

definition put_comp :: "int \<Rightarrow> ZPAQL \<Rightarrow> ZPAQL result" where
  "put_comp c z =
     (if cend z < length (header z)
      then Inr (z\<lparr>header := (header z)[cend z := of_int c], cend := cend z + 1\<rparr>)
      else Inl Undefined)"

definition put_hcomp :: "int \<Rightarrow> ZPAQL \<Rightarrow> ZPAQL result" where
  "put_hcomp c z =
     (if hend z < length (header z)
      then Inr (z\<lparr>header := (header z)[hend z := of_int c], hend := hend z + 1\<rparr>)
      else Inl Undefined)"

primrec copy_comp :: "nat \<Rightarrow> ZPAQL \<Rightarrow> nat list \<Rightarrow> (ZPAQL \<times> nat list) result" where
  "copy_comp 0 z inp = Inr (z, inp)"
| "copy_comp (Suc n) z inp =
     (case get inp of (c, inp) \<Rightarrow> ebind (put_comp c z) (\<lambda>z. copy_comp n z inp))"

primrec read_comps :: "nat \<Rightarrow> int \<Rightarrow> ZPAQL \<Rightarrow> nat list \<Rightarrow> (ZPAQL \<times> nat list) result" where
  "read_comps 0 hsize z inp = Inr (z, inp)"
| "read_comps (Suc n) hsize z inp =
     (case get inp of (type, inp) \<Rightarrow>
        if type < 0 \<or> 255 < type then Inl (Thrown ''unexpected end of file'')
        else ebind (put_comp type z) (\<lambda>z.
          let sz = compsize (nat type)
          in if sz < 1 then Inl (Thrown ''Invalid component type'')
             else if hsize < int (cend z) + int sz then Inl (Thrown ''COMP overflows header'')
             else ebind (copy_comp (sz - 1) z inp) (\<lambda>(z, inp). read_comps n hsize z inp)))"

primrec read_hcomp :: "nat \<Rightarrow> ZPAQL \<Rightarrow> nat list \<Rightarrow> (ZPAQL \<times> nat list) result" where
  "read_hcomp 0 z inp = Inr (z, inp)"
| "read_hcomp (Suc n) z inp =
     (case get inp of (opc, inp) \<Rightarrow>
        if opc = -1 then Inl (Thrown ''unexpected end of file'')
        else ebind (put_hcomp opc z) (\<lambda>z. read_hcomp n z inp))"

text \<open>\<open>read\<close> in three parts: the size and the five bytes \<open>hh hm ph pm n\<close>, the components, the code.\<close>

definition read_start :: "ZPAQL \<Rightarrow> nat list \<Rightarrow> ((int \<times> ZPAQL) \<times> nat list) result" where
  "read_start z inp =
     (let (c0, inp) = get inp; (c1, inp) = get inp;
          hsize = c0 + c1 * 256;
          z = z\<lparr>header := replicate (nat (hsize + 300)) 0, cend := 0, hbegin := 0, hend := 0\<rparr>
      in ebind (put_comp hsize z) (\<lambda>z.
         ebind (put_comp (hsize div 256) z) (\<lambda>z.
         ebind (copy_comp 5 z inp) (\<lambda>(z, inp). Inr ((hsize, z), inp)))))"

definition read_code :: "int \<Rightarrow> ZPAQL \<Rightarrow> nat list \<Rightarrow> ((nat \<times> ZPAQL) \<times> nat list) result" where
  "read_code hsize z inp =
     (case get inp of (c, inp) \<Rightarrow>
      ebind (put_comp c z) (\<lambda>z.
        if (of_int c :: u8) \<noteq> 0 then Inl (Thrown ''missing COMP END'')
        else let z = z\<lparr>hbegin := cend z + 128, hend := cend z + 128\<rparr>
             in if hsize + 129 < int (hend z) then Inl (Thrown ''missing HCOMP'')
                else ebind (read_hcomp (nat (hsize + 129 - int (hend z))) z inp) (\<lambda>(z, inp).
                     case get inp of (c, inp) \<Rightarrow>
                     ebind (put_hcomp c z) (\<lambda>z.
                       if (of_int c :: u8) \<noteq> 0 then Inl (Thrown ''missing HCOMP END'')
                       else Inr ((cend z + hend z - hbegin z, z), inp)))))"

definition zread :: "ZPAQL \<Rightarrow> nat list \<Rightarrow> ((nat \<times> ZPAQL) \<times> nat list) result" where
  "zread z inp =
     ebind (read_start z inp) (\<lambda>((hsize, z), inp).
     ebind (read_comps (unat (header z ! (cend z - 1))) hsize z inp) (\<lambda>(z, inp).
     read_code hsize z inp))"

text \<open>\<open>write\<close>: \<open>None\<close> when there is no program.\<close>

definition zwrite :: "bool \<Rightarrow> ZPAQL \<Rightarrow> nat list option" where
  "zwrite pp z =
     (if length (header z) \<le> 6 then None
      else Some ((if \<not> pp then map unat (take (cend z) (header z))
                  else [(hend z - hbegin z) mod 256, ((hend z - hbegin z) div 256) mod 256])
                 @ map unat (take (hend z - hbegin z) (drop (hbegin z) (header z)))))"

definition zinit :: "nat \<Rightarrow> nat \<Rightarrow> ZPAQL \<Rightarrow> ZPAQL result" where
  "zinit hbits mbits z =
     (if 32 < hbits then Inl (Thrown ''H too big'')
      else if 32 < mbits then Inl (Thrown ''M too big'')
      else Inr (z\<lparr>zh := replicate (2 ^ hbits) 0, zm := replicate (2 ^ mbits) 0, zr := replicate 256 0,
                 za := 0, zb := 0, zc := 0, zd := 0, pc := 0, zf := False\<rparr>))"

definition inith :: "ZPAQL \<Rightarrow> ZPAQL result" where
  "inith z = zinit (unat (header z ! 2)) (unat (header z ! 3)) z"

definition initp :: "ZPAQL \<Rightarrow> ZPAQL result" where
  "initp z = zinit (unat (header z ! 4)) (unat (header z ! 5)) z"

definition flush :: "ZPAQL \<Rightarrow> ZPAQL" where
  "flush z = z\<lparr>written := written z @ outbuf z, outbuf := []\<rparr>"

definition outc :: "int \<Rightarrow> ZPAQL \<Rightarrow> ZPAQL" where
  "outc ch z =
     (if ch < 0 then flush z
      else let z = z\<lparr>outbuf := outbuf z @ [of_int ch]\<rparr>
           in if length (outbuf z) = 16384 then flush z else z)"

text \<open>The arrays with \<open>operator()\<close>, and the operands by their number in the opcode:
  \<open>A B C D *B *C *D\<close>.\<close>

definition slot :: "'a list \<Rightarrow> u32 \<Rightarrow> nat" where
  "slot xs i = unat i AND (length xs - 1)"

definition operand :: "nat \<Rightarrow> ZPAQL \<Rightarrow> u32" where
  "operand t z =
     (if t = 0 then za z else if t = 1 then zb z else if t = 2 then zc z else if t = 3 then zd z
      else if t = 4 then ucast (zm z ! slot (zm z) (zb z))
      else if t = 5 then ucast (zm z ! slot (zm z) (zc z))
      else zh z ! slot (zh z) (zd z))"

definition assign :: "nat \<Rightarrow> u32 \<Rightarrow> ZPAQL \<Rightarrow> ZPAQL" where
  "assign t v z =
     (if t = 0 then z\<lparr>za := v\<rparr> else if t = 1 then z\<lparr>zb := v\<rparr> else if t = 2 then z\<lparr>zc := v\<rparr>
      else if t = 3 then z\<lparr>zd := v\<rparr>
      else if t = 4 then z\<lparr>zm := (zm z)[slot (zm z) (zb z) := ucast v]\<rparr>
      else if t = 5 then z\<lparr>zm := (zm z)[slot (zm z) (zc z) := ucast v]\<rparr>
      else z\<lparr>zh := (zh z)[slot (zh z) (zd z) := v]\<rparr>)"

definition header_at :: "int \<Rightarrow> ZPAQL \<Rightarrow> u8 result" where
  "header_at i z = (if 0 \<le> i \<and> i < int (length (header z)) then Inr (header z ! nat i) else Inl Undefined)"

text \<open>\<open>header[pc++]\<close>\<close>

definition fetch :: "ZPAQL \<Rightarrow> (u8 \<times> ZPAQL) result" where
  "fetch z = ebind (header_at (pc z) z) (\<lambda>x. Inr (x, z\<lparr>pc := pc z + 1\<rparr>))"

definition source :: "nat \<Rightarrow> ZPAQL \<Rightarrow> (u32 \<times> ZPAQL) result" where
  "source s z = (if s = 7 then ebind (fetch z) (\<lambda>(x, z). Inr (ucast x, z)) else Inr (operand s z, z))"

text \<open>\<open>a^=x; x^=a; a^=x\<close>, where \<open>x\<close> may be a byte\<close>

definition zswap :: "nat \<Rightarrow> ZPAQL \<Rightarrow> ZPAQL" where
  "zswap t z =
     (let z = z\<lparr>za := za z XOR operand t z\<rparr>;
          z = assign t (operand t z XOR za z) z
      in z\<lparr>za := za z XOR operand t z\<rparr>)"

text \<open>\<open>pc+=((header[pc]+128)&255)-127\<close>\<close>

definition jump :: "ZPAQL \<Rightarrow> ZPAQL result" where
  "jump z = ebind (header_at (pc z) z) (\<lambda>x. Inr (z\<lparr>pc := pc z + int ((unat x + 128) mod 256) - 127\<rparr>))"

definition zerr :: "'a result" where
  "zerr = Inl (Thrown ''ZPAQL execution error'')"

text \<open>The opcodes below 64, by the operand (\<open>op div 8\<close>) and the operation (\<open>op mod 8\<close>); the result says
  whether the program goes on.\<close>

definition exec_unary :: "nat \<Rightarrow> ZPAQL \<Rightarrow> (bool \<times> ZPAQL) result" where
  "exec_unary opc z =
     (let t = opc div 8; k = opc mod 8
      in if t < 7 then
           if k = 0 then (if t = 0 then zerr else Inr (True, zswap t z))
           else if k = 1 then Inr (True, assign t (operand t z + 1) z)
           else if k = 2 then Inr (True, assign t (operand t z - 1) z)
           else if k = 3 then Inr (True, assign t (NOT (operand t z)) z)
           else if k = 4 then Inr (True, assign t 0 z)
           else if k = 7 then
             (if t < 4 then ebind (fetch z) (\<lambda>(x, z). Inr (True, assign t (zr z ! unat x) z))
              else if t = 4 then (if zf z then ebind (jump z) (\<lambda>z. Inr (True, z)) else Inr (True, z\<lparr>pc := pc z + 1\<rparr>))
              else if t = 5 then (if \<not> zf z then ebind (jump z) (\<lambda>z. Inr (True, z)) else Inr (True, z\<lparr>pc := pc z + 1\<rparr>))
              else ebind (fetch z) (\<lambda>(x, z). Inr (True, z\<lparr>zr := (zr z)[unat x := za z]\<rparr>)))
           else zerr
         else if opc = 56 then Inr (False, z)
         else if opc = 57 then Inr (True, outc (uint (za z AND 255)) z)
         else if opc = 59 then Inr (True, z\<lparr>za := (za z + operand 4 z + 512) * 773\<rparr>)
         else if opc = 60 then Inr (True, assign 6 ((operand 6 z + za z + 512) * 773) z)
         else if opc = 63 then ebind (jump z) (\<lambda>z. Inr (True, z))
         else zerr)"

text \<open>The operations \<open>+= -= *= /= %= &= &~ |= ^= <<= >>=\<close> on \<open>A\<close>, from opcode 128.\<close>

definition arith :: "nat \<Rightarrow> u32 \<Rightarrow> u32 \<Rightarrow> u32" where
  "arith k a x =
     (if k = 0 then a + x else if k = 1 then a - x else if k = 2 then a * x
      else if k = 3 then (if x \<noteq> 0 then a div x else 0)
      else if k = 4 then (if x \<noteq> 0 then a mod x else 0)
      else if k = 5 then a AND x else if k = 6 then a AND NOT x else if k = 7 then a OR x
      else if k = 8 then a XOR x
      else if k = 9 then push_bit (unat (x AND 31)) a
      else drop_bit (unat (x AND 31)) a)"

definition compare :: "nat \<Rightarrow> u32 \<Rightarrow> u32 \<Rightarrow> bool" where
  "compare k a x = (if k = 0 then a = x else if k = 1 then a < x else x < a)"

text \<open>\<open>LJ\<close>: \<open>if((pc=hbegin+header[pc]+256*header[pc+1])>=hend)err()\<close>\<close>

definition long_jump :: "ZPAQL \<Rightarrow> ZPAQL result" where
  "long_jump z =
     ebind (header_at (pc z) z) (\<lambda>lo. ebind (header_at (pc z + 1) z) (\<lambda>hi.
       let z = z\<lparr>pc := int (hbegin z) + uint lo + 256 * uint hi\<rparr>
       in if int (hend z) \<le> pc z then zerr else Inr z))"

definition exec_op :: "nat \<Rightarrow> ZPAQL \<Rightarrow> (bool \<times> ZPAQL) result" where
  "exec_op opc z =
     (if opc < 64 then exec_unary opc z
      else if opc < 120 then
        ebind (source (opc mod 8) z) (\<lambda>(x, z). Inr (True, assign ((opc - 64) div 8) x z))
      else if opc < 128 then zerr
      else if opc < 216 then
        ebind (source (opc mod 8) z) (\<lambda>(x, z). Inr (True, z\<lparr>za := arith ((opc - 128) div 8) (za z) x\<rparr>))
      else if opc < 240 then
        ebind (source (opc mod 8) z) (\<lambda>(x, z). Inr (True, z\<lparr>zf := compare ((opc - 216) div 8) (za z) x\<rparr>))
      else if opc = 255 then ebind (long_jump z) (\<lambda>z. Inr (True, z))
      else zerr)"

definition execute :: "ZPAQL \<Rightarrow> (bool \<times> ZPAQL) result" where
  "execute z = ebind (fetch z) (\<lambda>(opc, z). exec_op (unat opc) z)"

primrec exec_loop :: "nat \<Rightarrow> ZPAQL \<Rightarrow> ZPAQL result" where
  "exec_loop 0 z = Inl Diverges"
| "exec_loop (Suc n) z = ebind (execute z) (\<lambda>(go, z). if go then exec_loop n z else Inr z)"

definition run0 :: "nat \<Rightarrow> u32 \<Rightarrow> ZPAQL \<Rightarrow> ZPAQL result" where
  "run0 fuel input z = exec_loop fuel (z\<lparr>pc := int (hbegin z), za := input\<rparr>)"

text \<open>Running the program on a list of inputs, one after the other.\<close>

primrec run_all :: "nat \<Rightarrow> u32 list \<Rightarrow> ZPAQL \<Rightarrow> ZPAQL result" where
  "run_all fuel [] z = Inr z"
| "run_all fuel (i # is) z = ebind (run0 fuel i z) (run_all fuel is)"

section \<open>The program counter stays in the header\<close>

text \<open>A program as \<open>read\<close> leaves it: 128 zeros in front of the code and at least 130 behind,
  so that a jump out of the code lands on the opcode \<open>ERROR\<close>.\<close>

definition wf_program :: "ZPAQL \<Rightarrow> bool" where
  "wf_program z \<longleftrightarrow> 128 \<le> hbegin z \<and> hbegin z \<le> hend z \<and> hend z + 130 < length (header z) \<and>
     (\<forall>i. hbegin z \<le> i + 128 \<and> i < hbegin z \<longrightarrow> header z ! i = 0) \<and>
     (\<forall>i. hend z \<le> i \<and> i < length (header z) \<longrightarrow> header z ! i = 0)"

definition wf_arrays :: "ZPAQL \<Rightarrow> bool" where
  "wf_arrays z \<longleftrightarrow> zm z \<noteq> [] \<and> zh z \<noteq> [] \<and> length (zr z) = 256"

definition same_program :: "ZPAQL \<Rightarrow> ZPAQL \<Rightarrow> bool" where
  "same_program z z' \<longleftrightarrow> header z' = header z \<and> hbegin z' = hbegin z \<and> hend z' = hend z \<and> cend z' = cend z"

definition pc_between :: "int \<Rightarrow> int \<Rightarrow> ZPAQL \<Rightarrow> bool" where
  "pc_between lo hi z \<longleftrightarrow> int (hbegin z) - lo \<le> pc z \<and> pc z \<le> int (hend z) + hi"

text \<open>The outcome of an instruction: an error that is not a bad access, or a good state of the
  same program.\<close>

definition good :: "ZPAQL \<Rightarrow> (bool \<times> ZPAQL) result \<Rightarrow> bool" where
  "good z r \<longleftrightarrow> (case r of Inl e \<Rightarrow> e \<noteq> Undefined
     | Inr (go, z') \<Rightarrow> same_program z z' \<and> wf_arrays z' \<and> pc_between 126 128 z')"

lemma slot_bound: "xs \<noteq> [] \<Longrightarrow> slot xs i < length xs"
proof -
  assume "xs \<noteq> []"
  have "int (unat i AND (length xs - 1)) \<le> int (length xs - 1)" unfolding of_nat_and_eq by (rule AND_upper2) simp
  then show ?thesis using \<open>xs \<noteq> []\<close> by (cases xs) (auto simp: slot_def)
qed

lemma same_program_refl [simp]: "same_program z z"
  by (simp add: same_program_def)

lemma same_program_trans: "same_program x y \<Longrightarrow> same_program y z \<Longrightarrow> same_program x z"
  by (simp add: same_program_def)

lemma assign_props [simp]:
  "header (assign t v z) = header z" "hbegin (assign t v z) = hbegin z" "hend (assign t v z) = hend z"
  "cend (assign t v z) = cend z" "pc (assign t v z) = pc z" "wf_arrays (assign t v z) = wf_arrays z"
  by (auto simp: assign_def wf_arrays_def)

lemma outc_props [simp]:
  "header (outc c z) = header z" "hbegin (outc c z) = hbegin z" "hend (outc c z) = hend z"
  "cend (outc c z) = cend z" "pc (outc c z) = pc z" "wf_arrays (outc c z) = wf_arrays z"
  by (auto simp: outc_def flush_def wf_arrays_def Let_def)

lemma wf_arrays_updates [simp]:
  "wf_arrays (z\<lparr>za := v\<rparr>) = wf_arrays z" "wf_arrays (z\<lparr>pc := i\<rparr>) = wf_arrays z" "wf_arrays (z\<lparr>zf := b\<rparr>) = wf_arrays z"
  by (simp_all add: wf_arrays_def)

lemma zswap_props [simp]:
  "header (zswap t z) = header z" "hbegin (zswap t z) = hbegin z" "hend (zswap t z) = hend z"
  "cend (zswap t z) = cend z" "pc (zswap t z) = pc z" "wf_arrays (zswap t z) = wf_arrays z"
  by (simp_all add: zswap_def Let_def)

text \<open>A state that has fetched an opcode inside the code.\<close>

definition fetched :: "ZPAQL \<Rightarrow> ZPAQL \<Rightarrow> bool" where
  "fetched z0 z \<longleftrightarrow> wf_program z \<and> same_program z0 z \<and> wf_arrays z \<and> pc_between (-1) 0 z"

lemma good_same_pc:
  assumes "fetched z0 z" "same_program z z'" "wf_arrays z'" "pc z' = pc z \<or> pc z' = pc z + 1"
  shows "good z0 (Inr (go, z'))"
  using assms by (auto simp: good_def fetched_def same_program_def pc_between_def)

lemma header_at_ok: "0 \<le> i \<Longrightarrow> i < int (length (header z)) \<Longrightarrow> header_at i z = Inr (header z ! nat i)"
  by (simp add: header_at_def)

lemma fetched_at:
  assumes "fetched z0 z" "0 \<le> k" "k \<le> 1"
  shows "header_at (pc z + k) z = Inr (header z ! nat (pc z + k))"
  using assms by (intro header_at_ok) (auto simp: fetched_def wf_program_def pc_between_def)

lemma fetched_fetch: "fetched z0 z \<Longrightarrow> fetch z = Inr (header z ! nat (pc z), z\<lparr>pc := pc z + 1\<rparr>)"
  using fetched_at [of z0 z 0] by (simp add: fetch_def)

lemma good_jump:
  assumes "fetched z0 z"
  shows "good z0 (ebind (jump z) (\<lambda>z. Inr (True, z)))"
proof -
  define d where "d = int ((unat (header z ! nat (pc z)) + 128) mod 256) - 127"
  have "(unat (header z ! nat (pc z)) + 128) mod 256 < 256" by simp
  then have "-127 \<le> d" "d \<le> 128" unfolding d_def by linarith+
  moreover have "jump z = Inr (z\<lparr>pc := pc z + d\<rparr>)"
    using fetched_at [OF assms, of 0] by (simp add: jump_def d_def algebra_simps)
  ultimately show ?thesis using assms by (auto simp: good_def fetched_def same_program_def pc_between_def wf_arrays_def)
qed

lemma good_zerr [simp]: "good z0 zerr"
  by (simp add: good_def zerr_def)

lemma good_if: "good z0 r \<Longrightarrow> good z0 r' \<Longrightarrow> good z0 (if b then r else r')"
  by simp

lemma good_unary:
  assumes f: "fetched z0 z"
  shows "good z0 (exec_unary opc z)"
proof -
  have "wf_arrays z" using f by (simp add: fetched_def)
  then show ?thesis
    unfolding exec_unary_def Let_def fetched_fetch [OF f] ebind_simps prod.case
    by (intro good_if good_zerr good_jump [OF f] good_same_pc [OF f])
      (simp_all add: same_program_def, simp_all add: wf_arrays_def)
qed

lemma good_source:
  assumes f: "fetched z0 z"
    and g: "\<And>x z1. same_program z z1 \<Longrightarrow> wf_arrays z1 \<Longrightarrow> pc z1 = pc z \<or> pc z1 = pc z + 1 \<Longrightarrow>
      same_program z (g x z1) \<and> wf_arrays (g x z1) \<and> pc (g x z1) = pc z1"
  shows "good z0 (ebind (source s z) (\<lambda>(x, z). Inr (True, g x z)))"
proof -
  have w: "wf_arrays z" using f by (simp add: fetched_def)
  obtain x z1 where s: "source s z = Inr (x, z1)" "same_program z z1" "wf_arrays z1" "pc z1 = pc z \<or> pc z1 = pc z + 1"
    using w by (cases "s = 7") (auto simp: source_def fetched_fetch [OF f] same_program_def wf_arrays_def)
  then show ?thesis using g [OF s(2-4)] good_same_pc [OF f] by auto
qed

lemma long_jump_forward: "- 126 \<le> uint (a :: u8) + 256 * uint (b :: u8)"
  using uint_ge_0 [of a] uint_ge_0 [of b] by linarith

lemma good_long_jump:
  assumes f: "fetched z0 z"
  shows "good z0 (ebind (long_jump z) (\<lambda>z. Inr (True, z)))"
  using f fetched_at [OF f, of 0] fetched_at [OF f, of 1] long_jump_forward
  by (auto simp: long_jump_def Let_def good_def zerr_def fetched_def same_program_def pc_between_def)

lemma good_exec_op:
  assumes f: "fetched z0 z"
  shows "good z0 (exec_op opc z)"
  unfolding exec_op_def
  by (auto intro!: good_unary [OF f] good_long_jump [OF f] good_source [OF f])
    (auto simp: same_program_def wf_arrays_def)

lemma execute_good:
  assumes "wf_program z" "wf_arrays z" "pc_between 127 128 z"
  shows "good z (execute z)"
proof -
  let ?z = "z\<lparr>pc := pc z + 1\<rparr>" and ?op = "header z ! nat (pc z)"
  have f: "fetch z = Inr (?op, ?z)"
    using assms header_at_ok [of "pc z" z] by (auto simp: fetch_def wf_program_def pc_between_def)
  show ?thesis
  proof (cases "int (hbegin z) \<le> pc z \<and> pc z < int (hend z)")
    case True
    then have "fetched z ?z" using assms by (auto simp: fetched_def wf_program_def same_program_def pc_between_def wf_arrays_def)
    then show ?thesis using good_exec_op by (simp add: execute_def f)
  next
    case False
    have "?op = 0"
    proof (cases "pc z < int (hbegin z)")
      case True
      then have "hbegin z \<le> nat (pc z) + 128" "nat (pc z) < hbegin z"
        using assms by (auto simp: wf_program_def pc_between_def)
      then show ?thesis using assms(1) by (auto simp: wf_program_def)
    next
      case False
      with \<open>\<not> (int (hbegin z) \<le> pc z \<and> pc z < int (hend z))\<close> have "hend z \<le> nat (pc z)" "nat (pc z) < length (header z)"
        using assms by (auto simp: wf_program_def pc_between_def)
      then show ?thesis using assms(1) by (auto simp: wf_program_def)
    qed
    then show ?thesis by (simp add: execute_def f exec_op_def exec_unary_def)
  qed
qed

lemma exec_loop_good:
  assumes "wf_program z" "wf_arrays z" "pc_between 127 128 z"
  shows "case exec_loop n z of Inl e \<Rightarrow> e \<noteq> Undefined | Inr z' \<Rightarrow> same_program z z' \<and> wf_arrays z'"
  using assms
proof (induction n arbitrary: z)
  case (Suc n)
  show ?case
  proof (cases "execute z")
    case (Inl e)
    then show ?thesis using execute_good [OF Suc.prems] by (simp add: good_def)
  next
    case (Inr r)
    obtain go z' where r: "execute z = Inr (go, z')" using Inr by (cases r) auto
    then have z': "same_program z z'" "wf_arrays z'" "pc_between 126 128 z'"
      using execute_good [OF Suc.prems] by (auto simp: good_def)
    then have "wf_program z'" "pc_between 127 128 z'"
      using Suc.prems(1) by (auto simp: wf_program_def same_program_def pc_between_def)
    from Suc.IH [OF this(1) z'(2) this(2)] show ?thesis
      using r z' by (auto split: sum.splits dest: same_program_trans)
  qed
qed simp

lemma run0_good:
  assumes "wf_program z" "wf_arrays z"
  shows "case run0 fuel i z of Inl e \<Rightarrow> e \<noteq> Undefined | Inr z' \<Rightarrow> same_program z z' \<and> wf_arrays z'"
proof -
  let ?z = "z\<lparr>pc := int (hbegin z), za := i\<rparr>"
  have "wf_program ?z" "wf_arrays ?z" "pc_between 127 128 ?z" "same_program z ?z"
    using assms by (auto simp: wf_program_def wf_arrays_def pc_between_def same_program_def)
  from exec_loop_good [OF this(1-3), of fuel] show ?thesis using \<open>same_program z ?z\<close>
    by (auto simp: run0_def same_program_def split: sum.splits)
qed

lemma run_all_good:
  assumes "wf_program z" "wf_arrays z"
  shows "case run_all fuel is z of Inl e \<Rightarrow> e \<noteq> Undefined | Inr z' \<Rightarrow> same_program z z' \<and> wf_arrays z'"
  using assms
proof (induction "is" arbitrary: z)
  case (Cons i "is")
  show ?case
  proof (cases "run0 fuel i z")
    case (Inl e)
    then show ?thesis using run0_good [OF Cons.prems, of fuel i] by simp
  next
    case (Inr z')
    then have z': "same_program z z'" "wf_arrays z'" using run0_good [OF Cons.prems, of fuel i] by auto
    then have "wf_program z'" using Cons.prems(1) by (auto simp: wf_program_def same_program_def)
    from Cons.IH [OF this z'(2)] show ?thesis
      using Inr z' by (auto split: sum.splits dest: same_program_trans)
  qed
qed simp

section \<open>Reading a program\<close>

text \<open>The array while the model section is read: \<open>xs\<close> so far, zeros behind.\<close>

definition comp_read :: "nat \<Rightarrow> u8 list \<Rightarrow> ZPAQL \<Rightarrow> bool" where
  "comp_read N xs z \<longleftrightarrow> length xs \<le> N \<and> header z = xs @ replicate (N - length xs) 0 \<and> cend z = length xs"

text \<open>The same while the code is read, behind the gap of 128 zeros.\<close>

definition code_read :: "nat \<Rightarrow> u8 list \<Rightarrow> u8 list \<Rightarrow> ZPAQL \<Rightarrow> bool" where
  "code_read N xs hs z \<longleftrightarrow> length xs + 128 + length hs \<le> N \<and>
     header z = xs @ replicate 128 0 @ hs @ replicate (N - length xs - 128 - length hs) 0 \<and>
     cend z = length xs \<and> hbegin z = length xs + 128 \<and> hend z = length xs + 128 + length hs"

text \<open>A reading step that consumed \<open>used\<close> and would do the same whatever comes behind.\<close>

definition local_read :: "(nat list \<Rightarrow> ('a \<times> nat list) result) \<Rightarrow> nat list \<Rightarrow> 'a \<Rightarrow> nat list \<Rightarrow> nat list \<Rightarrow> bool" where
  "local_read f inp x rest used \<longleftrightarrow> inp = used @ rest \<and> (\<forall>t. f (used @ t) = Inr (x, t))"

lemma put_comp_read:
  assumes "comp_read N xs z" "length xs < N"
  shows "\<exists>z'. put_comp c z = Inr z' \<and> comp_read N (xs @ [of_int c]) z' \<and> written z' = written z \<and> outbuf z' = outbuf z"
proof -
  have "replicate (N - length xs) 0 = (0 :: u8) # replicate (N - Suc (length xs)) 0"
    using assms(2) by (simp add: Suc_diff_Suc flip: replicate_Suc)
  then show ?thesis using assms by (simp add: put_comp_def comp_read_def list_update_append)
qed

lemma put_hcomp_read:
  assumes "code_read N xs hs z" "length xs + 128 + length hs < N"
  shows "\<exists>z'. put_hcomp c z = Inr z' \<and> code_read N xs (hs @ [of_int c]) z' \<and> written z' = written z \<and> outbuf z' = outbuf z"
proof -
  have "replicate (N - length xs - 128 - length hs) 0 = (0 :: u8) # replicate (N - length xs - 128 - Suc (length hs)) 0"
    using assms(2) by (simp add: Suc_diff_Suc flip: replicate_Suc)
  then show ?thesis using assms by (simp add: put_hcomp_def code_read_def list_update_append)
qed

lemma copy_comp_read:
  assumes "comp_read N xs z" "length xs + n \<le> N"
  shows "\<exists>z' rest ys. copy_comp n z inp = Inr (z', rest) \<and> length ys = n \<and> comp_read N (xs @ ys) z' \<and>
    written z' = written z \<and> outbuf z' = outbuf z \<and>
    (rest \<noteq> [] \<longrightarrow> (\<exists>used. local_read (copy_comp n z) inp z' rest used \<and> ys = map of_nat used))"
  using assms
proof (induction n arbitrary: z inp xs)
  case 0
  then show ?case by (auto simp: local_read_def)
next
  case (Suc n)
  obtain c inp1 where c: "get inp = (c, inp1)" by (metis surj_pair)
  obtain z1 where z1: "put_comp c z = Inr z1" "comp_read N (xs @ [of_int c]) z1" "written z1 = written z" "outbuf z1 = outbuf z"
    using put_comp_read [OF Suc.prems(1)] Suc.prems(2) by force
  have len: "length (xs @ [of_int c]) + n \<le> N" using Suc.prems(2) by simp
  obtain z' rest ys where z': "copy_comp n z1 inp1 = Inr (z', rest)" "length ys = n" "comp_read N ((xs @ [of_int c]) @ ys) z'"
      "written z' = written z1" "outbuf z' = outbuf z1"
    and loc: "rest \<noteq> [] \<Longrightarrow> \<exists>used. local_read (copy_comp n z1) inp1 z' rest used \<and> ys = map of_nat used"
    using Suc.IH [OF z1(2) len, of inp1] by blast
  have "\<exists>used. local_read (copy_comp (Suc n) z) inp z' rest used \<and> of_int c # ys = map of_nat used" if "rest \<noteq> []"
  proof -
    obtain used where u: "local_read (copy_comp n z1) inp1 z' rest used" "ys = map of_nat used" using loc [OF \<open>rest \<noteq> []\<close>] by blast
    then have "inp1 \<noteq> []" using that by (auto simp: local_read_def)
    then obtain b where "inp = b # inp1" "c = int b" using c by (cases inp) auto
    then show ?thesis using u z1(1) by (intro exI [of _ "b # used"]) (auto simp: local_read_def)
  qed
  moreover have "copy_comp (Suc n) z inp = Inr (z', rest)" using c z1(1) z'(1) by simp
  ultimately show ?case using z1 z'
    by (intro exI [of _ z'] exI [of _ rest] exI [of _ "of_int c # ys"]) (simp del: copy_comp.simps)
qed

lemma read_hcomp_read:
  assumes "code_read N xs hs z" "length xs + 128 + length hs + n \<le> N"
  shows "case read_hcomp n z inp of Inl e \<Rightarrow> e \<noteq> Undefined
    | Inr (z', rest) \<Rightarrow> written z' = written z \<and> outbuf z' = outbuf z \<and> (\<exists>used. local_read (read_hcomp n z) inp z' rest used \<and> length used = n
        \<and> code_read N xs (hs @ map of_nat used) z')"
  using assms
proof (induction n arbitrary: z inp hs)
  case 0
  then show ?case by (auto simp: local_read_def)
next
  case (Suc n)
  show ?case
  proof (cases inp)
    case Nil
    then show ?thesis by simp
  next
    case (Cons b inp1)
    obtain z1 where z1: "put_hcomp (int b) z = Inr z1" "code_read N xs (hs @ [of_nat b]) z1" "written z1 = written z" "outbuf z1 = outbuf z"
      using put_hcomp_read [OF Suc.prems(1), of "int b"] Suc.prems(2) by force
    have "length xs + 128 + length (hs @ [of_nat b :: u8]) + n \<le> N" using Suc.prems(2) by simp
    note IH = Suc.IH [OF z1(2) this, of inp1]
    show ?thesis
    proof (cases "read_hcomp n z1 inp1")
      case (Inl e)
      then show ?thesis using IH Cons z1(1) by simp
    next
      case (Inr r)
      obtain z' rest where r: "read_hcomp n z1 inp1 = Inr (z', rest)" using Inr by (cases r) auto
      then obtain used where u: "local_read (read_hcomp n z1) inp1 z' rest used" "length used = n"
          "code_read N xs ((hs @ [of_nat b]) @ map of_nat used) z'" "written z' = written z1" "outbuf z' = outbuf z1"
        using IH by auto
      have "local_read (read_hcomp (Suc n) z) inp z' rest (b # used)"
        using u(1) z1(1) Cons by (auto simp: local_read_def)
      then show ?thesis using r u Cons z1 by (auto intro!: exI [of _ "b # used"])
    qed
  qed
qed

text \<open>There is room for one more byte, because of the check against the header size.\<close>

definition room :: "int \<Rightarrow> u8 list \<Rightarrow> bool" where
  "room hsize xs \<longleftrightarrow> - 257 \<le> hsize \<and> (length xs \<le> 7 \<or> int (length xs) \<le> hsize)"

lemma room_less: "room hsize xs \<Longrightarrow> length xs < nat (hsize + 300)"
  by (auto simp: room_def)

lemma read_comps_read:
  assumes "comp_read (nat (hsize + 300)) xs z" "room hsize xs"
  shows "case read_comps n hsize z inp of Inl e \<Rightarrow> e \<noteq> Undefined
    | Inr (z', rest) \<Rightarrow> written z' = written z \<and> outbuf z' = outbuf z \<and>
        (\<exists>ys. comp_read (nat (hsize + 300)) (xs @ ys) z' \<and> room hsize (xs @ ys) \<and>
          (rest \<noteq> [] \<longrightarrow> (\<exists>used. local_read (read_comps n hsize z) inp z' rest used \<and> ys = map of_nat used)))"
  using assms
proof (induction n arbitrary: z inp xs)
  case 0
  then show ?case by (auto simp: local_read_def intro: exI [of _ "[]"])
next
  case (Suc n)
  let ?N = "nat (hsize + 300)"
  show ?case
  proof (cases "\<exists>b inp1. inp = b # inp1 \<and> b \<le> 255 \<and> 1 \<le> compsize b \<and> int (length xs + 1 + compsize b) \<le> hsize")
    case True
    then obtain b inp1 where b: "inp = b # inp1" "b \<le> 255" "1 \<le> compsize b" "int (length xs + 1 + compsize b) \<le> hsize" by blast
    obtain z1 where z1: "put_comp (int b) z = Inr z1" "comp_read ?N (xs @ [of_nat b]) z1" "written z1 = written z" "outbuf z1 = outbuf z"
      using put_comp_read [OF Suc.prems(1) room_less [OF Suc.prems(2)], of "int b"] by auto
    have "length (xs @ [of_nat b :: u8]) + (compsize b - 1) \<le> ?N" using b(3,4) by simp
    from copy_comp_read [OF z1(2) this, of inp1] obtain z2 inp2 ys where
      z2: "copy_comp (compsize b - 1) z1 inp1 = Inr (z2, inp2)" "length ys = compsize b - 1"
        "comp_read ?N ((xs @ [of_nat b]) @ ys) z2" "written z2 = written z1" "outbuf z2 = outbuf z1"
      and loc: "inp2 \<noteq> [] \<Longrightarrow> \<exists>used. local_read (copy_comp (compsize b - 1) z1) inp1 z2 inp2 used \<and> ys = map of_nat used"
      by blast
    have "room hsize ((xs @ [of_nat b]) @ ys)" using b(3,4) z2(2) Suc.prems(2) by (auto simp: room_def)
    note IH = Suc.IH [OF z2(3) this, of inp2]
    have cend: "cend z1 = length xs + 1" using z1(2) by (simp add: comp_read_def)
    have step: "read_comps (Suc n) hsize z (b # t) = ebind (copy_comp (compsize b - 1) z1 t) (\<lambda>(z, inp). read_comps n hsize z inp)" for t
      using b z1(1) cend by (simp add: Let_def)
    show ?thesis
    proof (cases "read_comps n hsize z2 inp2")
      case (Inl e)
      then show ?thesis using IH step [of inp1] z2(1) b(1) by simp
    next
      case (Inr r)
      obtain z' rest where r: "read_comps n hsize z2 inp2 = Inr (z', rest)" using Inr by (cases r) auto
      then obtain ys2 where y: "comp_read ?N (((xs @ [of_nat b]) @ ys) @ ys2) z'" "room hsize (((xs @ [of_nat b]) @ ys) @ ys2)"
          "written z' = written z2" "outbuf z' = outbuf z2"
        and loc2: "rest \<noteq> [] \<Longrightarrow> \<exists>used. local_read (read_comps n hsize z2) inp2 z' rest used \<and> ys2 = map of_nat used"
        using IH by auto
      have "\<exists>used. local_read (read_comps (Suc n) hsize z) inp z' rest used \<and> of_nat b # ys @ ys2 = map of_nat used" if rest: "rest \<noteq> []"
      proof -
        obtain u2 where u2: "local_read (read_comps n hsize z2) inp2 z' rest u2" "ys2 = map of_nat u2" using loc2 [OF rest] by blast
        then have "inp2 \<noteq> []" using rest by (auto simp: local_read_def)
        then obtain u1 where u1: "local_read (copy_comp (compsize b - 1) z1) inp1 z2 inp2 u1" "ys = map of_nat u1" using loc by blast
        have "local_read (read_comps (Suc n) hsize z) inp z' rest (b # u1 @ u2)"
          using u1(1) u2(1) b(1) step by (auto simp: local_read_def)
        then show ?thesis using u1(2) u2(2) by (intro exI [of _ "b # u1 @ u2"]) simp
      qed
      then show ?thesis using r y z1 z2 step [of inp1] b(1)
        by (simp del: read_comps.simps) (intro exI [of _ "of_nat b # ys @ ys2"], simp)
    qed
  next
    case False
    obtain c inp1 where c: "get inp = (c, inp1)" by (metis surj_pair)
    obtain z1 where z1: "put_comp c z = Inr z1" "cend z1 = length xs + 1"
      using put_comp_read [OF Suc.prems(1) room_less [OF Suc.prems(2)], of c] by (auto simp: comp_read_def)
    have "c < 0 \<or> 255 < c \<or> compsize (nat c) < 1 \<or> hsize < int (cend z1) + int (compsize (nat c))"
      using False c z1(2) by (cases inp) auto
    then show ?thesis using c z1(1) by (auto simp: Let_def)
  qed
qed

definition byte_list :: "nat list \<Rightarrow> bool" where
  "byte_list bs \<longleftrightarrow> (\<forall>b \<in> set bs. b < 256)"

lemma byte_list_simps [simp]: "byte_list []" "byte_list (b # bs) = (b < 256 \<and> byte_list bs)"
  "byte_list (as @ bs) = (byte_list as \<and> byte_list bs)"
  by (auto simp: byte_list_def)

lemma unat_of_byte: "b < 256 \<Longrightarrow> unat (of_nat b :: u8) = b"
  by (simp add: unat_of_nat)

lemma map_unat_of_bytes: "byte_list bs \<Longrightarrow> map unat (map of_nat bs :: u8 list) = bs"
  by (induction bs) (auto simp: unat_of_byte)

lemma get_room: "get inp = (c, rest) \<Longrightarrow> - 1 \<le> c"
  by (cases inp) auto

lemma read_start_read:
  assumes "byte_list inp"
  shows "\<exists>hsize z' rest xs. read_start z inp = Inr ((hsize, z'), rest) \<and> comp_read (nat (hsize + 300)) xs z' \<and>
    length xs = 7 \<and> room hsize xs \<and> written z' = written z \<and> outbuf z' = outbuf z \<and>
    (rest \<noteq> [] \<longrightarrow> (\<exists>used. local_read (read_start z) inp (hsize, z') rest used \<and> xs = map of_nat used \<and>
      hsize = int (used ! 0) + 256 * int (used ! 1)))"
proof -
  obtain c0 inp0 where c0: "get inp = (c0, inp0)" by (metis surj_pair)
  obtain c1 inp1 where c1: "get inp0 = (c1, inp1)" by (metis surj_pair)
  define hsize where "hsize = c0 + c1 * 256"
  let ?N = "nat (hsize + 300)"
  let ?z = "z\<lparr>header := replicate (nat (hsize + 300)) 0, cend := 0, hbegin := 0, hend := 0\<rparr>"
  have h: "- 257 \<le> hsize" using get_room [OF c0] get_room [OF c1] by (simp add: hsize_def)
  have s0: "comp_read ?N [] ?z" by (simp add: comp_read_def)
  obtain z1 where z1: "put_comp hsize ?z = Inr z1" "comp_read ?N ([] @ [of_int hsize]) z1" "written z1 = written ?z" "outbuf z1 = outbuf ?z"
    using put_comp_read [OF s0, of hsize] h by auto
  obtain z2 where z2: "put_comp (hsize div 256) z1 = Inr z2" "comp_read ?N (([] @ [of_int hsize]) @ [of_int (hsize div 256)]) z2"
      "written z2 = written z1" "outbuf z2 = outbuf z1"
    using put_comp_read [OF z1(2), of "hsize div 256"] h by auto
  obtain z3 rest ys where z3: "copy_comp 5 z2 inp1 = Inr (z3, rest)" "length ys = 5"
      "comp_read ?N ((([] @ [of_int hsize]) @ [of_int (hsize div 256)]) @ ys) z3" "written z3 = written z2" "outbuf z3 = outbuf z2"
    and loc: "rest \<noteq> [] \<Longrightarrow> \<exists>used. local_read (copy_comp 5 z2) inp1 z3 rest used \<and> ys = map of_nat used"
  proof -
    have "length (([] @ [of_int hsize :: u8]) @ [of_int (hsize div 256)]) + 5 \<le> ?N" using h by simp
    from copy_comp_read [OF z2(2) this, of inp1] show thesis using that by blast
  qed
  have r: "read_start z inp = Inr ((hsize, z3), rest)"
    using c0 c1 z1(1) z2(1) z3(1) by (simp add: read_start_def hsize_def Let_def)
  let ?xs = "of_int hsize # of_int (hsize div 256) # ys"
  have "\<exists>used. local_read (read_start z) inp (hsize, z3) rest used \<and> ?xs = map of_nat used \<and>
      hsize = int (used ! 0) + 256 * int (used ! 1)" if rest: "rest \<noteq> []"
  proof -
    obtain used where u: "local_read (copy_comp 5 z2) inp1 z3 rest used" "ys = map of_nat used" using loc [OF rest] by blast
    then have "inp1 \<noteq> []" using rest by (auto simp: local_read_def)
    then obtain b1 where b1: "inp0 = b1 # inp1" "c1 = int b1" using c1 by (cases inp0) auto
    then obtain b0 where b0: "inp = b0 # inp0" "c0 = int b0" using c0 by (cases inp) auto
    have lt: "b0 < 256" using assms b0(1) by simp
    then have hb: "hsize = int (b0 + 256 * b1)" "hsize div 256 = int b1" by (simp_all add: hsize_def b0(2) b1(2))
    have "(of_int hsize :: u8) = of_nat b0 + of_nat 256 * of_nat b1" unfolding hb(1) by simp
    also have "(of_nat 256 :: u8) = 0" by simp
    finally have w: "(of_int hsize :: u8) = of_nat b0" by simp
    have "read_start z (b0 # b1 # used @ t) = Inr ((hsize, z3), t)" for t
      using u(1) z1(1) z2(1) by (simp add: read_start_def local_read_def hsize_def b0(2) b1(2) Let_def)
    then show ?thesis using u w hb b0(1) b1(1)
      by (intro exI [of _ "b0 # b1 # used"]) (auto simp: local_read_def)
  qed
  then show ?thesis using r z1 z2 z3 h
    by (intro exI [of _ hsize] exI [of _ z3] exI [of _ rest] exI [of _ ?xs]) (auto simp: room_def)
qed

text \<open>The code of the program, as bytes of the input.\<close>

lemma read_code_read:
  assumes "comp_read (nat (hsize + 300)) xs z" "room hsize xs" "byte_list inp"
  shows "case read_code hsize z inp of Inl e \<Rightarrow> e \<noteq> Undefined
    | Inr ((n, z'), rest) \<Rightarrow> written z' = written z \<and> outbuf z' = outbuf z \<and>
       (\<exists>used. local_read (read_code hsize z) inp (n, z') rest (0 # used) \<and> used \<noteq> [] \<and>
          code_read (nat (hsize + 300)) (xs @ [0]) (map of_nat used) z' \<and> length xs + length used = nat (hsize + 1) \<and>
          n = length xs + 1 + length used \<and> last used = 0)"
proof (cases inp)
  case Nil
  obtain z1 where "put_comp (-1) z = Inr z1" using put_comp_read [OF assms(1) room_less [OF assms(2)]] by blast
  then show ?thesis using Nil by (simp add: read_code_def)
next
  case (Cons b inp1)
  let ?N = "nat (hsize + 300)"
  obtain z1 where z1: "put_comp (int b) z = Inr z1" "comp_read ?N (xs @ [of_nat b]) z1" "written z1 = written z" "outbuf z1 = outbuf z"
    using put_comp_read [OF assms(1) room_less [OF assms(2)], of "int b"] by auto
  let ?z = "z1\<lparr>hbegin := cend z1 + 128, hend := cend z1 + 128\<rparr>"
  define k where "k = nat (hsize + 129 - int (hend ?z))"
  have ce: "cend z1 = length xs + 1" using z1(2) by (simp add: comp_read_def)
  show ?thesis
  proof (cases "b = 0 \<and> int (hend ?z) \<le> hsize + 129")
    case False
    moreover have "(of_nat b :: u8) = 0 \<longleftrightarrow> b = 0" using unat_of_byte [of b] assms(3) Cons by auto
    ultimately show ?thesis using Cons z1(1) by (auto simp: read_code_def Let_def)
  next
    case True
    have k: "length xs + 1 + 128 + k = nat (hsize + 129)"
      using True ce unfolding k_def by (simp; arith)
    have cr: "code_read ?N (xs @ [0]) [] ?z"
    proof -
      have "replicate (?N - length (xs @ [0 :: u8])) (0 :: u8) = replicate 128 0 @ replicate (?N - length (xs @ [0 :: u8]) - 128) 0"
        using k by (simp flip: replicate_add)
      then show ?thesis using z1(2) True k by (simp add: code_read_def comp_read_def)
    qed
    have "length (xs @ [0 :: u8]) + 128 + length ([] :: u8 list) + k \<le> ?N" using k by simp
    note IH = read_hcomp_read [OF cr this, of inp1]
    have step: "read_code hsize z (0 # t) = ebind (read_hcomp k ?z t) (\<lambda>(z, inp).
        case get inp of (c, inp) \<Rightarrow> ebind (put_hcomp c z) (\<lambda>z.
          if (of_int c :: u8) \<noteq> 0 then Inl (Thrown ''missing HCOMP END'')
          else Inr ((cend z + hend z - hbegin z, z), inp)))" for t
      using True z1(1) by (simp add: read_code_def Let_def k_def)
    show ?thesis
    proof (cases "read_hcomp k ?z inp1")
      case (Inl e)
      then show ?thesis using IH Cons True step [of inp1] by simp
    next
      case (Inr r)
      obtain z2 inp2 where r: "read_hcomp k ?z inp1 = Inr (z2, inp2)" using Inr by (cases r) auto
      then obtain used where u: "local_read (read_hcomp k ?z) inp1 z2 inp2 used" "length used = k"
          "code_read ?N (xs @ [0]) (map of_nat used) z2" "written z2 = written z1" "outbuf z2 = outbuf z1"
        using IH by auto
      have len: "length (xs @ [0 :: u8]) + 128 + length (map of_nat used :: u8 list) < ?N" using k u(2) by simp
      obtain c inp3 where c: "get inp2 = (c, inp3)" by (metis surj_pair)
      obtain z3 where z3: "put_hcomp c z2 = Inr z3" "code_read ?N (xs @ [0]) (map of_nat used @ [of_int c]) z3"
          "written z3 = written z2" "outbuf z3 = outbuf z2"
        using put_hcomp_read [OF u(3) len, of c] by blast
      have all: "read_code hsize z inp = (if (of_int c :: u8) \<noteq> 0 then Inl (Thrown ''missing HCOMP END'')
          else Inr ((cend z3 + hend z3 - hbegin z3, z3), inp3))"
        using step [of inp1] r c z3(1) Cons True by simp
      show ?thesis
      proof (cases "(of_int c :: u8) = 0")
        case False
        then show ?thesis unfolding all by simp
      next
        case c0: True
        have "inp2 \<noteq> []" using c c0 by auto
        then obtain b2 where b2: "inp2 = b2 # inp3" "c = int b2" using c by (cases inp2) auto
        have "b2 < 256" using assms(3) Cons u(1) b2(1) by (auto simp: local_read_def)
        then have "b2 = 0" using c0 unat_of_byte [of b2] b2(2) by simp
        moreover have "local_read (read_code hsize z) inp (cend z3 + hend z3 - hbegin z3, z3) inp3 (0 # used @ [0])"
        proof -
          have "read_code hsize z (0 # (used @ [0]) @ t) = Inr ((cend z3 + hend z3 - hbegin z3, z3), t)" for t
            using step [of "used @ 0 # t"] u(1) z3(1) b2(2) \<open>b2 = 0\<close> by (simp add: local_read_def)
          then show ?thesis using Cons True u(1) b2(1) \<open>b2 = 0\<close> by (auto simp: local_read_def)
        qed
        ultimately show ?thesis unfolding all using c0 z3 u z1 b2(2) k
          by (auto intro!: exI [of _ "used @ [0]"] simp: code_read_def)
      qed
    qed
  qed
qed

lemma code_read_wf:
  assumes "code_read (nat (hsize + 300)) xs (map of_nat used) z" "length xs + length used = nat (hsize + 2)" "8 \<le> length xs"
  shows "wf_program z" "6 < length (header z)"
proof -
  let ?k = "nat (hsize + 300) - length xs - 128 - length used"
  have h: "header z = xs @ replicate 128 0 @ map of_nat used @ replicate ?k 0" "hbegin z = length xs + 128"
    "hend z = length xs + 128 + length used"
    using assms(1) by (simp_all add: code_read_def)
  have N: "length xs + 128 + length used + 130 < nat (hsize + 300)" using assms(2,3) by arith
  have len: "length (header z) = nat (hsize + 300)" using h(1) N by simp
  have "header z ! i = 0" if "hbegin z \<le> i + 128" "i < hbegin z" for i
    using that by (auto simp: h nth_append)
  moreover have "header z ! i = 0" if "hend z \<le> i" "i < length (header z)" for i
  proof -
    have "header z ! i = replicate ?k 0 ! (i - length xs - 128 - length used)"
      using that(1) unfolding h by (auto simp: nth_append)
    moreover have "i - length xs - 128 - length used < ?k" using that len h(3) by linarith
    ultimately show ?thesis by simp
  qed
  ultimately show "wf_program z" using h(2,3) len N by (auto simp: wf_program_def)
  show "6 < length (header z)" using len N by simp
qed

lemma zread_read:
  assumes "byte_list inp"
  shows "case zread z inp of Inl e \<Rightarrow> e \<noteq> Undefined
    | Inr ((n, z'), rest) \<Rightarrow> written z' = written z \<and> outbuf z' = outbuf z \<and> wf_program z' \<and>
       (\<exists>used. local_read (zread z) inp (n, z') rest used \<and> zwrite False z' = Some used \<and> n = length used)"
proof -
  obtain hsize z1 inp1 xs where s: "read_start z inp = Inr ((hsize, z1), inp1)" "comp_read (nat (hsize + 300)) xs z1"
      "room hsize xs" "length xs = 7" "written z1 = written z" "outbuf z1 = outbuf z"
    and loc1: "inp1 \<noteq> [] \<Longrightarrow> \<exists>used. local_read (read_start z) inp (hsize, z1) inp1 used \<and> xs = map of_nat used"
    using read_start_read [OF assms, of z] by blast
  let ?n = "unat (header z1 ! (cend z1 - 1))"
  have b1: "byte_list inp1"
  proof (cases "inp1 = []")
    case False
    then show ?thesis using loc1 assms by (auto simp: local_read_def)
  qed simp
  note comps = read_comps_read [OF s(2,3), of ?n inp1]
  show ?thesis
  proof (cases "read_comps ?n hsize z1 inp1")
    case (Inl e)
    then show ?thesis using comps s(1) by (simp add: zread_def)
  next
    case (Inr r)
    obtain z2 inp2 where r: "read_comps ?n hsize z1 inp1 = Inr (z2, inp2)" using Inr by (cases r) auto
    then obtain ys where c: "comp_read (nat (hsize + 300)) (xs @ ys) z2" "room hsize (xs @ ys)" "written z2 = written z1" "outbuf z2 = outbuf z1"
      and loc2: "inp2 \<noteq> [] \<Longrightarrow> \<exists>used. local_read (read_comps ?n hsize z1) inp1 z2 inp2 used \<and> ys = map of_nat used"
      using comps by auto
    have b2: "byte_list inp2"
    proof (cases "inp2 = []")
      case False
      then show ?thesis using loc2 b1 by (auto simp: local_read_def)
    qed simp
    note code = read_code_read [OF c(1,2) b2]
    show ?thesis
    proof (cases "read_code hsize z2 inp2")
      case (Inl e)
      then show ?thesis using code s(1) r by (simp add: zread_def)
    next
      case (Inr q)
      obtain n z3 rest where q: "read_code hsize z2 inp2 = Inr ((n, z3), rest)" using Inr by (cases q) auto
      then obtain u3 where u3: "local_read (read_code hsize z2) inp2 (n, z3) rest (0 # u3)"
          "code_read (nat (hsize + 300)) ((xs @ ys) @ [0]) (map of_nat u3) z3" "length (xs @ ys) + length u3 = nat (hsize + 1)"
          "n = length (xs @ ys) + 1 + length u3" "u3 \<noteq> []" "written z3 = written z2" "outbuf z3 = outbuf z2"
        using code by auto
      have "inp2 \<noteq> []" using u3(1) by (auto simp: local_read_def)
      then obtain u2 where u2: "local_read (read_comps ?n hsize z1) inp1 z2 inp2 u2" "ys = map of_nat u2" using loc2 by blast
      have "inp1 \<noteq> []" using u2(1) \<open>inp2 \<noteq> []\<close> by (auto simp: local_read_def)
      then obtain u1 where u1: "local_read (read_start z) inp (hsize, z1) inp1 u1" "xs = map of_nat u1" using loc1 by blast
      let ?u = "u1 @ u2 @ 0 # u3"
      have bytes: "byte_list ?u" using assms u1(1) u2(1) u3(1) by (auto simp: local_read_def)
      have "zread z (?u @ t) = Inr ((n, z3), t)" for t
      proof -
        have "read_start z (?u @ t) = Inr ((hsize, z1), u2 @ 0 # u3 @ t)" using u1(1) by (simp add: local_read_def)
        moreover have "read_comps ?n hsize z1 (u2 @ 0 # u3 @ t) = Inr (z2, 0 # u3 @ t)" using u2(1) by (simp add: local_read_def)
        moreover have "read_code hsize z2 (0 # u3 @ t) = Inr ((n, z3), t)" using u3(1) by (simp add: local_read_def)
        ultimately show ?thesis by (simp add: zread_def)
      qed
      then have loc: "local_read (zread z) inp (n, z3) rest ?u" using u1(1) u2(1) u3(1) by (auto simp: local_read_def)
      have len: "length ((xs @ ys) @ [0]) + length u3 = nat (hsize + 2)" using u3(3) s(4) by simp
      have wf: "wf_program z3" "6 < length (header z3)"
        using code_read_wf [OF u3(2) len] s(4) by simp_all
      have "take (cend z3) (header z3) = (xs @ ys) @ [0]"
        "take (hend z3 - hbegin z3) (drop (hbegin z3) (header z3)) = map of_nat u3"
        using u3(2) by (simp_all add: code_read_def)
      then have "zwrite False z3 = Some (map unat (map of_nat ?u :: u8 list))"
        using wf(2) u1(2) u2(2) by (simp add: zwrite_def del: map_map)
      then have "zwrite False z3 = Some ?u" using map_unat_of_bytes [OF bytes] by simp
      moreover have "n = length ?u" using u3(4) u1(2) u2(2) by simp
      moreover have "zread z inp = Inr ((n, z3), rest)" using s(1) r q by (simp add: zread_def)
      ultimately show ?thesis using loc wf(1) s(5,6) c(3,4) u3(6,7) by auto
    qed
  qed
qed

text \<open>A program without components: \<open>JMP\<close> over a byte, \<open>OUT\<close>, \<open>HALT\<close>.\<close>

definition demo_program :: "nat list" where
  "demo_program = [12, 0, 0, 0, 0, 0, 0, 0, 63, 1, 0, 57, 56, 0]"

text \<open>C17. A program header survives \<open>read\<close> and \<open>write\<close>: whenever \<open>read\<close> accepts a stream of bytes,
  \<open>write\<close> gives back exactly the bytes it consumed, their number is what \<open>read\<close> returned, and reading
  them again in front of any other data gives the same program and leaves that data.\<close>

theorem header_roundtrip:
  assumes "byte_list inp" "zread z inp = Inr ((n, z'), rest)"
  shows "\<exists>bytes. zwrite False z' = Some bytes \<and> inp = bytes @ rest \<and> n = length bytes \<and>
    (\<forall>t. zread z (bytes @ t) = Inr ((n, z'), t))"
  using zread_read [OF assms(1), of z] assms(2) by (auto simp: local_read_def)

theorem header_roundtrip_witness:
  "\<exists>bytes. zwrite False (snd (fst (projr (zread new_ZPAQL (demo_program @ [7, 7]))))) = Some bytes \<and>
    demo_program @ [7, 7] = bytes @ [7, 7] \<and> 14 = length bytes \<and>
    (\<forall>t. zread new_ZPAQL (bytes @ t) = Inr ((14, snd (fst (projr (zread new_ZPAQL (demo_program @ [7, 7]))))), t))"
  by (rule header_roundtrip [where z = new_ZPAQL]) (simp add: demo_program_def, code_simp)



end
