(* ===== verification/Zpaq_Sha.thy ===== *)
theory Zpaq_Sha
  imports Backup_Prelude "HOL-Library.While_Combinator"
begin

text \<open>
  The hash functions of the archiver (\<open>zpaq715/libzpaq.cpp\<close>, \<open>SHA1\<close> and \<open>SHA256\<close>): the byte-wise
  \<open>put\<close>, the block-wise \<open>write\<close>, the compression \<open>process\<close> on a circular buffer of 16 words, and
  \<open>result\<close> with its padding.  The reference is the standard (FIPS 180-4): the padded message, its
  blocks, the full message schedule and the textbook round functions.

  The locale \<open>block_hash\<close> is the interface of the buffering, proved once for both.
\<close>

unbundle bit_operations_syntax

section \<open>Definitions\<close>

record SHA1 =
  len1 :: u64
  h1 :: "u32 list"
  w1 :: "u32 list"

definition SHA1_init :: "SHA1 \<Rightarrow> SHA1" where
  "SHA1_init s = s\<lparr>len1 := 0, h1 := [0x67452301, 0xEFCDAB89, 0x98BADCFE, 0x10325476, 0xC3D2E1F0], w1 := replicate 16 0\<rparr>"

definition new_SHA1 :: SHA1 where
  "new_SHA1 = SHA1_init \<lparr>len1 = 0, h1 = [], w1 = []\<rparr>"

text \<open>The macro \<open>f\<close>.  Its arguments rotate from call to call; here the variables do.\<close>

definition sha1_k :: "nat \<Rightarrow> u32" where
  "sha1_k i = [0x5A827999, 0x6ED9EBA1, 0x8F1BBCDC, 0xCA62C1D6] ! (i div 20)"

definition sha1_w :: "nat \<Rightarrow> u32 list \<Rightarrow> u32 list" where
  "sha1_w i w =
     (if 16 \<le> i then
        (let x = w ! (i mod 16) XOR (w ! ((i - 3) mod 16) XOR w ! ((i - 8) mod 16) XOR w ! ((i - 14) mod 16))
         in w[i mod 16 := push_bit 1 x OR drop_bit 31 x])
      else w)"

definition sha1_round :: "nat \<Rightarrow> (u32 \<times> u32 \<times> u32 \<times> u32 \<times> u32) \<times> u32 list \<Rightarrow> (u32 \<times> u32 \<times> u32 \<times> u32 \<times> u32) \<times> u32 list" where
  "sha1_round i = (\<lambda>((a, b, c, d, e), w).
     let w = sha1_w i w;
         e = e + ((push_bit 5 a OR drop_bit 27 a) + sha1_k i + w ! (i mod 16)
              + (if 20 \<le> i mod 40 then b XOR c XOR d
                 else if 40 \<le> i then (b AND c) OR (d AND (b OR c))
                 else d XOR (b AND (c XOR d))));
         b = push_bit 30 b OR drop_bit 2 b
     in ((e, a, b, c, d), w))"

definition sha1_compress :: "u32 list \<Rightarrow> u32 list \<Rightarrow> u32 list \<times> u32 list" where
  "sha1_compress h w =
     (case fold sha1_round [0 ..< 80] ((h ! 0, h ! 1, h ! 2, h ! 3, h ! 4), w) of
        ((a, b, c, d, e), w) \<Rightarrow> ([h ! 0 + a, h ! 1 + b, h ! 2 + c, h ! 3 + d, h ! 4 + e], w))"

definition SHA1_process :: "SHA1 \<Rightarrow> SHA1" where
  "SHA1_process s = (case sha1_compress (h1 s) (w1 s) of (h, w) \<Rightarrow> s\<lparr>h1 := h, w1 := w\<rparr>)"

definition SHA1_put :: "u8 \<Rightarrow> SHA1 \<Rightarrow> SHA1" where
  "SHA1_put c s =
     (let i = unat (drop_bit 5 (len1 s)) mod 16;
          s = s\<lparr>w1 := (w1 s)[i := push_bit 8 (w1 s ! i) OR ucast c], len1 := len1 s + 8\<rparr>
      in if unat (len1 s) mod 512 = 0 then SHA1_process s else s)"

text \<open>Four bytes as a word, most significant first.\<close>

definition be4 :: "u8 \<Rightarrow> u8 \<Rightarrow> u8 \<Rightarrow> u8 \<Rightarrow> u32" where
  "be4 a b c d = push_bit 24 (ucast a) OR push_bit 16 (ucast b) OR push_bit 8 (ucast c) OR ucast d"

fun be_words :: "u8 list \<Rightarrow> u32 list" where
  "be_words (a # b # c # d # r) = be4 a b c d # be_words r"
| "be_words _ = []"

text \<open>The three loops of \<open>write\<close>: up to a block boundary, whole blocks, the rest.\<close>

fun SHA1_align :: "u8 list \<Rightarrow> SHA1 \<Rightarrow> u8 list \<times> SHA1" where
  "SHA1_align [] s = ([], s)"
| "SHA1_align (c # p) s = (if unat (len1 s) mod 512 \<noteq> 0 then SHA1_align p (SHA1_put c s) else (c # p, s))"

function SHA1_blocks :: "u8 list \<Rightarrow> SHA1 \<Rightarrow> u8 list \<times> SHA1" where
  "SHA1_blocks p s =
     (if 64 \<le> length p
      then SHA1_blocks (drop 64 p) (SHA1_process (s\<lparr>w1 := be_words (take 64 p), len1 := len1 s + 512\<rparr>))
      else (p, s))"
  by pat_completeness auto
termination
  by (relation "measure (\<lambda>(p, s). length p)") auto

declare SHA1_blocks.simps [simp del]

definition SHA1_write :: "u8 list \<Rightarrow> SHA1 \<Rightarrow> SHA1" where
  "SHA1_write p s =
     (let (p, s) = SHA1_align p s;
          (p, s) = SHA1_blocks p s
      in fold SHA1_put p s)"

text \<open>\<open>put(s>>56) ... put(s)\<close>, and a word as four bytes.\<close>

definition be8 :: "nat \<Rightarrow> u8 list" where
  "be8 s = map (\<lambda>i. of_nat (s div 2 ^ (8 * (7 - i)))) [0 ..< 8]"

definition word_bytes :: "u32 \<Rightarrow> u8 list" where
  "word_bytes x = [ucast (drop_bit 24 x), ucast (drop_bit 16 x), ucast (drop_bit 8 x), ucast x]"

definition SHA1_result :: "SHA1 \<Rightarrow> (u8 list \<times> SHA1) option" where
  "SHA1_result t =
     (case while_option (\<lambda>t. unat (len1 t) mod 512 \<noteq> 448) (SHA1_put 0) (SHA1_put 0x80 t) of
        None \<Rightarrow> None
      | Some u \<Rightarrow>
          (let u = fold SHA1_put (be8 (unat (len1 t))) u
           in Some (concat (map word_bytes (h1 u)), SHA1_init u)))"

record SHA256 =
  len0 :: u32
  lenhi :: u32
  s2 :: "u32 list"
  w2 :: "u32 list"

definition SHA256_init :: "SHA256 \<Rightarrow> SHA256" where
  "SHA256_init s = s\<lparr>len0 := 0, lenhi := 0,
     s2 := [0x6a09e667, 0xbb67ae85, 0x3c6ef372, 0xa54ff53a, 0x510e527f, 0x9b05688c, 0x1f83d9ab, 0x5be0cd19],
     w2 := replicate 16 0\<rparr>"

definition new_SHA256 :: SHA256 where
  "new_SHA256 = SHA256_init \<lparr>len0 = 0, lenhi = 0, s2 = [], w2 = []\<rparr>"

definition ror :: "u32 \<Rightarrow> nat \<Rightarrow> u32" where
  "ror a b = drop_bit b a OR push_bit (32 - b) a"

definition sha256_m :: "nat \<Rightarrow> u32 list \<Rightarrow> u32 list" where
  "sha256_m i w =
     w[i mod 16 := w ! (i mod 16) + (w ! ((i - 7) mod 16)
        + (ror (w ! ((i - 15) mod 16)) 7 XOR ror (w ! ((i - 15) mod 16)) 18 XOR drop_bit 3 (w ! ((i - 15) mod 16)))
        + (ror (w ! ((i - 2) mod 16)) 17 XOR ror (w ! ((i - 2) mod 16)) 19 XOR drop_bit 10 (w ! ((i - 2) mod 16))))]"

definition sha256_k :: "u32 list" where
  "sha256_k = concat [
     [0x428a2f98, 0x71374491, 0xb5c0fbcf, 0xe9b5dba5], [0x3956c25b, 0x59f111f1, 0x923f82a4, 0xab1c5ed5],
     [0xd807aa98, 0x12835b01, 0x243185be, 0x550c7dc3], [0x72be5d74, 0x80deb1fe, 0x9bdc06a7, 0xc19bf174],
     [0xe49b69c1, 0xefbe4786, 0x0fc19dc6, 0x240ca1cc], [0x2de92c6f, 0x4a7484aa, 0x5cb0a9dc, 0x76f988da],
     [0x983e5152, 0xa831c66d, 0xb00327c8, 0xbf597fc7], [0xc6e00bf3, 0xd5a79147, 0x06ca6351, 0x14292967],
     [0x27b70a85, 0x2e1b2138, 0x4d2c6dfc, 0x53380d13], [0x650a7354, 0x766a0abb, 0x81c2c92e, 0x92722c85],
     [0xa2bfe8a1, 0xa81a664b, 0xc24b8b70, 0xc76c51a3], [0xd192e819, 0xd6990624, 0xf40e3585, 0x106aa070],
     [0x19a4c116, 0x1e376c08, 0x2748774c, 0x34b0bcb5], [0x391c0cb3, 0x4ed8aa4a, 0x5b9cca4f, 0x682e6ff3],
     [0x748f82ee, 0x78a5636f, 0x84c87814, 0x8cc70208], [0x90befffa, 0xa4506ceb, 0xbef9a3f7, 0xc67178f2]]"

type_synonym vars8 = "u32 \<times> u32 \<times> u32 \<times> u32 \<times> u32 \<times> u32 \<times> u32 \<times> u32"

text \<open>The macros \<open>r\<close> (the first 16 rounds) and \<open>mr\<close>.\<close>

definition sha256_round :: "nat \<Rightarrow> vars8 \<times> u32 list \<Rightarrow> vars8 \<times> u32 list" where
  "sha256_round i = (\<lambda>((a, b, c, d, e, f, g, h), w).
     let w = (if 16 \<le> i then sha256_m i w else w);
         t1 = ror e 14 XOR e;
         t1 = ror t1 5 XOR e;
         h = h + (ror t1 6 + ((e AND f) XOR (NOT e AND g)) + sha256_k ! i + w ! (i mod 16));
         d = d + h;
         t1 = ror a 9 XOR a;
         t1 = ror t1 11 XOR a;
         h = h + (ror t1 2 + ((a AND b) XOR (c AND (a XOR b))))
     in ((h, a, b, c, d, e, f, g), w))"

definition sha256_compress :: "u32 list \<Rightarrow> u32 list \<Rightarrow> u32 list \<times> u32 list" where
  "sha256_compress s w =
     (case fold sha256_round [0 ..< 64] ((s ! 0, s ! 1, s ! 2, s ! 3, s ! 4, s ! 5, s ! 6, s ! 7), w) of
        ((a, b, c, d, e, f, g, h), w) \<Rightarrow>
          ([s ! 0 + a, s ! 1 + b, s ! 2 + c, s ! 3 + d, s ! 4 + e, s ! 5 + f, s ! 6 + g, s ! 7 + h], w))"

definition SHA256_process :: "SHA256 \<Rightarrow> SHA256" where
  "SHA256_process t = (case sha256_compress (s2 t) (w2 t) of (s, w) \<Rightarrow> t\<lparr>s2 := s, w2 := w\<rparr>)"

definition SHA256_put :: "u8 \<Rightarrow> SHA256 \<Rightarrow> SHA256" where
  "SHA256_put c t =
     (let i = unat (drop_bit 5 (len0 t)) mod 16;
          t = t\<lparr>w2 := (w2 t)[i := push_bit 8 (w2 t ! i) OR ucast c], len0 := len0 t + 8\<rparr>;
          t = (if len0 t = 0 then t\<lparr>lenhi := lenhi t + 1\<rparr> else t)
      in if unat (len0 t) mod 512 = 0 then SHA256_process t else t)"

definition SHA256_result :: "SHA256 \<Rightarrow> (u8 list \<times> SHA256) option" where
  "SHA256_result t =
     (case while_option (\<lambda>t. unat (len0 t) mod 512 \<noteq> 448) (SHA256_put 0) (SHA256_put 0x80 t) of
        None \<Rightarrow> None
      | Some u \<Rightarrow>
          (let u = fold SHA256_put (word_bytes (lenhi t) @ word_bytes (len0 t)) u
           in Some (concat (map word_bytes (s2 u)), SHA256_init u)))"

section \<open>The standard\<close>

text \<open>The padded message and its blocks of 16 words.\<close>

definition padding :: "nat \<Rightarrow> u8 list" where
  "padding n = 0x80 # replicate ((119 - n mod 64) mod 64) 0 @ be8 (8 * n mod 2 ^ 64)"

function blocks :: "u8 list \<Rightarrow> u32 list list" where
  "blocks p = (if p = [] then [] else be_words (take 64 p) # blocks (drop 64 p))"
  by pat_completeness auto
termination
  by (relation "measure length") auto

declare blocks.simps [simp del]

definition ROTL :: "nat \<Rightarrow> u32 \<Rightarrow> u32" where
  "ROTL n x = push_bit n x OR drop_bit (32 - n) x"

definition Ch :: "u32 \<Rightarrow> u32 \<Rightarrow> u32 \<Rightarrow> u32" where
  "Ch x y z = (x AND y) XOR (NOT x AND z)"

definition Parity :: "u32 \<Rightarrow> u32 \<Rightarrow> u32 \<Rightarrow> u32" where
  "Parity x y z = x XOR y XOR z"

definition Maj :: "u32 \<Rightarrow> u32 \<Rightarrow> u32 \<Rightarrow> u32" where
  "Maj x y z = (x AND y) XOR (x AND z) XOR (y AND z)"

function schedule1 :: "u32 list \<Rightarrow> nat \<Rightarrow> u32" where
  "schedule1 M t =
     (if t < 16 then M ! t
      else ROTL 1 (schedule1 M (t - 3) XOR schedule1 M (t - 8) XOR schedule1 M (t - 14) XOR schedule1 M (t - 16)))"
  by pat_completeness auto
termination
  by (relation "measure snd") auto

declare schedule1.simps [simp del]

definition fips_f1 :: "nat \<Rightarrow> u32 \<Rightarrow> u32 \<Rightarrow> u32 \<Rightarrow> u32" where
  "fips_f1 t = (if t < 20 then Ch else if t < 40 then Parity else if t < 60 then Maj else Parity)"

definition fips_k1 :: "nat \<Rightarrow> u32" where
  "fips_k1 t = (if t < 20 then 0x5a827999 else if t < 40 then 0x6ed9eba1 else if t < 60 then 0x8f1bbcdc else 0xca62c1d6)"

definition fips_round1 :: "u32 list \<Rightarrow> nat \<Rightarrow> u32 \<times> u32 \<times> u32 \<times> u32 \<times> u32 \<Rightarrow> u32 \<times> u32 \<times> u32 \<times> u32 \<times> u32" where
  "fips_round1 M t = (\<lambda>(a, b, c, d, e).
     (ROTL 5 a + fips_f1 t b c d + e + fips_k1 t + schedule1 M t, a, ROTL 30 b, c, d))"

definition fips_block1 :: "u32 list \<Rightarrow> u32 list \<Rightarrow> u32 list" where
  "fips_block1 M H =
     (case fold (fips_round1 M) [0 ..< 80] (H ! 0, H ! 1, H ! 2, H ! 3, H ! 4) of
        (a, b, c, d, e) \<Rightarrow> [a + H ! 0, b + H ! 1, c + H ! 2, d + H ! 3, e + H ! 4])"

definition fips_sha1 :: "u8 list \<Rightarrow> u8 list" where
  "fips_sha1 D =
     concat (map word_bytes (fold fips_block1 (blocks (D @ padding (length D)))
       [0x67452301, 0xefcdab89, 0x98badcfe, 0x10325476, 0xc3d2e1f0]))"

definition ROTR :: "nat \<Rightarrow> u32 \<Rightarrow> u32" where
  "ROTR n x = drop_bit n x OR push_bit (32 - n) x"

text \<open>The constants of SHA-256: the first 32 bits of the fractional parts of the cube roots of the first 64
  primes; \<open>cube_root n r x\<close> finds the integer root bit by bit.\<close>

definition first_primes :: "int list" where
  "first_primes = [2, 3, 5, 7, 11, 13, 17, 19, 23, 29, 31, 37, 41, 43, 47, 53, 59, 61, 67, 71, 73, 79, 83, 89, 97, 101,
     103, 107, 109, 113, 127, 131, 137, 139, 149, 151, 157, 163, 167, 173, 179, 181, 191, 193, 197, 199, 211, 223, 227,
     229, 233, 239, 241, 251, 257, 263, 269, 271, 277, 281, 283, 293, 307, 311]"

primrec cube_root :: "nat \<Rightarrow> int \<Rightarrow> int \<Rightarrow> int" where
  "cube_root 0 r x = r"
| "cube_root (Suc n) r x = (if (r + 2 ^ n) ^ 3 \<le> x then cube_root n (r + 2 ^ n) x else cube_root n r x)"

definition fips_k2 :: "nat \<Rightarrow> u32" where
  "fips_k2 t = of_int (cube_root 35 0 (first_primes ! t * 2 ^ 96))"

function schedule2 :: "u32 list \<Rightarrow> nat \<Rightarrow> u32" where
  "schedule2 M t =
     (if t < 16 then M ! t
      else (ROTR 17 (schedule2 M (t - 2)) XOR ROTR 19 (schedule2 M (t - 2)) XOR drop_bit 10 (schedule2 M (t - 2)))
        + schedule2 M (t - 7)
        + (ROTR 7 (schedule2 M (t - 15)) XOR ROTR 18 (schedule2 M (t - 15)) XOR drop_bit 3 (schedule2 M (t - 15)))
        + schedule2 M (t - 16))"
  by pat_completeness auto
termination
  by (relation "measure snd") auto

declare schedule2.simps [simp del]

definition fips_round2 :: "u32 list \<Rightarrow> nat \<Rightarrow> vars8 \<Rightarrow> vars8" where
  "fips_round2 M t = (\<lambda>(a, b, c, d, e, f, g, h).
     let T1 = h + (ROTR 6 e XOR ROTR 11 e XOR ROTR 25 e) + Ch e f g + fips_k2 t + schedule2 M t;
         T2 = (ROTR 2 a XOR ROTR 13 a XOR ROTR 22 a) + Maj a b c
     in (T1 + T2, a, b, c, d + T1, e, f, g))"

definition fips_block2 :: "u32 list \<Rightarrow> u32 list \<Rightarrow> u32 list" where
  "fips_block2 M H =
     (case fold (fips_round2 M) [0 ..< 64] (H ! 0, H ! 1, H ! 2, H ! 3, H ! 4, H ! 5, H ! 6, H ! 7) of
        (a, b, c, d, e, f, g, h) \<Rightarrow>
          [a + H ! 0, b + H ! 1, c + H ! 2, d + H ! 3, e + H ! 4, f + H ! 5, g + H ! 6, h + H ! 7])"

definition fips_sha256 :: "u8 list \<Rightarrow> u8 list" where
  "fips_sha256 D =
     concat (map word_bytes (fold fips_block2 (blocks (D @ padding (length D)))
       [0x6a09e667, 0xbb67ae85, 0x3c6ef372, 0xa54ff53a, 0x510e527f, 0x9b05688c, 0x1f83d9ab, 0x5be0cd19]))"

section \<open>The buffer of 16 words\<close>

text \<open>A byte shifted into the word it belongs to, and a run of them.\<close>

definition insert_byte :: "nat \<Rightarrow> u8 \<Rightarrow> u32 list \<Rightarrow> u32 list" where
  "insert_byte k c w = w[k div 4 := push_bit 8 (w ! (k div 4)) OR ucast c]"

primrec insert_bytes :: "nat \<Rightarrow> u8 list \<Rightarrow> u32 list \<Rightarrow> u32 list" where
  "insert_bytes k [] w = w"
| "insert_bytes k (c # cs) w = insert_bytes (k + 1) cs (insert_byte k c w)"

lemma length_insert_byte [simp]: "length (insert_byte k c w) = length w"
  by (simp add: insert_byte_def)

lemma length_insert_bytes [simp]: "length (insert_bytes k p w) = length w"
  by (induction p arbitrary: k w) auto

lemma four_shifts: "push_bit 8 (push_bit 8 (push_bit 8 (push_bit 8 (x :: u32) OR ucast a) OR ucast b) OR ucast c) OR ucast d = be4 a b c d"
proof -
  have "push_bit 32 x = 0" by (rule bit_word_eqI) (simp add: bit_push_bit_iff)
  then show ?thesis by (simp add: be4_def push_bit_or or.assoc)
qed

lemma insert_four:
  assumes "i < length w"
  shows "insert_bytes (4 * i) (a # b # c # d # cs) w = insert_bytes (4 * (i + 1)) cs (w[i := be4 a b c d])"
proof -
  have "Suc (4 * i) div 4 = i" "Suc (Suc (4 * i)) div 4 = i" "Suc (Suc (Suc (4 * i))) div 4 = i" by simp_all
  then have "insert_bytes (4 * i) (a # b # c # d # cs) w = insert_bytes (Suc (Suc (Suc (Suc (4 * i))))) cs (w[i := be4 a b c d])"
    using assms four_shifts [of "w ! i" a b c d] by (simp add: insert_byte_def del: push_bit_or)
  moreover have "Suc (Suc (Suc (Suc (4 * i)))) = 4 * (i + 1)" by simp
  ultimately show ?thesis by (simp only:)
qed

lemma insert_block:
  assumes "length p + 4 * i = 64" "length w = 16"
  shows "insert_bytes (4 * i) p w = take i w @ be_words p"
  using assms
proof (induction p arbitrary: i w rule: be_words.induct)
  case (1 a b c d r)
  then have i: "i < 16" by simp
  have "insert_bytes (4 * i) (a # b # c # d # r) w = insert_bytes (4 * (i + 1)) r (w[i := be4 a b c d])"
    by (rule insert_four) (use i 1 in simp)
  also have "\<dots> = take (i + 1) (w[i := be4 a b c d]) @ be_words r" by (rule "1.IH") (use 1 in simp_all)
  finally show ?case using i 1(3) by (simp add: take_Suc_conv_app_nth)
next
  case "2_1"
  then show ?case by simp
qed (simp_all, presburger+)

lemma length_be_words [simp]: "length (be_words p) = length p div 4"
  by (induction p rule: be_words.induct) simp_all

text \<open>How many zeros the padding has.\<close>

lemma pad_count:
  fixes n j :: nat
  defines "z \<equiv> (119 - n mod 64) mod 64"
  shows "j < z \<Longrightarrow> (n + 1 + j) mod 64 \<noteq> 56" "(n + 1 + z) mod 64 = 56"
proof -
  define r where "r = n mod 64"
  have r: "r < 64" by (simp add: r_def)
  have m: "(n + 1 + k) mod 64 = (r + 1 + k) mod 64" for k
    unfolding r_def add.assoc by (simp only: mod_add_left_eq)
  have "(j < z \<longrightarrow> (r + 1 + j) mod 64 \<noteq> 56) \<and> (r + 1 + z) mod 64 = 56"
  proof (cases "r \<le> 55")
    case True
    have "(55 - r + 64) mod 64 = 55 - r" by simp
    moreover have "119 - r = 55 - r + 64" using True by simp
    ultimately have z: "z = 55 - r" by (simp only: z_def r_def [symmetric])
    have "r + 1 + j < 56" if "j < z" using that z by linarith
    then show ?thesis using z True by auto
  next
    case False
    then have z: "z = 119 - r" using r by (simp add: z_def r_def [symmetric])
    have "(r + 1 + j) mod 64 \<noteq> 56" if "j < z"
    proof (cases "r + 1 + j < 64")
      case True
      then show ?thesis using False by simp
    next
      case nl: False
      then have "(r + 1 + j) mod 64 = (r + 1 + j - 64) mod 64" by (simp only: le_mod_geq not_less)
      moreover have "r + 1 + j - 64 < 56" using that z r nl by linarith
      ultimately show ?thesis by simp
    qed
    moreover have "r + 1 + z = 120" using z r by simp
    ultimately show ?thesis by simp
  qed
  then show "j < z \<Longrightarrow> (n + 1 + j) mod 64 \<noteq> 56" "(n + 1 + z) mod 64 = 56" unfolding m by blast+
qed

lemma word_index: "unat (drop_bit 5 (x :: 'a :: len word)) mod 16 = (unat x div 8 mod 64) div 4"
proof -
  have "(m div 8 mod 64) div 4 = m div 32 mod 16" for m :: nat
    using mod_mult2_eq [of "m div 8" 4 16] div_mult2_eq [of m 8 4] by simp
  moreover have "unat (drop_bit 5 x) = unat x div 32"
    unfolding unat_drop_bit_eq by (simp add: drop_bit_eq_div)
  ultimately show ?thesis by simp
qed

lemma fold_replicate: "fold f (replicate n x) s = (f x ^^ n) s"
  by (induction n arbitrary: s) (simp_all add: funpow_swap1)

lemma while_count:
  assumes "\<And>j. j < k \<Longrightarrow> b ((c ^^ j) s)" "\<not> b ((c ^^ k) s)"
  shows "while_option b c s = Some ((c ^^ k) s)"
  using assms
proof (induction k arbitrary: s)
  case 0
  then show ?case by (simp add: while_option_unfold)
next
  case (Suc k)
  have "while_option b c (c s) = Some ((c ^^ k) (c s))"
  proof (rule Suc.IH)
    show "b ((c ^^ j) (c s))" if "j < k" for j using Suc.prems(1) [of "Suc j"] that by (simp add: funpow_swap1)
    show "\<not> b ((c ^^ k) (c s))" using Suc.prems(2) by (simp add: funpow_swap1)
  qed
  moreover have "b s" using Suc.prems(1) [of 0] by simp
  ultimately show ?case by (subst while_option_unfold) (simp add: funpow_swap1)
qed

section \<open>The interface of a hash that works on blocks of 64 bytes\<close>

locale block_hash =
  fixes put :: "u8 \<Rightarrow> 's \<Rightarrow> 's" and hash :: "'s \<Rightarrow> 'h" and wbuf :: "'s \<Rightarrow> u32 list" and bits :: "'s \<Rightarrow> nat"
    and comp :: "u32 list \<Rightarrow> 'h \<Rightarrow> 'h" and ok :: "'s \<Rightarrow> bool"
  assumes ok_put: "ok s \<Longrightarrow> ok (put c s)"
    and ok_bits: "ok s \<Longrightarrow> bits s mod 8 = 0 \<and> bits s < 2 ^ 64 \<and> length (wbuf s) = 16"
    and bits_put: "ok s \<Longrightarrow> bits (put c s) = (bits s + 8) mod 2 ^ 64"
    and put_inside: "ok s \<Longrightarrow> (bits s + 8) mod 512 \<noteq> 0 \<Longrightarrow>
      hash (put c s) = hash s \<and> wbuf (put c s) = insert_byte (bits s div 8 mod 64) c (wbuf s)"
    and put_block: "ok s \<Longrightarrow> (bits s + 8) mod 512 = 0 \<Longrightarrow>
      hash (put c s) = comp (insert_byte (bits s div 8 mod 64) c (wbuf s)) (hash s)"
begin

lemma fold_ok: "ok s \<Longrightarrow> ok (fold put p s)"
  by (induction p arbitrary: s) (auto simp: ok_put)

lemma fold_bits: "ok s \<Longrightarrow> bits (fold put p s) = (bits s + 8 * length p) mod 2 ^ 64"
proof (induction p arbitrary: s)
  case Nil
  then show ?case using ok_bits [of s] by simp
next
  case (Cons c p)
  then show ?case by (simp add: ok_put bits_put mod_add_left_eq add.assoc)
qed

lemma position:
  assumes "ok s"
  shows "bits s div 8 mod 64 = (bits s mod 512) div 8" "(bits s + 8) mod 512 = 0 \<longleftrightarrow> bits s div 8 mod 64 = 63"
proof -
  obtain q where q: "bits s = 8 * q" using ok_bits [OF assms] by (auto simp: mod_eq_0_iff_dvd dvd_def)
  have 1: "(8 * q) mod 512 = 8 * (q mod 64)" using mult_mod_right [of 8 q 64] by simp
  have 2: "(8 * q + 8) mod 512 = 8 * ((q + 1) mod 64)" using mult_mod_right [of 8 "q + 1" 64] by (simp add: algebra_simps)
  show "bits s div 8 mod 64 = (bits s mod 512) div 8" by (simp add: q 1)
  have "(q + 1) mod 64 = 0 \<longleftrightarrow> q mod 64 = 63" by presburger
  then show "(bits s + 8) mod 512 = 0 \<longleftrightarrow> bits s div 8 mod 64 = 63" by (simp add: q 2)
qed

lemma position_put:
  assumes "ok s" "bits s div 8 mod 64 < 63"
  shows "bits (put c s) div 8 mod 64 = bits s div 8 mod 64 + 1"
proof -
  obtain q where q: "bits s = 8 * q" using ok_bits [OF assms(1)] by (auto simp: mod_eq_0_iff_dvd dvd_def)
  have "bits (put c s) = 8 * ((q + 1) mod 2 ^ 61)"
    using mult_mod_right [of 8 "q + 1" "2 ^ 61"] by (simp add: bits_put [OF assms(1)] q algebra_simps)
  then have "bits (put c s) div 8 mod 64 = (q + 1) mod 2 ^ 61 mod 64" by simp
  also have "\<dots> = (q + 1) mod 64" by (rule mod_mod_cancel) simp
  also have "\<dots> = q mod 64 + 1" using assms(2) by (simp add: q mod_Suc)
  finally show ?thesis by (simp add: q)
qed

lemma fold_inside:
  assumes "ok s" "bits s div 8 mod 64 + length p < 64"
  shows "hash (fold put p s) = hash s \<and> wbuf (fold put p s) = insert_bytes (bits s div 8 mod 64) p (wbuf s)"
  using assms
proof (induction p arbitrary: s)
  case (Cons c p)
  then have pos: "bits s div 8 mod 64 < 63" by simp
  have n: "(bits s + 8) mod 512 \<noteq> 0" using position(2) [OF Cons.prems(1)] pos by simp
  have "bits (put c s) div 8 mod 64 + length p < 64" using position_put [OF Cons.prems(1) pos] Cons.prems(2) by simp
  from Cons.IH [OF ok_put [OF Cons.prems(1)] this]
  show ?case using put_inside [OF Cons.prems(1) n] position_put [OF Cons.prems(1) pos] by simp
qed simp

lemma fold_block:
  assumes "ok s" "bits s mod 512 = 0" "length p = 64"
  shows "hash (fold put p s) = comp (be_words p) (hash s)"
proof -
  obtain q c where p: "p = q @ [c]" "length q = 63" using assms(3) by (cases p rule: rev_exhaust) auto
  have 0: "bits s div 8 mod 64 = 0" using assms(2) position(1) [OF assms(1)] by simp
  have i: "hash (fold put q s) = hash s" "wbuf (fold put q s) = insert_bytes 0 q (wbuf s)"
    using fold_inside [OF assms(1), of q] 0 p(2) by auto
  let ?s = "fold put q s"
  have ok: "ok ?s" by (rule fold_ok [OF assms(1)])
  have b: "bits ?s div 8 mod 64 = 63"
  proof -
    obtain k where k: "bits s = 512 * k" using assms(2) by (auto simp: mod_eq_0_iff_dvd dvd_def)
    have "bits ?s = 8 * ((64 * k + 63) mod 2 ^ 61)"
      using mult_mod_right [of 8 "64 * k + 63" "2 ^ 61"] by (simp add: fold_bits [OF assms(1)] p(2) k)
    then have "bits ?s div 8 mod 64 = (64 * k + 63) mod 2 ^ 61 mod 64" by simp
    also have "\<dots> = (64 * k + 63) mod 64" by (rule mod_mod_cancel) simp
    finally show ?thesis by simp
  qed
  then have "hash (put c ?s) = comp (insert_byte 63 c (insert_bytes 0 q (wbuf s))) (hash s)"
    using put_block [OF ok] position(2) [OF ok] i by simp
  moreover have "insert_byte 63 c (insert_bytes 0 q (wbuf s)) = insert_bytes 0 p (wbuf s)"
  proof -
    have "insert_bytes k (q @ [c]) w = insert_byte (k + length q) c (insert_bytes k q w)" for k w
      by (induction q arbitrary: k w) auto
    then show ?thesis by (simp add: p)
  qed
  moreover have "insert_bytes 0 p (wbuf s) = be_words p"
    using insert_block [of p 0 "wbuf s"] assms(3) ok_bits [OF assms(1)] by simp
  ultimately show ?thesis by (simp add: p(1))
qed

lemma fold_blocks:
  assumes "ok s" "bits s mod 512 = 0" "length p mod 64 = 0"
  shows "hash (fold put p s) = fold comp (blocks p) (hash s)"
  using assms
proof (induction p arbitrary: s rule: blocks.induct)
  case (1 p)
  show ?case
  proof (cases "p = []")
    case True
    then show ?thesis by (subst blocks.simps) simp
  next
    case False
    let ?a = "take 64 p" and ?b = "drop 64 p"
    have "64 \<le> length p"
      using False "1.prems"(3) by (metis dvd_imp_le length_greater_0_conv mod_eq_0_iff_dvd)
    then have len: "length ?a = 64" "length ?b mod 64 = 0" using "1.prems"(3) by (simp_all add: le_mod_geq [symmetric])
    have "bits (fold put ?a s) mod 512 = 0"
    proof -
      obtain k where k: "bits s = 512 * k" using "1.prems"(2) by (auto simp: mod_eq_0_iff_dvd dvd_def)
      have "bits (fold put ?a s) mod 512 = (512 * k + 512) mod 2 ^ 64 mod 512"
        using fold_bits [OF "1.prems"(1), of ?a] len(1) by (simp add: k)
      also have "\<dots> = (512 * k + 512) mod 512" by (rule mod_mod_cancel) simp
      finally show ?thesis by simp
    qed
    from "1.IH" [OF False fold_ok [OF "1.prems"(1)] this len(2)]
    have "hash (fold put ?b (fold put ?a s)) = fold comp (blocks ?b) (comp (be_words ?a) (hash s))"
      using fold_block [OF "1.prems"(1,2) len(1)] by simp
    moreover have "fold put p s = fold put ?b (fold put ?a s)"
      by (metis append_take_drop_id fold_append comp_apply)
    ultimately show ?thesis using False by (subst blocks.simps) simp
  qed
qed

end

context block_hash
begin

lemma bits_mod:
  assumes "ok s" "bits s = 8 * n mod 2 ^ 64"
  shows "bits (fold put p s) mod 512 = 8 * ((n + length p) mod 64)" "bits (fold put p s) = 8 * (n + length p) mod 2 ^ 64"
proof -
  show 1: "bits (fold put p s) = 8 * (n + length p) mod 2 ^ 64"
    unfolding fold_bits [OF assms(1)] assms(2) by (simp only: distrib_left mod_add_left_eq)
  have "bits (fold put p s) mod 512 = 8 * (n + length p) mod 512" unfolding 1 by (rule mod_mod_cancel) simp
  also have "\<dots> = 8 * ((n + length p) mod 64)" using mult_mod_right [of 8 "n + length p" 64] by simp
  finally show "bits (fold put p s) mod 512 = 8 * ((n + length p) mod 64)" .
qed

text \<open>The loop that puts zeros stops after the number of zeros of the standard.\<close>

lemma pad_zeros:
  assumes "ok s" "bits s = 8 * n mod 2 ^ 64"
    and b: "\<And>t. ok t \<Longrightarrow> b t \<longleftrightarrow> bits t mod 512 \<noteq> 448"
  shows "while_option b (put 0) (put 0x80 s) = Some (fold put (0x80 # replicate ((119 - n mod 64) mod 64) 0) s)"
proof -
  let ?z = "(119 - n mod 64) mod 64"
  have st: "(put 0 ^^ j) (put 0x80 s) = fold put (0x80 # replicate j 0) s" for j by (simp add: fold_replicate)
  have b': "b (fold put (0x80 # replicate j 0) s) \<longleftrightarrow> (n + 1 + j) mod 64 \<noteq> 56" for j
    using b [OF fold_ok [OF assms(1), of "0x80 # replicate j 0"]] bits_mod(1) [OF assms(1,2), of "0x80 # replicate j 0"]
    by (simp del: fold_simps)
  have "(n + 1 + j) mod 64 \<noteq> 56" if "j < ?z" for j using pad_count(1) [OF that] .
  moreover have "(n + 1 + ?z) mod 64 = 56" by (rule pad_count(2))
  ultimately have "while_option b (put 0) (put 0x80 s) = Some ((put 0 ^^ ?z) (put 0x80 s))"
    by (intro while_count) (unfold st b', blast+)
  then show ?thesis unfolding st .
qed

lemma length_padding: "(length D + length (padding (length D))) mod 64 = 0"
proof -
  have "(length D + 1 + (119 - length D mod 64) mod 64 + 8) mod 64 = (56 + 8) mod 64"
    by (simp only: mod_add_left_eq [of "length D + 1 + (119 - length D mod 64) mod 64" 64 8, symmetric] pad_count(2))
  then show ?thesis by (simp add: padding_def be8_def ac_simps)
qed

lemma hash_of_padded:
  assumes "ok s" "bits s = 0"
  shows "hash (fold put (D @ padding (length D)) s) = fold comp (blocks (D @ padding (length D))) (hash s)"
  by (rule fold_blocks) (use assms length_padding [of D] in simp_all)

end

section \<open>SHA-1\<close>

lemma sha1_round_length: "length (snd (sha1_round i ((a, b, c, d, e), w))) = length w"
  by (simp add: sha1_round_def sha1_w_def Let_def)

lemma sha1_rounds_length: "length (snd (fold sha1_round is x)) = length (snd x)"
  by (induction "is" arbitrary: x) (simp_all, metis sha1_round_length prod.collapse)

lemma sha1_compress_length: "length w = 16 \<Longrightarrow> length (snd (sha1_compress h w)) = 16"
  using sha1_rounds_length [of "[0 ..< 80]" "((h ! 0, h ! 1, h ! 2, h ! 3, h ! 4), w)"]
  by (auto simp: sha1_compress_def split: prod.splits)

interpretation sha1: block_hash SHA1_put h1 w1 "\<lambda>s. unat (len1 s)" "\<lambda>w h. fst (sha1_compress h w)"
  "\<lambda>s. length (w1 s) = 16 \<and> unat (len1 s) mod 8 = 0"
proof (unfold_locales, goal_cases)
  case (1 s c)
  then have w: "length (snd (sha1_compress (h1 s) ((w1 s)[i := x]))) = 16" for i x by (simp add: sha1_compress_length)
  have "unat (len1 s + 8) mod 8 = 0" using 1 by (simp add: unat_word_ariths mod_mod_cancel)
  then show ?case using 1 w by (auto simp: SHA1_put_def SHA1_process_def Let_def split_beta)
next
  case (2 s)
  then show ?case using unsigned_less [of "len1 s", where ?'a = nat] by simp
next
  case (3 s c)
  then show ?case by (simp add: SHA1_put_def SHA1_process_def Let_def unat_word_ariths split: prod.splits)
next
  case (4 s c)
  then have "unat (len1 s + 8) mod 512 \<noteq> 0" by (simp add: unat_word_ariths mod_mod_cancel)
  then show ?case by (simp add: SHA1_put_def Let_def insert_byte_def word_index)
next
  case (5 s c)
  then have "unat (len1 s + 8) mod 512 = 0" by (simp add: unat_word_ariths mod_mod_cancel)
  then show ?case by (simp add: SHA1_put_def SHA1_process_def Let_def insert_byte_def word_index split: prod.splits)
qed

text \<open>The circular buffer before round \<open>i\<close> holds the last 16 words of the schedule.\<close>

definition sched_ok :: "(nat \<Rightarrow> u32) \<Rightarrow> nat \<Rightarrow> u32 list \<Rightarrow> bool" where
  "sched_ok W i w \<longleftrightarrow> length w = 16 \<and> (\<forall>j. j < max i 16 \<and> max i 16 \<le> j + 16 \<longrightarrow> w ! (j mod 16) = W j)"

lemma sched_ok_start: "length M = 16 \<Longrightarrow> (\<And>j. j < 16 \<Longrightarrow> W j = M ! j) \<Longrightarrow> sched_ok W 0 M"
  by (simp add: sched_ok_def)

lemma sched_ok_step:
  assumes "sched_ok W i w" "16 \<le> i" "x = W i"
  shows "sched_ok W (i + 1) (w[i mod 16 := x])"
proof -
  have "(w[i mod 16 := x]) ! (j mod 16) = W j" if j: "j < i + 1" "i + 1 \<le> j + 16" for j
  proof (cases "j = i")
    case False
    then have "\<not> 16 dvd i - j" using j by (auto dest: dvd_imp_le)
    then have "j mod 16 \<noteq> i mod 16" using j False mod_eq_dvd_iff_nat [of j i 16] by force
    then show ?thesis using assms(1,2) j False by (auto simp: sched_ok_def)
  qed (use assms in \<open>simp add: sched_ok_def\<close>)
  then show ?thesis using assms(1,2) by (auto simp: sched_ok_def)
qed

lemma sched_ok_nth: "sched_ok W i w \<Longrightarrow> j < max i 16 \<Longrightarrow> max i 16 \<le> j + 16 \<Longrightarrow> w ! (j mod 16) = W j"
  by (simp add: sched_ok_def)

lemma sched_ok_wrap: "sched_ok W i w \<Longrightarrow> 16 \<le> i \<Longrightarrow> w ! (i mod 16) = W (i - 16)"
  using sched_ok_nth [of W i w "i - 16"] by (simp add: le_mod_geq)

lemma sha1_w_ok:
  assumes "sched_ok (schedule1 M) i w"
  shows "sched_ok (schedule1 M) (i + 1) (sha1_w i w)" "sha1_w i w ! (i mod 16) = schedule1 M i"
proof -
  have "sched_ok (schedule1 M) (i + 1) (sha1_w i w) \<and> sha1_w i w ! (i mod 16) = schedule1 M i"
  proof (cases "16 \<le> i")
    case True
    define x where "x = w ! (i mod 16) XOR (w ! ((i - 3) mod 16) XOR w ! ((i - 8) mod 16) XOR w ! ((i - 14) mod 16))"
    have "x = schedule1 M (i - 16) XOR (schedule1 M (i - 3) XOR schedule1 M (i - 8) XOR schedule1 M (i - 14))"
      using True sched_ok_wrap [OF assms True] sched_ok_nth [OF assms, of "i - 3"] sched_ok_nth [OF assms, of "i - 8"]
        sched_ok_nth [OF assms, of "i - 14"] by (simp add: x_def)
    then have x: "ROTL 1 x = schedule1 M i" using True by (simp add: schedule1.simps [of M i] xor.assoc xor.commute xor.left_commute)
    have w: "sha1_w i w = w[i mod 16 := ROTL 1 x]"
      unfolding sha1_w_def ROTL_def x_def [symmetric] using True by (simp add: Let_def)
    show ?thesis unfolding w using sched_ok_step [OF assms True x] assms x by (simp add: sched_ok_def)
  next
    case False
    then have "sha1_w i w = w" by (simp add: sha1_w_def)
    then show ?thesis using False assms by (simp add: sched_ok_def)
  qed
  then show "sched_ok (schedule1 M) (i + 1) (sha1_w i w)" "sha1_w i w ! (i mod 16) = schedule1 M i" by auto
qed

lemma word_functions:
  "d XOR (b AND (c XOR d)) = Ch b c d" "(b AND c) OR (d AND (b OR c)) = Maj b c d"
  "(a AND b) XOR (c AND (a XOR b)) = Maj a b c"
  unfolding Ch_def Maj_def by (rule bit_word_eqI; auto simp: bit_simps)+

lemma sha1_round_fips:
  assumes "sched_ok (schedule1 M) i w" "i < 80"
  shows "\<exists>w'. sha1_round i (v, w) = (fips_round1 M i v, w') \<and> sched_ok (schedule1 M) (i + 1) w'"
proof -
  obtain a b c d e where v: "v = (a, b, c, d, e)" by (metis prod_cases5)
  have f: "(if 20 \<le> i mod 40 then b XOR c XOR d else if 40 \<le> i then (b AND c) OR (d AND (b OR c)) else d XOR (b AND (c XOR d)))
      = fips_f1 i b c d"
  proof -
    consider "i < 20" | "20 \<le> i" "i < 40" | "40 \<le> i" "i < 60" | "60 \<le> i" using assms(2) by linarith
    then show ?thesis
      using assms(2) by cases (auto simp: fips_f1_def word_functions Parity_def mod_if)
  qed
  have k: "sha1_k i = fips_k1 i"
  proof -
    consider "i < 20" | "20 \<le> i" "i < 40" | "40 \<le> i" "i < 60" | "60 \<le> i" using assms(2) by linarith
    then show ?thesis
    proof cases
      case 2
      then have "i div 20 = 1" by (simp add: div_nat_eqI)
      then show ?thesis using 2 by (simp add: sha1_k_def fips_k1_def)
    next
      case 3
      then have "i div 20 = 2" by (simp add: div_nat_eqI)
      then show ?thesis using 3 by (simp add: sha1_k_def fips_k1_def)
    next
      case 4
      then have "i div 20 = 3" using assms(2) by (simp add: div_nat_eqI)
      then show ?thesis using 4 by (simp add: sha1_k_def fips_k1_def)
    qed (simp add: sha1_k_def fips_k1_def)
  qed
  have "sha1_round i (v, w) = (fips_round1 M i v, sha1_w i w)"
    using f k sha1_w_ok(2) [OF assms(1)]
    by (simp add: sha1_round_def fips_round1_def v Let_def ROTL_def algebra_simps)
  then show ?thesis using sha1_w_ok(1) [OF assms(1)] by blast
qed

lemma sha1_rounds_fips:
  assumes "length M = 16" "n \<le> 80"
  shows "\<exists>w'. fold sha1_round [0 ..< n] (v, M) = (fold (fips_round1 M) [0 ..< n] v, w') \<and> sched_ok (schedule1 M) n w'"
  using assms(2)
proof (induction n)
  case 0
  have "schedule1 M j = M ! j" if "j < 16" for j using that by (subst schedule1.simps) simp
  then show ?case using sched_ok_start [OF assms(1), of "schedule1 M"] by simp
next
  case (Suc n)
  then obtain w' where "fold sha1_round [0 ..< n] (v, M) = (fold (fips_round1 M) [0 ..< n] v, w')" "sched_ok (schedule1 M) n w'"
    by auto
  then show ?case using sha1_round_fips [of M n w' "fold (fips_round1 M) [0 ..< n] v"] Suc.prems by auto
qed

lemma sha1_compress_fips: "length M = 16 \<Longrightarrow> fst (sha1_compress H M) = fips_block1 M H"
  using sha1_rounds_fips [of M 80 "(H ! 0, H ! 1, H ! 2, H ! 3, H ! 4)"]
  by (auto simp: sha1_compress_def fips_block1_def add.commute split: prod.splits)

lemma SHA1_put_len: "len1 (SHA1_put c s) = len1 s + 8"
  by (simp add: SHA1_put_def SHA1_process_def Let_def split: prod.splits)

lemma SHA1_fold_len: "len1 (fold SHA1_put p s) = len1 s + of_nat (8 * length p)"
  by (induction p arbitrary: s) (simp_all add: SHA1_put_len algebra_simps)

lemma SHA1_fold_block:
  assumes ok: "length (w1 s) = 16 \<and> unat (len1 s) mod 8 = 0" and al: "unat (len1 s) mod 512 = 0" and p: "length p = 64"
  shows "fold SHA1_put p s = SHA1_process (s\<lparr>w1 := be_words p, len1 := len1 s + 512\<rparr>)"
proof -
  obtain q c where q: "p = q @ [c]" "length q = 63" using p by (cases p rule: rev_exhaust) auto
  have 0: "unat (len1 s) div 8 mod 64 = 0" using sha1.position(1) [OF ok] al by simp
  have "h1 (fold SHA1_put q s) = h1 s \<and> w1 (fold SHA1_put q s) = insert_bytes 0 q (w1 s)"
    using sha1.fold_inside [OF ok, of q] 0 q(2) by simp
  moreover have len: "len1 (fold SHA1_put q s) = len1 s + 504" by (simp add: SHA1_fold_len q(2))
  ultimately have st: "fold SHA1_put q s = \<lparr>len1 = len1 s + 504, h1 = h1 s, w1 = insert_bytes 0 q (w1 s)\<rparr>"
    by (cases "fold SHA1_put q s") simp
  have l: "unat (len1 s + 504) = unat (len1 s) + 504" 
  proof -
    have "unat (len1 s) + 504 < 2 ^ 64"
    proof -
      obtain k where k: "unat (len1 s) = 512 * k" using al by (auto simp: mod_eq_0_iff_dvd dvd_def)
      have "512 * k < 2 ^ 64" using unsigned_less [of "len1 s", where ?'a = nat] k by simp
      then show ?thesis unfolding k by simp
    qed
    then show ?thesis by (simp add: unat_word_ariths)
  qed
  have m: "unat (len1 s + 504) mod 512 = 504" "unat (len1 s + 504 + 8) mod 512 = 0"
    using al l by (auto simp: unat_word_ariths mod_mod_cancel mod_add_eq [symmetric, of _ 512 504] mod_add_eq [symmetric, of _ 512 512])
  have i: "unat (drop_bit 5 (len1 s + 504)) mod 16 = 15"
  proof -
    have "(unat (len1 s + 504) mod 512) div 8 = 63" using m(1) by simp
    moreover have "unat (len1 s + 504) div 8 mod 64 = (unat (len1 s + 504) mod 512) div 8"
      using mod_mult2_eq [of "unat (len1 s + 504)" 8 64] by simp
    ultimately show ?thesis by (simp add: word_index)
  qed
  have "insert_bytes 0 (q @ [c]) w = insert_byte (length q) c (insert_bytes 0 q w)" for w
  proof -
    have "insert_bytes k (q @ [c]) w = insert_byte (k + length q) c (insert_bytes k q w)" for k w
      by (induction q arbitrary: k w) auto
    from this [of 0] show ?thesis by simp
  qed
  then have b: "insert_byte 63 c (insert_bytes 0 q (w1 s)) = be_words p"
    using insert_block [of p 0 "w1 s"] p ok q by simp
  have "fold SHA1_put p s = SHA1_put c \<lparr>len1 = len1 s + 504, h1 = h1 s, w1 = insert_bytes 0 q (w1 s)\<rparr>"
    unfolding q(1) by (simp add: st)
  also have "\<dots> = SHA1_process \<lparr>len1 = len1 s + 504 + 8, h1 = h1 s, w1 = be_words p\<rparr>"
    using i m(2) b by (simp add: SHA1_put_def Let_def insert_byte_def)
  also have "len1 s + 504 + 8 = len1 s + 512" by simp
  finally show ?thesis by (cases s) simp
qed

lemma SHA1_blocks_put:
  assumes "length (w1 s) = 16 \<and> unat (len1 s) mod 8 = 0" "length p < 64 \<or> unat (len1 s) mod 512 = 0"
  shows "(case SHA1_blocks p s of (p, s) \<Rightarrow> fold SHA1_put p s) = fold SHA1_put p s"
  using assms
proof (induction p s rule: SHA1_blocks.induct)
  case (1 p s)
  show ?case
  proof (cases "64 \<le> length p")
    case True
    let ?t = "SHA1_process (s\<lparr>w1 := be_words (take 64 p), len1 := len1 s + 512\<rparr>)"
    have al: "unat (len1 s) mod 512 = 0" using True "1.prems"(2) by simp
    have st: "fold SHA1_put (take 64 p) s = ?t" using SHA1_fold_block [OF "1.prems"(1) al] True by simp
    have ok: "length (w1 ?t) = 16 \<and> unat (len1 ?t) mod 8 = 0" using sha1.fold_ok [OF "1.prems"(1), of "take 64 p"] st by simp
    have "unat (len1 ?t) mod 512 = 0" using al by (simp add: SHA1_process_def unat_word_ariths mod_mod_cancel split: prod.splits)
    with "1.IH" [OF True ok] have "(case SHA1_blocks (drop 64 p) ?t of (p, s) \<Rightarrow> fold SHA1_put p s) = fold SHA1_put (drop 64 p) ?t" by simp
    also have "\<dots> = fold SHA1_put p s" unfolding st [symmetric] by (metis append_take_drop_id fold_append comp_apply)
    finally show ?thesis using True by (subst SHA1_blocks.simps) simp
  next
    case False
    then show ?thesis by (subst SHA1_blocks.simps) simp
  qed
qed

lemma SHA1_align_put:
  assumes "length (w1 s) = 16 \<and> unat (len1 s) mod 8 = 0" "SHA1_align p s = (p', s')"
  shows "fold SHA1_put p s = fold SHA1_put p' s' \<and> (length (w1 s') = 16 \<and> unat (len1 s') mod 8 = 0) \<and>
    (p' = [] \<or> unat (len1 s') mod 512 = 0)"
  using assms
proof (induction p s rule: SHA1_align.induct)
  case (2 c p s)
  then show ?case using sha1.ok_put [OF "2.prems"(1), of c] by (auto split: if_splits)
qed auto

lemma SHA1_write_put:
  assumes "length (w1 s) = 16 \<and> unat (len1 s) mod 8 = 0"
  shows "SHA1_write p s = fold SHA1_put p s"
proof -
  obtain p' s' where a: "SHA1_align p s = (p', s')" by (metis surj_pair)
  have "(case SHA1_blocks p' s' of (p, s) \<Rightarrow> fold SHA1_put p s) = fold SHA1_put p' s'"
    by (rule SHA1_blocks_put) (use SHA1_align_put [OF assms a] in auto)
  then show ?thesis using SHA1_align_put [OF assms a] by (simp add: SHA1_write_def a Let_def)
qed

lemma SHA1_writes_put:
  "length (w1 s) = 16 \<and> unat (len1 s) mod 8 = 0 \<Longrightarrow> fold SHA1_write Ds s = fold SHA1_put (concat Ds) s"
  by (induction Ds arbitrary: s) (simp_all add: SHA1_write_put sha1.fold_ok)

lemma blocks_length:
  assumes "length p mod 64 = 0" "M \<in> set (blocks p)"
  shows "length M = 16"
  using assms
proof (induction p rule: blocks.induct)
  case (1 p)
  show ?case
  proof (cases "p = []")
    case True
    then show ?thesis using 1(3) by (simp add: blocks.simps)
  next
    case False
    then have "64 \<le> length p" using 1(2) by (metis dvd_imp_le length_greater_0_conv mod_eq_0_iff_dvd)
    then have "length (take 64 p) = 64" "length (drop 64 p) mod 64 = 0" using 1(2) by (simp_all add: le_mod_geq [symmetric])
    then show ?thesis using 1(1) [OF False] 1(3) False by (subst (asm) (2) blocks.simps) auto
  qed
qed

lemma SHA1_start: "length (w1 new_SHA1) = 16 \<and> unat (len1 new_SHA1) mod 8 = 0" "unat (len1 new_SHA1) = 0"
  by (simp_all add: new_SHA1_def SHA1_init_def)

lemma SHA1_result_put: "SHA1_result (fold SHA1_put D new_SHA1) = Some (fips_sha1 D, new_SHA1)"
proof -
  define t where "t = fold SHA1_put D new_SHA1"
  have ok: "length (w1 t) = 16 \<and> unat (len1 t) mod 8 = 0"
    unfolding t_def by (rule sha1.fold_ok [OF SHA1_start(1)])
  have bits: "unat (len1 t) = 8 * length D mod 2 ^ 64"
    using sha1.fold_bits [OF SHA1_start(1), of D] SHA1_start(2) by (simp add: t_def)
  define u where "u = fold SHA1_put (padding (length D)) t"
  have "while_option (\<lambda>t. unat (len1 t) mod 512 \<noteq> 448) (SHA1_put 0) (SHA1_put 0x80 t)
      = Some (fold SHA1_put (0x80 # replicate ((119 - length D mod 64) mod 64) 0) t)"
    by (rule sha1.pad_zeros [OF ok bits]) simp
  then have "SHA1_result t = Some (concat (map word_bytes (h1 u)), SHA1_init u)"
    by (simp add: SHA1_result_def Let_def u_def padding_def bits)
  moreover have "SHA1_init u = new_SHA1" by (cases u) (simp add: SHA1_init_def new_SHA1_def)
  moreover have "h1 u = fold fips_block1 (blocks (D @ padding (length D)))
      [0x67452301, 0xefcdab89, 0x98badcfe, 0x10325476, 0xc3d2e1f0]"
  proof -
    have "h1 u = fold (\<lambda>w h. fst (sha1_compress h w)) (blocks (D @ padding (length D))) (h1 new_SHA1)"
      using sha1.hash_of_padded [OF SHA1_start, of D] by (simp add: u_def t_def)
    also have "\<dots> = fold fips_block1 (blocks (D @ padding (length D))) (h1 new_SHA1)"
    proof (rule fold_cong [OF refl refl])
      fix M assume "M \<in> set (blocks (D @ padding (length D)))"
      then have "length M = 16" using blocks_length sha1.length_padding [of D] by (metis length_append)
      then show "(\<lambda>h. fst (sha1_compress h M)) = fips_block1 M" using sha1_compress_fips by blast
    qed
    finally show ?thesis by (simp add: new_SHA1_def SHA1_init_def)
  qed
  ultimately show ?thesis by (simp add: fips_sha1_def t_def)
qed

lemma length_fips_sha1: "length (fips_sha1 D) = 20"
proof -
  have "length (fold fips_block1 Ms H) = 5" if "length H = 5" for Ms H
    using that by (induction Ms arbitrary: H) (auto simp: fips_block1_def split: prod.splits)
  then have "length (fold fips_block1 (blocks (D @ padding (length D)))
      [0x67452301, 0xefcdab89, 0x98badcfe, 0x10325476, 0xc3d2e1f0]) = 5" by simp
  then show ?thesis by (auto simp: fips_sha1_def length_Suc_conv numeral_eq_Suc word_bytes_def)
qed

text \<open>C21. \<open>SHA1\<close> computes the standard's function: for every message, written in pieces of any sizes
  (whole blocks take the fast path of \<open>write\<close>), \<open>result\<close> returns the hash FIPS 180-4 defines for it and
  leaves the object as new.\<close>

theorem SHA1_is_fips: "SHA1_result (fold SHA1_write Ds new_SHA1) = Some (fips_sha1 (concat Ds), new_SHA1)"
  by (simp add: SHA1_writes_put [OF SHA1_start(1)] SHA1_result_put)

section \<open>SHA-256\<close>

lemma sha256_rounds_length: "length (snd (fold sha256_round is x)) = length (snd x)"
proof (induction "is" arbitrary: x)
  case (Cons i "is")
  have "length (snd (sha256_round i x)) = length (snd x)"
    by (cases x) (simp add: sha256_round_def sha256_m_def Let_def split: prod.splits)
  then show ?case using Cons by simp
qed simp

lemma sha256_compress_length: "length w = 16 \<Longrightarrow> length (snd (sha256_compress s w)) = 16"
  using sha256_rounds_length [of "[0 ..< 64]" "((s ! 0, s ! 1, s ! 2, s ! 3, s ! 4, s ! 5, s ! 6, s ! 7), w)"]
  by (auto simp: sha256_compress_def split: prod.splits)

text \<open>The length in two words: the carry is the wrap to zero, because the length is a multiple of 8.\<close>

definition bits256 :: "SHA256 \<Rightarrow> nat" where
  "bits256 t = unat (len0 t) + 2 ^ 32 * unat (lenhi t)"

definition ok256 :: "SHA256 \<Rightarrow> bool" where
  "ok256 t \<longleftrightarrow> length (w2 t) = 16 \<and> unat (len0 t) mod 8 = 0"

lemma bits256_mod:
  "bits256 t mod 512 = unat (len0 t) mod 512" "bits256 t mod 8 = unat (len0 t) mod 8"
  "bits256 t div 8 mod 64 = unat (len0 t) div 8 mod 64"
proof -
  have 1: "bits256 t = unat (len0 t) + 512 * (8388608 * unat (lenhi t))" by (simp add: bits256_def)
  show m: "bits256 t mod 512 = unat (len0 t) mod 512" unfolding 1 by (rule mod_mult_self2)
  have 2: "bits256 t = unat (len0 t) + 8 * (536870912 * unat (lenhi t))" by (simp add: bits256_def)
  show "bits256 t mod 8 = unat (len0 t) mod 8" unfolding 2 by (rule mod_mult_self2)
  have "x div 8 mod 64 = (x mod 512) div 8" for x :: nat using mod_mult2_eq [of x 8 64] by simp
  then show "bits256 t div 8 mod 64 = unat (len0 t) div 8 mod 64" by (simp add: m)
qed

lemma bits256_add:
  assumes "unat (len0 t) mod 8 = 0"
  shows "unat (len0 t + 8) + 2 ^ 32 * unat (if len0 t + 8 = 0 then lenhi t + 1 else lenhi t) = (bits256 t + 8) mod 2 ^ 64"
proof -
  have lt: "unat (len0 t) < 2 ^ 32" "unat (lenhi t) < 2 ^ 32"
    using unsigned_less [of "len0 t", where ?'a = nat] unsigned_less [of "lenhi t", where ?'a = nat] by simp_all
  have u: "unat (len0 t + 8) = (unat (len0 t) + 8) mod 2 ^ 32" by (simp add: unat_word_ariths)
  show ?thesis
  proof (cases "len0 t + 8 = 0")
    case True
    then have "(unat (len0 t) + 8) mod 2 ^ 32 = 0" using u by simp
    then obtain k where k: "unat (len0 t) + 8 = 2 ^ 32 * k" by (auto simp: mod_eq_0_iff_dvd dvd_def)
    then have "k = 1" using lt(1) by (cases k) auto
    then have l: "unat (len0 t) + 8 = 2 ^ 32" using k by simp
    then have "bits256 t + 8 = 2 ^ 32 * (unat (lenhi t) + 1)" by (simp add: bits256_def)
    moreover have "(2 ^ 32 * (unat (lenhi t) + 1)) mod 2 ^ 64 = 2 ^ 32 * ((unat (lenhi t) + 1) mod 2 ^ 32)"
      using mult_mod_right [of "2 ^ 32" "unat (lenhi t) + 1" "2 ^ 32"] by simp
    ultimately show ?thesis using True by (simp add: unat_word_ariths)
  next
    case False
    then have "unat (len0 t + 8) \<noteq> 0" by (metis unat_eq_0)
    then have "unat (len0 t) + 8 \<noteq> 2 ^ 32" using u by auto
    moreover obtain q where q: "unat (len0 t) = 8 * q" using assms by (auto simp: mod_eq_0_iff_dvd dvd_def)
    ultimately have "q + 1 \<noteq> 536870912" "q < 536870912" using lt(1) by auto
    then have l: "unat (len0 t) + 8 < 2 ^ 32" using q by simp
    then have "bits256 t + 8 < 2 ^ 64" using lt(2) by (simp add: bits256_def)
    then show ?thesis using False l u by (simp add: bits256_def)
  qed
qed

lemma SHA256_put_parts:
  "s2 (SHA256_put c t) = (if unat (len0 t + 8) mod 512 = 0
     then fst (sha256_compress (s2 t) (insert_byte (unat (len0 t) div 8 mod 64) c (w2 t))) else s2 t)"
  "w2 (SHA256_put c t) = (if unat (len0 t + 8) mod 512 = 0
     then snd (sha256_compress (s2 t) (insert_byte (unat (len0 t) div 8 mod 64) c (w2 t)))
     else insert_byte (unat (len0 t) div 8 mod 64) c (w2 t))"
  "len0 (SHA256_put c t) = len0 t + 8"
  "lenhi (SHA256_put c t) = (if len0 t + 8 = 0 then lenhi t + 1 else lenhi t)"
  by (simp_all add: SHA256_put_def SHA256_process_def Let_def insert_byte_def word_index split: prod.splits)

interpretation sha256: block_hash SHA256_put s2 w2 bits256 "\<lambda>w s. fst (sha256_compress s w)" ok256
proof (unfold_locales, goal_cases)
  case (1 s c)
  then show ?case
    by (auto simp: ok256_def SHA256_put_parts sha256_compress_length unat_word_ariths mod_mod_cancel)
next
  case (2 s)
  then have "bits256 s < 2 ^ 64"
    using unsigned_less [of "len0 s", where ?'a = nat] unsigned_less [of "lenhi s", where ?'a = nat] by (simp add: bits256_def)
  then show ?case using 2 by (simp add: ok256_def bits256_mod)
next
  case (3 s c)
  then show ?case using bits256_add [of s] by (simp add: ok256_def bits256_def SHA256_put_parts)
next
  case (4 s c)
  then have "unat (len0 s + 8) mod 512 \<noteq> 0"
    using mod_add_left_eq [of "bits256 s" 512 8] mod_add_left_eq [of "unat (len0 s)" 512 8] by (simp add: bits256_mod unat_word_ariths mod_mod_cancel)
  then show ?case by (simp add: SHA256_put_parts bits256_mod)
next
  case (5 s c)
  then have "unat (len0 s + 8) mod 512 = 0"
    using mod_add_left_eq [of "bits256 s" 512 8] mod_add_left_eq [of "unat (len0 s)" 512 8] by (simp add: bits256_mod unat_word_ariths mod_mod_cancel)
  then show ?case by (simp add: SHA256_put_parts bits256_mod)
qed

text \<open>The rotations: nested ones are those of the standard.\<close>

lemma bit_ror:
  assumes "n < 32" "0 < k" "k < 32"
  shows "bit (ror x k) n = bit x ((n + k) mod 32)"
proof (cases "n + k < 32")
  case True
  then have "bit (ror x k) n = bit x (k + n)" using assms by (auto simp: ror_def bit_simps)
  also have "k + n = (n + k) mod 32" using True by simp
  finally show ?thesis .
next
  case False
  then have "\<not> bit x (k + n)" by (auto dest: bit_imp_le_length)
  moreover have "n - (32 - k) = (n + k) mod 32" using False assms by (simp add: mod_if)
  ultimately show ?thesis using False assms by (auto simp: ror_def bit_simps)
qed

lemma ror_ROTR: "ror x k = ROTR k x"
  by (simp add: ror_def ROTR_def)

lemma nested_rotations:
  "ror (ror (ror e 14 XOR e) 5 XOR e) 6 = ROTR 6 e XOR ROTR 11 e XOR ROTR 25 e"
  "ror (ror (ror a 9 XOR a) 11 XOR a) 2 = ROTR 2 a XOR ROTR 13 a XOR ROTR 22 a"
proof -
  show "ror (ror (ror e 14 XOR e) 5 XOR e) 6 = ROTR 6 e XOR ROTR 11 e XOR ROTR 25 e"
    unfolding ror_ROTR [symmetric]
    by (rule bit_word_eqI) (simp add: bit_ror bit_xor_iff mod_add_left_eq add.assoc, blast)
  show "ror (ror (ror a 9 XOR a) 11 XOR a) 2 = ROTR 2 a XOR ROTR 13 a XOR ROTR 22 a"
    unfolding ror_ROTR [symmetric]
    by (rule bit_word_eqI) (simp add: bit_ror bit_xor_iff mod_add_left_eq add.assoc, simp add: add.commute, blast)
qed

lemma sha256_m_ok:
  assumes "sched_ok (schedule2 M) i w" "16 \<le> i"
  shows "sched_ok (schedule2 M) (i + 1) (sha256_m i w)" "sha256_m i w ! (i mod 16) = schedule2 M i"
proof -
  have x: "w ! (i mod 16) + (w ! ((i - 7) mod 16)
        + (ror (w ! ((i - 15) mod 16)) 7 XOR ror (w ! ((i - 15) mod 16)) 18 XOR drop_bit 3 (w ! ((i - 15) mod 16)))
        + (ror (w ! ((i - 2) mod 16)) 17 XOR ror (w ! ((i - 2) mod 16)) 19 XOR drop_bit 10 (w ! ((i - 2) mod 16))))
      = schedule2 M i" (is "?x = _")
    using assms(2) sched_ok_wrap [OF assms] sched_ok_nth [OF assms(1), of "i - 7"] sched_ok_nth [OF assms(1), of "i - 15"]
      sched_ok_nth [OF assms(1), of "i - 2"]
    by (subst schedule2.simps) (simp add: ror_ROTR add.commute add.left_commute del: drop_bit_xor)
  have w: "sha256_m i w = w[i mod 16 := ?x]" by (simp add: sha256_m_def)
  show "sched_ok (schedule2 M) (i + 1) (sha256_m i w)" unfolding w by (rule sched_ok_step [OF assms x])
  show "sha256_m i w ! (i mod 16) = schedule2 M i" unfolding w using assms(1) x by (simp add: sched_ok_def)
qed

text \<open>The table of the source has the constants of the standard.\<close>

lemma cube_root_correct:
  assumes "0 \<le> r" "r ^ 3 \<le> x" "x < (r + 2 ^ n) ^ 3"
  shows "cube_root n r x ^ 3 \<le> x \<and> x < (cube_root n r x + 1) ^ 3 \<and> 0 \<le> cube_root n r x"
  using assms
proof (induction n arbitrary: r)
  case (Suc n)
  show ?case
  proof (cases "(r + 2 ^ n) ^ 3 \<le> x")
    case True
    have "x < (r + 2 ^ n + 2 ^ n) ^ 3" using Suc.prems(3) by (simp add: add.assoc)
    then show ?thesis using Suc.IH [of "r + 2 ^ n"] Suc.prems(1) True by simp
  next
    case False
    then show ?thesis using Suc.IH [of r] Suc.prems by simp
  qed
qed simp

lemma cube_root_eq:
  assumes "0 \<le> v" "v ^ 3 \<le> x" "x < (v + 1) ^ 3" "0 \<le> x" "x < (2 ^ n) ^ 3"
  shows "cube_root n 0 x = v"
proof -
  let ?c = "cube_root n 0 x"
  have c: "?c ^ 3 \<le> x" "x < (?c + 1) ^ 3" "0 \<le> ?c" using cube_root_correct [of 0 x n] assms(4,5) by auto
  have "v ^ 3 < (?c + 1) ^ 3" "?c ^ 3 < (v + 1) ^ 3" using c assms by auto
  then have "v < ?c + 1" "?c < v + 1" using c(3) assms(1) power_less_imp_less_base [of v 3 "?c + 1"] power_less_imp_less_base [of ?c 3 "v + 1"] by auto
  then show ?thesis by simp
qed

definition integer_parts :: "int list" where
  "integer_parts = [1, 1, 1, 1, 2, 2, 2, 2, 2, 3, 3, 3, 3, 3, 3, 3, 3, 3, 4, 4, 4, 4, 4, 4, 4, 4, 4, 4, 4, 4, 5, 5, 5, 5, 5, 5, 5, 5, 5, 5,
     5, 5, 5, 5, 5, 5, 5, 6, 6, 6, 6, 6, 6, 6, 6, 6, 6, 6, 6, 6, 6, 6, 6, 6]"

lemma constants_are_roots:
  "list_all2 (\<lambda>p (m, k). 0 \<le> m \<and> (m * 2 ^ 32 + uint k) ^ 3 \<le> p * 2 ^ 96 \<and> p * 2 ^ 96 < (m * 2 ^ 32 + uint k + 1) ^ 3 \<and>
     0 \<le> p \<and> p < 512) first_primes (zip integer_parts sha256_k)"
  by (simp add: first_primes_def integer_parts_def sha256_k_def power3_eq_cube)

lemma sha256_k_fips:
  assumes "t < 64"
  shows "sha256_k ! t = fips_k2 t"
proof -
  define m where "m = integer_parts ! t"
  define v where "v = m * 2 ^ 32 + uint (sha256_k ! t)"
  define x where "x = first_primes ! t * 2 ^ 96"
  have len: "length first_primes = 64" "length integer_parts = 64" "length sha256_k = 64"
    by (simp_all add: first_primes_def integer_parts_def sha256_k_def)
  have "0 \<le> m \<and> v ^ 3 \<le> x \<and> x < (v + 1) ^ 3 \<and> 0 \<le> first_primes ! t \<and> first_primes ! t < 512"
    using list_all2_nthD [OF constants_are_roots, of t] assms len by (simp add: m_def v_def x_def)
  moreover from this have "0 \<le> v" "0 \<le> x" "x < (2 ^ 35) ^ 3" by (simp_all add: v_def x_def)
  ultimately have "cube_root 35 0 x = v" by (intro cube_root_eq) auto
  then have "fips_k2 t = of_int v" by (simp add: fips_k2_def x_def)
  also have "(of_int v :: u32) = of_int (m * 2 ^ 32) + sha256_k ! t" by (simp add: v_def)
  also have "(of_int (m * 2 ^ 32) :: u32) = 0" unfolding word_of_int_eq_0_iff by simp
  also have "0 + sha256_k ! t = sha256_k ! t" by simp
  finally show ?thesis ..
qed

lemma sha256_round_fips:
  assumes "sched_ok (schedule2 M) i w" "i < 64"
  shows "\<exists>w'. sha256_round i (v, w) = (fips_round2 M i v, w') \<and> sched_ok (schedule2 M) (i + 1) w'"
proof -
  obtain a b c d e f g h where v: "v = (a, b, c, d, e, f, g, h)" 
    by (metis prod_cases7 surj_pair)
  define w' where "w' = (if 16 \<le> i then sha256_m i w else w)"
  have w': "sched_ok (schedule2 M) (i + 1) w'" "w' ! (i mod 16) = schedule2 M i"
    using assms sha256_m_ok [OF assms(1)] by (auto simp: w'_def sched_ok_def)
  have "sha256_round i (v, w) = (fips_round2 M i v, w')"
    using w'(2) sha256_k_fips [OF assms(2)] by (simp add: sha256_round_def fips_round2_def v Let_def nested_rotations word_functions w'_def [symmetric] Ch_def algebra_simps)
  then show ?thesis using w'(1) by blast
qed

lemma sha256_rounds_fips:
  assumes "length M = 16" "n \<le> 64"
  shows "\<exists>w'. fold sha256_round [0 ..< n] (v, M) = (fold (fips_round2 M) [0 ..< n] v, w') \<and> sched_ok (schedule2 M) n w'"
  using assms(2)
proof (induction n)
  case 0
  have "schedule2 M j = M ! j" if "j < 16" for j using that by (subst schedule2.simps) simp
  then show ?case using sched_ok_start [OF assms(1), of "schedule2 M"] by simp
next
  case (Suc n)
  then obtain w' where "fold sha256_round [0 ..< n] (v, M) = (fold (fips_round2 M) [0 ..< n] v, w')" "sched_ok (schedule2 M) n w'"
    by auto
  then show ?case using sha256_round_fips [of M n w' "fold (fips_round2 M) [0 ..< n] v"] Suc.prems by auto
qed

lemma sha256_compress_fips: "length M = 16 \<Longrightarrow> fst (sha256_compress H M) = fips_block2 M H"
  using sha256_rounds_fips [of M 64 "(H ! 0, H ! 1, H ! 2, H ! 3, H ! 4, H ! 5, H ! 6, H ! 7)"]
  by (auto simp: sha256_compress_def fips_block2_def add.commute split: prod.splits)

lemma SHA256_start: "ok256 new_SHA256" "bits256 new_SHA256 = 0"
  by (simp_all add: ok256_def bits256_def new_SHA256_def SHA256_init_def)

text \<open>The two words of the length, most significant byte first, are the 64-bit length of the standard.\<close>

lemma length_bytes: "word_bytes (lenhi t) @ word_bytes (len0 t) = be8 (bits256 t)"
proof -
  have lo: "ucast (drop_bit k x) = (of_nat (unat x div 2 ^ k) :: u8)" for k and x :: u32
  proof -
    have "ucast (drop_bit k x) = (of_nat (unat (drop_bit k x)) :: u8)" by (simp only: of_nat_unat)
    also have "unat (drop_bit k x) = unat x div 2 ^ k" unfolding unat_drop_bit_eq by (rule drop_bit_eq_div)
    finally show ?thesis .
  qed
  have lo0: "ucast x = (of_nat (unat x) :: u8)" for x :: u32 using lo [of 0 x] by simp
  have 1: "bits256 t = unat (len0 t) + 2 ^ 32 * unat (lenhi t)" by (simp add: bits256_def)
  have hi: "bits256 t div (2 ^ 32 * m) = unat (lenhi t) div m" for m
  proof -
    have "bits256 t div 2 ^ 32 = unat (lenhi t)" unfolding 1 using unsigned_less [of "len0 t", where ?'a = nat] by simp
    then show ?thesis by (simp add: div_mult2_eq)
  qed
  have low: "(of_nat (bits256 t div m) :: u8) = of_nat (unat (len0 t) div m)" if "2 ^ 32 = m * (c * 256)" for m c
  proof -
    have "bits256 t = unat (len0 t) + m * (c * 256 * unat (lenhi t))" unfolding 1 that by simp
    moreover have "m \<noteq> 0" using that by (cases m) auto
    ultimately have "bits256 t div m = unat (len0 t) div m + 256 * (c * unat (lenhi t))" by simp
    moreover have "(of_nat (256 * k) :: u8) = 0" for k unfolding word_of_nat_eq_0_iff by simp
    ultimately show ?thesis by (simp only: of_nat_add add_0_right)
  qed
  have e: "be8 s = map (\<lambda>m. of_nat (s div m)) [2 ^ 32 * 2 ^ 24, 2 ^ 32 * 2 ^ 16, 2 ^ 32 * 2 ^ 8, 2 ^ 32 * 1] @
      map (\<lambda>m. of_nat (s div m)) [2 ^ 24, 2 ^ 16, 2 ^ 8, 1]" for s
  proof -
    have "[0 ..< 8] = [0, 1, 2, 3, 4, 5, 6, 7 :: nat]" by (simp add: upt_rec)
    then show ?thesis by (simp add: be8_def)
  qed
  have bl: "word_bytes x = map (\<lambda>m. of_nat (unat x div m)) [2 ^ 24, 2 ^ 16, 2 ^ 8, 1]" for x
    unfolding word_bytes_def lo lo0 [of x] by simp
  have "word_bytes (lenhi t) = map (\<lambda>m. of_nat (bits256 t div m)) [2 ^ 32 * 2 ^ 24, 2 ^ 32 * 2 ^ 16, 2 ^ 32 * 2 ^ 8, 2 ^ 32 * 1]"
    unfolding bl list.map hi ..
  moreover have "word_bytes (len0 t) = map (\<lambda>m. of_nat (bits256 t div m)) [2 ^ 24, 2 ^ 16, 2 ^ 8, 1]"
  proof -
    have l: "(of_nat (bits256 t div 2 ^ 24) :: u8) = of_nat (unat (len0 t) div 2 ^ 24)"
      "(of_nat (bits256 t div 2 ^ 16) :: u8) = of_nat (unat (len0 t) div 2 ^ 16)"
      "(of_nat (bits256 t div 2 ^ 8) :: u8) = of_nat (unat (len0 t) div 2 ^ 8)"
      "(of_nat (bits256 t div 1) :: u8) = of_nat (unat (len0 t) div 1)"
      by (rule low [of _ 1], simp) (rule low [of _ "2 ^ 8"], simp, rule low [of _ "2 ^ 16"], simp, rule low [of _ "2 ^ 24"], simp)
    show ?thesis unfolding bl list.map l ..
  qed
  ultimately show ?thesis unfolding e by (rule arg_cong2)
qed

lemma SHA256_of_bytes: "SHA256_result (fold SHA256_put D new_SHA256) = Some (fips_sha256 D, new_SHA256)"
proof -
  define t where "t = fold SHA256_put D new_SHA256"
  have ok: "ok256 t" unfolding t_def by (rule sha256.fold_ok [OF SHA256_start(1)])
  have bits: "bits256 t = 8 * length D mod 2 ^ 64"
    using sha256.fold_bits [OF SHA256_start(1), of D] SHA256_start(2) by (simp add: t_def)
  define u where "u = fold SHA256_put (padding (length D)) t"
  have "while_option (\<lambda>t. unat (len0 t) mod 512 \<noteq> 448) (SHA256_put 0) (SHA256_put 0x80 t)
      = Some (fold SHA256_put (0x80 # replicate ((119 - length D mod 64) mod 64) 0) t)"
    by (rule sha256.pad_zeros [OF ok bits]) (simp add: bits256_mod)
  then have "SHA256_result t = Some (concat (map word_bytes (s2 u)), SHA256_init u)"
    by (simp add: SHA256_result_def Let_def u_def padding_def length_bytes bits)
  moreover have "SHA256_init u = new_SHA256" by (cases u) (simp add: SHA256_init_def new_SHA256_def)
  moreover have "s2 u = fold fips_block2 (blocks (D @ padding (length D))) (s2 new_SHA256)"
  proof -
    have "s2 u = fold (\<lambda>w s. fst (sha256_compress s w)) (blocks (D @ padding (length D))) (s2 new_SHA256)"
      using sha256.hash_of_padded [OF SHA256_start, of D] by (simp add: u_def t_def)
    also have "\<dots> = fold fips_block2 (blocks (D @ padding (length D))) (s2 new_SHA256)"
    proof (rule fold_cong [OF refl refl])
      fix M assume "M \<in> set (blocks (D @ padding (length D)))"
      then have "length M = 16" using blocks_length sha256.length_padding [of D] by (metis length_append)
      then show "(\<lambda>s. fst (sha256_compress s M)) = fips_block2 M" using sha256_compress_fips by blast
    qed
    finally show ?thesis .
  qed
  ultimately show ?thesis by (simp add: fips_sha256_def t_def new_SHA256_def SHA256_init_def)
qed

text \<open>C22. \<open>SHA256\<close> computes the standard's function: for every message put byte by byte (the length kept in two
  32-bit words, the carry included), \<open>result\<close> returns the hash FIPS 180-4 defines for it and leaves the object
  as new.\<close>

theorem SHA256_is_fips: "SHA256_result (fold SHA256_put D new_SHA256) = Some (fips_sha256 D, new_SHA256)"
  by (rule SHA256_of_bytes)

end
