(* ===== verification/Zpaq_Segment.thy ===== *)
theory Zpaq_Segment
  imports Zpaq_Coder Zpaq_VM Zpaq_Sha
begin

text \<open>
  Archives (\<open>zpaq715/libzpaq.cpp\<close>): \<open>Compressor\<close> writes blocks of segments, \<open>Decompresser\<close> finds
  and reads them, \<open>PostProcessor\<close> runs the program a segment may carry, and \<open>decompress\<close> is the
  loop over a whole stream.

  The classes are records; \<open>dec.get()\<close> and \<open>enc.out->put\<close> work on byte lists.  The predictor of a
  program is the parameter \<open>M\<close>; it sees the program in a machine that is otherwise new, because
  \<open>Predictor::init\<close> initialises the machine.  \<open>fuel\<close> bounds every loop over the input and every run
  of a program; a loop that needs more is \<open>Diverges\<close>.  The assertions are off in a release build
  and are not checked.
\<close>

unbundle bit_operations_syntax

section \<open>The post-processor\<close>

record PostProcessor =
  pp_state :: nat
  pp_hsize :: nat
  pp_ph :: u8
  pp_pm :: u8
  pp_z :: ZPAQL

definition new_PostProcessor :: PostProcessor where
  "new_PostProcessor = \<lparr>pp_state = 0, pp_hsize = 0, pp_ph = 0, pp_pm = 0, pp_z = new_ZPAQL\<rparr>"

definition PostProcessor_init :: "u8 \<Rightarrow> u8 \<Rightarrow> PostProcessor \<Rightarrow> PostProcessor" where
  "PostProcessor_init h m pp = pp\<lparr>pp_state := 0, pp_hsize := 0, pp_ph := h, pp_pm := m, pp_z := zclear (pp_z pp)\<rparr>"

text \<open>The branches of \<open>write\<close>: 0, 3, 4 and 5.\<close>

definition pp_type :: "nat \<Rightarrow> PostProcessor \<Rightarrow> PostProcessor result" where
  "pp_type c pp =
     (let pp = pp\<lparr>pp_state := c + 1\<rparr>
      in if 2 < pp_state pp then Inl (Thrown ''unknown post processing type'')
         else Inr (if pp_state pp = 1 then pp\<lparr>pp_z := zclear (pp_z pp)\<rparr> else pp))"

definition pp_size :: "nat \<Rightarrow> PostProcessor \<Rightarrow> PostProcessor result" where
  "pp_size c pp =
     (let hsize = pp_hsize pp + c * 256
      in if hsize < 1 then Inl (Thrown ''Empty PCOMP'')
         else let z = (pp_z pp)\<lparr>header := (replicate (hsize + 300) 0)[4 := pp_ph pp, 5 := pp_pm pp],
                    cend := 8, hbegin := 136, hend := 136\<rparr>
              in Inr (pp\<lparr>pp_hsize := hsize, pp_z := z, pp_state := 4\<rparr>))"

definition pp_code :: "nat \<Rightarrow> PostProcessor \<Rightarrow> PostProcessor result" where
  "pp_code c pp =
     ebind (put_hcomp (int c) (pp_z pp)) (\<lambda>z.
       if hend z - hbegin z = pp_hsize pp then
         (let hsize = cend z - 2 + hend z - hbegin z;
              z = z\<lparr>header := (header z)[0 := of_nat hsize, 1 := of_nat (hsize div 256)]\<rparr>
          in ebind (initp z) (\<lambda>z. Inr (pp\<lparr>pp_z := z, pp_hsize := hsize, pp_state := 5\<rparr>)))
       else Inr (pp\<lparr>pp_z := z\<rparr>))"

definition pp_run :: "nat \<Rightarrow> int \<Rightarrow> PostProcessor \<Rightarrow> PostProcessor result" where
  "pp_run fuel c pp =
     ebind (run0 fuel (of_int c) (pp_z pp)) (\<lambda>z. Inr (pp\<lparr>pp_z := if c < 0 then flush z else z\<rparr>))"

definition PostProcessor_write :: "nat \<Rightarrow> int \<Rightarrow> PostProcessor \<Rightarrow> PostProcessor result" where
  "PostProcessor_write fuel c pp =
     (if pp_state pp = 0 then (if c < 0 then Inl (Thrown ''Unexpected EOS'') else pp_type (nat c) pp)
      else if pp_state pp = 1 then Inr (pp\<lparr>pp_z := outc c (pp_z pp)\<rparr>)
      else if pp_state pp = 2 then
        (if c < 0 then Inl (Thrown ''Unexpected EOS'') else Inr (pp\<lparr>pp_hsize := nat c, pp_state := 3\<rparr>))
      else if pp_state pp = 3 then (if c < 0 then Inl (Thrown ''Unexpected EOS'') else pp_size (nat c) pp)
      else if pp_state pp = 4 then (if c < 0 then Inl (Thrown ''Unexpected EOS'') else pp_code (nat c) pp)
      else if pp_state pp = 5 then pp_run fuel c pp
      else Inr pp)"

section \<open>Decompresser\<close>

text \<open>The program alone, in a machine that is otherwise the given one.\<close>

definition with_program :: "ZPAQL \<Rightarrow> ZPAQL \<Rightarrow> ZPAQL" where
  "with_program z w = z\<lparr>header := header w, cend := cend w, hbegin := hbegin w, hend := hend w\<rparr>"

definition model_of :: "(ZPAQL \<Rightarrow> 's predictor) \<Rightarrow> ZPAQL \<Rightarrow> 's predictor" where
  "model_of M z = M (with_program new_ZPAQL z)"

datatype expected = BLOCK | FILENAME | COMMENT | DATA | SEGEND

datatype which_segment = FIRSTSEG | SEG | SKIP

record 's Decompresser =
  x_z :: ZPAQL
  x_dec :: "'s Decoder"
  x_pp :: PostProcessor
  x_state :: expected
  x_decode_state :: which_segment

definition new_Decompresser :: "(ZPAQL \<Rightarrow> 's predictor) \<Rightarrow> nat list \<Rightarrow> 's Decompresser" where
  "new_Decompresser M inp = \<lparr>x_z = new_ZPAQL, x_dec = new_Decoder (model_of M new_ZPAQL) inp,
     x_pp = new_PostProcessor, x_state = BLOCK, x_decode_state = FIRSTSEG\<rparr>"

text \<open>The search for a start tag with four rolling hashes.\<close>

fun find_tag :: "u32 \<Rightarrow> u32 \<Rightarrow> u32 \<Rightarrow> u32 \<Rightarrow> nat list \<Rightarrow> nat list option" where
  "find_tag r1 r2 r3 r4 [] = None"
| "find_tag r1 r2 r3 r4 (c # inp) =
     (let r1 = r1 * 12 + of_nat c;
          r2 = r2 * 20 + of_nat c;
          r3 = r3 * 28 + of_nat c;
          r4 = r4 * 44 + of_nat c
      in if r1 = 0xB16B88F1 \<and> r2 = 0xFF5376F1 \<and> r3 = 0x72AC5BF1 \<and> r4 = 0x2F909AF1 then Some inp
         else find_tag r1 r2 r3 r4 inp)"

definition find_block :: "'s Decompresser \<Rightarrow> (bool \<times> 's Decompresser) result" where
  "find_block x =
     (case find_tag 0x3D49B113 0x29EB7F93 0x2614BE13 0x3828EB13 (d_in (x_dec x)) of
        None \<Rightarrow> Inr (False, x\<lparr>x_dec := (x_dec x)\<lparr>d_in := []\<rparr>\<rparr>)
      | Some inp \<Rightarrow>
          (let (c, dec) = d_get ((x_dec x)\<lparr>d_in := inp\<rparr>)
           in if c \<noteq> 1 \<and> c \<noteq> 2 then Inl (Thrown ''unsupported ZPAQ level'')
              else let (t, dec) = d_get dec
                   in if t \<noteq> 1 then Inl (Thrown ''unsupported ZPAQL type'')
                      else ebind (zread (x_z x) (d_in dec)) (\<lambda>((n, z), inp).
                        if c = 1 \<and> 6 < length (header z) \<and> header z ! 6 = 0
                        then Inl (Thrown ''ZPAQ level 1 requires at least 1 component'')
                        else Inr (True, x\<lparr>x_z := z, x_dec := dec\<lparr>d_in := inp\<rparr>, x_state := FILENAME,
                               x_decode_state := FIRSTSEG\<rparr>))))"

text \<open>A string that ends with a zero byte.\<close>

fun read_string :: "nat list \<Rightarrow> (nat list \<times> nat list) result" where
  "read_string [] = Inl (Thrown ''unexpected EOF'')"
| "read_string (c # inp) =
     (if c = 0 then Inr ([], inp) else ebind (read_string inp) (\<lambda>(s, inp). Inr (c # s, inp)))"

text \<open>\<open>findFilename\<close>: \<open>None\<close> is the end of the block.\<close>

definition find_filename :: "'s Decompresser \<Rightarrow> (nat list option \<times> 's Decompresser) result" where
  "find_filename x =
     (let (c, dec) = d_get (x_dec x)
      in if c = 1 then
           ebind (read_string (d_in dec)) (\<lambda>(name, inp).
             Inr (Some name, x\<lparr>x_dec := dec\<lparr>d_in := inp\<rparr>, x_state := COMMENT\<rparr>))
         else if c = 255 then Inr (None, x\<lparr>x_dec := dec, x_state := BLOCK\<rparr>)
         else Inl (Thrown ''missing segment or end of block''))"

definition read_comment :: "'s Decompresser \<Rightarrow> (nat list \<times> 's Decompresser) result" where
  "read_comment x =
     ebind (read_string (d_in (x_dec x))) (\<lambda>(comment, inp).
       let (c, dec) = d_get ((x_dec x)\<lparr>d_in := inp\<rparr>)
       in if c \<noteq> 0 then Inl (Thrown ''missing reserved byte'')
          else Inr (comment, x\<lparr>x_dec := dec, x_state := DATA\<rparr>))"

text \<open>The loops of \<open>decompress\<close>: \<open>while ((pp.getState()&3)!=1)\<close> and \<open>while (n)\<close>.\<close>

primrec load_pcomp :: "'s predictor \<Rightarrow> nat \<Rightarrow> nat \<Rightarrow> 's Decoder \<Rightarrow> PostProcessor \<Rightarrow> ('s Decoder \<times> PostProcessor) result" where
  "load_pcomp P fuel 0 dec pp = Inl Diverges"
| "load_pcomp P fuel (Suc k) dec pp =
     (if pp_state pp AND 3 = 1 then Inr (dec, pp)
      else ebind (Decoder_decompress P dec) (\<lambda>(c, dec).
           ebind (PostProcessor_write fuel c pp) (\<lambda>pp. load_pcomp P fuel k dec pp)))"

primrec decompress_loop :: "'s predictor \<Rightarrow> nat \<Rightarrow> nat \<Rightarrow> int \<Rightarrow> 's Decoder \<Rightarrow> PostProcessor \<Rightarrow>
    (bool \<times> 's Decoder \<times> PostProcessor) result" where
  "decompress_loop P fuel 0 n dec pp = Inl Diverges"
| "decompress_loop P fuel (Suc k) n dec pp =
     (if n = 0 then Inr (True, dec, pp)
      else ebind (Decoder_decompress P dec) (\<lambda>(c, dec).
           ebind (PostProcessor_write fuel c pp) (\<lambda>pp.
             if c = -1 then Inr (False, dec, pp)
             else decompress_loop P fuel k (if 0 < n then n - 1 else n) dec pp)))"

definition Decompresser_decompress :: "(ZPAQL \<Rightarrow> 's predictor) \<Rightarrow> nat \<Rightarrow> int \<Rightarrow> 's Decompresser \<Rightarrow> (bool \<times> 's Decompresser) result" where
  "Decompresser_decompress M fuel n x =
     (if x_decode_state x = SKIP then Inl (Thrown ''decompression after skipped segment'')
      else let P = model_of M (x_z x);
               x = (if x_decode_state x = FIRSTSEG
                    then x\<lparr>x_dec := Decoder_init P (x_dec x),
                           x_pp := PostProcessor_init (header (x_z x) ! 4) (header (x_z x) ! 5) (x_pp x),
                           x_decode_state := SEG\<rparr>
                    else x)
           in ebind (load_pcomp P fuel fuel (x_dec x) (x_pp x)) (\<lambda>(dec, pp).
              ebind (decompress_loop P fuel fuel n dec pp) (\<lambda>(more, dec, pp).
                Inr (more, x\<lparr>x_dec := dec, x_pp := pp, x_state := if more then x_state x else SEGEND\<rparr>))))"

text \<open>\<open>readSegmentEnd\<close>: the checksum, when there is one.\<close>

primrec get_bytes :: "nat \<Rightarrow> 's Decoder \<Rightarrow> u8 list \<times> 's Decoder" where
  "get_bytes 0 dec = ([], dec)"
| "get_bytes (Suc n) dec =
     (case d_get dec of (c, dec) \<Rightarrow> case get_bytes n dec of (bs, dec) \<Rightarrow> (of_int c # bs, dec))"

definition read_segment_end :: "(ZPAQL \<Rightarrow> 's predictor) \<Rightarrow> 's Decompresser \<Rightarrow> (u8 list option \<times> 's Decompresser) result" where
  "read_segment_end M x =
     ebind (if x_state x = DATA
            then ebind (Decoder_skip (model_of M (x_z x)) (x_dec x)) (\<lambda>(c, dec). Inr (c, x\<lparr>x_dec := dec, x_decode_state := SKIP\<rparr>))
            else if x_state x = SEGEND then (case d_get (x_dec x) of (c, dec) \<Rightarrow> Inr (c, x\<lparr>x_dec := dec\<rparr>))
            else Inr (0, x))
       (\<lambda>(c, x).
         let x = x\<lparr>x_state := FILENAME\<rparr>
         in if c = 254 then Inr (None, x)
            else if c = 253 then (case get_bytes 20 (x_dec x) of (ck, dec) \<Rightarrow> Inr (Some ck, x\<lparr>x_dec := dec\<rparr>))
            else Inl (Thrown ''missing end of segment marker''))"

text \<open>The function \<open>decompress\<close>.\<close>

primrec decompress_segments :: "(ZPAQL \<Rightarrow> 's predictor) \<Rightarrow> nat \<Rightarrow> nat \<Rightarrow> 's Decompresser \<Rightarrow> 's Decompresser result" where
  "decompress_segments M fuel 0 x = Inl Diverges"
| "decompress_segments M fuel (Suc k) x =
     ebind (find_filename x) (\<lambda>(name, x).
       if name = None then Inr x
       else ebind (read_comment x) (\<lambda>(_, x).
            ebind (Decompresser_decompress M fuel (-1) x) (\<lambda>(_, x).
            ebind (read_segment_end M x) (\<lambda>(_, x). decompress_segments M fuel k x))))"

primrec decompress_blocks :: "(ZPAQL \<Rightarrow> 's predictor) \<Rightarrow> nat \<Rightarrow> nat \<Rightarrow> 's Decompresser \<Rightarrow> 's Decompresser result" where
  "decompress_blocks M fuel 0 x = Inl Diverges"
| "decompress_blocks M fuel (Suc k) x =
     ebind (find_block x) (\<lambda>(found, x).
       if \<not> found then Inr x
       else ebind (decompress_segments M fuel fuel x) (\<lambda>x. decompress_blocks M fuel k x))"

definition decompress_stream :: "(ZPAQL \<Rightarrow> 's predictor) \<Rightarrow> nat \<Rightarrow> nat list \<Rightarrow> u8 list result" where
  "decompress_stream M fuel inp =
     ebind (decompress_blocks M fuel fuel (new_Decompresser M inp)) (\<lambda>x. Inr (written (pp_z (x_pp x))))"

section \<open>Compressor\<close>

datatype compressor_state = INIT | BLOCK1 | SEG1 | BLOCK2 | SEG2

record 's Compressor =
  c_z :: ZPAQL
  c_pz :: ZPAQL
  c_enc :: "'s Encoder"
  c_in :: "nat list"
  c_sha1 :: SHA1
  c_state :: compressor_state
  c_verify :: bool

definition new_Compressor :: "(ZPAQL \<Rightarrow> 's predictor) \<Rightarrow> bool \<Rightarrow> 's Compressor" where
  "new_Compressor M v = \<lparr>c_z = new_ZPAQL, c_pz = new_ZPAQL, c_enc = new_Encoder (model_of M new_ZPAQL), c_in = [],
     c_sha1 = new_SHA1, c_state = INIT, c_verify = v\<rparr>"

definition c_put :: "nat list \<Rightarrow> 's Compressor \<Rightarrow> 's Compressor" where
  "c_put bs c = c\<lparr>c_enc := (c_enc c)\<lparr>e_out := e_out (c_enc c) @ bs\<rparr>\<rparr>"

definition tag :: "nat list" where
  "tag = [0x37, 0x6b, 0x53, 0x74, 0xa0, 0x31, 0x83, 0xd3, 0x8c, 0xb2, 0x28, 0xb0, 0xd3]"

definition write_tag :: "'s Compressor \<Rightarrow> 's Compressor" where
  "write_tag c = c_put tag c"

text \<open>\<open>startBlock\<close> with the bytes of a program (read through \<open>MemoryReader\<close>), or one of the built-in
  models.\<close>

definition start_block :: "nat list \<Rightarrow> 's Compressor \<Rightarrow> 's Compressor result" where
  "start_block hcomp c =
     ebind (zread (c_z c) hcomp) (\<lambda>((n, z), _).
       let c = c\<lparr>c_z := z\<rparr>;
           c = c_put [122, 80, 81, 1 + (if header z ! 6 = 0 then 1 else 0), 1] c;
           c = c_put (case zwrite False z of None \<Rightarrow> [] | Some bs \<Rightarrow> bs) c
       in Inr (c\<lparr>c_state := BLOCK1\<rparr>))"

definition models :: "nat list" where
  "models = [
     26,0,1,2,0,0,2,3,16,8,19,0,0,96,4,28,
     59,10,59,112,25,10,59,10,59,112,56,0,
     69,0,3,3,0,0,8,3,5,8,13,0,8,17,1,8,
     18,2,8,18,3,8,19,4,4,22,24,7,16,0,7,24,
     255,0,17,104,74,4,95,1,59,112,10,25,59,112,10,25,
     59,112,10,25,59,112,10,25,59,112,10,25,59,10,59,112,
     25,69,207,8,112,56,0,
     196,0,5,9,0,0,22,1,160,3,5,8,13,1,8,16,
     2,8,18,3,8,19,4,8,19,5,8,20,6,4,22,24,
     3,17,8,19,9,3,13,3,13,3,13,3,14,7,16,0,
     15,24,255,7,8,0,16,10,255,6,0,15,16,24,0,9,
     8,17,32,255,6,8,17,18,16,255,9,16,19,32,255,6,
     0,19,20,16,0,0,17,104,74,4,95,2,59,112,10,25,
     59,112,10,25,59,112,10,25,59,112,10,25,59,112,10,25,
     59,10,59,112,10,25,59,112,10,25,69,183,32,239,64,47,
     14,231,91,47,10,25,60,26,48,134,151,20,112,63,9,70,
     223,0,39,3,25,112,26,52,25,25,74,10,4,59,112,25,
     10,4,59,112,25,10,4,59,112,25,65,143,212,72,4,59,
     112,8,143,216,8,68,175,60,60,25,69,207,9,112,25,25,
     25,25,25,112,56,0,
     0,0]"

definition toU16 :: "nat list \<Rightarrow> nat" where
  "toU16 p = p ! 0 + 256 * p ! 1"

text \<open>\<open>for (i=1; i<level && toU16(p); ++i) p+=toU16(p)+2\<close>, with the number of turns left.\<close>

primrec find_model :: "nat \<Rightarrow> nat list \<Rightarrow> nat list" where
  "find_model 0 p = p"
| "find_model (Suc k) p = (if toU16 p = 0 then p else find_model k (drop (toU16 p + 2) p))"

text \<open>The bytes of a built-in program, with its two bytes of length.\<close>

definition level_program :: "nat \<Rightarrow> nat list" where
  "level_program level = (let p = find_model (level - 1) models in take (toU16 p + 2) p)"

definition start_block_level :: "int \<Rightarrow> 's Compressor \<Rightarrow> 's Compressor result" where
  "start_block_level level c =
     (if level < 1 then Inl (Thrown ''compression level must be at least 1'')
      else let p = find_model (nat (level - 1)) models
           in if toU16 p < 1 then Inl (Thrown ''compression level too high'')
              else start_block p c)"

text \<open>The file name and the comment are C strings: they end at the first zero byte.\<close>

definition c_string :: "nat list \<Rightarrow> nat list" where
  "c_string s = takeWhile (\<lambda>b. b \<noteq> 0) s"

definition start_segment :: "nat list \<Rightarrow> nat list \<Rightarrow> 's Compressor \<Rightarrow> 's Compressor" where
  "start_segment filename comment c =
     (let c = c_put ([1] @ c_string filename @ [0] @ c_string comment @ [0] @ [0]) c
      in if c_state c = BLOCK1 then c\<lparr>c_state := SEG1\<rparr>
         else if c_state c = BLOCK2 then c\<lparr>c_state := SEG2\<rparr>
         else c)"

definition enc_compress :: "(ZPAQL \<Rightarrow> 's predictor) \<Rightarrow> int \<Rightarrow> 's Compressor \<Rightarrow> 's Compressor" where
  "enc_compress M b c = c\<lparr>c_enc := Encoder_compress (model_of M (c_z c)) b (c_enc c)\<rparr>"

text \<open>The post-processing program of a segment: given with its length, given with the length in
  front, or the one of \<open>pz\<close>.\<close>

definition the_pcomp :: "nat list option \<Rightarrow> nat \<Rightarrow> 's Compressor \<Rightarrow> nat list result" where
  "the_pcomp pcomp len c =
     (case pcomp of
        None \<Rightarrow> Inr (map unat (take (hend (c_pz c) - hbegin (c_pz c)) (drop (hbegin (c_pz c)) (header (c_pz c)))))
      | Some p \<Rightarrow>
          (let (len, p) = (if len = 0 then (toU16 p, drop 2 p) else (len, p))
           in if length p < len then Inl Undefined else Inr (take len p)))"

definition post_process :: "(ZPAQL \<Rightarrow> 's predictor) \<Rightarrow> nat list option \<Rightarrow> nat \<Rightarrow> 's Compressor \<Rightarrow> 's Compressor result" where
  "post_process M pcomp len c =
     (if c_state c = SEG2 then Inr c
      else let c = c\<lparr>c_enc := Encoder_init (model_of M (c_z c)) (c_enc c)\<rparr>
           in ebind (the_pcomp pcomp len c) (\<lambda>p.
              if 0 < length p then
                (let c = enc_compress M 1 c;
                     c = enc_compress M (int (length p mod 256)) c;
                     c = enc_compress M (int ((length p div 256) mod 256)) c;
                     c = fold (\<lambda>b. enc_compress M (int (b mod 256))) p c
                 in if c_verify c then ebind (initp (c_pz c)) (\<lambda>z. Inr (c\<lparr>c_pz := z, c_state := SEG2\<rparr>))
                    else Inr (c\<lparr>c_state := SEG2\<rparr>))
              else Inr ((enc_compress M 0 c)\<lparr>c_state := SEG2\<rparr>)))"

text \<open>A step of the post-processor under test; what it writes goes to \<open>sha1\<close>.\<close>

definition to_sha1 :: "ZPAQL \<Rightarrow> 's Compressor \<Rightarrow> 's Compressor" where
  "to_sha1 z c = c\<lparr>c_pz := z\<lparr>written := []\<rparr>, c_sha1 := SHA1_write (written z) (c_sha1 c)\<rparr>"

definition verify_byte :: "nat \<Rightarrow> int \<Rightarrow> 's Compressor \<Rightarrow> 's Compressor result" where
  "verify_byte fuel ch c =
     (if \<not> c_verify c then Inr c
      else if hend (c_pz c) \<noteq> 0 then ebind (run0 fuel (of_int ch) (c_pz c)) (\<lambda>z. Inr (to_sha1 z c))
      else Inr (c\<lparr>c_sha1 := SHA1_put (of_int ch) (c_sha1 c)\<rparr>))"

primrec compress_bytes :: "(ZPAQL \<Rightarrow> 's predictor) \<Rightarrow> nat \<Rightarrow> nat list \<Rightarrow> 's Compressor \<Rightarrow> 's Compressor result" where
  "compress_bytes M fuel [] c = Inr c"
| "compress_bytes M fuel (b # bs) c =
     ebind (verify_byte fuel (int b) (enc_compress M (int b) c)) (compress_bytes M fuel bs)"

text \<open>The loop \<open>while (n)\<close> of \<open>compress\<close>; the second argument is what \<open>in\<close> still has.\<close>

function compress_loop :: "(ZPAQL \<Rightarrow> 's predictor) \<Rightarrow> nat \<Rightarrow> nat list \<Rightarrow> int \<Rightarrow> 's Compressor \<Rightarrow> (bool \<times> 's Compressor) result" where
  "compress_loop M fuel inp n c =
     (if n = 0 then Inr (True, c\<lparr>c_in := inp\<rparr>)
      else let nbuf = (if 0 \<le> n \<and> n < 16384 then nat n else 16384)
           in if inp = [] then Inr (False, c\<lparr>c_in := []\<rparr>)
              else ebind (compress_bytes M fuel (take nbuf inp) c) (\<lambda>c.
                   compress_loop M fuel (drop nbuf inp) (if 0 \<le> n then n - int (length (take nbuf inp)) else n) c))"
  by pat_completeness auto
termination
  by (relation "measure (\<lambda>(M, fuel, inp, n, c). length inp)") auto

declare compress_loop.simps [simp del]

definition Compressor_compress :: "(ZPAQL \<Rightarrow> 's predictor) \<Rightarrow> nat \<Rightarrow> int \<Rightarrow> 's Compressor \<Rightarrow> (bool \<times> 's Compressor) result" where
  "Compressor_compress M fuel n c =
     ebind (if c_state c = SEG1 then post_process M None 0 c else Inr c) (\<lambda>c. compress_loop M fuel (c_in c) n c)"

text \<open>What \<open>endSegment\<close> and \<open>endSegmentChecksum\<close> share: the end mark and the four zeros.\<close>

definition finish_segment :: "(ZPAQL \<Rightarrow> 's predictor) \<Rightarrow> nat \<Rightarrow> 's Compressor \<Rightarrow> 's Compressor result" where
  "finish_segment M fuel c =
     ebind (if c_state c = SEG1 then post_process M None 0 c else Inr c) (\<lambda>c.
       let c = enc_compress M (-1) c
       in ebind (if c_verify c \<and> hend (c_pz c) \<noteq> 0
                 then ebind (run0 fuel (of_int (-1)) (c_pz c)) (\<lambda>z. Inr (to_sha1 (flush z) c))
                 else Inr c) (\<lambda>c. Inr (c_put [0, 0, 0, 0] c)))"

definition end_segment :: "(ZPAQL \<Rightarrow> 's predictor) \<Rightarrow> nat \<Rightarrow> nat list option \<Rightarrow> 's Compressor \<Rightarrow> 's Compressor result" where
  "end_segment M fuel ck c =
     ebind (finish_segment M fuel c) (\<lambda>c.
       Inr ((c_put (case ck of Some s \<Rightarrow> 253 # take 20 s | None \<Rightarrow> [254]) c)\<lparr>c_state := BLOCK2\<rparr>))"

definition usize :: "SHA1 \<Rightarrow> u64" where
  "usize s = len1 s div 8"

text \<open>\<open>endSegmentChecksum\<close>: the result is the size and the hash, when \<open>verify\<close> is set.\<close>

definition end_segment_checksum :: "(ZPAQL \<Rightarrow> 's predictor) \<Rightarrow> nat \<Rightarrow> bool \<Rightarrow> 's Compressor \<Rightarrow> ((u64 \<times> u8 list) option \<times> 's Compressor) result" where
  "end_segment_checksum M fuel dosha1 c =
     ebind (finish_segment M fuel c) (\<lambda>c.
       if c_verify c then
         ebind (of_loop (SHA1_result (c_sha1 c))) (\<lambda>(ck, sha).
           Inr (Some (usize (c_sha1 c), ck), (c_put (if dosha1 then 253 # map unat ck else [254]) c)\<lparr>c_sha1 := sha, c_state := BLOCK2\<rparr>))
       else Inr (None, (c_put [254] c)\<lparr>c_state := BLOCK2\<rparr>))"

definition end_block :: "'s Compressor \<Rightarrow> 's Compressor" where
  "end_block c = (c_put [255] c)\<lparr>c_state := INIT\<rparr>"

section \<open>Programs\<close>

text \<open>Reading a program depends on nothing but the input and changes nothing else of the machine.\<close>

definition on_program :: "ZPAQL \<Rightarrow> (ZPAQL \<times> nat list) result \<Rightarrow> (ZPAQL \<times> nat list) result" where
  "on_program z r = ebind r (\<lambda>(w, inp). Inr (with_program z w, inp))"

lemma put_with_program:
  "put_comp c (with_program z w) = ebind (put_comp c w) (\<lambda>w. Inr (with_program z w))"
  "put_hcomp c (with_program z w) = ebind (put_hcomp c w) (\<lambda>w. Inr (with_program z w))"
  by (simp_all add: put_comp_def put_hcomp_def with_program_def)

lemma with_program_parts [simp]:
  "header (with_program z w) = header w" "cend (with_program z w) = cend w"
  "hbegin (with_program z w) = hbegin w" "hend (with_program z w) = hend w"
  "written (with_program z w) = written z" "outbuf (with_program z w) = outbuf z"
  "with_program z (with_program y w) = with_program z w"
  by (simp_all add: with_program_def)

lemma model_of_program [simp]: "model_of M (with_program z w) = model_of M w"
  by (simp add: model_of_def)

lemma ebind_cong_fun: "(\<And>x. f x = g x) \<Longrightarrow> ebind m f = ebind m g"
  by (cases m) simp_all

lemma copy_comp_program: "copy_comp n (with_program z w) inp = on_program z (copy_comp n w inp)"
proof (induction n arbitrary: w inp)
  case (Suc n)
  then show ?case
    by (cases "get inp") (auto simp: put_with_program ebind_assoc on_program_def intro!: ebind_cong_fun)
qed (simp add: on_program_def)

lemma read_hcomp_program: "read_hcomp n (with_program z w) inp = on_program z (read_hcomp n w inp)"
proof (induction n arbitrary: w inp)
  case (Suc n)
  then show ?case
    by (cases "get inp") (auto simp: put_with_program ebind_assoc on_program_def intro!: ebind_cong_fun)
qed (simp add: on_program_def)

lemma read_comps_program: "read_comps n hsize (with_program z w) inp = on_program z (read_comps n hsize w inp)"
proof (induction n arbitrary: w inp)
  case (Suc n)
  obtain c inp' where c: "get inp = (c, inp')" by (metis surj_pair)
  have "ebind (copy_comp k (with_program z v) inp') (\<lambda>(v, inp). read_comps n hsize v inp)
      = on_program z (ebind (copy_comp k v inp') (\<lambda>(v, inp). read_comps n hsize v inp))" for k v
    by (cases "copy_comp k v inp'") (auto simp: copy_comp_program on_program_def Suc.IH)
  then show ?case using c
    by (cases "put_comp c w") (auto simp: put_with_program on_program_def Let_def)
qed (simp add: on_program_def)

lemma read_code_program:
  "read_code hsize (with_program z w) inp = ebind (read_code hsize w inp) (\<lambda>((n, w), inp). Inr ((n, with_program z w), inp))"
proof -
  obtain c inp' where c: "get inp = (c, inp')" by (metis surj_pair)
  show ?thesis
  proof (cases "put_comp c w")
    case (Inr v)
    let ?v = "v\<lparr>hbegin := cend v + 128, hend := cend v + 128\<rparr>"
    have e: "(with_program z v)\<lparr>hbegin := cend v + 128, hend := cend v + 128\<rparr> = with_program z ?v"
      by (simp add: with_program_def)
    have "ebind (read_hcomp k (with_program z ?v) inp') (\<lambda>(z, inp). case get inp of (c, inp) \<Rightarrow>
        ebind (put_hcomp c z) (\<lambda>z. if (of_int c :: u8) \<noteq> 0 then Inl (Thrown ''missing HCOMP END'')
          else Inr ((cend z + hend z - hbegin z, z), inp)))
      = ebind (ebind (read_hcomp k ?v inp') (\<lambda>(z, inp). case get inp of (c, inp) \<Rightarrow>
        ebind (put_hcomp c z) (\<lambda>z. if (of_int c :: u8) \<noteq> 0 then Inl (Thrown ''missing HCOMP END'')
          else Inr ((cend z + hend z - hbegin z, z), inp)))) (\<lambda>((n, w), inp). Inr ((n, with_program z w), inp))" for k
      unfolding read_hcomp_program on_program_def ebind_assoc
      by (rule ebind_cong_fun) (auto simp: put_with_program ebind_assoc split: prod.splits intro!: ebind_cong_fun)
    then show ?thesis using c Inr by (simp add: read_code_def put_with_program Let_def e)
  qed (use c in \<open>simp add: read_code_def put_with_program\<close>)
qed

lemma zread_program:
  "zread z inp = ebind (zread new_ZPAQL inp) (\<lambda>((n, w), inp). Inr ((n, with_program z w), inp))"
proof -
  have s: "read_start z inp = ebind (read_start new_ZPAQL inp) (\<lambda>((hsize, w), inp). Inr ((hsize, with_program z w), inp))"
  proof -
    have "z\<lparr>header := h, cend := 0, hbegin := 0, hend := 0\<rparr>
        = with_program z (new_ZPAQL\<lparr>header := h, cend := 0, hbegin := 0, hend := 0\<rparr>)" for h
      by (simp add: with_program_def)
    then show ?thesis
      by (simp add: read_start_def Let_def put_with_program ebind_assoc copy_comp_program on_program_def split: prod.splits)
        (auto intro!: ebind_cong_fun)
  qed
  show ?thesis
    unfolding zread_def s ebind_assoc
    by (rule ebind_cong_fun)
      (auto simp: read_comps_program on_program_def ebind_assoc read_code_program split: prod.splits intro!: ebind_cong_fun)
qed

section \<open>Writing a segment\<close>

text \<open>The calls for a segment: its file name, its comment, its bytes and how it ends.\<close>

datatype trailer = Given "nat list option" | Checksum bool

type_synonym segment = "nat list \<times> nat list \<times> nat list \<times> trailer"

definition write_segment :: "(ZPAQL \<Rightarrow> 's predictor) \<Rightarrow> nat \<Rightarrow> segment \<Rightarrow> 's Compressor \<Rightarrow> 's Compressor result" where
  "write_segment M fuel = (\<lambda>(filename, comment, bytes, tr) c.
     ebind (Compressor_compress M fuel (-1) (start_segment filename comment (c\<lparr>c_in := bytes\<rparr>))) (\<lambda>(_, c).
       case tr of Given ck \<Rightarrow> end_segment M fuel ck c
       | Checksum dosha1 \<Rightarrow> ebind (end_segment_checksum M fuel dosha1 c) (\<lambda>(_, c). Inr c)))"

primrec write_segments :: "(ZPAQL \<Rightarrow> 's predictor) \<Rightarrow> nat \<Rightarrow> segment list \<Rightarrow> 's Compressor \<Rightarrow> 's Compressor result" where
  "write_segments M fuel [] c = Inr c"
| "write_segments M fuel (s # ss) c = ebind (write_segment M fuel s c) (write_segments M fuel ss)"

text \<open>A block: with or without a tag in front, its program, its segments.\<close>

type_synonym block = "bool \<times> nat list \<times> segment list"

definition write_block :: "(ZPAQL \<Rightarrow> 's predictor) \<Rightarrow> nat \<Rightarrow> block \<Rightarrow> 's Compressor \<Rightarrow> 's Compressor result" where
  "write_block M fuel = (\<lambda>(tagged, prog, ss) c.
     ebind (start_block prog (if tagged then write_tag c else c)) (\<lambda>c.
     ebind (write_segments M fuel ss c) (\<lambda>c. Inr (end_block c))))"

primrec write_blocks :: "(ZPAQL \<Rightarrow> 's predictor) \<Rightarrow> nat \<Rightarrow> block list \<Rightarrow> 's Compressor \<Rightarrow> 's Compressor result" where
  "write_blocks M fuel [] c = Inr c"
| "write_blocks M fuel (b # bs) c = ebind (write_block M fuel b c) (write_blocks M fuel bs)"

definition trailer_ok :: "trailer \<Rightarrow> bool" where
  "trailer_ok tr \<longleftrightarrow> (case tr of Given (Some s) \<Rightarrow> length s = 20 \<and> bytes_ok s | _ \<Rightarrow> True)"

definition trailer_bytes :: "nat list \<Rightarrow> bool" where
  "trailer_bytes t \<longleftrightarrow> t = [254] \<or> (\<exists>s. t = 253 # s \<and> length s = 20 \<and> bytes_ok s)"

definition no_pcomp :: "'s Compressor \<Rightarrow> bool" where
  "no_pcomp c \<longleftrightarrow> hend (c_pz c) = 0 \<and> hbegin (c_pz c) = 0"

lemma bytes_ok_map_unat: "bytes_ok (map unat (bs :: u8 list))"
  using unsigned_less [where ?'a = nat and ?'b = 8] by (auto simp: bytes_ok_def)

lemma c_string_ok: "bytes_ok s \<Longrightarrow> bytes_ok (c_string s)" and c_string_zero: "0 \<notin> set (c_string s)"
  by (auto simp: c_string_def bytes_ok_def dest: set_takeWhileD)

definition hashed :: "nat list \<Rightarrow> 's Compressor \<Rightarrow> SHA1" where
  "hashed bs c = (if c_verify c then fold SHA1_put (map of_nat bs) (c_sha1 c) else c_sha1 c)"

definition encoded :: "(ZPAQL \<Rightarrow> 's predictor) \<Rightarrow> nat list \<Rightarrow> 's Compressor \<Rightarrow> 's Encoder" where
  "encoded M bs c = fold (\<lambda>b. Encoder_compress (model_of M (c_z c)) (int b)) bs (c_enc c)"

lemma compress_bytes_plain:
  "no_pcomp c \<Longrightarrow> compress_bytes M fuel bs c = Inr (c\<lparr>c_enc := encoded M bs c, c_sha1 := hashed bs c\<rparr>)"
proof (induction bs arbitrary: c)
  case Nil
  then show ?case by (simp add: encoded_def hashed_def)
next
  case (Cons b bs)
  define c' where "c' = c\<lparr>c_enc := Encoder_compress (model_of M (c_z c)) (int b) (c_enc c), c_sha1 := hashed [b] c\<rparr>"
  have "verify_byte fuel (int b) (enc_compress M (int b) c) = Inr c'"
    using Cons.prems by (simp add: verify_byte_def enc_compress_def no_pcomp_def hashed_def c'_def)
  moreover have "compress_bytes M fuel bs c' = Inr (c'\<lparr>c_enc := encoded M bs c', c_sha1 := hashed bs c'\<rparr>)"
    by (rule Cons.IH) (use Cons.prems in \<open>simp add: no_pcomp_def c'_def\<close>)
  moreover have "encoded M bs c' = encoded M (b # bs) c" "hashed bs c' = hashed (b # bs) c"
    by (simp_all add: encoded_def hashed_def c'_def)
  ultimately show ?case by (simp add: c'_def)
qed

lemma compress_loop_plain:
  "no_pcomp c \<Longrightarrow> compress_loop M fuel inp (-1) c = Inr (False, c\<lparr>c_enc := encoded M inp c, c_sha1 := hashed inp c, c_in := []\<rparr>)"
proof (induction inp arbitrary: c rule: length_induct)
  case (1 inp)
  show ?case
  proof (cases "inp = []")
    case True
    then show ?thesis by (simp add: compress_loop.simps encoded_def hashed_def)
  next
    case False
    define c' where "c' = c\<lparr>c_enc := encoded M (take 16384 inp) c, c_sha1 := hashed (take 16384 inp) c\<rparr>"
    have "compress_loop M fuel inp (-1) c = compress_loop M fuel (drop 16384 inp) (-1) c'"
      using False 1(2) by (subst compress_loop.simps) (simp add: compress_bytes_plain c'_def)
    also have "\<dots> = Inr (False, c'\<lparr>c_enc := encoded M (drop 16384 inp) c', c_sha1 := hashed (drop 16384 inp) c', c_in := []\<rparr>)"
      using 1 False by (simp add: no_pcomp_def c'_def)
    also have "encoded M (drop 16384 inp) c' = encoded M inp c"
    proof -
      have "encoded M (drop 16384 inp) c' = encoded M (take 16384 inp @ drop 16384 inp) c"
        by (simp add: encoded_def c'_def del: append_take_drop_id)
      then show ?thesis by simp
    qed
    also have "hashed (drop 16384 inp) c' = hashed inp c"
    proof -
      have "hashed (drop 16384 inp) c' = hashed (take 16384 inp @ drop 16384 inp) c"
        by (simp add: hashed_def c'_def del: append_take_drop_id)
      then show ?thesis by simp
    qed
    finally show ?thesis by (simp add: c'_def)
  qed
qed

lemma no_pcomp_update [simp]:
  "no_pcomp (c\<lparr>c_enc := e\<rparr>) = no_pcomp c" "no_pcomp (c\<lparr>c_in := inp\<rparr>) = no_pcomp c"
  "no_pcomp (c\<lparr>c_state := st\<rparr>) = no_pcomp c" "no_pcomp (c\<lparr>c_sha1 := h\<rparr>) = no_pcomp c" "no_pcomp (c\<lparr>c_z := z\<rparr>) = no_pcomp c"
  by (simp_all add: no_pcomp_def)

text \<open>The bytes a segment gives to the encoder: in the first segment of a block the type of
  post-processing, 0, comes first.\<close>

definition segment_start :: "(ZPAQL \<Rightarrow> 's predictor) \<Rightarrow> 's Compressor \<Rightarrow> nat list \<Rightarrow> 's Encoder" where
  "segment_start M c hdr =
     (let e = (c_enc c)\<lparr>e_out := e_out (c_enc c) @ hdr\<rparr>
      in if c_state c = BLOCK1 then Encoder_init (model_of M (c_z c)) e else e)"

definition segment_bytes :: "'s Compressor \<Rightarrow> nat list \<Rightarrow> nat list" where
  "segment_bytes c bs = (if c_state c = BLOCK1 then 0 # bs else bs)"

definition segment_header :: "nat list \<Rightarrow> nat list \<Rightarrow> nat list" where
  "segment_header filename comment = [1] @ c_string filename @ [0] @ c_string comment @ [0] @ [0]"

lemma compress_plain:
  assumes "no_pcomp c" "c_state c = BLOCK1 \<or> c_state c = BLOCK2"
  shows "\<exists>c'. Compressor_compress M fuel (-1) (start_segment filename comment (c\<lparr>c_in := bytes\<rparr>)) = Inr (False, c') \<and>
    c_enc c' = fold (\<lambda>b. Encoder_compress (model_of M (c_z c)) (int b)) (segment_bytes c bytes)
      (segment_start M c (segment_header filename comment)) \<and>
    c_z c' = c_z c \<and> c_pz c' = c_pz c \<and> c_verify c' = c_verify c \<and> c_sha1 c' = hashed bytes c \<and> c_state c' = SEG2"
  using assms
  by (auto simp: Compressor_compress_def start_segment_def c_put_def post_process_def the_pcomp_def enc_compress_def
    segment_bytes_def segment_start_def segment_header_def compress_loop_plain encoded_def hashed_def no_pcomp_def Let_def)

text \<open>The whole segment: what the encoder is given, then the trailer.\<close>

definition ready :: "(ZPAQL \<Rightarrow> 's predictor) \<Rightarrow> 's Compressor \<Rightarrow> bool" where
  "ready M c \<longleftrightarrow> no_pcomp c \<and> (\<exists>D. c_sha1 c = fold SHA1_put D new_SHA1) \<and>
     (c_state c = BLOCK1 \<or> c_state c = BLOCK2 \<and> (\<exists>d. between (model_of M (c_z c)) (c_enc c) d))"

definition segment_encoder :: "(ZPAQL \<Rightarrow> 's predictor) \<Rightarrow> nat list \<Rightarrow> nat list \<Rightarrow> nat list \<Rightarrow> 's Compressor \<Rightarrow> 's Encoder" where
  "segment_encoder M filename comment bytes c =
     code_segment (model_of M (c_z c)) (segment_bytes c bytes) (segment_start M c (segment_header filename comment))"

lemma finish_plain:
  assumes "c_state c = SEG2" "no_pcomp c"
  shows "finish_segment M fuel c = Inr (c\<lparr>c_enc :=
    (let e = Encoder_compress (model_of M (c_z c)) (-1) (c_enc c) in e\<lparr>e_out := e_out e @ [0, 0, 0, 0]\<rparr>)\<rparr>)"
  using assms by (simp add: finish_segment_def no_pcomp_def enc_compress_def c_put_def Let_def)

lemma write_segment_plain:
  assumes "ready M c" "trailer_ok tr"
  shows "\<exists>c' t. write_segment M fuel (filename, comment, bytes, tr) c = Inr c' \<and> trailer_bytes t \<and>
    c_enc c' = (segment_encoder M filename comment bytes c)\<lparr>e_out := e_out (segment_encoder M filename comment bytes c) @ t\<rparr> \<and>
    c_z c' = c_z c \<and> c_state c' = BLOCK2 \<and> no_pcomp c' \<and> (\<exists>D. c_sha1 c' = fold SHA1_put D new_SHA1)"
proof -
  have r: "no_pcomp c" "c_state c = BLOCK1 \<or> c_state c = BLOCK2" using assms(1) by (auto simp: ready_def)
  obtain D where D: "c_sha1 c = fold SHA1_put D new_SHA1" using assms(1) by (auto simp: ready_def)
  obtain c1 where c1: "Compressor_compress M fuel (-1) (start_segment filename comment (c\<lparr>c_in := bytes\<rparr>)) = Inr (False, c1)"
      "c_enc c1 = fold (\<lambda>b. Encoder_compress (model_of M (c_z c)) (int b)) (segment_bytes c bytes)
        (segment_start M c (segment_header filename comment))"
      "c_z c1 = c_z c" "c_pz c1 = c_pz c" "c_verify c1 = c_verify c" "c_sha1 c1 = hashed bytes c" "c_state c1 = SEG2"
    using compress_plain [OF r, of M fuel filename comment bytes] by blast
  have np: "no_pcomp c1" using r(1) c1(4) by (simp add: no_pcomp_def)
  define c2 where "c2 = c1\<lparr>c_enc := segment_encoder M filename comment bytes c\<rparr>"
  have fin: "finish_segment M fuel c1 = Inr c2"
    unfolding finish_plain [OF c1(7) np] by (simp add: c2_def segment_encoder_def code_segment_def c1(2,3) Let_def)
  obtain D' where D': "c_sha1 c1 = fold SHA1_put D' new_SHA1"
  proof -
    have "c_sha1 c1 = fold SHA1_put (if c_verify c then D @ map of_nat bytes else D) new_SHA1"
      using D c1(6) by (simp add: hashed_def)
    then show thesis using that by blast
  qed
  show ?thesis
  proof (cases tr)
    case (Given ck)
    define t where "t = (case ck of Some s \<Rightarrow> 253 # take 20 s | None \<Rightarrow> [254 :: nat])"
    have "trailer_bytes t" using assms(2) by (auto simp: t_def Given trailer_ok_def trailer_bytes_def split: option.splits)
    moreover have "write_segment M fuel (filename, comment, bytes, tr) c = Inr ((c_put t c2)\<lparr>c_state := BLOCK2\<rparr>)"
      by (simp add: write_segment_def c1(1) Given end_segment_def fin t_def)
    ultimately show ?thesis using np D' c1
      by (intro exI [of _ "(c_put t c2)\<lparr>c_state := BLOCK2\<rparr>"] exI [of _ t]) (auto simp: c_put_def c2_def no_pcomp_def)
  next
    case (Checksum dosha1)
    define t where "t = (if c_verify c1 \<and> dosha1 then 253 # map unat (fips_sha1 D') else [254 :: nat])"
    define c3 where "c3 = (c_put t c2)\<lparr>c_sha1 := if c_verify c1 then new_SHA1 else c_sha1 c1, c_state := BLOCK2\<rparr>"
    have "trailer_bytes t"
      by (auto simp: t_def trailer_bytes_def length_fips_sha1 bytes_ok_map_unat)
    moreover have "write_segment M fuel (filename, comment, bytes, tr) c = Inr c3"
      by (simp add: write_segment_def c1(1) Checksum end_segment_checksum_def fin c2_def D' SHA1_result_put t_def c3_def c_put_def)
    moreover have "\<exists>D. c_sha1 c3 = fold SHA1_put D new_SHA1"
    proof -
      have "c_sha1 c3 = fold SHA1_put (if c_verify c1 then [] else D') new_SHA1" using D' by (simp add: c3_def)
      then show ?thesis by blast
    qed
    ultimately show ?thesis using np c1
      by (intro exI [of _ c3] exI [of _ t]) (auto simp: c_put_def c2_def c3_def no_pcomp_def)
  qed
qed

section \<open>Reading a segment\<close>

definition feed :: "'s Decompresser \<Rightarrow> nat list \<Rightarrow> 's Decompresser" where
  "feed x s = x\<lparr>x_dec := (x_dec x)\<lparr>d_in := s\<rparr>\<rparr>"

lemma read_string_append: "0 \<notin> set s \<Longrightarrow> read_string (s @ 0 # rest) = Inr (s, rest)"
  by (induction s) auto

lemma get_bytes_append: "length bs = n \<Longrightarrow> get_bytes n (d\<lparr>d_in := bs @ rest\<rparr>) = (map of_nat bs, d\<lparr>d_in := rest\<rparr>)"
  by (induction n arbitrary: bs d) (auto simp: length_Suc_conv d_get_def)

lemma d_get_Cons [simp]: "d_get (d\<lparr>d_in := b # rest\<rparr>) = (int b, d\<lparr>d_in := rest\<rparr>)"
  by (simp add: d_get_def)

lemma d_get_lower: "d_get d = (c, d') \<Longrightarrow> - 1 \<le> c"
  by (auto simp: d_get_def split: list.splits)

lemma decode_bits_large: "0 < c \<Longrightarrow> decode_bits P c d = Inr (c', d') \<Longrightarrow> 256 \<le> c'"
proof (induction P c d rule: decode_bits.induct)
  case (1 P c d)
  show ?case
  proof (cases "c < 256")
    case True
    then obtain y d1 where y: "decode (predict P (d_pr d) * 2 + 1) d = Inr (y, d1)"
        "decode_bits P (c + c + y) (d1\<lparr>d_pr := update P ((c + c + y) mod 2) (d_pr d1)\<rparr>) = Inr (c', d')"
      using 1(2,3) by (auto simp: decode_bits.simps [of P c d] Let_def ebind_eq_Inr)
    show ?thesis using 1(1) [OF _ refl _ y(2)] 1(2) True y(1) by simp
  next
    case False
    then show ?thesis using 1(3) by (simp add: decode_bits.simps [of P c d])
  qed
qed

lemma decompress_lower:
  assumes "Decoder_decompress P d = Inr (c, d')"
  shows "- 1 \<le> c"
proof (cases "isModeled P")
  case True
  then show ?thesis using assms decode_bits_large [of 1 P]
    by (force simp: Decoder_decompress_def Let_def ebind_eq_Inr split: if_splits)
next
  case False
  then show ?thesis using assms d_get_lower
    by (fastforce simp: Decoder_decompress_def Let_def split: if_splits prod.splits)
qed

lemma decompress_loop_segment:
  assumes "read_segment P k d = Inr (cs, d')" "pp_state pp = 1"
  shows "decompress_loop P fuel k (-1) d pp
    = Inr (False, d', pp\<lparr>pp_z := outc (-1) (fold (\<lambda>b. outc (int b)) cs (pp_z pp))\<rparr>)"
  using assms
proof (induction k arbitrary: d cs pp)
  case (Suc k)
  obtain c d1 where c: "Decoder_decompress P d = Inr (c, d1)"
      "(if c < 0 then Inr ([], d1) else ebind (read_segment P k d1) (\<lambda>(cs, d). Inr (nat c # cs, d))) = Inr (cs, d')"
    using Suc.prems(1) by (auto simp: ebind_eq_Inr)
  have low: "- 1 \<le> c" by (rule decompress_lower [OF c(1)])
  show ?case
  proof (cases "c < 0")
    case True
    then have "c = -1" using low by simp
    then show ?thesis using c Suc.prems(2) by (auto simp: PostProcessor_write_def)
  next
    case False
    then obtain cs1 where cs1: "read_segment P k d1 = Inr (cs1, d')" "cs = nat c # cs1" using c(2) by (auto simp: ebind_eq_Inr)
    then show ?thesis using False c(1) Suc.prems(2) Suc.IH [OF cs1(1), of "pp\<lparr>pp_z := outc c (pp_z pp)\<rparr>"]
      by (simp add: PostProcessor_write_def)
  qed
qed simp

lemma outc_total: "written (outc (int b) z) @ outbuf (outc (int b) z) = (written z @ outbuf z) @ [of_nat b]"
  by (simp add: outc_def flush_def Let_def)

lemma outc_fold: "written (fold (\<lambda>b. outc (int b)) bs z) @ outbuf (fold (\<lambda>b. outc (int b)) bs z)
    = (written z @ outbuf z) @ map of_nat bs"
  by (induction bs arbitrary: z) (simp_all add: outc_total)

lemma outc_all:
  assumes "outbuf z = []"
  shows "written (outc (-1) (fold (\<lambda>b. outc (int b)) bs z)) = written z @ map of_nat bs"
    "outbuf (outc (-1) (fold (\<lambda>b. outc (int b)) bs z)) = []"
  using outc_fold [of bs z] assms by (simp_all add: outc_def flush_def)

lemma load_pass:
  assumes "Decoder_decompress P d = Inr (0, d')" "pp_state pp = 0"
  shows "load_pcomp P fuel (Suc (Suc k)) d pp = Inr (d', pp\<lparr>pp_state := 1, pp_z := zclear (pp_z pp)\<rparr>)"
  using assms by (simp add: PostProcessor_write_def pp_type_def)

lemma load_none: "pp_state pp = 1 \<Longrightarrow> load_pcomp P fuel (Suc k) d pp = Inr (d, pp)"
  by simp

lemma zclear_output [simp]: "outbuf (zclear z) = outbuf z" "written (zclear z) = written z"
  by (simp_all add: zclear_def)

text \<open>Compressor and decompresser between two segments of a block, or before the first.\<close>

definition synced :: "(ZPAQL \<Rightarrow> 's predictor) \<Rightarrow> 's Compressor \<Rightarrow> 's Decompresser \<Rightarrow> bool" where
  "synced M c x \<longleftrightarrow> with_program new_ZPAQL (x_z x) = with_program new_ZPAQL (c_z c) \<and> x_state x = FILENAME \<and>
     outbuf (pp_z (x_pp x)) = [] \<and>
     (if c_state c = BLOCK1 then x_decode_state x = FIRSTSEG
      else x_decode_state x = SEG \<and> pp_state (x_pp x) = 1 \<and> between (model_of M (c_z c)) (c_enc c) (x_dec x))"

lemma between_updates [simp]:
  "between P (e\<lparr>e_out := bs\<rparr>) d = between P e d" "between P e (d\<lparr>d_in := bs\<rparr>) = between P e d"
  by (simp_all add: between_def in_range_def)

lemma between_init: "between P (Encoder_init P e) (Decoder_init P d)"
  by (auto simp: between_def Encoder_init_def Decoder_init_def in_range_def)

lemma Decoder_init_in: "Decoder_init P (d\<lparr>d_in := s\<rparr>) = (Decoder_init P d)\<lparr>d_in := s\<rparr>"
  by (simp add: Decoder_init_def)

lemma segment_roundtrip_all:
  assumes "between P e d" "wf_predictor P" "bytes_ok cs" "length cs < fuel"
  shows "\<exists>bs. e_out (code_segment P cs e) = e_out e @ bs \<and> bytes_ok bs \<and> (\<exists>d. between P (code_segment P cs e) d) \<and>
    (\<forall>d rest. between P e d \<and> bytes_ok rest \<longrightarrow> (\<exists>d'. read_segment P fuel (d\<lparr>d_in := bs @ rest\<rparr>) = Inr (cs, d') \<and>
       d_in d' = rest \<and> between P (code_segment P cs e) d'))"
proof -
  obtain bs d1 where bs: "e_out (code_segment P cs e) = e_out e @ bs" "bytes_ok bs" "between P (code_segment P cs e) d1"
    using segment_roundtrip [OF assms(1-3) _ assms(4), of "[]"] by auto
  have "\<exists>d'. read_segment P fuel (d\<lparr>d_in := bs @ rest\<rparr>) = Inr (cs, d') \<and> d_in d' = rest \<and> between P (code_segment P cs e) d'"
    if "between P e d" "bytes_ok rest" for d rest
    using segment_roundtrip [OF that(1) assms(2,3) that(2) assms(4)] bs(1) by auto
  then show ?thesis using bs by blast
qed

lemma decompress_segment:
  assumes "x_z x = z" "P = model_of M z" "2 \<le> fuel" "outbuf (pp_z (x_pp x)) = []" "x_state x = DATA"
    and first: "x_decode_state x = FIRSTSEG \<and> read_segment P (Suc fuel) (Decoder_init P (x_dec x)) = Inr (0 # bytes, d')
      \<or> x_decode_state x = SEG \<and> pp_state (x_pp x) = 1 \<and> read_segment P fuel (x_dec x) = Inr (bytes, d')"
  shows "\<exists>pp'. Decompresser_decompress M fuel (-1) x
      = Inr (False, x\<lparr>x_dec := d', x_pp := pp', x_decode_state := SEG, x_state := SEGEND\<rparr>) \<and>
    pp_state pp' = 1 \<and> outbuf (pp_z pp') = [] \<and> written (pp_z pp') = written (pp_z (x_pp x)) @ map of_nat bytes"
  using first
proof (elim disjE conjE)
  assume f: "x_decode_state x = FIRSTSEG" "read_segment P (Suc fuel) (Decoder_init P (x_dec x)) = Inr (0 # bytes, d')"
  obtain c d1 where c: "Decoder_decompress P (Decoder_init P (x_dec x)) = Inr (c, d1)"
      "(if c < 0 then Inr ([], d1) else ebind (read_segment P fuel d1) (\<lambda>(cs, d). Inr (nat c # cs, d))) = Inr (0 # bytes, d')"
    using f(2) by (auto simp: ebind_eq_Inr)
  then have 0: "c = 0" "read_segment P fuel d1 = Inr (bytes, d')" by (auto simp: ebind_eq_Inr split: if_splits)
  obtain k where k: "fuel = Suc (Suc k)" using assms(3) by (metis Suc_le_D numeral_2_eq_2 Suc_le_mono)
  define pp where "pp = PostProcessor_init (header z ! 4) (header z ! 5) (x_pp x)"
  have pp: "pp_state pp = 0" "outbuf (pp_z pp) = []" "written (pp_z pp) = written (pp_z (x_pp x))"
    using assms(4) by (simp_all add: pp_def PostProcessor_init_def)
  define pp1 where "pp1 = pp\<lparr>pp_state := 1, pp_z := zclear (pp_z pp)\<rparr>"
  have pp1: "pp_state pp1 = 1" "outbuf (pp_z pp1) = []" "written (pp_z pp1) = written (pp_z (x_pp x))"
    using pp by (simp_all add: pp1_def)
  have "load_pcomp P fuel fuel (Decoder_init P (x_dec x)) pp = Inr (d1, pp1)"
    using c(1) 0(1) pp(1) load_pass [of P _ d1 pp fuel k] k by (simp add: pp1_def)
  then show ?thesis
    using f(1) assms(1,2) decompress_loop_segment [OF 0(2) pp1(1), of fuel] pp1 outc_all [OF pp1(2)]
    by (intro exI [of _ "pp1\<lparr>pp_z := outc (-1) (fold (\<lambda>b. outc (int b)) bytes (pp_z pp1))\<rparr>"])
      (simp add: Decompresser_decompress_def pp_def [symmetric] Let_def)
next
  assume s: "x_decode_state x = SEG" "pp_state (x_pp x) = 1" "read_segment P fuel (x_dec x) = Inr (bytes, d')"
  obtain k where k: "fuel = Suc k" using assms(3) by (cases fuel) auto
  have "load_pcomp P fuel fuel (x_dec x) (x_pp x) = Inr (x_dec x, x_pp x)"
    using load_none [OF s(2), of P fuel k] k by simp
  then show ?thesis
    using s(1,2) assms(1,2) decompress_loop_segment [OF s(3,2), of fuel] outc_all [OF assms(4)]
    by (intro exI [of _ "(x_pp x)\<lparr>pp_z := outc (-1) (fold (\<lambda>b. outc (int b)) bytes (pp_z (x_pp x)))\<rparr>"])
      (simp add: Decompresser_decompress_def Let_def)
qed

lemma read_trailer:
  assumes "trailer_bytes t" "x_state x = SEGEND" "d_in (x_dec x) = t @ rest"
  shows "\<exists>ck. read_segment_end M x = Inr (ck, (feed x rest)\<lparr>x_state := FILENAME\<rparr>)"
proof -
  have x: "x = feed x (t @ rest)" using assms(3) by (simp add: feed_def)
  show ?thesis
    using assms(1,2) get_bytes_append [of _ 20 rest "x_dec x"]
    by (subst x) (auto simp: read_segment_end_def trailer_bytes_def feed_def)
qed

definition segment_ok :: "nat \<Rightarrow> segment \<Rightarrow> bool" where
  "segment_ok fuel = (\<lambda>(filename, comment, bytes, tr).
     bytes_ok filename \<and> bytes_ok comment \<and> bytes_ok bytes \<and> trailer_ok tr \<and> length bytes < fuel \<and> 2 \<le> fuel)"

definition contents :: "segment \<Rightarrow> u8 list" where
  "contents = (\<lambda>(filename, comment, bytes, tr). map of_nat bytes)"

text \<open>The reader is where the writer is, and has written \<open>out\<close> more than before.\<close>

definition caught_up :: "(ZPAQL \<Rightarrow> 's predictor) \<Rightarrow> 's Compressor \<Rightarrow> nat list \<Rightarrow> u8 list \<Rightarrow> 's Decompresser \<Rightarrow> 's Decompresser \<Rightarrow> bool" where
  "caught_up M c rest out x x' \<longleftrightarrow> synced M c x' \<and> d_in (x_dec x') = rest \<and> written (pp_z (x_pp x')) = written (pp_z (x_pp x)) @ out"

lemma header_read:
  "find_filename (feed x (segment_header filename comment @ s))
    = Inr (Some (c_string filename), (feed x (c_string comment @ 0 # 0 # s))\<lparr>x_state := COMMENT\<rparr>)"
  "read_comment ((feed x (c_string comment @ 0 # 0 # s))\<lparr>x_state := COMMENT\<rparr>) = Inr (c_string comment, (feed x s)\<lparr>x_state := DATA\<rparr>)"
  using read_string_append [OF c_string_zero [of filename], of "c_string comment @ 0 # 0 # s"]
    read_string_append [OF c_string_zero [of comment], of "0 # s"]
  by (simp_all add: find_filename_def read_comment_def segment_header_def feed_def)

lemma segment_step:
  assumes "ready M c" "wf_predictor (model_of M (c_z c))" "segment_ok fuel s"
  shows "\<exists>c' bs. write_segment M fuel s c = Inr c' \<and> e_out (c_enc c') = e_out (c_enc c) @ bs \<and> bytes_ok bs \<and>
    ready M c' \<and> c_z c' = c_z c \<and> c_state c' = BLOCK2 \<and>
    (\<forall>x rest. synced M c x \<and> bytes_ok rest \<longrightarrow> (\<exists>x'. caught_up M c' rest (contents s) x x' \<and>
      (\<forall>k. decompress_segments M fuel (Suc k) (feed x (bs @ rest)) = decompress_segments M fuel k x')))"
proof -
  obtain filename comment bytes tr where s: "s = (filename, comment, bytes, tr)" by (cases s) auto
  let ?P = "model_of M (c_z c)" and ?h = "segment_header filename comment"
  define e0 where "e0 = segment_start M c ?h"
  define cs where "cs = segment_bytes c bytes"
  define n where "n = (if c_state c = BLOCK1 then Suc fuel else fuel)"
  have ok: "bytes_ok filename" "bytes_ok comment" "bytes_ok bytes" "trailer_ok tr" "length bytes < fuel" "2 \<le> fuel"
    using assms(3) by (auto simp: segment_ok_def s)
  have cs: "bytes_ok cs" "length cs < n" using ok by (auto simp: cs_def segment_bytes_def n_def)
  have out0: "e_out e0 = e_out (c_enc c) @ ?h" by (auto simp: e0_def segment_start_def Encoder_init_def Let_def)
  have "\<exists>d. between ?P e0 d"
    using assms(1) between_init [of ?P "(c_enc c)\<lparr>e_out := e_out (c_enc c) @ ?h\<rparr>"]
    by (auto simp: ready_def e0_def segment_start_def Let_def)
  then obtain d0 where d0: "between ?P e0 d0" by blast
  obtain bs d1 where bs: "e_out (code_segment ?P cs e0) = e_out e0 @ bs" "bytes_ok bs" "between ?P (code_segment ?P cs e0) d1"
    and read: "\<forall>d rest. between ?P e0 d \<and> bytes_ok rest \<longrightarrow> (\<exists>d'. read_segment ?P n (d\<lparr>d_in := bs @ rest\<rparr>) = Inr (cs, d') \<and>
       d_in d' = rest \<and> between ?P (code_segment ?P cs e0) d')"
    using segment_roundtrip_all [OF d0 assms(2) cs] by (elim exE conjE) (rule that)
  note read = read [rule_format, OF conjI]
  obtain c' t where c': "write_segment M fuel s c = Inr c'" "trailer_bytes t"
      "c_enc c' = (code_segment ?P cs e0)\<lparr>e_out := e_out (code_segment ?P cs e0) @ t\<rparr>"
      "c_z c' = c_z c" "c_state c' = BLOCK2" "no_pcomp c'" "\<exists>D. c_sha1 c' = fold SHA1_put D new_SHA1"
    using write_segment_plain [OF assms(1) ok(4), of fuel filename comment bytes]
    unfolding s segment_encoder_def cs_def e0_def by blast
  have t: "bytes_ok t" using c'(2) by (auto simp: trailer_bytes_def)
  have h: "bytes_ok ?h" using ok(1,2) by (simp add: segment_header_def c_string_ok)
  have "\<exists>x'. caught_up M c' rest (contents s) x x' \<and>
      (\<forall>k. decompress_segments M fuel (Suc k) (feed x ((?h @ bs @ t) @ rest)) = decompress_segments M fuel k x')"
    if x: "synced M c x" "bytes_ok rest" for x rest
  proof -
    have P: "model_of M (x_z x) = ?P" using x(1) by (simp add: synced_def model_of_def)
    define x1 where "x1 = (feed x (bs @ t @ rest))\<lparr>x_state := DATA\<rparr>"
    have x1: "x_z x1 = x_z x" "outbuf (pp_z (x_pp x1)) = []" "x_state x1 = DATA" "x_pp x1 = x_pp x"
        "x_decode_state x1 = x_decode_state x" "x_dec x1 = (x_dec x)\<lparr>d_in := bs @ t @ rest\<rparr>"
      using x(1) by (simp_all add: x1_def feed_def synced_def)
    have "bytes_ok (t @ rest)" using t x(2) by simp
    have "\<exists>d'. (x_decode_state x1 = FIRSTSEG \<and> read_segment ?P (Suc fuel) (Decoder_init ?P (x_dec x1)) = Inr (0 # bytes, d')
        \<or> x_decode_state x1 = SEG \<and> pp_state (x_pp x1) = 1 \<and> read_segment ?P fuel (x_dec x1) = Inr (bytes, d')) \<and>
        d_in d' = t @ rest \<and> between ?P (code_segment ?P cs e0) d'"
    proof (cases "c_state c = BLOCK1")
      case True
      then have "between ?P e0 (Decoder_init ?P (x_dec x))" by (simp add: e0_def segment_start_def Let_def between_init)
      from read [OF this \<open>bytes_ok (t @ rest)\<close>] show ?thesis
        using True x(1) x1(5,6) by (auto simp: n_def cs_def segment_bytes_def Decoder_init_in synced_def)
    next
      case False
      then have "between ?P e0 (x_dec x)" using x(1) by (simp add: e0_def segment_start_def Let_def synced_def)
      from read [OF this \<open>bytes_ok (t @ rest)\<close>] show ?thesis
        using False x(1) x1(4-6) by (auto simp: n_def cs_def segment_bytes_def synced_def)
    qed
    then obtain d' where d': "x_decode_state x1 = FIRSTSEG \<and> read_segment ?P (Suc fuel) (Decoder_init ?P (x_dec x1)) = Inr (0 # bytes, d')
        \<or> x_decode_state x1 = SEG \<and> pp_state (x_pp x1) = 1 \<and> read_segment ?P fuel (x_dec x1) = Inr (bytes, d')"
        "d_in d' = t @ rest" "between ?P (code_segment ?P cs e0) d'" by blast
    obtain pp' where pp': "Decompresser_decompress M fuel (-1) x1
        = Inr (False, x1\<lparr>x_dec := d', x_pp := pp', x_decode_state := SEG, x_state := SEGEND\<rparr>)"
        "pp_state pp' = 1" "outbuf (pp_z pp') = []" "written (pp_z pp') = written (pp_z (x_pp x1)) @ map of_nat bytes"
      using decompress_segment [OF x1(1) P [symmetric] ok(6) x1(2,3) d'(1)] by blast
    define x2 where "x2 = x1\<lparr>x_dec := d', x_pp := pp', x_decode_state := SEG, x_state := SEGEND\<rparr>"
    obtain ck where ck: "read_segment_end M x2 = Inr (ck, (feed x2 rest)\<lparr>x_state := FILENAME\<rparr>)"
      using read_trailer [OF c'(2), of x2 rest M] d'(2) by (auto simp: x2_def)
    define x3 where "x3 = (feed x2 rest)\<lparr>x_state := FILENAME\<rparr>"
    have "decompress_segments M fuel (Suc k) (feed x ((?h @ bs @ t) @ rest)) = decompress_segments M fuel k x3" for k
      using pp'(1) ck by (simp add: header_read x1_def [symmetric] x2_def [symmetric] x3_def)
    moreover have "caught_up M c' rest (contents s) x x3"
      using pp'(2-4) x1(1,4) x(1) d'(3) c'
      by (auto simp: caught_up_def synced_def x3_def x2_def feed_def contents_def s)
    ultimately show ?thesis by blast
  qed
  moreover have "ready M c'" using c' bs(3) by (auto simp: ready_def)
  ultimately show ?thesis using c' bs(1,2) out0 h t
    by (intro exI [of _ c'] exI [of _ "?h @ bs @ t"]) auto
qed

lemma caught_up_feed: "caught_up M c s out x x' \<Longrightarrow> feed x' s = x'"
  by (simp add: caught_up_def feed_def)

lemma segments_step:
  assumes "ready M c" "wf_predictor (model_of M (c_z c))" "\<forall>s \<in> set ss. segment_ok fuel s"
  shows "\<exists>c' bs. write_segments M fuel ss c = Inr c' \<and> e_out (c_enc c') = e_out (c_enc c) @ bs \<and> bytes_ok bs \<and>
    ready M c' \<and> (\<forall>x rest. synced M c x \<and> bytes_ok rest \<longrightarrow> (\<exists>x'. caught_up M c' rest (concat (map contents ss)) x x' \<and>
      (\<forall>k. decompress_segments M fuel (length ss + k) (feed x (bs @ rest)) = decompress_segments M fuel k x')))"
  using assms
proof (induction ss arbitrary: c)
  case Nil
  have "caught_up M c rest [] x (feed x rest) " if "synced M c x" for x rest
    using that by (auto simp: caught_up_def feed_def synced_def)
  then show ?case using Nil(1) by (intro exI [of _ c] exI [of _ "[]"]) auto
next
  case (Cons s ss)
  obtain c1 b1 where c1: "write_segment M fuel s c = Inr c1" "e_out (c_enc c1) = e_out (c_enc c) @ b1" "bytes_ok b1"
      "ready M c1" "c_z c1 = c_z c"
    and r1: "\<And>x rest. synced M c x \<Longrightarrow> bytes_ok rest \<Longrightarrow> \<exists>x'. caught_up M c1 rest (contents s) x x' \<and>
      (\<forall>k. decompress_segments M fuel (Suc k) (feed x (b1 @ rest)) = decompress_segments M fuel k x')"
    using segment_step [OF Cons.prems(1,2), of fuel s] Cons.prems(3) by auto
  have wf: "wf_predictor (model_of M (c_z c1))" using Cons.prems(2) c1(5) by simp
  obtain c2 b2 where c2: "write_segments M fuel ss c1 = Inr c2" "e_out (c_enc c2) = e_out (c_enc c1) @ b2" "bytes_ok b2" "ready M c2"
    and r2: "\<And>x rest. synced M c1 x \<Longrightarrow> bytes_ok rest \<Longrightarrow> \<exists>x'. caught_up M c2 rest (concat (map contents ss)) x x' \<and>
      (\<forall>k. decompress_segments M fuel (length ss + k) (feed x (b2 @ rest)) = decompress_segments M fuel k x')"
    using Cons.IH [OF c1(4) wf] Cons.prems(3) by auto
  have "\<exists>x2. caught_up M c2 rest (concat (map contents (s # ss))) x x2 \<and>
      (\<forall>k. decompress_segments M fuel (length (s # ss) + k) (feed x ((b1 @ b2) @ rest)) = decompress_segments M fuel k x2)"
    if x: "synced M c x" "bytes_ok rest" for x rest
  proof -
    obtain x1 where x1: "caught_up M c1 (b2 @ rest) (contents s) x x1"
        "\<forall>k. decompress_segments M fuel (Suc k) (feed x (b1 @ b2 @ rest)) = decompress_segments M fuel k x1"
      using r1 [OF x(1), of "b2 @ rest"] x(2) c2(3) by auto
    have s1: "synced M c1 x1" "feed x1 (b2 @ rest) = x1"
      using x1(1) caught_up_feed [OF x1(1)] by (simp_all add: caught_up_def)
    obtain x2 where x2: "caught_up M c2 rest (concat (map contents ss)) x1 x2"
        "\<forall>k. decompress_segments M fuel (length ss + k) (feed x1 (b2 @ rest)) = decompress_segments M fuel k x2"
      using r2 [OF s1(1) x(2)] by blast
    have "decompress_segments M fuel (length (s # ss) + k) (feed x ((b1 @ b2) @ rest)) = decompress_segments M fuel k x2" for k
      using x1(2) x2(2) s1(2) by (simp del: decompress_segments.simps)
    then show ?thesis using x1(1) x2(1) by (auto simp: caught_up_def)
  qed
  then show ?case using c1 c2 by (intro exI [of _ c2] exI [of _ "b1 @ b2"]) (simp del: decompress_segments.simps)
qed

section \<open>Blocks and archives\<close>

lemma find_tag_here:
  "find_tag 0x3D49B113 0x29EB7F93 0x2614BE13 0x3828EB13 (122 # 80 # 81 # s) = Some s"
  "find_tag 0x3D49B113 0x29EB7F93 0x2614BE13 0x3828EB13 (tag @ 122 # 80 # 81 # s) = Some s"
  by (simp_all add: tag_def)

definition block_ok :: "nat \<Rightarrow> block \<Rightarrow> bool" where
  "block_ok fuel = (\<lambda>(tagged, prog, ss). bytes_ok prog \<and> \<not> isl (zread new_ZPAQL prog) \<and>
     (\<forall>s \<in> set ss. segment_ok fuel s) \<and> length ss < fuel)"

definition block_contents :: "block \<Rightarrow> u8 list" where
  "block_contents = (\<lambda>(tagged, prog, ss). concat (map contents ss))"

definition idle :: "'s Compressor \<Rightarrow> bool" where
  "idle c \<longleftrightarrow> no_pcomp c \<and> (\<exists>D. c_sha1 c = fold SHA1_put D new_SHA1)"

lemma bytes_ok_byte_list: "bytes_ok bs = byte_list bs"
  by (simp add: bytes_ok_def byte_list_def)

text \<open>What \<open>startBlock\<close> writes is what \<open>findBlock\<close> looks for.\<close>

lemma start_step:
  assumes "bytes_ok prog" "\<not> isl (zread new_ZPAQL prog)" "idle c"
  shows "\<exists>c' bs. start_block prog (if tagged then write_tag c else c) = Inr c' \<and> e_out (c_enc c') = e_out (c_enc c) @ bs \<and>
    bytes_ok bs \<and> ready M c' \<and>
    (\<forall>x rest. outbuf (pp_z (x_pp x)) = [] \<longrightarrow> (\<exists>x'. find_block (feed x (bs @ rest)) = Inr (True, feed x' rest) \<and>
       synced M c' x' \<and> x_pp x' = x_pp x))"
proof -
  obtain n w r where r: "zread new_ZPAQL prog = Inr ((n, w), r)" using assms(2) by (cases "zread new_ZPAQL prog") auto
  have z: "zread z prog = Inr ((n, with_program z w), r)" for z using zread_program [of z prog] r by simp
  obtain used where u: "prog = used @ r" "\<And>t. zread new_ZPAQL (used @ t) = Inr ((n, w), t)" "zwrite False w = Some used"
    using zread_read [of prog new_ZPAQL] r assms(1) by (auto simp: bytes_ok_byte_list local_read_def)
  have zu: "zread z (used @ t) = Inr ((n, with_program z w), t)" for z t using zread_program [of z "used @ t"] u(2) by simp
  have zw: "zwrite False (with_program z w) = Some used" for z using u(3) by (simp add: zwrite_def split: if_splits)
  define lv where "lv = (1 + (if header w ! 6 = 0 then 1 else 0) :: nat)"
  define bs where "bs = (if tagged then tag else []) @ 122 # 80 # 81 # lv # 1 # used"
  have "\<exists>c'. start_block prog (if tagged then write_tag c else c) = Inr c' \<and> e_out (c_enc c') = e_out (c_enc c) @ bs \<and>
      ready M c' \<and> c_state c' = BLOCK1 \<and> c_z c' = with_program (c_z c) w"
    using assms(3) by (auto simp: start_block_def write_tag_def c_put_def z zw bs_def lv_def ready_def idle_def no_pcomp_def Let_def)
  then obtain c' where c': "start_block prog (if tagged then write_tag c else c) = Inr c'" "e_out (c_enc c') = e_out (c_enc c) @ bs"
      "ready M c'" "c_state c' = BLOCK1" "c_z c' = with_program (c_z c) w" by blast
  have "bytes_ok bs" using assms(1) u(1) by (simp add: bs_def tag_def lv_def)
  moreover have "\<exists>x'. find_block (feed x (bs @ rest)) = Inr (True, feed x' rest) \<and> synced M c' x' \<and> x_pp x' = x_pp x"
    if "outbuf (pp_z (x_pp x)) = []" for x rest
  proof -
    let ?x = "x\<lparr>x_z := with_program (x_z x) w, x_state := FILENAME, x_decode_state := FIRSTSEG\<rparr>"
    have "find_tag 0x3D49B113 0x29EB7F93 0x2614BE13 0x3828EB13 (bs @ rest) = Some (lv # 1 # used @ rest)"
      by (simp add: bs_def find_tag_here)
    moreover have "lv = 1 \<or> lv = 2" "lv = 1 \<longrightarrow> header w ! 6 \<noteq> 0" by (auto simp: lv_def)
    ultimately have "find_block (feed x (bs @ rest)) = Inr (True, feed ?x rest)"
      by (auto simp: find_block_def feed_def zu)
    moreover have "synced M c' ?x" using that c'(4,5) by (simp add: synced_def)
    ultimately show ?thesis by (intro exI [of _ ?x]) simp
  qed
  ultimately show ?thesis using c'(1-3) by blast
qed

lemma block_step:
  assumes "idle c" "\<forall>z. wf_predictor (M z)" "block_ok fuel b"
  shows "\<exists>c' bs. write_block M fuel b c = Inr c' \<and> e_out (c_enc c') = e_out (c_enc c) @ bs \<and> bytes_ok bs \<and> idle c' \<and>
    (\<forall>x rest. outbuf (pp_z (x_pp x)) = [] \<and> bytes_ok rest \<longrightarrow> (\<exists>x'. outbuf (pp_z (x_pp x')) = [] \<and> d_in (x_dec x') = rest \<and>
      written (pp_z (x_pp x')) = written (pp_z (x_pp x)) @ block_contents b \<and>
      (\<forall>k. decompress_blocks M fuel (Suc k) (feed x (bs @ rest)) = decompress_blocks M fuel k x')))"
proof -
  obtain tagged prog ss where b: "b = (tagged, prog, ss)" by (cases b) auto
  have ok: "bytes_ok prog" "\<not> isl (zread new_ZPAQL prog)" "\<forall>s \<in> set ss. segment_ok fuel s" "length ss < fuel"
    using assms(3) by (auto simp: block_ok_def b)
  obtain c1 b1 where c1: "start_block prog (if tagged then write_tag c else c) = Inr c1" "e_out (c_enc c1) = e_out (c_enc c) @ b1"
      "bytes_ok b1" "ready M c1"
    and r1: "\<And>x rest. outbuf (pp_z (x_pp x)) = [] \<Longrightarrow> \<exists>x'. find_block (feed x (b1 @ rest)) = Inr (True, feed x' rest) \<and>
       synced M c1 x' \<and> x_pp x' = x_pp x"
    using start_step [OF ok(1,2) assms(1), of tagged M] by blast
  have "wf_predictor (model_of M (c_z c1))" using assms(2) by (simp add: model_of_def)
  from segments_step [OF c1(4) this ok(3)]
  obtain c2 b2 where c2: "write_segments M fuel ss c1 = Inr c2" "e_out (c_enc c2) = e_out (c_enc c1) @ b2" "bytes_ok b2" "ready M c2"
    and r2: "\<And>x rest. synced M c1 x \<Longrightarrow> bytes_ok rest \<Longrightarrow> \<exists>x'. caught_up M c2 rest (concat (map contents ss)) x x' \<and>
      (\<forall>k. decompress_segments M fuel (length ss + k) (feed x (b2 @ rest)) = decompress_segments M fuel k x')"
    by auto
  let ?bs = "b1 @ b2 @ [255]"
  have "\<exists>x'. outbuf (pp_z (x_pp x')) = [] \<and> d_in (x_dec x') = rest \<and>
      written (pp_z (x_pp x')) = written (pp_z (x_pp x)) @ block_contents b \<and>
      (\<forall>k. decompress_blocks M fuel (Suc k) (feed x (?bs @ rest)) = decompress_blocks M fuel k x')"
    if x: "outbuf (pp_z (x_pp x)) = []" "bytes_ok rest" for x rest
  proof -
    obtain x1 where x1: "find_block (feed x (b1 @ b2 @ 255 # rest)) = Inr (True, feed x1 (b2 @ 255 # rest))" "synced M c1 x1"
        "x_pp x1 = x_pp x"
      using r1 [OF x(1)] by blast
    obtain x2 where x2: "caught_up M c2 (255 # rest) (concat (map contents ss)) x1 x2"
        "\<forall>k. decompress_segments M fuel (length ss + k) (feed x1 (b2 @ 255 # rest)) = decompress_segments M fuel k x2"
      using r2 [OF x1(2), of "255 # rest"] x(2) by auto
    define x3 where "x3 = (feed x2 rest)\<lparr>x_state := BLOCK\<rparr>"
    obtain k where k: "fuel = length ss + Suc k" using ok(4) less_imp_Suc_add by fastforce
    have "find_filename x2 = Inr (None, x3)"
    proof -
      have "feed x2 (255 # rest) = x2" by (rule caught_up_feed [OF x2(1)])
      moreover have "find_filename (feed x2 (255 # rest)) = Inr (None, x3)" by (simp add: find_filename_def feed_def x3_def)
      ultimately show ?thesis by simp
    qed
    then have "decompress_segments M fuel fuel (feed x1 (b2 @ 255 # rest)) = Inr x3"
      using x2(2) [rule_format, of "Suc k"] unfolding k [symmetric] by simp
    then have "decompress_blocks M fuel (Suc k) (feed x (?bs @ rest)) = decompress_blocks M fuel k x3" for k
      using x1(1) by simp
    then show ?thesis using x2(1) x1(3)
      by (intro exI [of _ x3]) (auto simp: x3_def feed_def caught_up_def synced_def block_contents_def b)
  qed
  moreover have "write_block M fuel b c = Inr (end_block c2)" by (simp add: write_block_def b c1(1) c2(1))
  moreover have "idle (end_block c2)" using c2(4) by (simp add: idle_def end_block_def c_put_def ready_def)
  ultimately show ?thesis using c1(2,3) c2(2,3)
    by (intro exI [of _ "end_block c2"] exI [of _ ?bs]) (auto simp: end_block_def c_put_def)
qed

lemma blocks_step:
  assumes "idle c" "\<forall>z. wf_predictor (M z)" "\<forall>b \<in> set bs. block_ok fuel b"
  shows "\<exists>c' out. write_blocks M fuel bs c = Inr c' \<and> e_out (c_enc c') = e_out (c_enc c) @ out \<and> bytes_ok out \<and>
    (\<forall>x rest. outbuf (pp_z (x_pp x)) = [] \<and> bytes_ok rest \<longrightarrow> (\<exists>x'. d_in (x_dec x') = rest \<and>
      written (pp_z (x_pp x')) = written (pp_z (x_pp x)) @ concat (map block_contents bs) \<and>
      (\<forall>k. decompress_blocks M fuel (length bs + k) (feed x (out @ rest)) = decompress_blocks M fuel k x')))"
  using assms(1,3)
proof (induction bs arbitrary: c)
  case Nil
  have "d_in (x_dec (feed x rest)) = rest \<and> written (pp_z (x_pp (feed x rest))) = written (pp_z (x_pp x))" for x rest
    by (simp add: feed_def)
  then show ?case by (intro exI [of _ c] exI [of _ "[]"]) auto
next
  case (Cons b bs)
  obtain c1 o1 where c1: "write_block M fuel b c = Inr c1" "e_out (c_enc c1) = e_out (c_enc c) @ o1" "bytes_ok o1" "idle c1"
    and r1: "\<And>x rest. outbuf (pp_z (x_pp x)) = [] \<Longrightarrow> bytes_ok rest \<Longrightarrow> \<exists>x'. outbuf (pp_z (x_pp x')) = [] \<and> d_in (x_dec x') = rest \<and>
      written (pp_z (x_pp x')) = written (pp_z (x_pp x)) @ block_contents b \<and>
      (\<forall>k. decompress_blocks M fuel (Suc k) (feed x (o1 @ rest)) = decompress_blocks M fuel k x')"
    using block_step [OF Cons.prems(1) assms(2), of fuel b] Cons.prems(2) by auto
  obtain c2 o2 where c2: "write_blocks M fuel bs c1 = Inr c2" "e_out (c_enc c2) = e_out (c_enc c1) @ o2" "bytes_ok o2"
    and r2: "\<And>x rest. outbuf (pp_z (x_pp x)) = [] \<Longrightarrow> bytes_ok rest \<Longrightarrow> \<exists>x'. d_in (x_dec x') = rest \<and>
      written (pp_z (x_pp x')) = written (pp_z (x_pp x)) @ concat (map block_contents bs) \<and>
      (\<forall>k. decompress_blocks M fuel (length bs + k) (feed x (o2 @ rest)) = decompress_blocks M fuel k x')"
    using Cons.IH [OF c1(4)] Cons.prems(2) by auto
  have "\<exists>x2. d_in (x_dec x2) = rest \<and> written (pp_z (x_pp x2)) = written (pp_z (x_pp x)) @ concat (map block_contents (b # bs)) \<and>
      (\<forall>k. decompress_blocks M fuel (length (b # bs) + k) (feed x ((o1 @ o2) @ rest)) = decompress_blocks M fuel k x2)"
    if x: "outbuf (pp_z (x_pp x)) = []" "bytes_ok rest" for x rest
  proof -
    obtain x1 where x1: "outbuf (pp_z (x_pp x1)) = []" "d_in (x_dec x1) = o2 @ rest"
        "written (pp_z (x_pp x1)) = written (pp_z (x_pp x)) @ block_contents b"
        "\<forall>k. decompress_blocks M fuel (Suc k) (feed x (o1 @ o2 @ rest)) = decompress_blocks M fuel k x1"
      using r1 [OF x(1), of "o2 @ rest"] x(2) c2(3) by auto
    have f: "feed x1 (o2 @ rest) = x1" using x1(2) by (simp add: feed_def)
    obtain x2 where x2: "d_in (x_dec x2) = rest" "written (pp_z (x_pp x2)) = written (pp_z (x_pp x1)) @ concat (map block_contents bs)"
        "\<forall>k. decompress_blocks M fuel (length bs + k) (feed x1 (o2 @ rest)) = decompress_blocks M fuel k x2"
      using r2 [OF x1(1) x(2)] by blast
    have "decompress_blocks M fuel (length (b # bs) + k) (feed x ((o1 @ o2) @ rest)) = decompress_blocks M fuel k x2" for k
      using x1(4) x2(3) f by (simp del: decompress_blocks.simps)
    then show ?thesis using x1(3) x2(1,2) by auto
  qed
  then show ?case using c1 c2 by (intro exI [of _ c2] exI [of _ "o1 @ o2"]) (simp del: decompress_blocks.simps)
qed

section \<open>The post-processor cannot leave its arrays\<close>

primrec pp_writes :: "nat \<Rightarrow> int list \<Rightarrow> PostProcessor \<Rightarrow> PostProcessor result" where
  "pp_writes fuel [] pp = Inr pp"
| "pp_writes fuel (c # cs) pp = ebind (PostProcessor_write fuel c pp) (pp_writes fuel cs)"

definition pp_safe :: "PostProcessor \<Rightarrow> bool" where
  "pp_safe pp \<longleftrightarrow>
     (let z = pp_z pp
      in (pp_state pp = 4 \<longrightarrow> cend z = 8 \<and> hbegin z = 136 \<and> 136 \<le> hend z \<and> hend z < 136 + pp_hsize pp \<and>
            length (header z) = pp_hsize pp + 300 \<and> (\<forall>i. 8 \<le> i \<and> i < 136 \<longrightarrow> header z ! i = 0) \<and>
            (\<forall>i. hend z \<le> i \<and> i < length (header z) \<longrightarrow> header z ! i = 0)) \<and>
         (pp_state pp = 5 \<longrightarrow> wf_program z \<and> wf_arrays z))"

lemma pp_size_safe: "pp_size c pp = Inr pp' \<Longrightarrow> pp_safe pp'"
  by (auto simp: pp_size_def pp_safe_def Let_def nth_list_update split: if_splits)

lemma pp_code_safe:
  assumes "pp_safe pp" "pp_state pp = 4"
  shows "case pp_code c pp of Inl e \<Rightarrow> e \<noteq> Undefined | Inr pp' \<Rightarrow> pp_safe pp'"
proof -
  let ?z = "pp_z pp"
  have s: "cend ?z = 8" "hbegin ?z = 136" "136 \<le> hend ?z" "hend ?z < 136 + pp_hsize pp" "length (header ?z) = pp_hsize pp + 300"
      "\<And>i. 8 \<le> i \<Longrightarrow> i < 136 \<Longrightarrow> header ?z ! i = 0" "\<And>i. hend ?z \<le> i \<Longrightarrow> i < length (header ?z) \<Longrightarrow> header ?z ! i = 0"
    using assms by (auto simp: pp_safe_def Let_def)
  define z1 where "z1 = ?z\<lparr>header := (header ?z)[hend ?z := of_nat c], hend := hend ?z + 1\<rparr>"
  have p: "put_hcomp (int c) ?z = Inr z1" using s(4,5) by (simp add: put_hcomp_def z1_def)
  show ?thesis
  proof (cases "hend z1 - hbegin z1 = pp_hsize pp")
    case False
    then show ?thesis using s assms(2) p
      by (auto simp: pp_code_def pp_safe_def Let_def z1_def nth_list_update)
  next
    case True
    define z2 where "z2 = z1\<lparr>header := (header z1)[0 := of_nat (cend z1 - 2 + hend z1 - hbegin z1),
        1 := of_nat ((cend z1 - 2 + hend z1 - hbegin z1) div 256)]\<rparr>"
    have wf: "wf_program z2"
      using True s by (auto simp: wf_program_def z2_def z1_def nth_list_update)
    have "case initp z2 of Inl e \<Rightarrow> e \<noteq> Undefined | Inr z \<Rightarrow> wf_program z \<and> wf_arrays z"
      using wf by (auto simp: initp_def zinit_def wf_program_def wf_arrays_def)
    moreover have "pp_code c pp = ebind (initp z2) (\<lambda>z. Inr (pp\<lparr>pp_z := z, pp_hsize := cend z1 - 2 + hend z1 - hbegin z1, pp_state := 5\<rparr>))"
      using True by (simp add: pp_code_def p z2_def Let_def)
    ultimately show ?thesis by (cases "initp z2") (auto simp: pp_safe_def Let_def)
  qed
qed

lemma pp_run_safe:
  assumes "pp_safe pp" "pp_state pp = 5"
  shows "case pp_run fuel c pp of Inl e \<Rightarrow> e \<noteq> Undefined | Inr pp' \<Rightarrow> pp_safe pp'"
proof -
  have wf: "wf_program (pp_z pp)" "wf_arrays (pp_z pp)" using assms by (auto simp: pp_safe_def Let_def)
  show ?thesis
  proof (cases "run0 fuel (of_int c) (pp_z pp)")
    case (Inl e)
    then show ?thesis using run0_good [OF wf, of fuel "of_int c"] by (simp add: pp_run_def)
  next
    case (Inr z)
    then have "wf_program z" "wf_arrays z"
      using run0_good [OF wf, of fuel "of_int c"] wf(1) by (auto simp: same_program_def wf_program_def)
    then have "wf_program (flush z)" "wf_arrays (flush z)" by (simp_all add: flush_def wf_program_def wf_arrays_def)
    then show ?thesis using Inr \<open>wf_program z\<close> \<open>wf_arrays z\<close> assms(2) by (simp add: pp_run_def pp_safe_def Let_def)
  qed
qed

lemma pp_write_safe:
  assumes "pp_safe pp"
  shows "case PostProcessor_write fuel c pp of Inl e \<Rightarrow> e \<noteq> Undefined | Inr pp' \<Rightarrow> pp_safe pp'"
proof -
  have t: "case pp_type n pp of Inl e \<Rightarrow> e \<noteq> Undefined | Inr pp' \<Rightarrow> pp_safe pp'" for n
    by (auto simp: pp_type_def pp_safe_def Let_def)
  have "case pp_size n pp of Inl e \<Rightarrow> e \<noteq> Undefined | Inr pp' \<Rightarrow> pp_safe pp'" for n
    using pp_size_safe [of n pp] by (cases "pp_size n pp") (auto simp: pp_size_def Let_def split: if_splits)
  then show ?thesis
    using t pp_code_safe [OF assms] pp_run_safe [OF assms] assms
    by (auto simp: PostProcessor_write_def pp_safe_def Let_def)
qed

text \<open>C28. The program that comes with the data of a segment cannot leave the arrays of its machine: whatever
  bytes the archive feeds to the post-processor, in whatever state it was before the block, no byte
  outside \<open>header\<close> is read or written, neither while the program is loaded nor while it runs.\<close>

theorem pcomp_stays_in_header: "pp_writes fuel cs (PostProcessor_init h m pp) \<noteq> Inl Undefined"
proof -
  have inv: "case pp_writes fuel cs pp of Inl e \<Rightarrow> e \<noteq> Undefined | Inr pp' \<Rightarrow> pp_safe pp'" if "pp_safe pp" for pp
    using that
  proof (induction cs arbitrary: pp)
    case (Cons c cs)
    then show ?case using pp_write_safe [OF Cons.prems, of fuel c] by (cases "PostProcessor_write fuel c pp") auto
  qed simp
  have "pp_safe (PostProcessor_init h m pp)" by (simp add: pp_safe_def PostProcessor_init_def Let_def)
  from inv [OF this] show ?thesis by (cases "pp_writes fuel cs (PostProcessor_init h m pp)") auto
qed

section \<open>The start tag\<close>

definition mixed :: "u32 \<Rightarrow> u32 \<Rightarrow> nat list \<Rightarrow> u32" where
  "mixed k r bs = foldl (\<lambda>r b. r * k + of_nat b) r bs"

lemma mixed_linear: "mixed k r bs = r * k ^ length bs + mixed k 0 bs"
proof (induction bs rule: rev_induct)
  case (snoc b bs)
  then show ?case by (simp add: mixed_def algebra_simps)
qed (simp add: mixed_def)

text \<open>The hashes forget everything more than 16 bytes ago: each factor is a multiple of 4.\<close>

lemma mixed_forgets: "4 dvd k \<Longrightarrow> length bs = 16 \<Longrightarrow> mixed k r bs = mixed k 0 bs"
proof -
  assume "4 dvd k" "length bs = 16"
  then obtain m where "k = 4 * m" by blast
  then have "k ^ 16 = 4 ^ 16 * m ^ 16" by (simp add: power_mult_distrib)
  also have "(4 :: u32) ^ 16 = 0" by simp
  finally show ?thesis using mixed_linear [of k r bs] \<open>length bs = 16\<close> by simp
qed

definition tag_hashes :: "u32 \<Rightarrow> u32 \<Rightarrow> u32 \<Rightarrow> u32 \<Rightarrow> bool" where
  "tag_hashes r1 r2 r3 r4 \<longleftrightarrow> r1 = 0xB16B88F1 \<and> r2 = 0xFF5376F1 \<and> r3 = 0x72AC5BF1 \<and> r4 = 0x2F909AF1"

lemma find_tag_passes:
  assumes "bs \<noteq> []" "tag_hashes (mixed 12 r1 bs) (mixed 20 r2 bs) (mixed 28 r3 bs) (mixed 44 r4 bs)"
  shows "\<exists>mid. find_tag r1 r2 r3 r4 (bs @ rest) = Some (mid @ rest)"
  using assms
proof (induction bs arbitrary: r1 r2 r3 r4)
  case (Cons b bs)
  let ?r1 = "r1 * 12 + of_nat b" and ?r2 = "r2 * 20 + of_nat b" and ?r3 = "r3 * 28 + of_nat b" and ?r4 = "r4 * 44 + of_nat b"
  have step: "find_tag r1 r2 r3 r4 ((b # bs) @ rest)
      = (if tag_hashes ?r1 ?r2 ?r3 ?r4 then Some (bs @ rest) else find_tag ?r1 ?r2 ?r3 ?r4 (bs @ rest))"
    by (simp add: tag_hashes_def Let_def)
  have tl: "tag_hashes (mixed 12 ?r1 bs) (mixed 20 ?r2 bs) (mixed 28 ?r3 bs) (mixed 44 ?r4 bs)"
    using Cons.prems(2) by (simp add: mixed_def)
  show ?case
  proof (cases "tag_hashes ?r1 ?r2 ?r3 ?r4")
    case True
    then show ?thesis unfolding step by auto
  next
    case False
    then have "bs \<noteq> []" using tl by (cases bs) (simp_all add: mixed_def)
    then show ?thesis unfolding step using False Cons.IH [OF _ tl] by simp
  qed
qed simp

text \<open>C29. A block is found whatever stands in front of it: for all bytes before it and all values of the
  rolling hashes, the search stops at the 16 bytes of a start tag, or earlier, and never runs past them.\<close>

theorem tag_never_missed:
  "\<exists>mid. find_tag r1 r2 r3 r4 (junk @ tag @ [122, 80, 81] @ rest) = Some (mid @ rest)"
proof -
  let ?t = "tag @ [122, 80, 81]"
  have len: "length ?t = 16" by (simp add: tag_def)
  have *: "mixed k r (junk @ ?t) = mixed k 0 ?t" if "4 dvd k" for k r
    using mixed_forgets [OF that len, of "mixed k r junk"] by (simp add: mixed_def)
  have "(4 :: u32) dvd 12" "(4 :: u32) dvd 20" "(4 :: u32) dvd 28" "(4 :: u32) dvd 44"
    using dvd_triv_left [of "4 :: u32" 3] dvd_triv_left [of "4 :: u32" 5] dvd_triv_left [of "4 :: u32" 7] dvd_triv_left [of "4 :: u32" 11]
    by simp_all
  then have "tag_hashes (mixed 12 r1 (junk @ ?t)) (mixed 20 r2 (junk @ ?t)) (mixed 28 r3 (junk @ ?t)) (mixed 44 r4 (junk @ ?t))"
    by (simp only: * ) (simp add: mixed_def tag_def tag_hashes_def)
  then show ?thesis using find_tag_passes [of "junk @ ?t" r1 r2 r3 r4 rest] by simp
qed

end
