(* ===== verification/Zpaq_Predictor.thy ===== *)
theory Zpaq_Predictor
  imports Zpaq_Tables Zpaq_Segment
begin

text \<open>
  The context-mixing predictor of the archiver (\<open>zpaq715/libzpaq.cpp\<close>, class \<open>Predictor\<close>): the components
  \<open>CONS\<close> to \<open>SSE\<close>, their initialisation, \<open>predict0\<close> and \<open>update0\<close> (the translation to machine code is
  not modelled).

  A component is a record of the arrays and counters of \<open>Component\<close>; \<open>size_t\<close> has 64 bits.  An array
  access with \<open>[]\<close> outside the array, an \<open>int\<close> that does not fit in 32 bits and a shift by the width
  or more are \<open>Undefined\<close>; an access with \<open>()\<close> is modulo the size.  The bytes of a component in the header
  are read at once.  Running out of memory is not modelled.
\<close>

unbundle bit_operations_syntax

section \<open>Components\<close>

record Component =
  cr_limit :: u64
  cr_cxt :: u64
  cr_a :: u64
  cr_b :: u64
  cr_c :: u64
  cr_cm :: "u32 list"
  cr_ht :: "u8 list"
  cr_a16 :: "u16 list"

definition new_Component :: Component where
  "new_Component = \<lparr>cr_limit = 0, cr_cxt = 0, cr_a = 0, cr_b = 0, cr_c = 0, cr_cm = [], cr_ht = [], cr_a16 = []\<rparr>"

record Predictor =
  q_c8 :: nat
  q_hmap4 :: nat
  q_p :: "int list"
  q_h :: "u32 list"
  q_z :: ZPAQL
  q_comp :: "Component list"

definition new_Predictor :: "ZPAQL \<Rightarrow> Predictor" where
  "new_Predictor z = \<lparr>q_c8 = 1, q_hmap4 = 1, q_p = replicate 256 0, q_h = replicate 256 0, q_z = z, q_comp = replicate 256 new_Component\<rparr>"

text \<open>Array accesses, and arithmetic on \<open>int\<close>.\<close>

definition arr :: "'a list \<Rightarrow> nat \<Rightarrow> 'a result" where
  "arr xs i = (if i < length xs then Inr (xs ! i) else Inl Undefined)"

definition slot64 :: "'a list \<Rightarrow> u64 \<Rightarrow> nat" where
  "slot64 xs i = unat i AND (length xs - 1)"

definition i32 :: "int \<Rightarrow> int result" where
  "i32 x = (if - (2 ^ 31) \<le> x \<and> x < 2 ^ 31 then Inr x else Inl Undefined)"

definition clamp2k :: "int \<Rightarrow> int" where
  "clamp2k x = (if x < - 2048 then - 2048 else if 2047 < x then 2047 else x)"

definition clamp512k :: "int \<Rightarrow> int" where
  "clamp512k x = (if x < - (2 ^ 19) then - (2 ^ 19) else if 2 ^ 19 \<le> x then 2 ^ 19 - 1 else x)"

primrec emap :: "('a \<Rightarrow> 'b result) \<Rightarrow> 'a list \<Rightarrow> 'b list result" where
  "emap f [] = Inr []"
| "emap f (x # xs) = ebind (f x) (\<lambda>y. ebind (emap f xs) (\<lambda>ys. Inr (y # ys)))"

abbreviation (input) CONS :: nat where "CONS \<equiv> 1"
abbreviation (input) CM :: nat where "CM \<equiv> 2"
abbreviation (input) ICM :: nat where "ICM \<equiv> 3"
abbreviation (input) MATCH :: nat where "MATCH \<equiv> 4"
abbreviation (input) AVG :: nat where "AVG \<equiv> 5"
abbreviation (input) MIX2 :: nat where "MIX2 \<equiv> 6"
abbreviation (input) MIX :: nat where "MIX \<equiv> 7"
abbreviation (input) ISSE :: nat where "ISSE \<equiv> 8"
abbreviation (input) SSE :: nat where "SSE \<equiv> 9"

text \<open>The loop over the components: \<open>cp+=compsize[cp[0]]\<close>.\<close>

definition comp_args :: "ZPAQL \<Rightarrow> nat \<Rightarrow> nat list result" where
  "comp_args z cp =
     ebind (arr (header z) cp) (\<lambda>t.
       if cp + compsize (unat t) \<le> length (header z)
       then Inr (map unat (take (max 1 (compsize (unat t))) (drop cp (header z)))) else Inl Undefined)"

primrec walk :: "(nat \<Rightarrow> nat list \<Rightarrow> 's \<Rightarrow> 's result) \<Rightarrow> ZPAQL \<Rightarrow> nat \<Rightarrow> nat \<Rightarrow> nat \<Rightarrow> 's \<Rightarrow> 's result" where
  "walk f z 0 i cp s = Inr s"
| "walk f z (Suc k) i cp s =
     ebind (comp_args z cp) (\<lambda>a. ebind (f i a s) (walk f z k (i + 1) (cp + compsize (a ! 0))))"

definition set_comp :: "nat \<Rightarrow> Component \<Rightarrow> Predictor \<Rightarrow> Predictor" where
  "set_comp i c P = P\<lparr>q_comp := (q_comp P)[i := c]\<rparr>"

definition set_p :: "nat \<Rightarrow> int \<Rightarrow> Predictor \<Rightarrow> Predictor" where
  "set_p i v P = P\<lparr>q_p := (q_p P)[i := v]\<rparr>"

section \<open>Initialisation\<close>

definition init_isse :: "u32 list result" where
  "init_isse = ebind (emap (\<lambda>j. ebind (stretch (cminit j div 256)) (\<lambda>s. Inr [2 ^ 15, of_int (clamp512k (s * 1024))])) [0 ..< 256])
     (\<lambda>rows. Inr (concat rows))"

definition init_sse :: "nat \<Rightarrow> u32 list result" where
  "init_sse start = emap (\<lambda>j. ebind (squash (int j * 64 - 992)) (\<lambda>s. Inr (push_bit 17 (of_int s) OR of_nat start))) [0 ..< 32]"

definition init_comp :: "nat \<Rightarrow> nat list \<Rightarrow> Predictor \<Rightarrow> Predictor result" where
  "init_comp i a P =
     (if a ! 0 = CONS then Inr (set_p i ((int (a ! 1) - 128) * 4) P)
      else if a ! 0 = CM then
        (if 32 < a ! 1 then Inl (Thrown ''max size for CM is 32'')
         else Inr (set_comp i (new_Component\<lparr>cr_cm := replicate (2 ^ (a ! 1)) 0x80000000, cr_limit := of_nat (a ! 2 * 4)\<rparr>) P))
      else if a ! 0 = ICM then
        (if 26 < a ! 1 then Inl (Thrown ''max size for ICM is 26'')
         else Inr (set_comp i (new_Component\<lparr>cr_limit := 1023, cr_cm := map (\<lambda>j. of_nat (cminit j)) [0 ..< 256],
                cr_ht := replicate (64 * 2 ^ (a ! 1)) 0\<rparr>) P))
      else if a ! 0 = MATCH then
        (if 32 < a ! 1 \<or> 32 < a ! 2 then Inl (Thrown ''max size for MATCH is 32 32'')
         else Inr (set_comp i (new_Component\<lparr>cr_cm := replicate (2 ^ (a ! 1)) 0, cr_ht := (replicate (2 ^ (a ! 2)) 0)[0 := 1]\<rparr>) P))
      else if a ! 0 = AVG then
        (if i \<le> a ! 1 then Inl (Thrown ''AVG j >= i'')
         else if i \<le> a ! 2 then Inl (Thrown ''AVG k >= i'') else Inr P)
      else if a ! 0 = MIX2 then
        (if 32 < a ! 1 then Inl (Thrown ''max size for MIX2 is 32'')
         else if i \<le> a ! 3 then Inl (Thrown ''MIX2 k >= i'')
         else if i \<le> a ! 2 then Inl (Thrown ''MIX2 j >= i'')
         else Inr (set_comp i (new_Component\<lparr>cr_c := 2 ^ (a ! 1), cr_a16 := replicate (2 ^ (a ! 1)) 32768\<rparr>) P))
      else if a ! 0 = MIX then
        (if 32 < a ! 1 then Inl (Thrown ''max size for MIX is 32'')
         else if i \<le> a ! 2 then Inl (Thrown ''MIX j >= i'')
         else if a ! 3 < 1 \<or> i - a ! 2 < a ! 3 then Inl (Thrown ''MIX m not in 1..i-j'')
         else Inr (set_comp i (new_Component\<lparr>cr_c := 2 ^ (a ! 1), cr_cm := replicate (a ! 3 * 2 ^ (a ! 1)) (of_nat (65536 div a ! 3))\<rparr>) P))
      else if a ! 0 = ISSE then
        (if 32 < a ! 1 then Inl (Thrown ''max size for ISSE is 32'')
         else if i \<le> a ! 2 then Inl (Thrown ''ISSE j >= i'')
         else ebind init_isse (\<lambda>cm. Inr (set_comp i (new_Component\<lparr>cr_ht := replicate (64 * 2 ^ (a ! 1)) 0, cr_cm := cm\<rparr>) P)))
      else if a ! 0 = SSE then
        (if 32 < a ! 1 then Inl (Thrown ''max size for SSE is 32'')
         else if i \<le> a ! 2 then Inl (Thrown ''SSE j >= i'')
         else if a ! 4 * 4 < a ! 3 then Inl (Thrown ''SSE start > limit*4'')
         else ebind (init_sse (a ! 3)) (\<lambda>row.
                Inr (set_comp i (new_Component\<lparr>cr_cm := concat (replicate (2 ^ (a ! 1)) row), cr_limit := of_nat (a ! 4 * 4)\<rparr>) P)))
      else Inl (Thrown ''unknown component type''))"

definition ncomp :: "ZPAQL \<Rightarrow> nat" where
  "ncomp z = unat (header z ! 6)"

definition Predictor_init :: "Predictor \<Rightarrow> Predictor result" where
  "Predictor_init P =
     ebind (inith (q_z P)) (\<lambda>z.
       walk init_comp z (ncomp z) 0 7
         (P\<lparr>q_z := z, q_h := replicate 256 0, q_p := replicate 256 0, q_comp := replicate 256 new_Component\<rparr>))"

section \<open>Prediction\<close>

text \<open>\<open>find\<close>: the three rows must lie in the table; the result is the table and the row.\<close>

definition new_row :: "nat \<Rightarrow> u8 \<Rightarrow> u8 list \<Rightarrow> u8 list" where
  "new_row r chk ht = take r ht @ chk # replicate 15 0 @ drop (r + 16) ht"

definition find_row :: "u8 list \<Rightarrow> nat \<Rightarrow> u32 \<Rightarrow> (u8 list \<times> nat) result" where
  "find_row ht sizebits cxt =
     (let chk = ucast (drop_bit sizebits cxt AND 255);
          r0 = unat (cxt * 16) AND (length ht - 16);
          r1 = r0 XOR 16;
          r2 = r0 XOR 32
      in if 32 \<le> sizebits \<or> length ht < r0 + 16 \<or> length ht < r1 + 16 \<or> length ht < r2 + 16 then Inl Undefined
         else if ht ! r0 = chk then Inr (ht, r0)
         else if ht ! r1 = chk then Inr (ht, r1)
         else if ht ! r2 = chk then Inr (ht, r2)
         else if ht ! (r0 + 1) \<le> ht ! (r1 + 1) \<and> ht ! (r0 + 1) \<le> ht ! (r2 + 1) then Inr (new_row r0 chk ht, r0)
         else if ht ! (r1 + 1) < ht ! (r2 + 1) then Inr (new_row r1 chk ht, r1)
         else Inr (new_row r2 chk ht, r2))"

text \<open>The bit history of an \<open>ICM\<close> or \<open>ISSE\<close>: a new row at the nibble boundaries.\<close>

definition history :: "nat \<Rightarrow> nat list \<Rightarrow> Predictor \<Rightarrow> Component \<Rightarrow> Component result" where
  "history i a P c =
     ebind (if q_c8 P = 1 \<or> q_c8 P AND 0xf0 = 16
            then ebind (find_row (cr_ht c) (a ! 1 + 2) (q_h P ! i + 16 * of_nat (q_c8 P))) (\<lambda>(ht, r). Inr (c\<lparr>cr_ht := ht, cr_c := of_nat r\<rparr>))
            else Inr c) (\<lambda>c.
     ebind (arr (cr_ht c) (unat (cr_c c) + (q_hmap4 P AND 15))) (\<lambda>bh. Inr (c\<lparr>cr_cxt := ucast bh\<rparr>)))"

text \<open>\<open>p[i]+=(wt[j]>>8)*p[cp[2]+j]\<close>\<close>

fun dot :: "u32 list \<Rightarrow> int list \<Rightarrow> int \<Rightarrow> int result" where
  "dot (w # ws) (x # xs) s = ebind (i32 (s + (sint w div 256) * x)) (dot ws xs)"
| "dot _ _ s = Inr s"

definition predict_comp :: "nat \<Rightarrow> nat list \<Rightarrow> Predictor \<Rightarrow> Predictor result" where
  "predict_comp i a P =
     (let c = q_comp P ! i; p = q_p P; h = q_h P ! i
      in if a ! 0 = CONS then Inr P
         else if a ! 0 = CM then
           (let cxt = ucast (h XOR of_nat (q_hmap4 P))
            in ebind (stretch (unat (drop_bit 17 (cr_cm c ! slot64 (cr_cm c) cxt)))) (\<lambda>v.
                 Inr (set_p i v (set_comp i (c\<lparr>cr_cxt := cxt\<rparr>) P))))
         else if a ! 0 = ICM then
           ebind (history i a P c) (\<lambda>c.
           ebind (stretch (unat (drop_bit 8 (cr_cm c ! slot64 (cr_cm c) (cr_cxt c))))) (\<lambda>v. Inr (set_p i v (set_comp i c P))))
         else if a ! 0 = MATCH then
           (if cr_a c = 0 then Inr (set_p i 0 P)
            else if 8 \<le> unat (cr_cxt c) then Inl Undefined
            else let bit = (unat (cr_ht c ! slot64 (cr_ht c) (cr_limit c - cr_b c)) div 2 ^ (7 - unat (cr_cxt c))) mod 2
                 in ebind (arr sdt2k (unat (cr_a c))) (\<lambda>d.
                    ebind (stretch (nat ((d * (1 - 2 * int bit)) mod 32768))) (\<lambda>v.
                      Inr (set_p i v (set_comp i (c\<lparr>cr_c := of_nat bit\<rparr>) P)))))
         else if a ! 0 = AVG then
           ebind (i32 (p ! (a ! 1) * int (a ! 3) + p ! (a ! 2) * (256 - int (a ! 3)))) (\<lambda>v. Inr (set_p i (v div 256) P))
         else if a ! 0 = MIX2 then
           (let cxt = ucast (h + of_nat (q_c8 P AND a ! 5)) AND (cr_c c - 1)
            in ebind (arr (cr_a16 c) (unat cxt)) (\<lambda>w.
               ebind (i32 (uint w * p ! (a ! 2) + (65536 - uint w) * p ! (a ! 3))) (\<lambda>v.
                 Inr (set_p i (v div 65536) (set_comp i (c\<lparr>cr_cxt := cxt\<rparr>) P)))))
         else if a ! 0 = MIX then
           (let m = a ! 3; cxt = (ucast (h + of_nat (q_c8 P AND a ! 5)) AND (cr_c c - 1)) * of_nat m
            in if length (cr_cm c) < unat cxt + m then Inl Undefined
               else ebind (dot (take m (drop (unat cxt) (cr_cm c))) (drop (a ! 2) p) 0) (\<lambda>v.
                 Inr (set_p i (clamp2k (v div 256)) (set_comp i (c\<lparr>cr_cxt := cxt\<rparr>) P))))
         else if a ! 0 = ISSE then
           ebind (history i a P c) (\<lambda>c.
           ebind (arr (cr_cm c) (unat (cr_cxt c) * 2)) (\<lambda>w0.
           ebind (arr (cr_cm c) (unat (cr_cxt c) * 2 + 1)) (\<lambda>w1.
           ebind (i32 (sint w0 * p ! (a ! 2) + sint w1 * 64)) (\<lambda>v.
             Inr (set_p i (clamp2k (v div 65536)) (set_comp i c P))))))
         else if a ! 0 = SSE then
           (let pq = max 0 (min 1983 (p ! (a ! 2) + 992));
                wt = nat (pq mod 64);
                cxt = ucast ((h + of_nat (q_c8 P)) * 32) + of_int (pq div 64);
                x0 = unat (drop_bit 10 (cr_cm c ! slot64 (cr_cm c) cxt));
                x1 = unat (drop_bit 10 (cr_cm c ! slot64 (cr_cm c) (cxt + 1)))
            in ebind (stretch ((x0 * (64 - wt) + x1 * wt) div 8192)) (\<lambda>v.
                 Inr (set_p i v (set_comp i (c\<lparr>cr_cxt := cxt + of_nat (wt div 32)\<rparr>) P))))
         else Inl (Thrown ''component predict not implemented''))"

definition predict0 :: "Predictor \<Rightarrow> (int \<times> Predictor) result" where
  "predict0 P =
     ebind (walk predict_comp (q_z P) (ncomp (q_z P)) 0 7 P) (\<lambda>P.
     ebind (squash (q_p P ! (ncomp (q_z P) - 1))) (\<lambda>v. Inr (v, P)))"

section \<open>Update\<close>

definition train :: "nat \<Rightarrow> Component \<Rightarrow> Component result" where
  "train y c =
     (let s = slot64 (cr_cm c) (cr_cxt c);
          pn = cr_cm c ! s;
          count = unat (pn AND 0x3ff);
          err = int y * 32767 - int (unat (drop_bit 17 pn))
      in ebind (i32 (err * sdt ! count)) (\<lambda>e.
           Inr (c\<lparr>cr_cm := (cr_cm c)[s := pn + of_int (e AND - 1024) + (if of_nat count < cr_limit c then 1 else 0)]\<rparr>)))"

text \<open>The length of a match: \<open>while (cr.a<255 && ...) ++cr.a\<close>.\<close>

function match_length :: "u8 list \<Rightarrow> u64 \<Rightarrow> u64 \<Rightarrow> nat \<Rightarrow> nat" where
  "match_length ht limit b a =
     (if a < 255 \<and> ht ! slot64 ht (limit - of_nat a - 1) = ht ! slot64 ht (limit - of_nat a - b - 1)
      then match_length ht limit b (a + 1) else a)"
  by pat_completeness auto
termination
  by (relation "measure (\<lambda>(ht, limit, b, a). 255 - a)") auto

declare match_length.simps [simp del]

definition update_match :: "nat \<Rightarrow> nat \<Rightarrow> u32 \<Rightarrow> Component \<Rightarrow> Component result" where
  "update_match bufbits y h c0 =
     (let c1 = (if cr_c c0 \<noteq> of_nat y then c0\<lparr>cr_a := 0\<rparr> else c0);
          s = slot64 (cr_ht c1) (cr_limit c1);
          c2 = c1\<lparr>cr_ht := (cr_ht c1)[s := cr_ht c1 ! s + (cr_ht c1 ! s + of_nat y)], cr_cxt := cr_cxt c1 + 1\<rparr>
      in if cr_cxt c2 \<noteq> 8 then Inr c2
         else if 31 \<le> bufbits then Inl Undefined
         else let limit = (cr_limit c2 + 1) AND (2 ^ bufbits - 1);
                  c3 = c2\<lparr>cr_cxt := 0, cr_limit := limit\<rparr>;
                  k = slot64 (cr_cm c3) (ucast h);
                  c4 = (if cr_a c3 = 0
                        then (let b = limit - ucast (cr_cm c3 ! k)
                              in c3\<lparr>cr_b := b,
                                   cr_a := if b AND (of_nat (length (cr_ht c3)) - 1) \<noteq> 0
                                           then of_nat (match_length (cr_ht c3) limit b 0) else 0\<rparr>)
                        else c3\<lparr>cr_a := cr_a c3 + (if cr_a c3 < 255 then 1 else 0)\<rparr>)
              in Inr (c4\<lparr>cr_cm := (cr_cm c4)[k := ucast limit]\<rparr>))"

definition update_icm :: "nat \<Rightarrow> nat \<Rightarrow> Component \<Rightarrow> Component result" where
  "update_icm y hmap4 c =
     (let k = unat (cr_c c) + (hmap4 AND 15)
      in ebind (arr (cr_ht c) k) (\<lambda>bh.
           let s = slot64 (cr_cm c) (cr_cxt c); pn = cr_cm c ! s
           in Inr (c\<lparr>cr_ht := (cr_ht c)[k := st_next bh y],
                     cr_cm := (cr_cm c)[s := pn + of_int (sint (of_int (int y * 32767) - drop_bit 8 pn) div 4)]\<rparr>)))"

definition update_mix2 :: "nat list \<Rightarrow> int \<Rightarrow> int list \<Rightarrow> Component \<Rightarrow> Component result" where
  "update_mix2 a err0 p c =
     ebind (i32 (err0 * int (a ! 4))) (\<lambda>e.
       let err = e div 32
       in ebind (arr (cr_a16 c) (unat (cr_cxt c))) (\<lambda>w.
          ebind (i32 (err * (p ! (a ! 2) - p ! (a ! 3)) + 4096)) (\<lambda>d.
            Inr (c\<lparr>cr_a16 := (cr_a16 c)[unat (cr_cxt c) := of_int (max 0 (min 65535 (uint w + d div 8192)))]\<rparr>))))"

text \<open>A weight of a mixer: \<open>clamp512k(wt+((err*p+(1<<12))>>13))\<close>.\<close>

definition new_weight :: "int \<Rightarrow> u32 \<Rightarrow> int \<Rightarrow> u32 result" where
  "new_weight err w x = ebind (i32 (err * x + 4096)) (\<lambda>d. Inr (of_int (clamp512k (sint w + d div 8192))))"

definition update_mix :: "nat list \<Rightarrow> int \<Rightarrow> int list \<Rightarrow> Component \<Rightarrow> Component result" where
  "update_mix a err0 p c =
     (let m = a ! 3; k = unat (cr_cxt c)
      in ebind (i32 (err0 * int (a ! 4))) (\<lambda>e.
         if length (cr_cm c) < k + m then Inl Undefined
         else ebind (emap (\<lambda>(w, x). new_weight (e div 16) w x) (zip (take m (drop k (cr_cm c))) (drop (a ! 2) p))) (\<lambda>ws.
           Inr (c\<lparr>cr_cm := take k (cr_cm c) @ ws @ drop (k + m) (cr_cm c)\<rparr>))))"

definition update_isse :: "nat \<Rightarrow> nat \<Rightarrow> nat list \<Rightarrow> int \<Rightarrow> int list \<Rightarrow> Component \<Rightarrow> Component result" where
  "update_isse y hmap4 a err p c =
     (let k = unat (cr_cxt c) * 2; t = unat (cr_c c) + (hmap4 AND 15)
      in ebind (arr (cr_cm c) k) (\<lambda>w0.
         ebind (arr (cr_cm c) (k + 1)) (\<lambda>w1.
         ebind (new_weight err w0 (p ! (a ! 2))) (\<lambda>v0.
         ebind (i32 (err + 16)) (\<lambda>d.
         ebind (arr sns (unat (cr_cxt c) * 4 + y)) (\<lambda>nxt.
         ebind (arr (cr_ht c) t) (\<lambda>_.
           Inr (c\<lparr>cr_cm := (cr_cm c)[k := v0, k + 1 := of_int (clamp512k (sint w1 + d div 32))],
                  cr_ht := (cr_ht c)[t := nxt]\<rparr>))))))))"

definition update_comp :: "nat \<Rightarrow> nat \<Rightarrow> nat list \<Rightarrow> Predictor \<Rightarrow> Predictor result" where
  "update_comp y i a P =
     (let c = q_comp P ! i; p = q_p P
      in ebind
           (if a ! 0 = CM \<or> a ! 0 = SSE then train y c
            else if a ! 0 = ICM then update_icm y (q_hmap4 P) c
            else if a ! 0 = MATCH then update_match (a ! 2) y (q_h P ! i) c
            else if a ! 0 = MIX2 then ebind (squash (p ! i)) (\<lambda>s. update_mix2 a (int y * 32767 - s) p c)
            else if a ! 0 = MIX then ebind (squash (p ! i)) (\<lambda>s. update_mix a (int y * 32767 - s) p c)
            else if a ! 0 = ISSE then ebind (squash (p ! i)) (\<lambda>s. update_isse y (q_hmap4 P) a (int y * 32767 - s) p c)
            else Inr c)
           (\<lambda>c. Inr (set_comp i c P)))"

text \<open>\<open>c8\<close>, \<open>hmap4\<close> and, after a byte, the contexts.\<close>

definition zH :: "ZPAQL \<Rightarrow> nat \<Rightarrow> u32" where
  "zH z i = zh z ! slot (zh z) (of_nat i)"

definition save_bit :: "nat \<Rightarrow> nat \<Rightarrow> Predictor \<Rightarrow> Predictor result" where
  "save_bit fuel y P =
     (let c8 = q_c8 P + (q_c8 P + y); h4 = q_hmap4 P
      in if 256 \<le> c8 then
           ebind (run0 fuel (of_nat (c8 - 256)) (q_z P)) (\<lambda>z.
             let n = ncomp z
             in Inr (P\<lparr>q_z := z, q_hmap4 := 1, q_c8 := 1, q_h := map (zH z) [0 ..< n] @ drop n (q_h P)\<rparr>))
         else if 16 \<le> c8 \<and> c8 < 32 then Inr (P\<lparr>q_c8 := c8, q_hmap4 := push_bit 5 (h4 AND 0xf) OR push_bit 4 y OR 1\<rparr>)
         else Inr (P\<lparr>q_c8 := c8, q_hmap4 := (h4 AND 0x1f0) OR (((h4 AND 0xf) * 2 + y) AND 0xf)\<rparr>))"

definition update0 :: "nat \<Rightarrow> nat \<Rightarrow> Predictor \<Rightarrow> Predictor result" where
  "update0 fuel y P = ebind (walk (update_comp y) (q_z P) (ncomp (q_z P)) 0 7 P) (save_bit fuel y)"

text \<open>The calls of the coder: a prediction and an update for every bit.\<close>

primrec predictor_run :: "nat \<Rightarrow> nat list \<Rightarrow> Predictor \<Rightarrow> (int list \<times> Predictor) result" where
  "predictor_run fuel [] P = Inr ([], P)"
| "predictor_run fuel (y # ys) P =
     ebind (predict0 P) (\<lambda>(v, P). ebind (update0 fuel y P) (\<lambda>P.
     ebind (predictor_run fuel ys P) (\<lambda>(vs, P). Inr (v # vs, P))))"

end
