(* ===== verification/Zpaq_Predictor_Safe.thy ===== *)
theory Zpaq_Predictor_Safe
  imports Zpaq_Predictor
begin

text \<open>
  The predictor stays inside its arrays: for every type of component the state that initialisation
  leaves and that predictions and updates keep, first for the counters, hash rows and mixers on their own, then
  for a component, then for the predictor as a whole and for any program \<open>read\<close> accepts.  The last
  section makes the predictor the parameter of the coder.
\<close>

unbundle bit_operations_syntax

section \<open>Components that stay inside their arrays\<close>

lemma i32_ok: "- 2147483648 \<le> x \<Longrightarrow> x < 2147483648 \<Longrightarrow> i32 x = Inr x"
  by (simp add: i32_def)

lemma arr_ok: "i < length xs \<Longrightarrow> arr xs i = Inr (xs ! i)"
  by (simp add: arr_def)

lemma slot64_bound: "xs \<noteq> [] \<Longrightarrow> slot64 xs i < length xs"
proof -
  assume "xs \<noteq> []"
  have "int (unat i AND (length xs - 1)) \<le> int (length xs - 1)" unfolding of_nat_and_eq by (rule AND_upper2) simp
  then show ?thesis using \<open>xs \<noteq> []\<close> by (cases xs) (auto simp: slot64_def)
qed

lemma slot64_mem: "xs \<noteq> [] \<Longrightarrow> xs ! slot64 xs i \<in> set xs"
  using slot64_bound by (rule nth_mem)

lemma clamp_bounds: "- 2048 \<le> clamp2k x" "clamp2k x \<le> 2047" "- 524288 \<le> clamp512k x" "clamp512k x < 524288"
  by (simp_all add: clamp2k_def clamp512k_def)

definition weight_ok :: "u32 \<Rightarrow> bool" where
  "weight_ok w \<longleftrightarrow> - 524288 \<le> sint w \<and> sint w < 524288"

lemma sint_of_small: "- 2147483648 \<le> x \<Longrightarrow> x < 2147483648 \<Longrightarrow> sint (of_int x :: u32) = x"
  by (simp add: signed_of_int signed_take_bit_int_eq_self)

lemma weight_ok_clamp: "weight_ok (of_int (clamp512k x))"
  using clamp_bounds(3,4) [of x] by (simp add: weight_ok_def sint_of_small)

text \<open>A product of two bounded numbers.\<close>

lemma mult_bound:
  fixes x y :: int
  assumes "\<bar>x\<bar> \<le> A" "\<bar>y\<bar> \<le> B"
  shows "- (A * B) \<le> x * y" "x * y \<le> A * B"
proof -
  have "0 \<le> A" using assms(1) by linarith
  have "\<bar>x * y\<bar> \<le> A * B" unfolding abs_mult by (rule mult_mono) (use assms \<open>0 \<le> A\<close> in auto)
  then show "- (A * B) \<le> x * y" "x * y \<le> A * B" by linarith+
qed

lemma new_weight_ok:
  assumes "\<bar>err\<bar> \<le> 524287" "\<bar>x\<bar> \<le> 2048" "weight_ok w"
  shows "\<exists>v. new_weight err w x = Inr v \<and> weight_ok v"
proof -
  have "i32 (err * x + 4096) = Inr (err * x + 4096)"
    by (rule i32_ok) (use mult_bound [OF assms(1,2)] in simp_all)
  then show ?thesis by (simp add: new_weight_def weight_ok_clamp)
qed

lemma dot_ok:
  assumes "\<forall>w \<in> set ws. weight_ok w" "\<forall>x \<in> set xs. \<bar>x\<bar> \<le> 2048" "\<bar>s\<bar> + int (length ws) * 4194304 < 2147483648"
  shows "\<exists>v. dot ws xs s = Inr v"
  using assms
proof (induction ws xs s rule: dot.induct)
  case (1 w ws x xs s)
  have "\<bar>sint w div 256\<bar> \<le> 2048" using "1.prems"(1) by (auto simp: weight_ok_def)
  then have b: "\<bar>(sint w div 256) * x\<bar> \<le> 4194304" using mult_bound [of "sint w div 256" 2048 x 2048] "1.prems"(2) by auto
  have b2: "\<bar>s + (sint w div 256) * x\<bar> \<le> \<bar>s\<bar> + \<bar>(sint w div 256) * x\<bar>" by (rule abs_triangle_ineq)
  have "0 \<le> int (length ws) * 4194304" by simp
  then have b3: "\<bar>s + (sint w div 256) * x\<bar> < 2147483648" using b b2 "1.prems"(3) by simp
  have "i32 (s + (sint w div 256) * x) = Inr (s + (sint w div 256) * x)"
    by (rule i32_ok) (use b3 in linarith)+
  moreover have "\<bar>s + (sint w div 256) * x\<bar> + int (length ws) * 4194304 < 2147483648"
    using b b2 "1.prems"(3) by simp
  ultimately show ?case using "1.IH" "1.prems"(1,2) by simp
qed auto

lemma emap_ok:
  assumes "\<And>x. x \<in> set xs \<Longrightarrow> \<exists>y. f x = Inr y \<and> Q y"
  shows "\<exists>ys. emap f xs = Inr ys \<and> length ys = length xs \<and> (\<forall>y \<in> set ys. Q y)"
  using assms
proof (induction xs)
  case (Cons x xs)
  obtain y where "f x = Inr y" "Q y" using Cons.prems [of x] by auto
  moreover obtain ys where "emap f xs = Inr ys" "length ys = length xs" "\<forall>y \<in> set ys. Q y" using Cons by auto
  ultimately show ?case by simp
qed simp

text \<open>The entries of a counter: its count is not zero, or it is new.\<close>

definition entry_ok :: "u32 \<Rightarrow> bool" where
  "entry_ok x \<longleftrightarrow> x = 0x80000000 \<or> unat x mod 1024 \<noteq> 0"

lemma low_count: "unat (x AND 0x3ff :: u32) = unat x mod 1024"
proof -
  have m: "unat (0x3ff :: u32) = mask 10" by (simp add: mask_eq_exp_minus_1)
  have "unat (x AND 0x3ff) = take_bit 10 (unat x)" unfolding unsigned_and_eq m take_bit_eq_mask ..
  then show ?thesis by (simp add: take_bit_eq_mod)
qed

lemma floor_1024: "(x :: int) AND - 1024 = x div 1024 * 1024"
proof -
  have m: "- 1024 = NOT (mask 10 :: int)" by (simp add: mask_eq_exp_minus_1 not_int_def)
  have "x AND NOT (mask 10) = push_bit 10 (drop_bit 10 x)"
    by (rule bit_eqI) (auto simp only: bit_and_iff bit_not_iff bit_mask_iff bit_push_bit_iff bit_drop_bit_eq comp_def
      possible_bit_int le_add_diff_inverse not_less)
  then show ?thesis unfolding m by (simp add: push_bit_eq_mult drop_bit_eq_div)
qed

lemma trained_entry:
  assumes "c = unat pn mod 1024" "k \<le> 1" "c + k < 1024"
  shows "unat (pn + of_int (e AND - 1024) + of_nat k :: u32) mod 1024 = c + k"
proof -
  let ?v = "pn + of_int (e AND - 1024) + of_nat k :: u32"
  have k: "uint (of_nat k :: u32) = int k" using assms(2) by (cases k) auto
  have "uint ?v mod 1024 = (uint pn + e div 1024 * 1024 + int k) mod 1024"
    by (simp add: uint_word_ariths floor_1024 mod_mod_cancel mod_simps uint_word_of_int k del: of_nat_1)
  also have "uint pn + e div 1024 * 1024 + int k = uint pn + int k + 1024 * (e div 1024)" by simp
  also have "\<dots> mod 1024 = (uint pn + int k) mod 1024" by (rule mod_mult_self2)
  also have "\<dots> = (uint pn mod 1024 + int k) mod 1024" by (simp add: mod_simps)
  also have "uint pn mod 1024 = int c" by (simp add: assms(1) zmod_int)
  also have "(int c + int k) mod 1024 = int (c + k)" using assms(3) by simp
  finally have "int (unat ?v mod 1024) = int (c + k)" by (simp add: zmod_int)
  then show ?thesis by (simp only: of_nat_eq_iff)
qed

lemma count_0: "sdt ! 0 = 87380"
  using sdt_bounds(1) table_lengths(3) hd_conv_nth [of sdt] by fastforce

lemma count_pos: "0 < n \<Longrightarrow> n < 1024 \<Longrightarrow> 0 \<le> sdt ! n \<and> sdt ! n \<le> 52428"
proof -
  assume n: "0 < n" "n < 1024"
  have l: "n - 1 < length (tl sdt)" using n table_lengths(3) by simp
  have "tl sdt ! (n - 1) = sdt ! Suc (n - 1)" by (rule nth_tl [OF l])
  then have "sdt ! n \<in> set (tl sdt)" using nth_mem [OF l] n(1) by simp
  then show ?thesis using sdt_bounds(2) by (auto simp: list_all_iff)
qed

lemma unat_drop: "unat (drop_bit k x :: u32) = unat x div 2 ^ k"
  unfolding unat_drop_bit_eq by (rule drop_bit_eq_div)

lemma unat_shifted: "k < 32 \<Longrightarrow> unat (drop_bit k x :: u32) < 2 ^ (32 - k)"
proof -
  assume "k < 32"
  have "unat x < 2 ^ (32 - k) * 2 ^ k"
    using unsigned_less [of x, where ?'a = nat] \<open>k < 32\<close> by (simp flip: power_add)
  then show ?thesis unfolding unat_drop by (simp add: less_mult_imp_div_less)
qed

lemma train_ok:
  assumes "cr_cm c \<noteq> []" "\<forall>x \<in> set (cr_cm c). entry_ok x" "1 \<le> unat (cr_limit c)" "unat (cr_limit c) \<le> 1023" "y \<le> 1"
  shows "\<exists>cm. train y c = Inr (c\<lparr>cr_cm := cm\<rparr>) \<and> length cm = length (cr_cm c) \<and> (\<forall>x \<in> set cm. entry_ok x)"
proof -
  let ?s = "slot64 (cr_cm c) (cr_cxt c)"
  define pn where "pn = cr_cm c ! ?s"
  define n where "n = unat pn mod 1024"
  define err where "err = int y * 32767 - int (unat (drop_bit 17 pn))"
  have pn: "entry_ok pn" using assms(2) slot64_mem [OF assms(1)] by (simp add: pn_def)
  have d: "unat (drop_bit 17 pn) \<le> 32767"
    using unat_shifted [of 17 pn] by simp
  have e: "i32 (err * sdt ! n) = Inr (err * sdt ! n)"
  proof (cases "n = 0")
    case True
    then have "pn = 0x80000000" using pn by (simp add: entry_ok_def n_def)
    then have "\<bar>err\<bar> \<le> 16384" using assms(5) by (cases "y = 0") (auto simp: err_def drop_bit_eq_div)
    then show ?thesis using True count_0 mult_bound [of err 16384 87380 87380] by (intro i32_ok) auto
  next
    case False
    have "0 \<le> int (unat (drop_bit 17 pn))" "int (unat (drop_bit 17 pn)) \<le> 32767" using d by linarith+
    moreover have "y = 0 \<or> y = 1" using assms(5) by auto
    ultimately have "\<bar>err\<bar> \<le> 32767" unfolding err_def by auto
    moreover have "\<bar>sdt ! n\<bar> \<le> 52428" using count_pos [of n] False by (simp add: n_def)
    ultimately show ?thesis using mult_bound [of err 32767 "sdt ! n" 52428] by (intro i32_ok) auto
  qed
  define k where "k = (if of_nat n < cr_limit c then 1 else 0 :: nat)"
  have k: "n + k < 1024" "n + k \<noteq> 0"
  proof -
    have "n < 1024" by (simp add: n_def)
    then have "of_nat n < cr_limit c \<longleftrightarrow> n < unat (cr_limit c)" by (simp add: word_less_nat_alt unat_of_nat)
    then show "n + k < 1024" "n + k \<noteq> 0" using assms(3,4) \<open>n < 1024\<close> by (auto simp: k_def)
  qed
  let ?v = "pn + of_int (err * sdt ! n AND - 1024) + of_nat k"
  have "entry_ok ?v" using trained_entry [OF n_def _ k(1), of "err * sdt ! n"] k(2) by (auto simp: entry_ok_def k_def)
  moreover have "train y c = Inr (c\<lparr>cr_cm := (cr_cm c)[?s := ?v]\<rparr>)"
    unfolding train_def Let_def pn_def [symmetric] low_count n_def [symmetric] err_def [symmetric] e ebind_simps k_def by simp
  moreover have "\<forall>x \<in> set ((cr_cm c)[?s := ?v]). entry_ok x"
    using assms(2) \<open>entry_ok ?v\<close> set_update_subset_insert [of "cr_cm c" ?s ?v] by blast
  ultimately show ?thesis by (intro exI [of _ "(cr_cm c)[?s := ?v]"]) simp
qed



text \<open>The outcome of an operation: a fault that is allowed, or a state that satisfies the invariant.\<close>

definition outcome :: "(fault \<Rightarrow> bool) \<Rightarrow> ('s \<Rightarrow> bool) \<Rightarrow> 's result \<Rightarrow> bool" where
  "outcome F I r = (case r of Inl e \<Rightarrow> F e | Inr s \<Rightarrow> I s)"

lemma outcome_simps [simp]: "outcome F I (Inl e) = F e" "outcome F I (Inr s) = I s"
  by (simp_all add: outcome_def)

lemma outcome_ebind: "outcome F I m \<Longrightarrow> (\<And>s. I s \<Longrightarrow> outcome F J (f s)) \<Longrightarrow> outcome F J (ebind m f)"
  by (cases m) auto

lemma outcome_total: "outcome (\<lambda>_. False) I r \<longleftrightarrow> (\<exists>s. r = Inr s \<and> I s)"
  by (cases r) auto

text \<open>The loop over the components, with the arguments the header holds from \<open>cp\<close> on.\<close>

primrec args_at :: "ZPAQL \<Rightarrow> nat \<Rightarrow> nat list list \<Rightarrow> bool" where
  "args_at z cp [] = True"
| "args_at z cp (a # As) = (comp_args z cp = Inr a \<and> args_at z (cp + compsize (a ! 0)) As)"

lemma walk_outcome:
  assumes "args_at z cp As" "I i s"
    and "\<And>j s. j < length As \<Longrightarrow> I (i + j) s \<Longrightarrow> outcome F (I (i + j + 1)) (f (i + j) (As ! j) s)"
  shows "outcome F (I (i + length As)) (walk f z (length As) i cp s)"
  using assms
proof (induction As arbitrary: i cp s)
  case (Cons a As)
  have "outcome F (I (i + 1)) (f i a s)" using Cons.prems(3) [of 0 s] Cons.prems(2) by simp
  moreover have "outcome F (I (i + 1 + length As)) (walk f z (length As) (i + 1) (cp + compsize (a ! 0)) s')" if "I (i + 1) s'" for s'
  proof (rule Cons.IH)
    show "outcome F (I (i + 1 + j + 1)) (f (i + 1 + j) (As ! j) s'')" if "j < length As" "I (i + 1 + j) s''" for j s''
      using Cons.prems(3) [of "Suc j" s''] that by simp
  qed (use Cons.prems(1) that in auto)
  ultimately show ?case using Cons.prems(1) outcome_ebind [of F "I (i + 1)" "f i a s" "I (i + 1 + length As)"] by simp
qed simp

section \<open>Rows of the hash table\<close>

definition rows_ok :: "nat \<Rightarrow> Component \<Rightarrow> bool" where
  "rows_ok k c \<longleftrightarrow> length (cr_ht c) = 64 * 2 ^ k \<and> unat (cr_c c) + 16 \<le> length (cr_ht c)"

lemma and_sub16:
  fixes x :: nat
  shows "x AND (64 * 2 ^ k - 16) = take_bit (k + 6) x div 16 * 16"
proof -
  have "64 * 2 ^ k - 16 = push_bit 4 (mask (k + 2) :: nat)"
    by (simp add: push_bit_eq_mult mask_eq_exp_minus_1 power_add algebra_simps)
  moreover have "x AND push_bit 4 (mask (k + 2)) = push_bit 4 (drop_bit 4 (take_bit (k + 6) x))"
    by (rule bit_eqI) (auto simp: bit_and_iff bit_push_bit_iff bit_mask_iff bit_drop_bit_eq bit_take_bit_iff)
  ultimately show ?thesis by (simp add: push_bit_eq_mult drop_bit_eq_div)
qed

lemma xor_row:
  fixes r b :: nat
  assumes "r div 16 * 16 = r" "r < 2 ^ (k + 6)" "b < 4"
  shows "(r XOR (b * 16)) + 16 \<le> 2 ^ (k + 6)"
proof -
  have e: "r XOR (b * 16) = push_bit 4 (drop_bit 4 r XOR b)"
  proof -
    have "push_bit 4 (drop_bit 4 r) = r" using assms(1) by (simp add: drop_bit_eq_div push_bit_eq_mult)
    then show ?thesis unfolding push_bit_xor by (simp add: push_bit_eq_mult)
  qed
  have "r div 16 < 2 ^ (k + 2)" using assms(2) by (simp add: less_mult_imp_div_less power_add)
  then have "take_bit (k + 2) (drop_bit 4 r) = drop_bit 4 r" "take_bit (k + 2) b = b"
    using assms(3) by (auto simp: drop_bit_eq_div take_bit_nat_eq_self power_add intro!: take_bit_nat_eq_self less_le_trans [OF assms(3)])
  then have "take_bit (k + 2) (drop_bit 4 r XOR b) = drop_bit 4 r XOR b" by (simp add: take_bit_xor)
  then have "drop_bit 4 r XOR b < 2 ^ (k + 2)" using take_bit_nat_less_exp [of "k + 2" "drop_bit 4 r XOR b"] by (simp only:)
  then have "(drop_bit 4 r XOR b) + 1 \<le> 2 ^ (k + 2)" by simp
  then have "((drop_bit 4 r XOR b) + 1) * 16 \<le> 2 ^ (k + 2) * 16" by (rule mult_le_mono1)
  then show ?thesis by (simp add: e push_bit_eq_mult power_add)
qed

lemma length_new_row: "r + 16 \<le> length ht \<Longrightarrow> length (new_row r chk ht) = length ht"
  by (simp add: new_row_def)

lemma find_row_ok:
  assumes "length ht = 64 * 2 ^ k" "k \<le> 29"
  shows "\<exists>ht' r. find_row ht (k + 2) cxt = Inr (ht', r) \<and> length ht' = length ht \<and> r + 16 \<le> length ht"
proof -
  define r0 where "r0 = unat (cxt * 16) AND (length ht - 16)"
  have L: "length ht = 2 ^ (k + 6)" using assms(1) by (simp add: power_add)
  have r0: "r0 = take_bit (k + 6) (unat (cxt * 16)) div 16 * 16"
    unfolding r0_def assms(1) by (rule and_sub16)
  then have m: "r0 div 16 * 16 = r0" by simp
  have lt: "r0 < 2 ^ (k + 6)"
  proof -
    have "r0 \<le> take_bit (k + 6) (unat (cxt * 16))" unfolding r0 by simp
    also have "\<dots> < 2 ^ (k + 6)" by (rule take_bit_nat_less_exp)
    finally show ?thesis .
  qed
  have b: "r0 + 16 \<le> length ht" "(r0 XOR 16) + 16 \<le> length ht" "(r0 XOR 32) + 16 \<le> length ht"
    using xor_row [OF m lt, of 0] xor_row [OF m lt, of 1] xor_row [OF m lt, of 2] by (simp_all add: L)
  show ?thesis using b assms(2) length_new_row unfolding find_row_def Let_def r0_def [symmetric] by auto
qed

lemma history_ok:
  assumes "rows_ok (a ! 1) c" "a ! 1 \<le> 29"
  shows "\<exists>ht r bh. history i a P c = Inr (c\<lparr>cr_ht := ht, cr_c := r, cr_cxt := ucast (bh :: u8)\<rparr>) \<and>
    length ht = length (cr_ht c) \<and> unat r + 16 \<le> length ht"
proof -
  let ?new = "q_c8 P = 1 \<or> q_c8 P AND 0xf0 = 16" and ?cxt = "q_h P ! i + 16 * of_nat (q_c8 P)"
  have len: "length (cr_ht c) = 64 * 2 ^ (a ! 1)" using assms(1) by (simp add: rows_ok_def)
  have low: "(q_hmap4 P AND 15) < 16"
  proof -
    have "q_hmap4 P AND 15 = take_bit 4 (q_hmap4 P)" by (simp add: take_bit_eq_mask mask_eq_exp_minus_1)
    then show ?thesis using take_bit_nat_less_exp [of 4 "q_hmap4 P"] by simp
  qed
  have "\<exists>ht r. (if ?new then ebind (find_row (cr_ht c) (a ! 1 + 2) ?cxt) (\<lambda>(ht, r). Inr (c\<lparr>cr_ht := ht, cr_c := of_nat r\<rparr>)) else Inr c)
      = Inr (c\<lparr>cr_ht := ht, cr_c := r\<rparr>) \<and> length ht = length (cr_ht c) \<and> unat r + 16 \<le> length ht"
  proof (cases ?new)
    case True
    obtain ht r where f: "find_row (cr_ht c) (a ! 1 + 2) ?cxt = Inr (ht, r)" "length ht = length (cr_ht c)" "r + 16 \<le> length ht"
      using find_row_ok [OF len assms(2), of ?cxt] by auto
    have "(2 :: nat) ^ (a ! 1) \<le> 2 ^ 29" by (rule power_increasing) (use assms(2) in simp_all)
    then have "r < 2 ^ 64" using f(2,3) len by simp
    then have "unat (of_nat r :: u64) = r" by (simp add: unat_of_nat)
    then show ?thesis using True f by (intro exI [of _ ht] exI [of _ "of_nat r"]) auto
  next
    case False
    then show ?thesis using assms(1) by (intro exI [of _ "cr_ht c"] exI [of _ "cr_c c"]) (auto simp: rows_ok_def)
  qed
  then obtain ht r where h: "(if ?new then ebind (find_row (cr_ht c) (a ! 1 + 2) ?cxt) (\<lambda>(ht, r). Inr (c\<lparr>cr_ht := ht, cr_c := of_nat r\<rparr>)) else Inr c)
      = Inr (c\<lparr>cr_ht := ht, cr_c := r\<rparr>)" "length ht = length (cr_ht c)" "unat r + 16 \<le> length ht" by blast
  have "arr ht (unat r + (q_hmap4 P AND 15)) = Inr (ht ! (unat r + (q_hmap4 P AND 15)))"
    by (rule arr_ok) (use h(3) low in linarith)
  then show ?thesis using h(2,3) unfolding history_def h(1)
    by (intro exI [of _ ht] exI [of _ r] exI [of _ "ht ! (unat r + (q_hmap4 P AND 15))"]) simp
qed


section \<open>The invariant of the model\<close>

text \<open>The arguments of component \<open>i\<close>: bytes, in the ranges \<open>init\<close> checks, and with the sizes of
  \<open>MATCH\<close> and \<open>ISSE\<close> below the ones that overflow.\<close>

definition args_ok :: "nat \<Rightarrow> nat list \<Rightarrow> bool" where
  "args_ok i a \<longleftrightarrow> (\<forall>x \<in> set a. x < 256) \<and> a \<noteq> [] \<and> length a = compsize (a ! 0) \<and>
     (a ! 0 = ICM \<longrightarrow> a ! 1 \<le> 26) \<and> (a ! 0 = MATCH \<longrightarrow> a ! 2 \<le> 30) \<and>
     (a ! 0 = AVG \<longrightarrow> a ! 1 < i \<and> a ! 2 < i) \<and>
     (a ! 0 = MIX2 \<longrightarrow> a ! 1 \<le> 32 \<and> a ! 2 < i \<and> a ! 3 < i) \<and>
     (a ! 0 = MIX \<longrightarrow> a ! 1 \<le> 32 \<and> 1 \<le> a ! 3 \<and> a ! 2 + a ! 3 \<le> i) \<and>
     (a ! 0 = ISSE \<longrightarrow> a ! 1 \<le> 29 \<and> a ! 2 < i) \<and> (a ! 0 = SSE \<longrightarrow> a ! 2 < i)"

text \<open>The state of a component, by its type.\<close>

definition counter_ok :: "Component \<Rightarrow> bool" where
  "counter_ok c \<longleftrightarrow> cr_cm c \<noteq> [] \<and> (\<forall>x \<in> set (cr_cm c). entry_ok x) \<and> 1 \<le> unat (cr_limit c) \<and> unat (cr_limit c) \<le> 1023"

definition icm_ok :: "nat list \<Rightarrow> Component \<Rightarrow> bool" where
  "icm_ok a c \<longleftrightarrow> rows_ok (a ! 1) c \<and> cr_cm c \<noteq> [] \<and> (\<forall>x \<in> set (cr_cm c). unat x < 8388608)"

definition match_ok :: "Component \<Rightarrow> bool" where
  "match_ok c \<longleftrightarrow> cr_cm c \<noteq> [] \<and> cr_ht c \<noteq> [] \<and> unat (cr_a c) \<le> 255 \<and> unat (cr_cxt c) < 8"

definition mix2_ok :: "nat list \<Rightarrow> Component \<Rightarrow> bool" where
  "mix2_ok a c \<longleftrightarrow> length (cr_a16 c) = 2 ^ (a ! 1) \<and> cr_c c = 2 ^ (a ! 1) \<and> unat (cr_cxt c) < 2 ^ (a ! 1)"

definition mix_ok :: "nat list \<Rightarrow> Component \<Rightarrow> bool" where
  "mix_ok a c \<longleftrightarrow> length (cr_cm c) = a ! 3 * 2 ^ (a ! 1) \<and> cr_c c = 2 ^ (a ! 1) \<and>
     unat (cr_cxt c) + a ! 3 \<le> length (cr_cm c) \<and> (\<forall>w \<in> set (cr_cm c). weight_ok w)"

definition isse_ok :: "nat list \<Rightarrow> Component \<Rightarrow> bool" where
  "isse_ok a c \<longleftrightarrow> rows_ok (a ! 1) c \<and> unat (cr_cxt c) < 256 \<and> length (cr_cm c) = 512 \<and> (\<forall>w \<in> set (cr_cm c). weight_ok w)"

definition comp_ok :: "nat list \<Rightarrow> Component \<Rightarrow> bool" where
  "comp_ok a c \<longleftrightarrow> (a ! 0 = CM \<longrightarrow> counter_ok c) \<and> (a ! 0 = ICM \<longrightarrow> icm_ok a c) \<and> (a ! 0 = MATCH \<longrightarrow> match_ok c) \<and>
     (a ! 0 = MIX2 \<longrightarrow> mix2_ok a c) \<and> (a ! 0 = MIX \<longrightarrow> mix_ok a c) \<and> (a ! 0 = ISSE \<longrightarrow> isse_ok a c) \<and>
     (a ! 0 = SSE \<longrightarrow> counter_ok c)"

definition pinv :: "nat list list \<Rightarrow> Predictor \<Rightarrow> bool" where
  "pinv As P \<longleftrightarrow> length As \<le> 255 \<and> (\<forall>i < length As. args_ok i (As ! i)) \<and>
     length (q_p P) = 256 \<and> (\<forall>v \<in> set (q_p P). - 2048 \<le> v \<and> v \<le> 2047) \<and> length (q_h P) = 256 \<and>
     length (q_comp P) = 256 \<and> (\<forall>i < length As. comp_ok (As ! i) (q_comp P ! i))"

lemma compsize_types: "0 < compsize t \<Longrightarrow> t \<in> {1, 2, 3, 4, 5, 6, 7, 8, 9}"
proof -
  assume "0 < compsize t"
  then have "t < 10" by (auto simp: compsize_def split: if_splits)
  moreover have "t \<noteq> 0" using \<open>0 < compsize t\<close> by (cases t) (simp_all add: compsize_def)
  ultimately show ?thesis by auto
qed

lemma args_ok_types:
  assumes "args_ok i a"
  shows "a ! 0 \<in> {1, 2, 3, 4, 5, 6, 7, 8, 9}"
proof (rule compsize_types)
  have "a \<noteq> []" "length a = compsize (a ! 0)" using assms unfolding args_ok_def by blast+
  then show "0 < compsize (a ! 0)" by (metis length_greater_0_conv)
qed

lemma arg_byte: "args_ok i a \<Longrightarrow> j < compsize (a ! 0) \<Longrightarrow> a ! j < 256"
  unfolding args_ok_def by (metis nth_mem)

lemma compsizes: "compsize 1 = 2" "compsize 2 = 3" "compsize 3 = 2" "compsize 4 = 3" "compsize 5 = 4" "compsize 6 = 6"
  "compsize 7 = 6" "compsize 8 = 3" "compsize 9 = 5"
  by (simp_all add: compsize_def)

lemma pinv_p: "pinv As P \<Longrightarrow> j < 256 \<Longrightarrow> - 2048 \<le> q_p P ! j \<and> q_p P ! j \<le> 2047"
  unfolding pinv_def by (metis nth_mem)

lemma pinv_comp: "pinv As P \<Longrightarrow> i < length As \<Longrightarrow> args_ok i (As ! i) \<and> comp_ok (As ! i) (q_comp P ! i)"
  by (simp add: pinv_def)

lemma pinv_set_p: "pinv As P \<Longrightarrow> - 2048 \<le> v \<Longrightarrow> v \<le> 2047 \<Longrightarrow> pinv As (set_p i v P)"
  unfolding pinv_def set_p_def by (auto dest!: set_update_subset_insert [THEN subsetD])

lemma pinv_set_comp: "pinv As P \<Longrightarrow> comp_ok (As ! i) c \<Longrightarrow> pinv As (set_comp i c P)"
  unfolding pinv_def set_comp_def by (cases "i < 256") (auto simp: nth_list_update)

text \<open>Numbers of a few bits.\<close>

lemma masked_index: "k \<le> 32 \<Longrightarrow> unat (x AND (2 ^ k - 1) :: u64) < 2 ^ k"
proof -
  assume "k \<le> 32"
  have "x AND (2 ^ k - 1) = take_bit k x" by (simp add: take_bit_eq_mask mask_eq_exp_minus_1)
  then show ?thesis by (simp only: unsigned_take_bit_eq take_bit_nat_less_exp)
qed

lemma unat_scaled:
  assumes "unat (x :: u64) < 2 ^ k" "k \<le> 32" "m < 256"
  shows "unat (x * of_nat m) = unat x * m"
proof -
  have "(2 :: nat) ^ k \<le> 2 ^ 32" using assms(2) by (rule power_increasing) simp
  then have "unat x * m < 2 ^ 32 * 256" using assms(1,3) by (intro mult_strict_mono) auto
  then show ?thesis using assms(3) by (simp add: unat_word_ariths unat_of_nat)
qed

lemma masked_row:
  assumes "k \<le> 32" "m < 256"
  shows "unat ((x AND (2 ^ k - 1)) * of_nat m :: u64) + m \<le> m * 2 ^ k"
proof -
  have "unat (x AND (2 ^ k - 1)) + 1 \<le> 2 ^ k" using masked_index [OF assms(1), of x] by simp
  then have "(unat (x AND (2 ^ k - 1)) + 1) * m \<le> 2 ^ k * m" by (rule mult_le_mono1)
  then show ?thesis unfolding unat_scaled [OF masked_index [OF assms(1)] assms] by (simp add: algebra_simps)
qed

lemma stretch_2047: "x \<le> 32767 \<Longrightarrow> \<exists>v. stretch x = Inr v \<and> - 2048 \<le> v \<and> v \<le> 2047"
  using stretch_bounds by fastforce

lemma mean_bounds:
  fixes x y w n :: int
  assumes "- 2048 \<le> x" "x \<le> 2047" "- 2048 \<le> y" "y \<le> 2047" "0 \<le> w" "w \<le> n"
  shows "- 2048 * n \<le> w * x + (n - w) * y" "w * x + (n - w) * y \<le> 2047 * n"
proof -
  have "w * (- 2048) \<le> w * x" "w * x \<le> w * 2047" using assms(1,2,5) by (simp_all only: mult_left_mono)
  moreover have "(n - w) * (- 2048) \<le> (n - w) * y" "(n - w) * y \<le> (n - w) * 2047"
    using assms(3,4,6) by (simp_all only: mult_left_mono diff_ge_0_iff_ge)
  ultimately show "- 2048 * n \<le> w * x + (n - w) * y" "w * x + (n - w) * y \<le> 2047 * n" by (simp_all add: algebra_simps)
qed


section \<open>A prediction is defined and keeps the invariant\<close>

lemma predict_cm:
  assumes inv: "pinv As P" and i: "i < length As" and t: "As ! i ! 0 = CM"
  shows "outcome (\<lambda>_. False) (pinv As) (predict_comp i (As ! i) P)"
proof -
  let ?c = "q_comp P ! i" and ?a = "As ! i"
  define cxt where "cxt = (ucast (q_h P ! i XOR of_nat (q_hmap4 P)) :: u64)"
  obtain v where v: "stretch (unat (drop_bit 17 (cr_cm ?c ! slot64 (cr_cm ?c) cxt))) = Inr v" "- 2048 \<le> v" "v \<le> 2047"
    using stretch_2047 [of "unat (drop_bit 17 (cr_cm ?c ! slot64 (cr_cm ?c) cxt))"] unat_shifted [of 17 "cr_cm ?c ! slot64 (cr_cm ?c) cxt"]
    by fastforce
  have "comp_ok ?a (?c\<lparr>cr_cxt := cxt\<rparr>)" using pinv_comp [OF inv i] t by (simp add: comp_ok_def counter_ok_def)
  then show ?thesis using v inv t
    by (simp add: predict_comp_def Let_def flip: cxt_def) (intro pinv_set_p pinv_set_comp)
qed

lemma predict_icm:
  assumes inv: "pinv As P" and i: "i < length As" and t: "As ! i ! 0 = ICM"
  shows "outcome (\<lambda>_. False) (pinv As) (predict_comp i (As ! i) P)"
proof -
  let ?c = "q_comp P ! i" and ?a = "As ! i"
  have ok: "icm_ok ?a ?c" "?a ! 1 \<le> 29" using pinv_comp [OF inv i] t by (simp_all add: comp_ok_def args_ok_def)
  then obtain ht r bh where h: "history i ?a P ?c = Inr (?c\<lparr>cr_ht := ht, cr_c := r, cr_cxt := ucast (bh :: u8)\<rparr>)"
    "length ht = length (cr_ht ?c)" "unat r + 16 \<le> length ht"
    using history_ok [of ?a ?c i P] by (auto simp: icm_ok_def)
  let ?x = "cr_cm ?c ! slot64 (cr_cm ?c) (ucast bh)"
  have "unat ?x < 8388608" using ok(1) slot64_mem [of "cr_cm ?c"] by (simp add: icm_ok_def)
  then have "unat (drop_bit 8 ?x) \<le> 32767" unfolding unat_drop by simp
  then obtain v where v: "stretch (unat (drop_bit 8 ?x)) = Inr v" "- 2048 \<le> v" "v \<le> 2047" using stretch_2047 by blast
  have "comp_ok ?a (?c\<lparr>cr_ht := ht, cr_c := r, cr_cxt := ucast bh\<rparr>)"
    using ok(1) h(2,3) t by (simp add: comp_ok_def icm_ok_def rows_ok_def)
  then show ?thesis using v h(1) inv t
    by (simp add: predict_comp_def Let_def) (intro pinv_set_p pinv_set_comp)
qed

lemma predict_match:
  assumes inv: "pinv As P" and i: "i < length As" and t: "As ! i ! 0 = MATCH"
  shows "outcome (\<lambda>_. False) (pinv As) (predict_comp i (As ! i) P)"
proof -
  let ?c = "q_comp P ! i" and ?a = "As ! i"
  have ok: "match_ok ?c" using pinv_comp [OF inv i] t by (simp add: comp_ok_def)
  then have x: "unat (cr_cxt ?c) < 8" by (simp add: match_ok_def)
  have d: "arr sdt2k (unat (cr_a ?c)) = Inr (sdt2k ! unat (cr_a ?c))"
    by (rule arr_ok) (use ok in \<open>simp add: match_ok_def table_lengths\<close>)
  define bit where "bit = (unat (cr_ht ?c ! slot64 (cr_ht ?c) (cr_limit ?c - cr_b ?c)) div 2 ^ (7 - unat (cr_cxt ?c))) mod 2"
  let ?x = "nat ((sdt2k ! unat (cr_a ?c) * (1 - 2 * int bit)) mod 32768)"
  have "?x \<le> 32767" using pos_mod_bound [of 32768 "sdt2k ! unat (cr_a ?c) * (1 - 2 * int bit)"] by simp
  then obtain v where v: "stretch ?x = Inr v" "- 2048 \<le> v" "v \<le> 2047" using stretch_2047 by blast
  have "comp_ok ?a (?c\<lparr>cr_c := of_nat bit\<rparr>)" using ok t by (simp add: comp_ok_def match_ok_def)
  then have "pinv As (set_p i v (set_comp i (?c\<lparr>cr_c := of_nat bit\<rparr>) P))" by (intro pinv_set_p pinv_set_comp inv v)
  moreover have "pinv As (set_p i 0 P)" by (rule pinv_set_p [OF inv]) simp_all
  ultimately show ?thesis using x t
    unfolding predict_comp_def Let_def bit_def [symmetric] d ebind_simps v(1) by simp
qed

lemma predict_avg:
  assumes inv: "pinv As P" and i: "i < length As" and t: "As ! i ! 0 = AVG"
  shows "outcome (\<lambda>_. False) (pinv As) (predict_comp i (As ! i) P)"
proof -
  let ?a = "As ! i"
  have a: "args_ok i ?a" "i < 256" using pinv_comp [OF inv i] inv i by (auto simp: pinv_def)
  then have j: "?a ! 1 < 256" "?a ! 2 < 256" "?a ! 3 < 256" using t arg_byte [OF a(1), of 3] by (auto simp: args_ok_def compsizes)
  let ?v = "q_p P ! (?a ! 1) * int (?a ! 3) + q_p P ! (?a ! 2) * (256 - int (?a ! 3))"
  have "int (?a ! 3) \<le> 256" using j(3) by simp
  then have v: "- 2048 * 256 \<le> ?v" "?v \<le> 2047 * 256"
    using mean_bounds [of "q_p P ! (?a ! 1)" "q_p P ! (?a ! 2)" "int (?a ! 3)" 256] pinv_p [OF inv j(1)] pinv_p [OF inv j(2)]
    by (simp_all add: mult.commute)
  then have "i32 ?v = Inr ?v" by (intro i32_ok) simp_all
  moreover have "- 2048 \<le> ?v div 256" "?v div 256 \<le> 2047" using v by linarith+
  ultimately show ?thesis using inv t by (simp add: predict_comp_def Let_def pinv_set_p)
qed

lemma predict_mix2:
  assumes inv: "pinv As P" and i: "i < length As" and t: "As ! i ! 0 = MIX2"
  shows "outcome (\<lambda>_. False) (pinv As) (predict_comp i (As ! i) P)"
proof -
  let ?a = "As ! i" and ?c = "q_comp P ! i"
  have a: "args_ok i ?a" "i < 256" "mix2_ok ?a ?c" using pinv_comp [OF inv i] inv i t by (auto simp: pinv_def comp_ok_def)
  then have j: "?a ! 2 < 256" "?a ! 3 < 256" "?a ! 1 \<le> 32" using t by (auto simp: args_ok_def)
  define cxt where "cxt = (ucast (q_h P ! i + of_nat (q_c8 P AND ?a ! 5)) :: u64) AND (cr_c ?c - 1)"
  have x: "unat cxt < 2 ^ (?a ! 1)" using masked_index [OF j(3)] a(3) by (simp add: cxt_def mix2_ok_def)
  have w: "arr (cr_a16 ?c) (unat cxt) = Inr (cr_a16 ?c ! unat cxt)" by (rule arr_ok) (use a(3) x in \<open>simp add: mix2_ok_def\<close>)
  define wt where "wt = uint (cr_a16 ?c ! unat cxt)"
  let ?v = "wt * q_p P ! (?a ! 2) + (65536 - wt) * q_p P ! (?a ! 3)"
  have "0 \<le> wt" "wt \<le> 65536" using uint_lt2p [of "cr_a16 ?c ! unat cxt"] by (simp_all add: wt_def)
  then have v: "- 2048 * 65536 \<le> ?v" "?v \<le> 2047 * 65536"
    using mean_bounds [of "q_p P ! (?a ! 2)" "q_p P ! (?a ! 3)" wt 65536] pinv_p [OF inv j(1)] pinv_p [OF inv j(2)] by simp_all
  then have e: "i32 ?v = Inr ?v" by (intro i32_ok) simp_all
  have "- 2048 \<le> ?v div 65536" "?v div 65536 \<le> 2047" using v by linarith+
  moreover have "comp_ok ?a (?c\<lparr>cr_cxt := cxt\<rparr>)" using a(3) x t by (simp add: comp_ok_def mix2_ok_def)
  ultimately have "pinv As (set_p i (?v div 65536) (set_comp i (?c\<lparr>cr_cxt := cxt\<rparr>) P))" by (intro pinv_set_p pinv_set_comp inv)
  then show ?thesis using t unfolding predict_comp_def Let_def cxt_def [symmetric] w ebind_simps wt_def [symmetric] e by simp
qed

lemma set_row: "x \<in> set (take m (drop k xs)) \<Longrightarrow> x \<in> set xs"
  by (meson in_set_dropD in_set_takeD)

lemma predict_mix:
  assumes inv: "pinv As P" and i: "i < length As" and t: "As ! i ! 0 = MIX"
  shows "outcome (\<lambda>_. False) (pinv As) (predict_comp i (As ! i) P)"
proof -
  let ?a = "As ! i" and ?c = "q_comp P ! i"
  define m where "m = ?a ! 3"
  have a: "args_ok i ?a" "i < 256" "mix_ok ?a ?c" using pinv_comp [OF inv i] inv i t by (auto simp: pinv_def comp_ok_def)
  then have j: "m < 256" "?a ! 1 \<le> 32" using t by (auto simp: args_ok_def m_def)
  define cxt where "cxt = ((ucast (q_h P ! i + of_nat (q_c8 P AND ?a ! 5)) :: u64) AND (cr_c ?c - 1)) * of_nat m"
  have x: "unat cxt + m \<le> length (cr_cm ?c)" using masked_row [OF j(2,1)] a(3) by (simp add: cxt_def mix_ok_def m_def)
  let ?ws = "take m (drop (unat cxt) (cr_cm ?c))" and ?xs = "drop (?a ! 2) (q_p P)"
  have "\<exists>v. dot ?ws ?xs 0 = Inr v"
  proof (rule dot_ok)
    show "\<forall>w \<in> set ?ws. weight_ok w" using a(3) by (auto simp: mix_ok_def dest: set_row)
    show "\<forall>x \<in> set ?xs. \<bar>x\<bar> \<le> 2048" using inv by (force simp: pinv_def dest!: in_set_dropD)
    show "\<bar>0\<bar> + int (length ?ws) * 4194304 < 2147483648" using j(1) by simp
  qed
  then obtain v where v: "dot ?ws ?xs 0 = Inr v" by blast
  have "comp_ok ?a (?c\<lparr>cr_cxt := cxt\<rparr>)" using a(3) x t by (simp add: comp_ok_def mix_ok_def m_def)
  then have "pinv As (set_p i (clamp2k (v div 256)) (set_comp i (?c\<lparr>cr_cxt := cxt\<rparr>) P))"
    by (intro pinv_set_p pinv_set_comp inv clamp_bounds)
  then show ?thesis using t x unfolding predict_comp_def Let_def m_def [symmetric] cxt_def [symmetric] v ebind_simps by simp
qed

lemma predict_isse:
  assumes inv: "pinv As P" and i: "i < length As" and t: "As ! i ! 0 = ISSE"
  shows "outcome (\<lambda>_. False) (pinv As) (predict_comp i (As ! i) P)"
proof -
  let ?a = "As ! i" and ?c = "q_comp P ! i"
  have a: "args_ok i ?a" "i < 256" "isse_ok ?a ?c" using pinv_comp [OF inv i] inv i t by (auto simp: pinv_def comp_ok_def)
  then have j: "?a ! 2 < 256" "?a ! 1 \<le> 29" using t by (auto simp: args_ok_def)
  obtain ht r bh where h: "history i ?a P ?c = Inr (?c\<lparr>cr_ht := ht, cr_c := r, cr_cxt := ucast (bh :: u8)\<rparr>)"
    "length ht = length (cr_ht ?c)" "unat r + 16 \<le> length ht"
    using history_ok [of ?a ?c i P] a(3) j(2) by (auto simp: isse_ok_def)
  define k where "k = unat (ucast bh :: u64)"
  have "unat bh < 2 ^ 8" using unsigned_less [of bh, where ?'a = nat] by simp
  then have "k = unat bh" by (simp add: k_def unsigned_ucast_eq take_bit_nat_eq_self_iff)
  then have k: "k < 256" using unsigned_less [of bh, where ?'a = nat] by simp
  have w: "arr (cr_cm ?c) (k * 2) = Inr (cr_cm ?c ! (k * 2))" "arr (cr_cm ?c) (k * 2 + 1) = Inr (cr_cm ?c ! (k * 2 + 1))"
    using k a(3) by (auto intro!: arr_ok simp: isse_ok_def)
  have ww: "weight_ok (cr_cm ?c ! (k * 2))" "weight_ok (cr_cm ?c ! (k * 2 + 1))" using k a(3) by (auto simp: isse_ok_def)
  let ?v = "sint (cr_cm ?c ! (k * 2)) * q_p P ! (?a ! 2) + sint (cr_cm ?c ! (k * 2 + 1)) * 64"
  have "\<bar>sint (cr_cm ?c ! (k * 2))\<bar> \<le> 524288" "\<bar>q_p P ! (?a ! 2)\<bar> \<le> 2048"
    using ww(1) pinv_p [OF inv j(1)] unfolding weight_ok_def by linarith+
  from mult_bound [OF this] have "- (524288 * 2048) - 524288 * 64 \<le> ?v" "?v \<le> 524288 * 2048 + 524288 * 64"
    using ww(2) unfolding weight_ok_def by linarith+
  then have e: "i32 ?v = Inr ?v" by (intro i32_ok) simp_all
  let ?c' = "?c\<lparr>cr_ht := ht, cr_c := r, cr_cxt := ucast bh\<rparr>"
  have "comp_ok ?a ?c'" using a(3) h(2,3) t k by (simp add: comp_ok_def isse_ok_def rows_ok_def flip: k_def)
  then have "pinv As (set_p i (clamp2k (?v div 65536)) (set_comp i ?c' P))" by (intro pinv_set_p pinv_set_comp inv clamp_bounds)
  then show ?thesis using t w e unfolding predict_comp_def Let_def h(1) ebind_simps by (simp flip: k_def)
qed

lemma predict_sse:
  assumes inv: "pinv As P" and i: "i < length As" and t: "As ! i ! 0 = SSE"
  shows "outcome (\<lambda>_. False) (pinv As) (predict_comp i (As ! i) P)"
proof -
  let ?a = "As ! i" and ?c = "q_comp P ! i"
  define pq where "pq = max 0 (min 1983 (q_p P ! (?a ! 2) + 992))"
  define wt where "wt = nat (pq mod 64)"
  define cxt where "cxt = (ucast ((q_h P ! i + of_nat (q_c8 P)) * 32) :: u64) + of_int (pq div 64)"
  define x0 where "x0 = unat (drop_bit 10 (cr_cm ?c ! slot64 (cr_cm ?c) cxt))"
  define x1 where "x1 = unat (drop_bit 10 (cr_cm ?c ! slot64 (cr_cm ?c) (cxt + 1)))"
  have wt: "wt \<le> 64" using pos_mod_bound [of 64 pq] by (simp add: wt_def)
  have "x0 \<le> 4194303" "x1 \<le> 4194303"
    using unat_shifted [of 10 "cr_cm ?c ! slot64 (cr_cm ?c) cxt"] unat_shifted [of 10 "cr_cm ?c ! slot64 (cr_cm ?c) (cxt + 1)"]
    by (simp_all add: x0_def x1_def)
  then have "x0 * (64 - wt) + x1 * wt \<le> 4194303 * (64 - wt) + 4194303 * wt" by (intro add_mono mult_le_mono1)
  also have "\<dots> = 4194303 * 64" using wt by (simp flip: distrib_left)
  finally have "(x0 * (64 - wt) + x1 * wt) div 8192 \<le> 32767" by simp
  then obtain v where v: "stretch ((x0 * (64 - wt) + x1 * wt) div 8192) = Inr v" "- 2048 \<le> v" "v \<le> 2047" using stretch_2047 by blast
  have "comp_ok ?a (?c\<lparr>cr_cxt := cxt + of_nat (wt div 32)\<rparr>)"
    using pinv_comp [OF inv i] t by (simp add: comp_ok_def counter_ok_def)
  then have "pinv As (set_p i v (set_comp i (?c\<lparr>cr_cxt := cxt + of_nat (wt div 32)\<rparr>) P))" by (intro pinv_set_p pinv_set_comp inv v)
  then show ?thesis using t
    unfolding predict_comp_def Let_def pq_def [symmetric] wt_def [symmetric] cxt_def [symmetric] x0_def [symmetric] x1_def [symmetric] v ebind_simps
    by simp
qed

text \<open>Every component is one of these.\<close>

lemma predict_comp_ok:
  assumes "pinv As P" "i < length As"
  shows "outcome (\<lambda>_. False) (pinv As) (predict_comp i (As ! i) P)"
proof -
  have "As ! i ! 0 \<in> {1, 2, 3, 4, 5, 6, 7, 8, 9}" using pinv_comp [OF assms] args_ok_types by blast
  then consider "As ! i ! 0 = CONS" | "As ! i ! 0 = CM" | "As ! i ! 0 = ICM" | "As ! i ! 0 = MATCH" | "As ! i ! 0 = AVG"
    | "As ! i ! 0 = MIX2" | "As ! i ! 0 = MIX" | "As ! i ! 0 = ISSE" | "As ! i ! 0 = SSE" by auto
  then show ?thesis
  proof cases
    case 1
    then show ?thesis using assms(1) by (simp add: predict_comp_def Let_def)
  next
    case 2
    then show ?thesis by (rule predict_cm [OF assms])
  next
    case 3
    then show ?thesis by (rule predict_icm [OF assms])
  next
    case 4
    then show ?thesis by (rule predict_match [OF assms])
  next
    case 5
    then show ?thesis by (rule predict_avg [OF assms])
  next
    case 6
    then show ?thesis by (rule predict_mix2 [OF assms])
  next
    case 7
    then show ?thesis by (rule predict_mix [OF assms])
  next
    case 8
    then show ?thesis by (rule predict_isse [OF assms])
  next
    case 9
    then show ?thesis by (rule predict_sse [OF assms])
  qed
qed


section \<open>An update is defined and keeps the invariant\<close>

text \<open>The error of a bit \<open>y\<close> against the prediction of component \<open>i\<close>.\<close>

lemma squash_error:
  assumes "pinv As P" "i < 256" "y \<le> 1"
  shows "\<exists>s. squash (q_p P ! i) = Inr s \<and> \<bar>int y * 32767 - s\<bar> \<le> 32767"
proof -
  obtain s where "squash (q_p P ! i) = Inr s" "0 \<le> s" "s \<le> 32767" using squash_bounds pinv_p [OF assms(1,2)] by blast
  moreover have "y = 0 \<or> y = 1" using assms(3) by auto
  ultimately show ?thesis by auto
qed

lemma rate_ok:
  fixes err :: int
  assumes "\<bar>err\<bar> \<le> 32767" "r < 256"
  shows "i32 (err * int r) = Inr (err * int r)" "\<bar>err * int r\<bar> \<le> 8355585"
proof -
  have "\<bar>int r\<bar> \<le> 255" using assms(2) by simp
  from mult_bound [OF assms(1) this] show "i32 (err * int r) = Inr (err * int r)" "\<bar>err * int r\<bar> \<le> 8355585"
    by (simp_all add: i32_def)
qed

lemma row_index: "rows_ok k c \<Longrightarrow> unat (cr_c c) + (h AND 15) < length (cr_ht c)"
proof -
  assume "rows_ok k c"
  moreover have "h AND 15 = take_bit 4 h" by (simp add: take_bit_eq_mask mask_eq_exp_minus_1)
  ultimately show ?thesis using take_bit_nat_less_exp [of 4 h] by (simp add: rows_ok_def)
qed

lemma icm_step:
  assumes "unat (pn :: u32) < 8388608" "y \<le> 1"
  shows "unat (pn + of_int (sint (of_int (int y * 32767) - drop_bit 8 pn :: u32) div 4)) < 8388608"
proof -
  define x where "x = int (unat pn)"
  define q where "q = (int y * 32767 - x div 256) div 4"
  have x: "0 \<le> x" "x < 8388608" using assms(1) unfolding x_def by linarith+
  have x3: "uint pn = x" by (simp add: x_def)
  have y: "y = 0 \<or> y = 1" using assms(2) by auto
  have d: "(of_int (x div 256) :: u32) = drop_bit 8 pn"
  proof -
    have "uint (drop_bit 8 pn) = int (unat (drop_bit 8 pn))" by simp
    also have "\<dots> = int (unat pn div 2 ^ 8)" unfolding unat_drop ..
    also have "\<dots> = x div 256" unfolding x_def zdiv_int by simp
    finally have "uint (drop_bit 8 pn) = x div 256" .
    then show ?thesis by (metis word_of_int_uint)
  qed
  have "sint (of_int (int y * 32767 - x div 256) :: u32) = int y * 32767 - x div 256"
  proof (rule sint_of_small)
    have "0 \<le> int y * 32767" "int y * 32767 \<le> 32767" "0 \<le> x div 256" "x div 256 \<le> 32767" using assms(2) x by simp_all
    then show "- 2147483648 \<le> int y * 32767 - x div 256" "int y * 32767 - x div 256 < 2147483648" by linarith+
  qed
  then have s: "sint (of_int (int y * 32767) - drop_bit 8 pn :: u32) div 4 = q" by (simp add: q_def flip: d)
  have b: "0 \<le> x + q \<and> x + q < 8388608" using y
  proof
    assume "y = 0"
    then have "q = (- (x div 256)) div 4" by (simp add: q_def)
    then show ?thesis using x by linarith
  next
    assume "y = 1"
    then have "q = (32767 - x div 256) div 4" by (simp add: q_def)
    then show ?thesis using x by linarith
  qed
  have "pn + of_int q = of_int (x + q)" using x3 by (metis of_int_add word_of_int_uint)
  then have "uint (pn + of_int q) = x + q" unfolding \<open>pn + of_int q = of_int (x + q)\<close> using b by (simp add: uint_word_of_int del: of_int_add)
  then have "int (unat (pn + of_int q)) < 8388608" using b by simp
  then show ?thesis unfolding s by linarith
qed

lemma update_icm_ok:
  assumes "icm_ok a c" "y \<le> 1"
  shows "outcome (\<lambda>_. False) (icm_ok a) (update_icm y h4 c)"
proof -
  let ?k = "unat (cr_c c) + (h4 AND 15)" and ?s = "slot64 (cr_cm c) (cr_cxt c)"
  have k: "arr (cr_ht c) ?k = Inr (cr_ht c ! ?k)" using row_index assms(1) by (intro arr_ok) (auto simp: icm_ok_def)
  have "unat (cr_cm c ! ?s) < 8388608" using assms(1) slot64_mem [of "cr_cm c"] by (simp add: icm_ok_def)
  from icm_step [OF this assms(2)] show ?thesis using assms(1) unfolding update_icm_def Let_def k ebind_simps
    by (auto simp: icm_ok_def rows_ok_def dest!: set_update_subset_insert [THEN subsetD])
qed

lemma match_length_bound: "a \<le> 255 \<Longrightarrow> match_length ht limit b a \<le> 255"
proof (induction ht limit b a rule: match_length.induct)
  case (1 ht limit b a)
  then show ?case by (subst match_length.simps) auto
qed

lemma update_match_ok:
  assumes "match_ok c" "bufbits \<le> 30"
  shows "outcome (\<lambda>_. False) match_ok (update_match bufbits y h c)"
proof -
  define c1 where "c1 = (if cr_c c \<noteq> of_nat y then c\<lparr>cr_a := 0\<rparr> else c)"
  have c1: "match_ok c1" using assms(1) by (auto simp: c1_def match_ok_def)
  define s where "s = slot64 (cr_ht c1) (cr_limit c1)"
  define c2 where "c2 = c1\<lparr>cr_ht := (cr_ht c1)[s := cr_ht c1 ! s + (cr_ht c1 ! s + of_nat y)], cr_cxt := cr_cxt c1 + 1\<rparr>"
  have m: "cr_cm c2 \<noteq> []" "cr_ht c2 \<noteq> []" "unat (cr_a c2) \<le> 255" using c1 by (auto simp: c2_def match_ok_def)
  have x: "cr_cxt c2 \<noteq> 8 \<Longrightarrow> unat (cr_cxt c2) < 8"
  proof -
    assume "cr_cxt c2 \<noteq> 8"
    have "unat (cr_cxt c2) = unat (cr_cxt c1) + 1" "unat (cr_cxt c1) < 8" using c1 by (simp_all add: c2_def match_ok_def unat_word_ariths)
    moreover have "unat (cr_cxt c2) \<noteq> 8" using \<open>cr_cxt c2 \<noteq> 8\<close> by (simp add: word_unat_eq_iff)
    ultimately show ?thesis by simp
  qed
  define limit where "limit = (cr_limit c2 + 1) AND (2 ^ bufbits - 1)"
  define c3 where "c3 = c2\<lparr>cr_cxt := 0, cr_limit := limit\<rparr>"
  define k where "k = slot64 (cr_cm c3) (ucast h)"
  define b where "b = limit - ucast (cr_cm c3 ! k)"
  define c4 where "c4 = (if cr_a c3 = 0 then c3\<lparr>cr_b := b, cr_a := if b AND (of_nat (length (cr_ht c3)) - 1) \<noteq> 0
      then of_nat (match_length (cr_ht c3) limit b 0) else 0\<rparr>
    else c3\<lparr>cr_a := cr_a c3 + (if cr_a c3 < 255 then 1 else 0)\<rparr>)"
  have c3: "match_ok c3" using m by (simp add: c3_def match_ok_def)
  have l: "unat (of_nat (match_length (cr_ht c3) limit b 0) :: u64) \<le> 255"
    using match_length_bound [of 0 "cr_ht c3" limit b] by (simp add: unat_of_nat)
  have i: "unat (cr_a c3 + (if cr_a c3 < 255 then 1 else 0)) \<le> 255"
    using c3 by (auto simp: match_ok_def word_less_nat_alt unat_word_ariths)
  have c4: "match_ok c4"
  proof (cases "cr_a c3 = 0")
    case True
    then show ?thesis using c3 l by (auto simp: c4_def match_ok_def)
  next
    case False
    then have "c4 = c3\<lparr>cr_a := cr_a c3 + (if cr_a c3 < 255 then 1 else 0)\<rparr>" by (simp add: c4_def)
    then show ?thesis using c3 i by (simp add: match_ok_def)
  qed
  have "update_match bufbits y h c = (if cr_cxt c2 \<noteq> 8 then Inr c2 else if 31 \<le> bufbits then Inl Undefined
      else Inr (c4\<lparr>cr_cm := (cr_cm c4)[k := ucast limit]\<rparr>))"
    unfolding update_match_def Let_def c1_def [symmetric] s_def [symmetric] c2_def [symmetric] limit_def [symmetric]
      c3_def [symmetric] k_def [symmetric] b_def [symmetric] c4_def [symmetric] ..
  moreover have "match_ok c2" if "cr_cxt c2 \<noteq> 8" using m x [OF that] by (simp add: match_ok_def)
  moreover have "match_ok (c4\<lparr>cr_cm := (cr_cm c4)[k := ucast limit]\<rparr>)" using c4 by (simp add: match_ok_def)
  ultimately show ?thesis using assms(2) by simp
qed

lemma update_mix2_ok:
  assumes "mix2_ok a c" "\<bar>err\<bar> \<le> 32767" "a ! 4 < 256" "\<bar>p ! (a ! 2)\<bar> \<le> 2048" "\<bar>p ! (a ! 3)\<bar> \<le> 2048"
  shows "outcome (\<lambda>_. False) (mix2_ok a) (update_mix2 a err p c)"
proof -
  let ?e = "err * int (a ! 4) div 32" and ?d = "p ! (a ! 2) - p ! (a ! 3)"
  note r = rate_ok [OF assms(2,3)]
  have "\<bar>?e\<bar> \<le> 261113" "\<bar>?d\<bar> \<le> 4096" using r(2) assms(4,5) by linarith+
  from mult_bound [OF this] have d: "i32 (?e * ?d + 4096) = Inr (?e * ?d + 4096)" by (simp add: i32_def)
  have w: "arr (cr_a16 c) (unat (cr_cxt c)) = Inr (cr_a16 c ! unat (cr_cxt c))" by (rule arr_ok) (use assms(1) in \<open>simp add: mix2_ok_def\<close>)
  show ?thesis using assms(1) unfolding update_mix2_def Let_def r(1) w d ebind_simps by (simp add: mix2_ok_def)
qed

lemma update_mix_ok:
  assumes "mix_ok a c" "\<bar>err\<bar> \<le> 32767" "a ! 4 < 256" "\<forall>x \<in> set p. \<bar>x\<bar> \<le> 2048" "a ! 2 + a ! 3 \<le> length p"
  shows "outcome (\<lambda>_. False) (mix_ok a) (update_mix a err p c)"
proof -
  let ?m = "a ! 3" and ?k = "unat (cr_cxt c)"
  let ?e = "err * int (a ! 4) div 16" and ?ps = "zip (take ?m (drop ?k (cr_cm c))) (drop (a ! 2) p)"
  note r = rate_ok [OF assms(2,3)]
  have e: "\<bar>?e\<bar> \<le> 524287" using r(2) by linarith
  have len: "?k + ?m \<le> length (cr_cm c)" using assms(1) by (simp add: mix_ok_def)
  have "\<exists>y. (case wx of (w, x) \<Rightarrow> new_weight ?e w x) = Inr y \<and> weight_ok y" if wx: "wx \<in> set ?ps" for wx
  proof -
    obtain w x where "wx = (w, x)" by (cases wx)
    then have "w \<in> set (take ?m (drop ?k (cr_cm c)))" "x \<in> set (drop (a ! 2) p)"
      using wx by (auto dest: set_zip_leftD set_zip_rightD)
    then have "weight_ok w" "\<bar>x\<bar> \<le> 2048" using assms(1,4) by (auto simp: mix_ok_def dest: set_row in_set_dropD)
    from new_weight_ok [OF e this(2,1)] show ?thesis using \<open>wx = (w, x)\<close> by simp
  qed
  from emap_ok [of ?ps "\<lambda>(w, x). new_weight ?e w x" weight_ok, OF this] obtain ws where ws: "emap (\<lambda>(w, x). new_weight ?e w x) ?ps = Inr ws"
    "length ws = length ?ps" "\<forall>y \<in> set ws. weight_ok y" by blast
  have "length ws = ?m" using ws(2) len assms(5) by simp
  then have "mix_ok a (c\<lparr>cr_cm := take ?k (cr_cm c) @ ws @ drop (?k + ?m) (cr_cm c)\<rparr>)"
    using assms(1) ws(3) len by (auto simp: mix_ok_def dest: in_set_takeD in_set_dropD)
  then show ?thesis using len unfolding update_mix_def Let_def r(1) ebind_simps ws(1) by simp
qed

lemma update_isse_ok:
  assumes "isse_ok a c" "\<bar>err\<bar> \<le> 32767" "\<bar>p ! (a ! 2)\<bar> \<le> 2048" "y \<le> 1"
  shows "outcome (\<lambda>_. False) (isse_ok a) (update_isse y h4 a err p c)"
proof -
  let ?k = "unat (cr_cxt c) * 2" and ?t = "unat (cr_c c) + (h4 AND 15)"
  have k: "unat (cr_cxt c) < 256" and len: "length (cr_cm c) = 512" and rows: "rows_ok (a ! 1) c" and
    ok: "\<forall>w \<in> set (cr_cm c). weight_ok w" using assms(1) by (simp_all add: isse_ok_def)
  have w: "arr (cr_cm c) ?k = Inr (cr_cm c ! ?k)" "arr (cr_cm c) (?k + 1) = Inr (cr_cm c ! (?k + 1))"
    using k len by (auto intro!: arr_ok)
  have "weight_ok (cr_cm c ! ?k)" using ok k len by simp
  with new_weight_ok [of err "p ! (a ! 2)" "cr_cm c ! ?k"] obtain v where
    v: "new_weight err (cr_cm c ! ?k) (p ! (a ! 2)) = Inr v" "weight_ok v" using assms(2,3) by fastforce
  have d: "i32 (err + 16) = Inr (err + 16)" by (rule i32_ok) (use assms(2) in linarith)+
  have n: "arr sns (unat (cr_cxt c) * 4 + y) = Inr (sns ! (unat (cr_cxt c) * 4 + y))"
    by (rule arr_ok) (use k assms(4) table_lengths(1) in linarith)
  have t: "arr (cr_ht c) ?t = Inr (cr_ht c ! ?t)" using row_index [OF rows] by (rule arr_ok)
  have "\<forall>w \<in> set ((cr_cm c)[?k := v, ?k + 1 := of_int (clamp512k (sint (cr_cm c ! (?k + 1)) + (err + 16) div 32))]). weight_ok w"
    using ok v(2) weight_ok_clamp by (auto dest!: set_update_subset_insert [THEN subsetD])
  then show ?thesis using k len rows unfolding update_isse_def Let_def w v(1) d n t ebind_simps
    by (simp add: isse_ok_def rows_ok_def)
qed

lemma train_counter: "counter_ok c \<Longrightarrow> y \<le> 1 \<Longrightarrow> outcome (\<lambda>_. False) counter_ok (train y c)"
  using train_ok [of c y] by (auto simp: counter_ok_def)

lemma outcome_set_comp:
  assumes "outcome (\<lambda>_. False) J m" "\<And>c. J c \<Longrightarrow> comp_ok (As ! i) c" "pinv As P"
  shows "outcome (\<lambda>_. False) (pinv As) (ebind m (\<lambda>c. Inr (set_comp i c P)))"
  using assms(1) by (rule outcome_ebind) (simp add: pinv_set_comp assms(2,3))

lemma update_comp_ok:
  assumes inv: "pinv As P" and i: "i < length As" and y: "y \<le> 1"
  shows "outcome (\<lambda>_. False) (pinv As) (update_comp y i (As ! i) P)"
proof -
  let ?c = "q_comp P ! i" and ?a = "As ! i" and ?p = "q_p P"
  note upd = update_comp_def Let_def
  have a: "args_ok i ?a" "comp_ok ?a ?c" "i < 256" "length ?p = 256" using pinv_comp [OF inv i] inv i by (auto simp: pinv_def)
  have p: "\<forall>x \<in> set ?p. \<bar>x\<bar> \<le> 2048" using inv by (force simp: pinv_def)
  have pj: "\<bar>?p ! j\<bar> \<le> 2048" if "j < 256" for j using pinv_p [OF inv that] by linarith
  obtain s where s: "squash (?p ! i) = Inr s" "\<bar>int y * 32767 - s\<bar> \<le> 32767" using squash_error [OF inv a(3) y] by blast
  have "?a ! 0 \<in> {1, 2, 3, 4, 5, 6, 7, 8, 9}" using a(1) by (rule args_ok_types)
  then consider (none) "?a ! 0 = CONS \<or> ?a ! 0 = AVG" | (train) "?a ! 0 = CM \<or> ?a ! 0 = SSE" | (icm) "?a ! 0 = ICM" | (mtch) "?a ! 0 = MATCH"
    | (mix2) "?a ! 0 = MIX2" | (mix) "?a ! 0 = MIX" | (isse) "?a ! 0 = ISSE" by auto
  then show ?thesis
  proof cases
    case none
    then show ?thesis using pinv_set_comp [OF inv a(2)] by (auto simp: upd)
  next
    case train
    then have "outcome (\<lambda>_. False) (pinv As) (ebind (train y ?c) (\<lambda>c. Inr (set_comp i c P)))"
      using a(2) y by (intro outcome_set_comp [OF train_counter _ inv]) (auto simp: comp_ok_def)
    then show ?thesis using train unfolding upd by (simp only: simp_thms if_True)
  next
    case icm
    then have "outcome (\<lambda>_. False) (pinv As) (ebind (update_icm y (q_hmap4 P) ?c) (\<lambda>c. Inr (set_comp i c P)))"
      using a(2) y by (intro outcome_set_comp [OF update_icm_ok [of ?a] _ inv]) (auto simp: comp_ok_def)
    then show ?thesis using icm by (simp add: upd)
  next
    case mtch
    then have "outcome (\<lambda>_. False) (pinv As) (ebind (update_match (?a ! 2) y (q_h P ! i) ?c) (\<lambda>c. Inr (set_comp i c P)))"
      using a(1,2) by (intro outcome_set_comp [OF update_match_ok _ inv]) (auto simp: comp_ok_def args_ok_def)
    then show ?thesis using mtch by (simp add: upd)
  next
    case mix2
    have "?a ! 2 < 256" "?a ! 3 < 256" "?a ! 4 < 256" using mix2 a(1,3) arg_byte [OF a(1), of 4] by (auto simp: args_ok_def compsizes)
    then have "outcome (\<lambda>_. False) (pinv As) (ebind (update_mix2 ?a (int y * 32767 - s) ?p ?c) (\<lambda>c. Inr (set_comp i c P)))"
      using mix2 a(2) s(2) pj by (intro outcome_set_comp [OF update_mix2_ok _ inv]) (auto simp: comp_ok_def)
    then show ?thesis using mix2 s(1) by (simp add: upd)
  next
    case mix
    have "?a ! 2 + ?a ! 3 \<le> length ?p" "?a ! 4 < 256" using mix a arg_byte [OF a(1), of 4] by (auto simp: args_ok_def compsizes)
    then have "outcome (\<lambda>_. False) (pinv As) (ebind (update_mix ?a (int y * 32767 - s) ?p ?c) (\<lambda>c. Inr (set_comp i c P)))"
      using mix a(2) s(2) p by (intro outcome_set_comp [OF update_mix_ok _ inv]) (auto simp: comp_ok_def)
    then show ?thesis using mix s(1) by (simp add: upd)
  next
    case isse
    have "?a ! 2 < 256" using isse a(1,3) by (auto simp: args_ok_def)
    then have "outcome (\<lambda>_. False) (pinv As) (ebind (update_isse y (q_hmap4 P) ?a (int y * 32767 - s) ?p ?c) (\<lambda>c. Inr (set_comp i c P)))"
      using isse a(2) s(2) pj y by (intro outcome_set_comp [OF update_isse_ok [of ?a] _ inv]) (auto simp: comp_ok_def)
    then show ?thesis using isse s(1) by (simp add: upd)
  qed
qed


section \<open>Initialisation establishes the invariant\<close>

text \<open>What \<open>read\<close> guarantees of the arguments, and the sizes for which the code does not overflow: a limit
  or a start of 0 leaves the count of a new entry at 0, whose weight in the division table is too large.\<close>

definition raw_args :: "nat list \<Rightarrow> bool" where
  "raw_args a \<longleftrightarrow> (\<forall>x \<in> set a. x < 256) \<and> a \<noteq> [] \<and> length a = compsize (a ! 0)"

definition tame :: "nat list \<Rightarrow> bool" where
  "tame a \<longleftrightarrow> (a ! 0 = CM \<longrightarrow> 1 \<le> a ! 2) \<and> (a ! 0 = MATCH \<longrightarrow> a ! 2 \<le> 30) \<and> (a ! 0 = ISSE \<longrightarrow> a ! 1 \<le> 29) \<and>
     (a ! 0 = SSE \<longrightarrow> 1 \<le> a ! 3)"

lemma pinv_add_comp:
  assumes "pinv (take i As) P" "i < length As" "length As \<le> 255" "args_ok i (As ! i)" "comp_ok (As ! i) c"
  shows "pinv (take (i + 1) As) (set_comp i c P)"
proof -
  have l: "length (take (i + 1) As) = i + 1" "length (take i As) = i" using assms(2) by simp_all
  have n: "take (i + 1) As ! j = As ! j" if "j < i + 1" for j using that by simp
  have "args_ok j (As ! j)" "comp_ok (As ! j) (((q_comp P)[i := c]) ! j)" if "j < i + 1" for j
    using assms that by (cases "j = i"; auto simp: pinv_def less_Suc_eq)+
  then show ?thesis using assms(1,2,3) n unfolding pinv_def set_comp_def l by auto
qed

lemma cminit_bound: "cminit j < 8388608"
proof -
  let ?a = "unat (sns ! (j * 4 + 3))" and ?b = "unat (sns ! (j * 4 + 2))"
  have "(?a * 2 + 1) * 4194304 < 8388608 * (?b + ?a + 1)" by (simp add: algebra_simps)
  then have "(?a * 2 + 1) * 4194304 div (?b + ?a + 1) < 8388608" by (intro less_mult_imp_div_less)
  then show ?thesis by (simp add: cminit_def)
qed

lemma init_isse_ok: "\<exists>cm. init_isse = Inr cm \<and> length cm = 512 \<and> (\<forall>w \<in> set cm. weight_ok w)"
proof -
  let ?f = "\<lambda>j. ebind (stretch (cminit j div 256)) (\<lambda>s. Inr [2 ^ 15, of_int (clamp512k (s * 1024)) :: u32])"
  have "\<exists>r. ?f j = Inr r \<and> length r = 2 \<and> (\<forall>w \<in> set r. weight_ok w)" for j
  proof -
    have "cminit j div 256 \<le> 32767" using cminit_bound [of j] by simp
    then obtain s where "stretch (cminit j div 256) = Inr s" using stretch_2047 by blast
    moreover have "weight_ok (2 ^ 15)" by (simp add: weight_ok_def)
    ultimately show ?thesis using weight_ok_clamp by simp
  qed
  from emap_ok [of "[0 ..< 256]" ?f "\<lambda>r. length r = 2 \<and> (\<forall>w \<in> set r. weight_ok w)", OF this] obtain rows where
    r: "emap ?f [0 ..< 256] = Inr rows" "length rows = 256" "\<forall>r \<in> set rows. length r = 2 \<and> (\<forall>w \<in> set r. weight_ok w)" by auto
  have "length (concat xs) = 2 * length xs" if "\<forall>r \<in> set xs. length r = 2" for xs :: "u32 list list"
    using that by (induction xs) auto
  then have "length (concat rows) = 512" using r(2,3) by simp
  then show ?thesis using r(3) unfolding init_isse_def r(1) ebind_simps by auto
qed

lemma sse_entry: "start < 256 \<Longrightarrow> unat (push_bit 17 x OR of_nat start :: u32) mod 1024 = start"
proof -
  assume s: "start < 256"
  have m: "(0x3ff :: u32) = mask 10" by (simp add: mask_eq_exp_minus_1)
  have "(push_bit 17 x OR of_nat start) AND 0x3ff = take_bit 10 (of_nat start)"
    unfolding m take_bit_eq_mask [symmetric] take_bit_or take_bit_push_bit by simp
  then have "unat ((push_bit 17 x OR of_nat start :: u32) AND 0x3ff) = take_bit 10 (unat (of_nat start :: u32))"
    by (simp only: unsigned_take_bit_eq)
  also have "\<dots> = start" using s by (simp add: unat_of_nat take_bit_nat_eq_self)
  finally show ?thesis unfolding low_count .
qed

lemma init_sse_ok:
  assumes "1 \<le> start" "start < 256"
  shows "\<exists>row. init_sse start = Inr row \<and> length row = 32 \<and> (\<forall>x \<in> set row. entry_ok x)"
proof -
  let ?f = "\<lambda>j. ebind (squash (int j * 64 - 992)) (\<lambda>s. Inr (push_bit 17 (of_int s) OR of_nat start :: u32))"
  have "\<exists>x. ?f j = Inr x \<and> entry_ok x" if "j \<in> set [0 ..< 32]" for j
  proof -
    have "- 2048 \<le> int j * 64 - 992" "int j * 64 - 992 \<le> 2047" using that by simp_all
    then obtain s where "squash (int j * 64 - 992) = Inr s" using squash_bounds by blast
    then show ?thesis using sse_entry [OF assms(2), of "of_int s"] assms(1) by (simp add: entry_ok_def)
  qed
  from emap_ok [of "[0 ..< 32]" ?f entry_ok, OF this] show ?thesis unfolding init_sse_def by simp
qed

lemma unat_limit: "x < 256 \<Longrightarrow> unat (of_nat (x * 4) :: u64) = x * 4"
  by (simp only: unat_of_nat) simp

lemma init_comp_ok:
  assumes inv: "pinv (take i As) P" and i: "i < length As" and len: "length As \<le> 255"
    and raw: "raw_args (As ! i)" and t: "tame (As ! i)"
  shows "outcome (\<lambda>e. e \<noteq> Undefined) (pinv (take (i + 1) As)) (init_comp i (As ! i) P)"
proof -
  let ?a = "As ! i"
  have b: "?a ! j < 256" if "j < compsize (?a ! 0)" for j using raw that unfolding raw_args_def by (metis nth_mem)
  have keep: "pinv (take (i + 1) As) (set_comp i c P)" if "args_ok i ?a" "comp_ok ?a c" for c
    using that by (rule pinv_add_comp [OF inv i len])
  have self: "set_comp i (q_comp P ! i) P = P" by (simp add: set_comp_def)
  have z: "length (q_comp P) = 256" using inv by (simp add: pinv_def)
  have "?a \<noteq> []" "length ?a = compsize (?a ! 0)" using raw unfolding raw_args_def by blast+
  then have "0 < compsize (?a ! 0)" by (metis length_greater_0_conv)
  from compsize_types [OF this] consider "?a ! 0 = CONS" | "?a ! 0 = CM" | "?a ! 0 = ICM" | "?a ! 0 = MATCH" | "?a ! 0 = AVG"
    | "?a ! 0 = MIX2" | "?a ! 0 = MIX" | "?a ! 0 = ISSE" | "?a ! 0 = SSE" by auto
  then show ?thesis
  proof cases
    case 1
    have "?a ! 1 < 256" using b [of 1] unfolding 1 compsizes by simp
    then have v: "- 2048 \<le> (int (?a ! 1) - 128) * 4" "(int (?a ! 1) - 128) * 4 \<le> 2047" by simp_all
    have "args_ok i ?a" "comp_ok ?a (q_comp P ! i)" using raw 1 by (simp_all add: args_ok_def raw_args_def comp_ok_def)
    from keep [OF this] show ?thesis using 1 v unfolding self by (simp add: init_comp_def pinv_set_p)
  next
    case 2
    define c where "c = new_Component\<lparr>cr_cm := replicate (2 ^ (?a ! 1)) 0x80000000, cr_limit := of_nat (?a ! 2 * 4)\<rparr>"
    have "unat (of_nat (?a ! 2 * 4) :: u64) = ?a ! 2 * 4" using b [of 2] 2 by (intro unat_limit) (simp add: compsizes)
    then have "counter_ok c" using b [of 2] 2 t by (simp add: c_def counter_ok_def entry_ok_def compsizes tame_def)
    then have "pinv (take (i + 1) As) (set_comp i c P)" using raw 2 by (intro keep) (simp_all add: args_ok_def raw_args_def comp_ok_def)
    then show ?thesis using 2 unfolding init_comp_def c_def [symmetric] by simp
  next
    case 3
    define c where "c = new_Component\<lparr>cr_limit := 1023, cr_cm := map (\<lambda>j. of_nat (cminit j)) [0 ..< 256], cr_ht := replicate (64 * 2 ^ (?a ! 1)) 0\<rparr>"
    have "unat (of_nat (cminit j) :: u32) < 8388608" for j using cminit_bound [of j] by (simp add: unat_of_nat)
    then have "icm_ok ?a c" by (simp add: c_def icm_ok_def rows_ok_def new_Component_def)
    then have "pinv (take (i + 1) As) (set_comp i c P)" if "?a ! 1 \<le> 26"
      using raw 3 that by (intro keep) (simp_all add: args_ok_def raw_args_def comp_ok_def)
    then show ?thesis using 3 unfolding init_comp_def c_def [symmetric] by simp
  next
    case 4
    define c where "c = new_Component\<lparr>cr_cm := replicate (2 ^ (?a ! 1)) 0, cr_ht := (replicate (2 ^ (?a ! 2)) 0)[0 := 1]\<rparr>"
    have "match_ok c" by (simp add: c_def match_ok_def new_Component_def)
    then have "pinv (take (i + 1) As) (set_comp i c P)" using raw 4 t
      by (intro keep) (simp_all add: args_ok_def raw_args_def comp_ok_def tame_def)
    then show ?thesis using 4 unfolding init_comp_def c_def [symmetric] by simp
  next
    case 5
    have "pinv (take (i + 1) As) P" if "?a ! 1 < i" "?a ! 2 < i"
      using keep [of "q_comp P ! i"] raw 5 that unfolding self by (simp add: args_ok_def raw_args_def comp_ok_def)
    then show ?thesis using 5 by (simp add: init_comp_def)
  next
    case 6
    define c where "c = new_Component\<lparr>cr_c := 2 ^ (?a ! 1), cr_a16 := replicate (2 ^ (?a ! 1)) 32768\<rparr>"
    have "mix2_ok ?a c" by (simp add: c_def mix2_ok_def new_Component_def)
    then have "pinv (take (i + 1) As) (set_comp i c P)" if "?a ! 1 \<le> 32" "?a ! 2 < i" "?a ! 3 < i"
      using raw 6 that by (intro keep) (simp_all add: args_ok_def raw_args_def comp_ok_def)
    then show ?thesis using 6 unfolding init_comp_def c_def [symmetric] by simp
  next
    case 7
    define c where "c = new_Component\<lparr>cr_c := 2 ^ (?a ! 1), cr_cm := replicate (?a ! 3 * 2 ^ (?a ! 1)) (of_nat (65536 div ?a ! 3))\<rparr>"
    have "65536 div ?a ! 3 \<le> 65536" by (rule div_le_dividend)
    then have "sint (of_int (int (65536 div ?a ! 3)) :: u32) = int (65536 div ?a ! 3)" by (intro sint_of_small) linarith+
    then have "weight_ok (of_nat (65536 div ?a ! 3))" using \<open>65536 div ?a ! 3 \<le> 65536\<close> unfolding weight_ok_def of_int_of_nat_eq by linarith
    then have "mix_ok ?a c" by (simp add: c_def mix_ok_def new_Component_def)
    then have "pinv (take (i + 1) As) (set_comp i c P)" if "?a ! 1 \<le> 32" "?a ! 2 < i" "1 \<le> ?a ! 3" "?a ! 3 \<le> i - ?a ! 2"
      using raw 7 that by (intro keep) (simp_all add: args_ok_def raw_args_def comp_ok_def)
    then show ?thesis using 7 unfolding init_comp_def c_def [symmetric] by simp
  next
    case 8
    obtain cm where cm: "init_isse = Inr cm" "length cm = 512" "\<forall>w \<in> set cm. weight_ok w" using init_isse_ok by blast
    define c where "c = new_Component\<lparr>cr_ht := replicate (64 * 2 ^ (?a ! 1)) 0, cr_cm := cm\<rparr>"
    have "isse_ok ?a c" using cm by (simp add: c_def isse_ok_def rows_ok_def new_Component_def)
    then have "pinv (take (i + 1) As) (set_comp i c P)" if "?a ! 2 < i"
      using raw 8 t that by (intro keep) (simp_all add: args_ok_def raw_args_def comp_ok_def tame_def)
    then show ?thesis using 8 unfolding init_comp_def cm(1) ebind_simps c_def [symmetric] by simp
  next
    case 9
    have s: "1 \<le> ?a ! 3" "?a ! 3 < 256" using b [of 3] 9 t by (simp_all add: compsizes tame_def)
    then obtain row where row: "init_sse (?a ! 3) = Inr row" "length row = 32" "\<forall>x \<in> set row. entry_ok x" using init_sse_ok by blast
    define c where "c = new_Component\<lparr>cr_cm := concat (replicate (2 ^ (?a ! 1)) row), cr_limit := of_nat (?a ! 4 * 4)\<rparr>"
    have "unat (of_nat (?a ! 4 * 4) :: u64) = ?a ! 4 * 4" using b [of 4] 9 by (intro unat_limit) (simp add: compsizes)
    then have "counter_ok c" if "?a ! 3 \<le> ?a ! 4 * 4"
      using b [of 4] 9 s row that by (auto simp: c_def counter_ok_def compsizes)
    then have "pinv (take (i + 1) As) (set_comp i c P)" if "?a ! 3 \<le> ?a ! 4 * 4" "?a ! 2 < i"
      using raw 9 that by (intro keep) (simp_all add: args_ok_def raw_args_def comp_ok_def)
    then show ?thesis using 9 unfolding init_comp_def row(1) ebind_simps c_def [symmetric] by simp
  qed
qed


section \<open>The layout of the header\<close>

definition comp_bytes :: "u8 list \<Rightarrow> bool" where
  "comp_bytes Y \<longleftrightarrow> Y \<noteq> [] \<and> length Y = compsize (unat (hd Y))"

lemma args_at_layout:
  assumes "header z = xs @ concat Ys @ rest" "\<forall>Y \<in> set Ys. comp_bytes Y"
  shows "args_at z (length xs) (map (map unat) Ys)"
  using assms
proof (induction Ys arbitrary: xs)
  case (Cons Y Ys)
  have Y: "Y \<noteq> []" "length Y = compsize (unat (hd Y))" using Cons.prems(2) by (simp_all add: comp_bytes_def)
  then obtain t ts where T: "Y = t # ts" by (cases Y) auto
  have "header z ! length xs = t" "length xs < length (header z)" using Cons.prems(1) T by simp_all
  moreover have "take (max 1 (compsize (unat t))) (drop (length xs) (header z)) = Y"
  proof -
    have "compsize (unat t) = length Y" "max 1 (length Y) = length Y" using Y T by simp_all
    moreover have "drop (length xs) (header z) = Y @ concat Ys @ rest" using Cons.prems(1) by simp
    ultimately show ?thesis by simp
  qed
  moreover have "length xs + compsize (unat t) \<le> length (header z)" using Cons.prems(1) Y T by simp
  ultimately have "comp_args z (length xs) = Inr (map unat Y)" by (simp add: comp_args_def arr_ok)
  moreover have "args_at z (length (xs @ Y)) (map (map unat) Ys)" by (rule Cons.IH) (use Cons.prems in simp_all)
  moreover have "compsize (unat t) = Suc (length ts)" using Y T by simp
  ultimately show ?case using T by simp
qed simp

lemma read_comps_layout:
  assumes "comp_read (nat (hsize + 300)) xs z" "room hsize xs" "read_comps n hsize z inp = Inr (z', rest)"
  shows "\<exists>Ys. length Ys = n \<and> (\<forall>Y \<in> set Ys. comp_bytes Y) \<and> comp_read (nat (hsize + 300)) (xs @ concat Ys) z' \<and> room hsize (xs @ concat Ys)"
  using assms
proof (induction n arbitrary: z inp xs)
  case 0
  then show ?case by (intro exI [of _ "[]"]) simp
next
  case (Suc n)
  let ?N = "nat (hsize + 300)"
  obtain c inp1 where c: "get inp = (c, inp1)" by (metis surj_pair)
  obtain z1 where z1: "put_comp c z = Inr z1" "comp_read ?N (xs @ [of_int c]) z1"
    using put_comp_read [OF Suc.prems(1) room_less [OF Suc.prems(2)], of c] by blast
  let ?k = "compsize (nat c)"
  have "cend z1 = length xs + 1" using z1(2) by (simp add: comp_read_def)
  then have b: "0 \<le> c" "c \<le> 255" "1 \<le> ?k" "int (length xs + 1 + ?k) \<le> hsize"
    and step: "ebind (copy_comp (?k - 1) z1 inp1) (\<lambda>(z, inp). read_comps n hsize z inp) = Inr (z', rest)"
    using Suc.prems(3) c z1(1) by (auto simp: Let_def split: if_splits)
  have "length (xs @ [of_int c :: u8]) + (?k - 1) \<le> ?N" using b(3,4) by simp
  from copy_comp_read [OF z1(2) this, of inp1] obtain z2 inp2 ys where
    z2: "copy_comp (?k - 1) z1 inp1 = Inr (z2, inp2)" "length ys = ?k - 1" "comp_read ?N ((xs @ [of_int c]) @ ys) z2" by blast
  let ?Y = "of_int c # ys"
  have r: "room hsize (xs @ ?Y)" using b(3,4) z2(2) Suc.prems(2) by (auto simp: room_def)
  have "comp_read ?N (xs @ ?Y) z2" "read_comps n hsize z2 inp2 = Inr (z', rest)" using z2(1,3) step by simp_all
  from Suc.IH [OF this(1) r this(2)] obtain Ys where
    Ys: "length Ys = n" "\<forall>Y \<in> set Ys. comp_bytes Y" "comp_read ?N ((xs @ ?Y) @ concat Ys) z'" "room hsize ((xs @ ?Y) @ concat Ys)" by blast
  have "unat (of_int c :: u8) = nat c" using unat_of_byte [of "nat c"] b(1,2) by (simp add: nat_less_iff)
  then have "comp_bytes ?Y" using z2(2) b(3) by (simp add: comp_bytes_def)
  then show ?case using Ys by (intro exI [of _ "?Y # Ys"]) simp
qed

text \<open>A program as \<open>read\<close> accepts it: the arguments of its components follow the byte \<open>n\<close>.\<close>

definition program_args :: "ZPAQL \<Rightarrow> nat list list \<Rightarrow> bool" where
  "program_args z As \<longleftrightarrow> args_at z 7 As \<and> length As = ncomp z \<and> (\<forall>a \<in> set As. raw_args a)"

lemma read_bytes: "(rest \<noteq> [] \<longrightarrow> (\<exists>used. local_read f inp x rest used \<and> Q used)) \<Longrightarrow> byte_list inp \<Longrightarrow> byte_list rest"
  by (cases "rest = []") (auto simp: local_read_def)

lemma zread_args:
  assumes "byte_list inp" "zread z inp = Inr ((n, z'), rest)"
  shows "\<exists>As. program_args z' As"
proof -
  obtain hsize z1 inp1 xs where s: "read_start z inp = Inr ((hsize, z1), inp1)" "comp_read (nat (hsize + 300)) xs z1"
      "room hsize xs" "length xs = 7"
    and loc1: "inp1 \<noteq> [] \<longrightarrow> (\<exists>used. local_read (read_start z) inp (hsize, z1) inp1 used \<and> xs = map of_nat used \<and>
      hsize = int (used ! 0) + 256 * int (used ! 1))"
    using read_start_read [OF assms(1), of z] by blast
  let ?n = "unat (header z1 ! (cend z1 - 1))"
  obtain z2 inp2 where r: "read_comps ?n hsize z1 inp1 = Inr (z2, inp2)" and q: "read_code hsize z2 inp2 = Inr ((n, z'), rest)"
    using assms(2) s(1) by (auto simp: zread_def ebind_eq_Inr)
  obtain Ys where Ys: "length Ys = ?n" "\<forall>Y \<in> set Ys. comp_bytes Y" "comp_read (nat (hsize + 300)) (xs @ concat Ys) z2" "room hsize (xs @ concat Ys)"
    using read_comps_layout [OF s(2,3) r] by blast
  have b2: "byte_list inp2"
  proof (rule read_bytes [of inp2 "read_comps ?n hsize z1" inp1 z2 "\<lambda>_. True"])
    show "inp2 \<noteq> [] \<longrightarrow> (\<exists>used. local_read (read_comps ?n hsize z1) inp1 z2 inp2 used \<and> True)"
      using read_comps_read [OF s(2,3), of ?n inp1] r by auto
  qed (rule read_bytes [OF loc1 assms(1)])
  obtain hs where "code_read (nat (hsize + 300)) ((xs @ concat Ys) @ [0]) hs z'"
    using read_code_read [OF Ys(3,4) b2] q by auto
  then obtain t where h: "header z' = xs @ concat Ys @ 0 # t" unfolding code_read_def by auto
  have "ncomp z' = unat (xs ! 6)" using h s(4) by (simp add: ncomp_def nth_append)
  moreover have "header z1 ! (cend z1 - 1) = xs ! 6" using s(2,4) by (simp add: comp_read_def nth_append)
  ultimately have "length Ys = ncomp z'" using Ys(1) by simp
  moreover have "raw_args (map unat Y)" if "Y \<in> set Ys" for Y
  proof -
    have Y: "Y \<noteq> []" "length Y = compsize (unat (hd Y))" using Ys(2) that by (simp_all add: comp_bytes_def)
    have "unat y < 256" for y :: u8 using unsigned_less [of y, where ?'a = nat] by simp
    moreover have "map unat Y ! 0 = unat (hd Y)" using Y(1) by (cases Y) simp_all
    ultimately show ?thesis using Y by (auto simp: raw_args_def)
  qed
  moreover have "args_at z' 7 (map (map unat) Ys)" using args_at_layout [OF h Ys(2)] s(4) by simp
  ultimately show ?thesis unfolding program_args_def by (intro exI [of _ "map (map unat) Ys"]) auto
qed

lemma args_at_header:
  assumes "header z' = header z"
  shows "args_at z' cp As = args_at z cp As"
proof -
  have "comp_args z' cp = comp_args z cp" for cp unfolding comp_args_def assms ..
  then show ?thesis by (induction As arbitrary: cp) simp_all
qed


section \<open>The predictor as a whole\<close>

text \<open>\<open>hmap4\<close> is \<open>c8\<close> split into nibbles: each keeps a leading one.\<close>

definition split_nibbles :: "nat \<Rightarrow> nat" where
  "split_nibbles c8 =
     (if c8 < 16 then c8 else if c8 < 32 then c8 * 16 + 1 else if c8 < 64 then c8 div 2 * 16 + 2 + c8 mod 2
      else if c8 < 128 then c8 div 4 * 16 + 4 + c8 mod 4 else c8 div 8 * 16 + 8 + c8 mod 8)"

definition next_nibbles :: "nat \<Rightarrow> nat \<Rightarrow> nat \<Rightarrow> nat" where
  "next_nibbles c8 h4 y =
     (if 16 \<le> c8 \<and> c8 < 32 then push_bit 5 (h4 AND 0xf) OR push_bit 4 y OR 1 else (h4 AND 0x1f0) OR (((h4 AND 0xf) * 2 + y) AND 0xf))"

lemma next_nibbles_arith:
  assumes "h4 < 512" "y \<le> 1"
  shows "next_nibbles c8 h4 y =
    (if 16 \<le> c8 \<and> c8 < 32 then h4 mod 16 * 32 + y * 16 + 1 else h4 div 16 * 16 + (h4 mod 16 * 2 + y) mod 16)"
proof -
  have low: "x AND 0xf = x mod 16" for x :: nat
  proof -
    have "x AND mask 4 = take_bit 4 x" by (rule take_bit_eq_mask [symmetric])
    then show ?thesis by (simp add: mask_eq_exp_minus_1 take_bit_eq_mod)
  qed
  have "h4 AND 0x1f0 = take_bit 9 h4 div 16 * 16" using and_sub16 [of h4 3] by simp
  then have high: "h4 AND 0x1f0 = h4 div 16 * 16" using assms(1) by (simp add: take_bit_nat_eq_self)
  have "push_bit 4 d OR take_bit 4 x = push_bit 4 d + take_bit 4 x" for d x :: nat
    by (rule disjunctive_add [symmetric]) (simp add: bit_simps)
  then have join: "d * 16 OR x mod 16 = d * 16 + x mod 16" for d x :: nat by (simp add: push_bit_eq_mult take_bit_eq_mod)
  have "push_bit 4 y OR 1 = y * 16 + 1 mod 16" using join [of y 1] by (simp add: push_bit_eq_mult)
  then have y: "push_bit 4 y OR 1 = y * 16 + 1" by simp
  have "push_bit 5 d OR take_bit 5 x = push_bit 5 d + take_bit 5 x" for d x :: nat
    by (rule disjunctive_add [symmetric]) (simp add: bit_simps)
  from this [of "h4 mod 16" "y * 16 + 1"] have "push_bit 5 (h4 mod 16) OR push_bit 4 y OR 1 = h4 mod 16 * 32 + y * 16 + 1"
    unfolding y using assms(2) by (simp add: push_bit_eq_mult take_bit_eq_mod)
  then show ?thesis by (simp add: next_nibbles_def low high join)
qed

text \<open>With a leading one and \<open>j\<close> bits of the second nibble.\<close>

lemma split_nibbles_rows:
  "c < 16 \<Longrightarrow> split_nibbles c = c"
  "16 \<le> d \<Longrightarrow> d < 32 \<Longrightarrow> split_nibbles d = 16 * d + 1"
  "16 \<le> d \<Longrightarrow> d < 32 \<Longrightarrow> m < 2 \<Longrightarrow> split_nibbles (2 * d + m) = 16 * d + (2 + m)"
  "16 \<le> d \<Longrightarrow> d < 32 \<Longrightarrow> m < 4 \<Longrightarrow> split_nibbles (4 * d + m) = 16 * d + (4 + m)"
  "16 \<le> d \<Longrightarrow> d < 32 \<Longrightarrow> m < 8 \<Longrightarrow> split_nibbles (8 * d + m) = 16 * d + (8 + m)"
  by (simp_all add: split_nibbles_def)

lemma nibble_row:
  "k < 16 \<Longrightarrow> (16 * d + k) div 16 = d" "k < 16 \<Longrightarrow> (16 * d + k) mod 16 = k" for d k :: nat
  by simp_all

lemma nibbles_step:
  assumes "1 \<le> c" "c < 128" "y \<le> 1"
  shows "next_nibbles (c + (c + y)) (split_nibbles c) y = split_nibbles (c + (c + y))"
proof -
  have row: "next_nibbles (j * d * 2 + (2 * m + y)) (16 * d + (j + m)) y = 16 * d + (2 * j + (2 * m + y))"
    if "16 \<le> d" "d < 32" "m < j" "j \<le> 4" "1 \<le> j" for d m j
  proof -
    have b: "16 * d + (j + m) < 512" and "32 \<le> j * d * 2" using that mult_le_mono [OF that(5,1)] by linarith+
    then have n: "\<not> (16 \<le> j * d * 2 + (2 * m + y) \<and> j * d * 2 + (2 * m + y) < 32)" by linarith
    have k: "j + m < 16" "(j + m) * 2 + y < 16" using that assms(3) by simp_all
    then show ?thesis unfolding next_nibbles_arith [OF b assms(3)] if_not_P [OF n] nibble_row [OF k(1)] by simp
  qed
  consider "c < 8" | "8 \<le> c" "c < 16" | "16 \<le> c" "c < 32" | "32 \<le> c" "c < 64" | "64 \<le> c" by linarith
  then show ?thesis
  proof cases
    case 1
    then show ?thesis using assms(3) by (subst next_nibbles_arith) (simp_all add: split_nibbles_rows)
  next
    case 2
    then have "split_nibbles (c + (c + y)) = 16 * (c + (c + y)) + 1" using assms(3) by (intro split_nibbles_rows) simp_all
    then show ?thesis using 2 assms(3) by (subst next_nibbles_arith) (simp_all add: split_nibbles_rows)
  next
    case 3
    have e: "c + (c + y) = c * 2 + y" by simp
    show ?thesis unfolding e using 3 row [of c 0 1] split_nibbles_rows(2) [of c] split_nibbles_rows(3) [of c y] assms(3) by (simp add: mult.commute)
  next
    case 4
    define d m where "d = c div 2" "m = c mod 2"
    have "c = 2 * d + m" "16 \<le> d" "d < 32" "m < 2" using 4 by (simp_all add: d_m_def)
    then show ?thesis using row [of d m 2] split_nibbles_rows(3) [of d m] split_nibbles_rows(4) [of d "2 * m + y"] assms(3)
      by (simp add: algebra_simps)
  next
    case 5
    define d m where "d = c div 4" "m = c mod 4"
    have "c = 4 * d + m" "16 \<le> d" "d < 32" "m < 4" using 5 assms(2) by (simp_all add: d_m_def)
    then show ?thesis using row [of d m 4] split_nibbles_rows(4) [of d m] split_nibbles_rows(5) [of d "2 * m + y"] assms(3)
      by (simp add: algebra_simps)
  qed
qed

definition pstate :: "nat list list \<Rightarrow> Predictor \<Rightarrow> bool" where
  "pstate As P \<longleftrightarrow> pinv As P \<and> program_args (q_z P) As \<and> wf_program (q_z P) \<and> wf_arrays (q_z P) \<and>
     1 \<le> q_c8 P \<and> q_c8 P \<le> 255 \<and> q_hmap4 P = split_nibbles (q_c8 P)"

definition same_ctx :: "Predictor \<Rightarrow> Predictor \<Rightarrow> bool" where
  "same_ctx P P' \<longleftrightarrow> q_z P' = q_z P \<and> q_c8 P' = q_c8 P \<and> q_hmap4 P' = q_hmap4 P"

lemma set_fields [simp]:
  "q_z (set_comp i c P) = q_z P" "q_c8 (set_comp i c P) = q_c8 P" "q_hmap4 (set_comp i c P) = q_hmap4 P" "q_h (set_comp i c P) = q_h P"
  "q_z (set_p i v P) = q_z P" "q_c8 (set_p i v P) = q_c8 P" "q_hmap4 (set_p i v P) = q_hmap4 P" "q_h (set_p i v P) = q_h P"
  by (simp_all add: set_comp_def set_p_def)

lemma outcome_ctx:
  "outcome F I m \<Longrightarrow> outcome (\<lambda>_. True) (same_ctx Q) m \<Longrightarrow> same_ctx P Q \<Longrightarrow> outcome F (\<lambda>s. I s \<and> same_ctx P s) m"
  by (cases m) (auto simp: same_ctx_def)

lemma ctx_rules:
  "outcome F J r \<Longrightarrow> outcome F J r' \<Longrightarrow> outcome F J (if b then r else r')"
  "(\<And>s. outcome (\<lambda>_. True) J (f s)) \<Longrightarrow> outcome (\<lambda>_. True) J (ebind m f)"
  "outcome (\<lambda>_. True) J (Inl e)" "same_ctx P P" "same_ctx P Q \<Longrightarrow> outcome F (same_ctx P) (Inr Q)"
  "same_ctx P Q \<Longrightarrow> same_ctx P (set_comp i c Q)" "same_ctx P Q \<Longrightarrow> same_ctx P (set_p i v Q)"
  by (cases m; simp add: same_ctx_def)+

lemma predict_comp_ctx: "outcome (\<lambda>_. True) (same_ctx P) (predict_comp i a P)"
  unfolding predict_comp_def Let_def by (intro ctx_rules)

lemma update_comp_ctx: "outcome (\<lambda>_. True) (same_ctx P) (update_comp y i a P)"
  unfolding update_comp_def Let_def by (intro ctx_rules)

lemma init_comp_ctx: "outcome (\<lambda>_. True) (same_ctx P) (init_comp i a P)"
  unfolding init_comp_def Let_def by (intro ctx_rules)

text \<open>A pass over the components keeps the state.\<close>

lemma walk_pstate:
  assumes st: "pstate As P"
    and step: "\<And>i Q. i < length As \<Longrightarrow> pinv As Q \<Longrightarrow> outcome (\<lambda>_. False) (pinv As) (f i (As ! i) Q)"
    and ctx: "\<And>i a Q. outcome (\<lambda>_. True) (same_ctx Q) (f i a Q)"
  shows "\<exists>P'. walk f (q_z P) (ncomp (q_z P)) 0 7 P = Inr P' \<and> pstate As P' \<and> same_ctx P P'"
proof -
  have len: "length As = ncomp (q_z P)" and args: "args_at (q_z P) 7 As" using st by (simp_all add: pstate_def program_args_def)
  have "outcome (\<lambda>_. False) (\<lambda>Q. pinv As Q \<and> same_ctx P Q) (walk f (q_z P) (length As) 0 7 P)"
  proof (rule walk_outcome [OF args, where I = "\<lambda>_ Q. pinv As Q \<and> same_ctx P Q"])
    show "pinv As P \<and> same_ctx P P" using st by (simp add: pstate_def same_ctx_def)
    show "outcome (\<lambda>_. False) (\<lambda>Q. pinv As Q \<and> same_ctx P Q) (f (0 + j) (As ! j) Q)" if "j < length As" "pinv As Q \<and> same_ctx P Q" for j Q
      using that step [of j Q] by (intro outcome_ctx [OF _ ctx]) auto
  qed
  then obtain P' where "walk f (q_z P) (length As) 0 7 P = Inr P'" "pinv As P'" "same_ctx P P'" by (auto simp: outcome_total)
  then show ?thesis using st len by (auto simp: pstate_def same_ctx_def)
qed

lemma predict0_ok:
  assumes "pstate As P"
  shows "\<exists>v P'. predict0 P = Inr (v, P') \<and> 0 \<le> v \<and> v \<le> 32767 \<and> pstate As P'"
proof -
  obtain P' where P': "walk predict_comp (q_z P) (ncomp (q_z P)) 0 7 P = Inr P'" "pstate As P'" "same_ctx P P'"
    using walk_pstate [OF assms, of predict_comp] predict_comp_ok predict_comp_ctx by blast
  have "ncomp (q_z P) < 256" using unsigned_less [of "header (q_z P) ! 6", where ?'a = nat] by (simp add: ncomp_def)
  then have "ncomp (q_z P) - 1 < 256" by simp
  moreover have "pinv As P'" using P'(2) by (simp add: pstate_def)
  ultimately obtain v where "squash (q_p P' ! (ncomp (q_z P) - 1)) = Inr v" "0 \<le> v" "v \<le> 32767"
    using squash_bounds pinv_p by blast
  then show ?thesis using P' by (simp add: predict0_def same_ctx_def)
qed

lemma save_bit_ok:
  assumes st: "pstate As P" and y: "y \<le> 1"
  shows "outcome (\<lambda>e. e \<noteq> Undefined) (pstate As) (save_bit fuel y P)"
proof -
  let ?c8 = "q_c8 P + (q_c8 P + y)"
  have wf: "wf_program (q_z P)" "wf_arrays (q_z P)" "pinv As P" "program_args (q_z P) As" and c8: "1 \<le> q_c8 P" "q_hmap4 P = split_nibbles (q_c8 P)"
    using st by (simp_all add: pstate_def)
  show ?thesis
  proof (cases "256 \<le> ?c8")
    case True
    have run: "case run0 fuel (of_nat (?c8 - 256)) (q_z P) of Inl e \<Rightarrow> e \<noteq> Undefined | Inr z' \<Rightarrow> same_program (q_z P) z' \<and> wf_arrays z'"
      by (rule run0_good [OF wf(1,2)])
    show ?thesis
    proof (cases "run0 fuel (of_nat (?c8 - 256)) (q_z P)")
      case (Inl e)
      then show ?thesis using run True by (simp add: save_bit_def Let_def)
    next
      case (Inr z)
      then have z: "same_program (q_z P) z" "wf_arrays z" using run by simp_all
      let ?P = "P\<lparr>q_z := z, q_hmap4 := 1, q_c8 := 1, q_h := map (zH z) [0 ..< ncomp z] @ drop (ncomp z) (q_h P)\<rparr>"
      have h: "header z = header (q_z P)" using z(1) by (simp add: same_program_def)
      then have n: "ncomp z = ncomp (q_z P)" by (simp add: ncomp_def)
      have "ncomp z \<le> 256" using wf(3,4) by (simp add: n program_args_def pinv_def)
      then have "pinv As ?P" using wf(3) by (auto simp: pinv_def)
      moreover have "program_args z As" using wf(4) args_at_header [OF h] by (simp add: program_args_def n)
      moreover have "wf_program z" using wf(1) z(1) by (simp add: wf_program_def same_program_def)
      ultimately have "pstate As ?P" using z(2) by (simp add: pstate_def split_nibbles_def)
      then show ?thesis using True Inr by (simp add: save_bit_def Let_def)
    qed
  next
    case False
    then have "save_bit fuel y P = Inr (P\<lparr>q_c8 := ?c8, q_hmap4 := next_nibbles ?c8 (q_hmap4 P) y\<rparr>)"
      by (simp add: save_bit_def Let_def next_nibbles_def)
    moreover have "next_nibbles ?c8 (q_hmap4 P) y = split_nibbles ?c8"
      unfolding c8(2) by (rule nibbles_step) (use False c8(1) y in simp_all)
    ultimately show ?thesis using st False by (simp add: pstate_def pinv_def)
  qed
qed

lemma update0_ok:
  assumes "pstate As P" "y \<le> 1"
  shows "outcome (\<lambda>e. e \<noteq> Undefined) (pstate As) (update0 fuel y P)"
proof -
  obtain P' where "walk (update_comp y) (q_z P) (ncomp (q_z P)) 0 7 P = Inr P'" "pstate As P'"
    using walk_pstate [OF assms(1), of "update_comp y"] update_comp_ok [OF _ _ assms(2)] update_comp_ctx by blast
  then show ?thesis using save_bit_ok [of As P' y fuel] assms(2) by (simp add: update0_def)
qed

lemma predictor_run_ok:
  assumes "pstate As P" "\<forall>y \<in> set ys. y \<le> 1"
  shows "outcome (\<lambda>e. e \<noteq> Undefined) (\<lambda>(vs, P'). length vs = length ys \<and> (\<forall>v \<in> set vs. 0 \<le> v \<and> v \<le> 32767) \<and> pstate As P')
    (predictor_run fuel ys P)"
  using assms
proof (induction ys arbitrary: P)
  case (Cons y ys)
  obtain v P1 where v: "predict0 P = Inr (v, P1)" "0 \<le> v" "v \<le> 32767" "pstate As P1" using predict0_ok [OF Cons.prems(1)] by blast
  show ?case unfolding predictor_run.simps v(1) ebind_simps prod.case
  proof (rule outcome_ebind)
    show "outcome (\<lambda>e. e \<noteq> Undefined) (pstate As) (update0 fuel y P1)" using update0_ok [OF v(4)] Cons.prems(2) by simp
    fix P2
    assume "pstate As P2"
    from Cons.IH [OF this] show "outcome (\<lambda>e. e \<noteq> Undefined)
        (\<lambda>(vs, P'). length vs = length (y # ys) \<and> (\<forall>v \<in> set vs. 0 \<le> v \<and> v \<le> 32767) \<and> pstate As P')
        (ebind (predictor_run fuel ys P2) (\<lambda>(vs, P). Inr (v # vs, P)))"
      using Cons.prems(2) v(2,3) by (cases "predictor_run fuel ys P2") auto
  qed
qed simp

lemma Predictor_init_ok:
  assumes args: "program_args (q_z P) As" and wf: "wf_program (q_z P)" and t: "\<forall>a \<in> set As. tame a" and c8: "q_c8 P = 1" "q_hmap4 P = 1"
  shows "outcome (\<lambda>e. e \<noteq> Undefined) (pstate As) (Predictor_init P)"
  unfolding Predictor_init_def
proof (rule outcome_ebind)
  show "outcome (\<lambda>e. e \<noteq> Undefined) (\<lambda>z. same_program (q_z P) z \<and> wf_arrays z) (inith (q_z P))"
    by (auto simp: inith_def zinit_def same_program_def wf_arrays_def)
  fix z
  assume z: "same_program (q_z P) z \<and> wf_arrays z"
  let ?P = "P\<lparr>q_z := z, q_h := replicate 256 0, q_p := replicate 256 0, q_comp := replicate 256 new_Component\<rparr>"
  have h: "header z = header (q_z P)" using z by (simp add: same_program_def)
  have a: "args_at z 7 As" "length As = ncomp z" "\<forall>a \<in> set As. raw_args a" "program_args z As"
    using args args_at_header [OF h] by (simp_all add: program_args_def ncomp_def h)
  have len: "length As \<le> 255" using unsigned_less [of "header z ! 6", where ?'a = nat] a(2) by (simp add: ncomp_def)
  have w: "wf_program z" using wf z by (simp add: wf_program_def same_program_def)
  let ?I = "\<lambda>k Q. pinv (take k As) Q \<and> same_ctx ?P Q"
  have "outcome (\<lambda>e. e \<noteq> Undefined) (?I (0 + length As)) (walk init_comp z (length As) 0 7 ?P)"
  proof (rule walk_outcome [OF a(1)])
    show "?I 0 ?P" by (simp add: pinv_def same_ctx_def)
    show "outcome (\<lambda>e. e \<noteq> Undefined) (?I (0 + j + 1)) (init_comp (0 + j) (As ! j) Q)" if "j < length As" "?I (0 + j) Q" for j Q
      using that init_comp_ok [of j As Q] len a(3) t by (intro outcome_ctx [OF _ init_comp_ctx]) simp_all
  qed
  moreover have "pstate As Q" if "?I (0 + length As) Q" for Q
    using that a(4) w z c8 by (auto simp: pstate_def same_ctx_def split_nibbles_def)
  ultimately show "outcome (\<lambda>e. e \<noteq> Undefined) (pstate As) (walk init_comp z (ncomp z) 0 7 ?P)"
    unfolding a(2) by (cases "walk init_comp z (ncomp z) 0 7 ?P") auto
qed


section \<open>The predictor is safe\<close>

definition tame_program :: "ZPAQL \<Rightarrow> bool" where
  "tame_program z \<longleftrightarrow> walk (\<lambda>i a s. Inr (s \<and> tame a)) z (ncomp z) 0 7 True = Inr True"

lemma walk_tame: "args_at z cp As \<Longrightarrow> walk (\<lambda>i a s. Inr (s \<and> tame a)) z (length As) i cp s = Inr (s \<and> (\<forall>a \<in> set As. tame a))"
  by (induction As arbitrary: i cp s) auto

lemma tame_programD: "tame_program z \<Longrightarrow> program_args z As \<Longrightarrow> \<forall>a \<in> set As. tame a"
  using walk_tame [of z 7 As 0 True] by (simp add: tame_program_def program_args_def)

text \<open>The model of the fastest level: an \<open>ICM\<close> and an \<open>ISSE\<close>.\<close>

definition level_1_ZPAQL :: ZPAQL where
  "level_1_ZPAQL = snd (fst (projr (zread new_ZPAQL (level_program 1))))"

lemma level_1_read: "zread new_ZPAQL (level_program 1) = Inr ((length (level_program 1), level_1_ZPAQL), [])"
  unfolding level_1_ZPAQL_def by code_simp

lemma level_1_args: "program_args level_1_ZPAQL [[3, 16], [8, 19, 0]]" "tame_program level_1_ZPAQL" "byte_list (level_program 1)"
  "\<not> isl (inith level_1_ZPAQL)"
  by code_simp+

lemma level_1_wf: "wf_program level_1_ZPAQL"
  using zread_read [OF level_1_args(3), of new_ZPAQL] unfolding level_1_read by simp

lemma level_1_init: "\<exists>P. Predictor_init (new_Predictor level_1_ZPAQL) = Inr P \<and> pstate [[3, 16], [8, 19, 0]] P"
proof -
  obtain z where z: "inith level_1_ZPAQL = Inr z" using level_1_args(4) by (cases "inith level_1_ZPAQL") auto
  have h: "header z = header level_1_ZPAQL" using z by (auto simp: inith_def zinit_def split: if_splits)
  have "args_at z 7 [[3, 16], [8, 19, 0]]" unfolding args_at_header [OF h] using level_1_args(1) by (simp only: program_args_def)
  moreover have "ncomp z = Suc (Suc 0)" using level_1_args(1) by (simp add: program_args_def ncomp_def h)
  ultimately have a: "args_at z 7 [[3, 16], [8, 19, 0]]" "ncomp z = Suc (Suc 0)" by blast+
  obtain cm where cm: "init_isse = Inr cm" using init_isse_ok by blast
  have "\<exists>P. Predictor_init (new_Predictor level_1_ZPAQL) = Inr P"
    using a by (simp add: Predictor_init_def new_Predictor_def init_comp_def compsizes z cm)
  moreover have "outcome (\<lambda>e. e \<noteq> Undefined) (pstate [[3, 16], [8, 19, 0]]) (Predictor_init (new_Predictor level_1_ZPAQL))"
    by (rule Predictor_init_ok) (simp_all add: new_Predictor_def level_1_args level_1_wf tame_def)
  ultimately show ?thesis by auto
qed





text \<open>The excluded limits and starts do overflow: an entry whose count is still 0 and whose probability is below a
  quarter cannot be trained on a 1.\<close>

lemma train_overflow:
  assumes "unat (cr_cm c ! slot64 (cr_cm c) (cr_cxt c)) mod 1024 = 0"
    "unat (drop_bit 17 (cr_cm c ! slot64 (cr_cm c) (cr_cxt c))) \<le> 8190"
  shows "train 1 c = Inl Undefined"
proof -
  let ?pn = "cr_cm c ! slot64 (cr_cm c) (cr_cxt c)"
  define e where "e = 32767 - int (unat (drop_bit 17 ?pn))"
  have "24577 \<le> e" unfolding e_def using assms(2) by linarith
  then have "\<not> e * 87380 < 2147483648" by simp
  then have "i32 ((int 1 * 32767 - int (unat (drop_bit 17 ?pn))) * 87380) = Inl Undefined" by (simp add: i32_def e_def)
  then show ?thesis unfolding train_def Let_def low_count assms(1) count_0 by simp
qed

section \<open>The predictor of the coder\<close>

text \<open>The predictor as a parameter of the coder: its state is the result of the calls so far; after an error, which in the
  code ends the run with an exception, the predictions are 0.\<close>

definition real_predictor :: "nat \<Rightarrow> ZPAQL \<Rightarrow> Predictor result predictor" where
  "real_predictor fuel z =
     \<lparr>isModeled = header z ! 6 \<noteq> 0,
      pr_init = Predictor_init (new_Predictor z),
      predict = (\<lambda>r. case ebind r predict0 of Inl e \<Rightarrow> 0 | Inr (v, P) \<Rightarrow> nat v),
      update = (\<lambda>y r. ebind r (\<lambda>P. ebind (predict0 P) (\<lambda>(v, P). update0 fuel y P)))\<rparr>"

lemma squash_range: "squash x = Inr v \<Longrightarrow> 0 \<le> v \<and> v \<le> 32767"
  using squash_bounds [of x] by (cases "- 2048 \<le> x \<and> x \<le> 2047") (auto simp: squash_def)

lemma wf_real: "wf_predictor (real_predictor fuel z)"
proof -
  have "nat v < 32768" if "ebind r predict0 = Inr (v, P)" for r v P
    using that by (auto simp: predict0_def ebind_eq_Inr dest!: squash_range)
  then show ?thesis by (auto simp: wf_predictor_def real_predictor_def split: sum.splits prod.splits)
qed

end
