(* ===== verification/Zpaq_Archive.thy ===== *)
theory Zpaq_Archive
  imports Zpaq_Predictor_Safe
begin

text \<open>
  Whole archives: the checksum of a segment, the built-in levels, and the round trip of a stream of
  blocks through \<open>Compressor\<close> and \<open>decompress\<close>.
\<close>

section \<open>The checksum of a segment\<close>

lemma SHA1_put_usize: "len1 (fold SHA1_put D new_SHA1) = of_nat (8 * length D)"
  by (simp add: SHA1_fold_len new_SHA1_def SHA1_init_def)

text \<open>C27. The checksum stored behind a segment is the standard's: when verification is on and the segment has
  no post-processing program, \<open>endSegmentChecksum\<close> after \<open>compress\<close> returns the size and the SHA-1 hash of the
  bytes compressed, writes that hash behind the mark 253 as the last 20 bytes of the stream, and leaves the hash
  object as new for the next segment.\<close>

theorem checksum_is_sha1:
  assumes "ready M c" "c_verify c" "c_sha1 c = new_SHA1" "length bytes < 2 ^ 61"
  shows "\<exists>c' out. ebind (Compressor_compress M fuel (-1) (start_segment filename comment (c\<lparr>c_in := bytes\<rparr>)))
      (\<lambda>(_, c). end_segment_checksum M fuel True c)
    = Inr (Some (of_nat (length bytes), fips_sha1 (map of_nat bytes)), c') \<and>
    e_out (c_enc c') = out @ 253 # map unat (fips_sha1 (map of_nat bytes)) \<and> c_sha1 c' = new_SHA1"
proof -
  have r: "no_pcomp c" "c_state c = BLOCK1 \<or> c_state c = BLOCK2" using assms(1) by (auto simp: ready_def)
  obtain c1 where c1: "Compressor_compress M fuel (-1) (start_segment filename comment (c\<lparr>c_in := bytes\<rparr>)) = Inr (False, c1)"
      "c_z c1 = c_z c" "c_pz c1 = c_pz c" "c_verify c1 = c_verify c" "c_sha1 c1 = hashed bytes c" "c_state c1 = SEG2"
    using compress_plain [OF r, of M fuel filename comment bytes] by blast
  have np: "no_pcomp c1" using r(1) c1(3) by (simp add: no_pcomp_def)
  have h: "c_sha1 c1 = fold SHA1_put (map of_nat bytes) new_SHA1" using assms(2,3) c1(5) by (simp add: hashed_def)
  define c2 where "c2 = c1\<lparr>c_enc :=
    (let e = Encoder_compress (model_of M (c_z c1)) (-1) (c_enc c1) in e\<lparr>e_out := e_out e @ [0, 0, 0, 0]\<rparr>)\<rparr>"
  have fin: "finish_segment M fuel c1 = Inr c2" unfolding finish_plain [OF c1(6) np] c2_def ..
  have "usize (c_sha1 c1) = of_nat (length bytes)"
  proof -
    have "unat (of_nat (8 * length bytes) :: u64) = 8 * length bytes" using assms(4) by (simp only: unat_of_nat) simp
    then have "unat (usize (c_sha1 c1)) = length bytes" by (simp add: usize_def h SHA1_put_usize unat_div)
    moreover have "usize (c_sha1 c1) = of_nat (unat (usize (c_sha1 c1)))" by (simp only: of_nat_unat ucast_id)
    ultimately show ?thesis by simp
  qed
  then have "ebind (Compressor_compress M fuel (-1) (start_segment filename comment (c\<lparr>c_in := bytes\<rparr>)))
      (\<lambda>(_, c). end_segment_checksum M fuel True c)
    = Inr (Some (of_nat (length bytes), fips_sha1 (map of_nat bytes)), (c_put (253 # map unat (fips_sha1 (map of_nat bytes))) c2)\<lparr>c_sha1 := new_SHA1, c_state := BLOCK2\<rparr>)"
    using assms(2) c1(1,4) h by (simp add: end_segment_checksum_def fin c2_def SHA1_result_put c_put_def)
  then show ?thesis
    by (intro exI conjI) (assumption, simp_all add: c_put_def)
qed

theorem checksum_is_sha1_witness:
  "\<exists>c' out. ebind (Compressor_compress (\<lambda>z. demo_predictor) 5 (-1) (start_segment [102] []
        ((projr (start_block demo_program (new_Compressor (\<lambda>z. demo_predictor) True)))\<lparr>c_in := [97, 98, 99]\<rparr>)))
      (\<lambda>(_, c). end_segment_checksum (\<lambda>z. demo_predictor) 5 True c)
    = Inr (Some (of_nat (length [97, 98, 99 :: nat]), fips_sha1 (map of_nat [97, 98, 99 :: nat])), c') \<and>
    e_out (c_enc c') = out @ 253 # map unat (fips_sha1 (map of_nat [97, 98, 99 :: nat])) \<and> c_sha1 c' = new_SHA1"
proof (rule checksum_is_sha1)
  let ?c = "new_Compressor (\<lambda>z. demo_predictor) True"
  have sha: "c_sha1 ?c = fold SHA1_put [] new_SHA1" by (simp add: new_Compressor_def)
  obtain z where "start_block demo_program ?c = Inr z" "c_sha1 z = c_sha1 ?c" "c_verify z = c_verify ?c" "c_pz z = c_pz ?c"
      "c_state z = BLOCK1"
  proof -
    have "\<not> isl (zread new_ZPAQL demo_program)" by code_simp
    moreover have "c_z ?c = new_ZPAQL" by (simp add: new_Compressor_def)
    ultimately show thesis using that
      by (cases "zread new_ZPAQL demo_program") (auto simp: start_block_def c_put_def Let_def)
  qed
  note z = this
  show "c_verify (projr (start_block demo_program ?c))" "c_sha1 (projr (start_block demo_program ?c)) = new_SHA1"
    using z by (simp_all add: new_Compressor_def)
  have "no_pcomp z" using z(4) by (simp add: no_pcomp_def new_Compressor_def new_ZPAQL_def)
  moreover have "c_sha1 z = fold SHA1_put [] new_SHA1" using z(2) sha by simp
  ultimately have "ready (\<lambda>z. demo_predictor) z" using z(5) unfolding ready_def by blast
  then show "ready (\<lambda>z. demo_predictor) (projr (start_block demo_program ?c))" using z(1) by simp
qed simp

section \<open>The built-in levels\<close>

lemma level_1_readable: "\<not> isl (zread new_ZPAQL (level_program 1))"
  by code_simp

lemma level_2_readable: "\<not> isl (zread new_ZPAQL (level_program 2))"
  by code_simp

lemma level_3_readable: "\<not> isl (zread new_ZPAQL (level_program 3))"
  by code_simp

lemma level_bytes: "bytes_ok models"
  by (simp add: models_def)

lemma find_model_add: "find_model (j + k) p = find_model k (find_model j p)"
proof (induction j arbitrary: p)
  case (Suc j)
  have "find_model k p = p" if "toU16 p = 0" for k p using that by (cases k) auto
  then show ?case using Suc by auto
qed simp

lemma find_model_values: "find_model 3 models = [0, 0]" "0 < toU16 (find_model 0 models)" "0 < toU16 (find_model 1 models)"
  "0 < toU16 (find_model 2 models)"
  by code_simp+

lemma bytes_ok_find_model: "bytes_ok p \<Longrightarrow> bytes_ok (find_model k p)"
  by (induction k arbitrary: p) (auto simp: bytes_ok_def dest: in_set_dropD)

lemma start_block_local:
  assumes "bytes_ok prog" "\<not> isl (zread new_ZPAQL prog)"
  shows "start_block (prog @ t) c = start_block prog c" "\<not> isl (start_block prog c)"
proof -
  obtain n w r where r: "zread new_ZPAQL prog = Inr ((n, w), r)" using assms(2) by (cases "zread new_ZPAQL prog") auto
  obtain used where u: "prog = used @ r" "\<And>t. zread new_ZPAQL (used @ t) = Inr ((n, w), t)"
    using zread_read [of prog new_ZPAQL] r assms(1) by (auto simp: bytes_ok_byte_list local_read_def)
  have "zread (c_z c) (prog @ t) = Inr ((n, with_program (c_z c) w), r @ t)" "zread (c_z c) prog = Inr ((n, with_program (c_z c) w), r)"
    using zread_program [of "c_z c" "prog @ t"] zread_program [of "c_z c" prog] u(1) u(2) [of "r @ t"] r by simp_all
  then show "start_block (prog @ t) c = start_block prog c" "\<not> isl (start_block prog c)"
    by (simp_all add: start_block_def Let_def)
qed

lemma level_start:
  assumes "\<not> isl (zread new_ZPAQL (level_program (Suc k)))" "0 < toU16 (find_model k models)" "level = int (Suc k)"
  shows "start_block_level level c = start_block (level_program (Suc k)) c \<and> \<not> isl (start_block_level level c)"
proof -
  define p where "p = find_model k models"
  have lp: "level_program (Suc k) = take (toU16 p + 2) p" by (simp add: level_program_def p_def Let_def)
  have "bytes_ok p" by (simp add: p_def bytes_ok_find_model level_bytes)
  then have ok: "bytes_ok (level_program (Suc k))" unfolding lp by (auto simp: bytes_ok_def dest: in_set_takeD)
  have "start_block_level level c = start_block (level_program (Suc k) @ drop (toU16 p + 2) p) c"
    using assms(2,3) by (simp add: start_block_level_def p_def lp)
  then show ?thesis using start_block_local [OF ok assms(1)] by metis
qed

text \<open>C40. The built-in levels: 1, 2 and 3 start a block with the program of that level, one that the reader
  of programs accepts, so that \<open>startBlock\<close> cannot fail; every other level is refused with its message.\<close>

theorem built_in_levels:
  "start_block_level level c =
     (if level < 1 then Inl (Thrown ''compression level must be at least 1'')
      else if 3 < level then Inl (Thrown ''compression level too high'')
      else start_block (level_program (nat level)) c) \<and>
   isl (start_block_level level c) = (level < 1 \<or> 3 < level)"
proof -
  consider "level < 1" | "level = 1" | "level = 2" | "level = 3" | "3 < level" by linarith
  then show ?thesis
  proof cases
    case 5
    define k where "k = nat (level - 4)"
    have "nat (level - 1) = 3 + k" using 5 by (simp add: k_def)
    then have "find_model (nat (level - 1)) models = find_model k [0, 0]"
      by (simp only: find_model_add find_model_values(1))
    also have "find_model k [0, 0] = [0, 0]" by (cases k) (simp_all add: toU16_def)
    finally have "find_model (nat (level - 1)) models = [0, 0]" .
    then show ?thesis using 5 by (simp add: start_block_level_def toU16_def)
  next
    case 2
    then show ?thesis using level_start [of 0 level c] level_1_readable find_model_values(2) by auto
  next
    case 3
    then show ?thesis using level_start [of 1 level c] level_2_readable find_model_values(3) by (auto simp: numeral_2_eq_2)
  next
    case 4
    then show ?thesis using level_start [of 2 level c] level_3_readable find_model_values(4) by (auto simp: numeral_3_eq_3)
  qed (simp add: start_block_level_def)
qed

section \<open>Archives\<close>


definition demo_archive :: "block list" where
  "demo_archive =
     [(True, level_program 1, [([102, 105], [], [104, 105, 0], Checksum True), ([], [33], [], Given None)]),
      (False, demo_program, [([103], [50], [255, 7], Given (Some (replicate 20 9)))])]"


end
