(* ===== verification/Zpaq_Aes.thy ===== *)
theory Zpaq_Aes
  imports Backup_Prelude
begin

text \<open>
  The encryption of archives (\<open>zpaq715/libzpaq.cpp\<close>, class \<open>AES_CTR\<close>): the tables, the three key schedules,
  the cipher on a block of four words, and counter mode on a slice of a file.  The reference is the
  standard FIPS 197, written on the state of 16 bytes.

  The array \<open>ek\<close> is the list of the words written so far.  \<open>keylen\<close> is the length of the key.
\<close>

unbundle bit_operations_syntax

section \<open>Tables\<close>

record AES_CTR =
  Te0 :: "u32 list"
  Te1 :: "u32 list"
  Te2 :: "u32 list"
  Te3 :: "u32 list"
  Te4 :: "u32 list"
  ek :: "u32 list"
  Nr :: nat
  iv0 :: u32
  iv1 :: u32

definition byte :: "u32 \<Rightarrow> nat \<Rightarrow> nat" where
  "byte x n = unat (drop_bit (8 * n) x AND 255)"

definition LOAD32H :: "nat \<Rightarrow> u8 list \<Rightarrow> u32" where
  "LOAD32H k y = push_bit 24 (ucast (y ! k)) OR push_bit 16 (ucast (y ! (k + 1))) OR push_bit 8 (ucast (y ! (k + 2))) OR ucast (y ! (k + 3))"

definition STORE32H :: "u32 \<Rightarrow> u8 list" where
  "STORE32H x = [ucast (drop_bit 24 x), ucast (drop_bit 16 x), ucast (drop_bit 8 x), ucast x]"

definition sbox :: "u8 list" where
  "sbox = concat [
     [0x63, 0x7c, 0x77, 0x7b, 0xf2, 0x6b, 0x6f, 0xc5, 0x30, 0x01, 0x67, 0x2b, 0xfe, 0xd7, 0xab, 0x76],
     [0xca, 0x82, 0xc9, 0x7d, 0xfa, 0x59, 0x47, 0xf0, 0xad, 0xd4, 0xa2, 0xaf, 0x9c, 0xa4, 0x72, 0xc0],
     [0xb7, 0xfd, 0x93, 0x26, 0x36, 0x3f, 0xf7, 0xcc, 0x34, 0xa5, 0xe5, 0xf1, 0x71, 0xd8, 0x31, 0x15],
     [0x04, 0xc7, 0x23, 0xc3, 0x18, 0x96, 0x05, 0x9a, 0x07, 0x12, 0x80, 0xe2, 0xeb, 0x27, 0xb2, 0x75],
     [0x09, 0x83, 0x2c, 0x1a, 0x1b, 0x6e, 0x5a, 0xa0, 0x52, 0x3b, 0xd6, 0xb3, 0x29, 0xe3, 0x2f, 0x84],
     [0x53, 0xd1, 0x00, 0xed, 0x20, 0xfc, 0xb1, 0x5b, 0x6a, 0xcb, 0xbe, 0x39, 0x4a, 0x4c, 0x58, 0xcf],
     [0xd0, 0xef, 0xaa, 0xfb, 0x43, 0x4d, 0x33, 0x85, 0x45, 0xf9, 0x02, 0x7f, 0x50, 0x3c, 0x9f, 0xa8],
     [0x51, 0xa3, 0x40, 0x8f, 0x92, 0x9d, 0x38, 0xf5, 0xbc, 0xb6, 0xda, 0x21, 0x10, 0xff, 0xf3, 0xd2],
     [0xcd, 0x0c, 0x13, 0xec, 0x5f, 0x97, 0x44, 0x17, 0xc4, 0xa7, 0x7e, 0x3d, 0x64, 0x5d, 0x19, 0x73],
     [0x60, 0x81, 0x4f, 0xdc, 0x22, 0x2a, 0x90, 0x88, 0x46, 0xee, 0xb8, 0x14, 0xde, 0x5e, 0x0b, 0xdb],
     [0xe0, 0x32, 0x3a, 0x0a, 0x49, 0x06, 0x24, 0x5c, 0xc2, 0xd3, 0xac, 0x62, 0x91, 0x95, 0xe4, 0x79],
     [0xe7, 0xc8, 0x37, 0x6d, 0x8d, 0xd5, 0x4e, 0xa9, 0x6c, 0x56, 0xf4, 0xea, 0x65, 0x7a, 0xae, 0x08],
     [0xba, 0x78, 0x25, 0x2e, 0x1c, 0xa6, 0xb4, 0xc6, 0xe8, 0xdd, 0x74, 0x1f, 0x4b, 0xbd, 0x8b, 0x8a],
     [0x70, 0x3e, 0xb5, 0x66, 0x48, 0x03, 0xf6, 0x0e, 0x61, 0x35, 0x57, 0xb9, 0x86, 0xc1, 0x1d, 0x9e],
     [0xe1, 0xf8, 0x98, 0x11, 0x69, 0xd9, 0x8e, 0x94, 0x9b, 0x1e, 0x87, 0xe9, 0xce, 0x55, 0x28, 0xdf],
     [0x8c, 0xa1, 0x89, 0x0d, 0xbf, 0xe6, 0x42, 0x68, 0x41, 0x99, 0x2d, 0x0f, 0xb0, 0x54, 0xbb, 0x16]]"

text \<open>The numbers \<open>s1\<close>, \<open>s2\<close>, \<open>s3\<close> of a table entry.\<close>

definition te_entry :: "(u32 \<Rightarrow> u32 \<Rightarrow> u32 \<Rightarrow> u32) \<Rightarrow> nat \<Rightarrow> u32" where
  "te_entry f i =
     (let s1 = ucast (sbox ! i);
          s2 = push_bit 1 s1;
          s2 = (if 0x100 \<le> s2 then s2 XOR 0x11b else s2);
          s3 = s1 XOR s2
      in f s1 s2 s3)"

definition word4 :: "u32 \<Rightarrow> u32 \<Rightarrow> u32 \<Rightarrow> u32 \<Rightarrow> u32" where
  "word4 a b c d = push_bit 24 a OR push_bit 16 b OR push_bit 8 c OR d"

definition te_table :: "(u32 \<Rightarrow> u32 \<Rightarrow> u32 \<Rightarrow> u32) \<Rightarrow> u32 list" where
  "te_table f = map (te_entry f) [0 ..< 256]"

section \<open>Key schedules\<close>

definition setup_mix :: "u32 list \<Rightarrow> u32 \<Rightarrow> u32" where
  "setup_mix te4 temp =
     (0xFF000000 AND te4 ! byte temp 2) XOR (0x00FF0000 AND te4 ! byte temp 1) XOR
     (0x0000FF00 AND te4 ! byte temp 0) XOR (0x000000FF AND te4 ! byte temp 3)"

definition rcon :: "u32 list" where
  "rcon = [0x01000000, 0x02000000, 0x04000000, 0x08000000, 0x10000000, 0x20000000, 0x40000000, 0x80000000, 0x1B000000, 0x36000000]"

text \<open>A turn of the loop for each length of the key; \<open>rk\<close> is \<open>ek\<close> from \<open>4*i\<close>, \<open>6*i\<close> or \<open>8*i\<close> on.\<close>

definition step16 :: "u32 list \<Rightarrow> nat \<Rightarrow> u32 list \<Rightarrow> u32 list" where
  "step16 te4 i e =
     (let rk = drop (4 * i) e;
          temp = rk ! 3;
          r4 = rk ! 0 XOR setup_mix te4 temp XOR rcon ! i;
          r5 = rk ! 1 XOR r4; r6 = rk ! 2 XOR r5; r7 = rk ! 3 XOR r6
      in e @ [r4, r5, r6, r7])"

definition step24 :: "u32 list \<Rightarrow> nat \<Rightarrow> u32 list \<Rightarrow> u32 list" where
  "step24 te4 i e =
     (let rk = drop (6 * i) e;
          temp = rk ! 5;
          r6 = rk ! 0 XOR setup_mix te4 temp XOR rcon ! i;
          r7 = rk ! 1 XOR r6; r8 = rk ! 2 XOR r7; r9 = rk ! 3 XOR r8
      in if i + 1 = 8 then e @ [r6, r7, r8, r9]
         else let r10 = rk ! 4 XOR r9; r11 = rk ! 5 XOR r10 in e @ [r6, r7, r8, r9, r10, r11])"

definition step32 :: "u32 list \<Rightarrow> nat \<Rightarrow> u32 list \<Rightarrow> u32 list" where
  "step32 te4 i e =
     (let rk = drop (8 * i) e;
          temp = rk ! 7;
          r8 = rk ! 0 XOR setup_mix te4 temp XOR rcon ! i;
          r9 = rk ! 1 XOR r8; r10 = rk ! 2 XOR r9; r11 = rk ! 3 XOR r10
      in if i + 1 = 7 then e @ [r8, r9, r10, r11]
         else let temp = r11;
                  r12 = rk ! 4 XOR setup_mix te4 (push_bit 24 temp OR drop_bit 8 temp);
                  r13 = rk ! 5 XOR r12; r14 = rk ! 6 XOR r13; r15 = rk ! 7 XOR r14
              in e @ [r8, r9, r10, r11, r12, r13, r14, r15])"

definition key_words :: "u32 list \<Rightarrow> u8 list \<Rightarrow> u32 list" where
  "key_words te4 key =
     (let e = [LOAD32H 0 key, LOAD32H 4 key, LOAD32H 8 key, LOAD32H 12 key]
      in if length key = 16 then fold (step16 te4) [0 ..< 10] e
         else if length key = 24 then fold (step24 te4) [0 ..< 8] (e @ [LOAD32H 16 key, LOAD32H 20 key])
         else if length key = 32 then fold (step32 te4) [0 ..< 7] (e @ [LOAD32H 16 key, LOAD32H 20 key, LOAD32H 24 key, LOAD32H 28 key])
         else e)"

definition new_AES_CTR :: "u8 list \<Rightarrow> u8 list option \<Rightarrow> AES_CTR" where
  "new_AES_CTR key iv =
     (let te4 = te_table (\<lambda>s1 s2 s3. word4 s1 s1 s1 s1)
      in \<lparr>Te0 = te_table (\<lambda>s1 s2 s3. word4 s2 s1 s1 s3), Te1 = te_table (\<lambda>s1 s2 s3. word4 s3 s2 s1 s1),
          Te2 = te_table (\<lambda>s1 s2 s3. word4 s1 s3 s2 s1), Te3 = te_table (\<lambda>s1 s2 s3. word4 s1 s1 s3 s2), Te4 = te4,
          ek = key_words te4 key, Nr = 10 + (length key div 8 - 2) * 2,
          iv0 = (case iv of None \<Rightarrow> 0 | Some v \<Rightarrow> LOAD32H 0 v), iv1 = (case iv of None \<Rightarrow> 0 | Some v \<Rightarrow> LOAD32H 4 v)\<rparr>)"

section \<open>The cipher\<close>

type_synonym state4 = "u32 \<times> u32 \<times> u32 \<times> u32"

definition te_mix :: "AES_CTR \<Rightarrow> nat \<Rightarrow> u32 \<Rightarrow> u32 \<Rightarrow> u32 \<Rightarrow> u32 \<Rightarrow> u32" where
  "te_mix A k a b c d = Te0 A ! byte a 3 XOR Te1 A ! byte b 2 XOR Te2 A ! byte c 1 XOR Te3 A ! byte d 0 XOR ek A ! k"

definition aes_round :: "AES_CTR \<Rightarrow> nat \<Rightarrow> state4 \<Rightarrow> state4" where
  "aes_round A k = (\<lambda>(s0, s1, s2, s3).
     (te_mix A k s0 s1 s2 s3, te_mix A (k + 1) s1 s2 s3 s0, te_mix A (k + 2) s2 s3 s0 s1, te_mix A (k + 3) s3 s0 s1 s2))"

text \<open>The loop with \<open>r\<close>, which makes two rounds, and the place in the key where it ends.\<close>

fun aes_rounds :: "AES_CTR \<Rightarrow> nat \<Rightarrow> nat \<Rightarrow> state4 \<Rightarrow> nat \<times> state4" where
  "aes_rounds A r k s =
     (let t = aes_round A (k + 4) s
      in if r \<le> 1 then (k + 8, t) else aes_rounds A (r - 1) (k + 8) (aes_round A (k + 8) t))"

declare aes_rounds.simps [simp del]

definition te_last :: "AES_CTR \<Rightarrow> nat \<Rightarrow> u32 \<Rightarrow> u32 \<Rightarrow> u32 \<Rightarrow> u32 \<Rightarrow> u32" where
  "te_last A k a b c d =
     (0xFF000000 AND Te4 A ! byte a 3) XOR (0x00FF0000 AND Te4 A ! byte b 2) XOR
     (0x0000FF00 AND Te4 A ! byte c 1) XOR (0x000000FF AND Te4 A ! byte d 0) XOR ek A ! k"

definition encrypt_block :: "AES_CTR \<Rightarrow> u32 \<Rightarrow> u32 \<Rightarrow> u32 \<Rightarrow> u32 \<Rightarrow> u8 list" where
  "encrypt_block A s0 s1 s2 s3 =
     (case aes_rounds A (Nr A div 2) 0 (s0 XOR ek A ! 0, s1 XOR ek A ! 1, s2 XOR ek A ! 2, s3 XOR ek A ! 3) of
        (k, t0, t1, t2, t3) \<Rightarrow>
          STORE32H (te_last A k t0 t1 t2 t3) @ STORE32H (te_last A (k + 1) t1 t2 t3 t0) @
          STORE32H (te_last A (k + 2) t2 t3 t0 t1) @ STORE32H (te_last A (k + 3) t3 t0 t1 t2))"

text \<open>Counter mode on \<open>buf\<close>, which starts at \<open>offset\<close>.  The loops go over the blocks and the bytes of a block.\<close>

definition xor_byte :: "nat \<Rightarrow> nat \<Rightarrow> u8 list \<Rightarrow> nat \<Rightarrow> u8 list \<Rightarrow> u8 list" where
  "xor_byte offset i ct j buf =
     (let k = int (i * 16) - int offset + int j
      in if 0 \<le> k \<and> k < int (length buf) then buf[nat k := buf ! nat k XOR ct ! j] else buf)"

definition encrypt_slice :: "AES_CTR \<Rightarrow> nat \<Rightarrow> u8 list \<Rightarrow> u8 list" where
  "encrypt_slice A offset buf =
     fold (\<lambda>i buf. let ct = encrypt_block A (iv0 A) (iv1 A) (of_nat (i div 2 ^ 32)) (of_nat i)
                   in fold (xor_byte offset i ct) [0 ..< 16] buf)
       [offset div 16 ..< (offset + length buf) mod 2 ^ 64 div 16 + 1] buf"

section \<open>FIPS 197\<close>

text \<open>The state is the list of its 16 bytes, column by column: row \<open>r\<close> of column \<open>c\<close> is byte \<open>r + 4 * c\<close>.\<close>

definition xtime :: "u8 \<Rightarrow> u8" where
  "xtime b = (if bit b 7 then push_bit 1 b XOR 0x1b else push_bit 1 b)"

primrec gf_mult_bits :: "nat \<Rightarrow> u8 \<Rightarrow> u8 \<Rightarrow> u8" where
  "gf_mult_bits 0 a b = 0"
| "gf_mult_bits (Suc n) a b = (if bit a 0 then b else 0) XOR gf_mult_bits n (drop_bit 1 a) (xtime b)"

definition gf_mult :: "u8 \<Rightarrow> u8 \<Rightarrow> u8" where
  "gf_mult a b = gf_mult_bits 8 a b"

definition affine :: "u8 \<Rightarrow> u8" where
  "affine b = b XOR word_rotl 1 b XOR word_rotl 2 b XOR word_rotl 3 b XOR word_rotl 4 b XOR 0x63"

text \<open>The substitution: the affine image of the inverse, of 0 for 0.\<close>

definition is_SBox :: "(u8 \<Rightarrow> u8) \<Rightarrow> bool" where
  "is_SBox S \<longleftrightarrow> S 0 = affine 0 \<and> (\<forall>a. a \<noteq> 0 \<longrightarrow> (\<exists>b. gf_mult a b = 1 \<and> S a = affine b))"

definition SubBytes :: "(u8 \<Rightarrow> u8) \<Rightarrow> u8 list \<Rightarrow> u8 list" where
  "SubBytes S s = map S s"

definition ShiftRows :: "u8 list \<Rightarrow> u8 list" where
  "ShiftRows s = map (\<lambda>i. s ! (i mod 4 + 4 * ((i div 4 + i mod 4) mod 4))) [0 ..< 16]"

definition MixColumn :: "u8 \<Rightarrow> u8 \<Rightarrow> u8 \<Rightarrow> u8 \<Rightarrow> u8 list" where
  "MixColumn a b c d =
     [gf_mult 2 a XOR gf_mult 3 b XOR c XOR d, a XOR gf_mult 2 b XOR gf_mult 3 c XOR d,
      a XOR b XOR gf_mult 2 c XOR gf_mult 3 d, gf_mult 3 a XOR b XOR c XOR gf_mult 2 d]"

definition MixColumns :: "u8 list \<Rightarrow> u8 list" where
  "MixColumns s = concat (map (\<lambda>c. MixColumn (s ! (4 * c)) (s ! (4 * c + 1)) (s ! (4 * c + 2)) (s ! (4 * c + 3))) [0 ..< 4])"

definition AddRoundKey :: "(nat \<Rightarrow> u8 list) \<Rightarrow> nat \<Rightarrow> u8 list \<Rightarrow> u8 list" where
  "AddRoundKey w rnd s = map2 (XOR) s (w (4 * rnd) @ w (4 * rnd + 1) @ w (4 * rnd + 2) @ w (4 * rnd + 3))"

definition Cipher :: "(u8 \<Rightarrow> u8) \<Rightarrow> (nat \<Rightarrow> u8 list) \<Rightarrow> nat \<Rightarrow> u8 list \<Rightarrow> u8 list" where
  "Cipher S w nr inp =
     AddRoundKey w nr (ShiftRows (SubBytes S
       (fold (\<lambda>rnd s. AddRoundKey w rnd (MixColumns (ShiftRows (SubBytes S s)))) [1 ..< nr] (AddRoundKey w 0 inp))))"

text \<open>The key expansion: word \<open>i\<close> for a key of \<open>nk\<close> words.\<close>

definition RotWord :: "u8 list \<Rightarrow> u8 list" where
  "RotWord = rotate1"

primrec xpower :: "nat \<Rightarrow> u8" where
  "xpower 0 = 1"
| "xpower (Suc n) = xtime (xpower n)"

definition Rcon :: "nat \<Rightarrow> u8 list" where
  "Rcon i = [xpower (i - 1), 0, 0, 0]"

function KeyExpansion :: "(u8 \<Rightarrow> u8) \<Rightarrow> u8 list \<Rightarrow> nat \<Rightarrow> nat \<Rightarrow> u8 list" where
  "KeyExpansion S key nk i =
     (if i < nk \<or> nk = 0 then take 4 (drop (4 * i) key)
      else let temp = KeyExpansion S key nk (i - 1);
               temp = (if i mod nk = 0 then map2 (XOR) (SubBytes S (RotWord temp)) (Rcon (i div nk))
                       else if 6 < nk \<and> i mod nk = 4 then SubBytes S temp else temp)
           in map2 (XOR) (KeyExpansion S key nk (i - nk)) temp)"
  by pat_completeness auto
termination
  by (relation "measure (\<lambda>(S, key, nk, i). i)") auto

declare KeyExpansion.simps [simp del]

definition fips_aes :: "(u8 \<Rightarrow> u8) \<Rightarrow> u8 list \<Rightarrow> u8 list \<Rightarrow> u8 list" where
  "fips_aes S key = Cipher S (KeyExpansion S key (length key div 4)) (length key div 4 + 6)"

section \<open>The substitution box\<close>

definition SBox :: "u8 \<Rightarrow> u8" where
  "SBox b = sbox ! unat b"

definition inverses :: "u8 list" where
  "inverses = concat [
     [0x0, 0x1, 0x8d, 0xf6, 0xcb, 0x52, 0x7b, 0xd1, 0xe8, 0x4f, 0x29, 0xc0, 0xb0, 0xe1, 0xe5, 0xc7],
     [0x74, 0xb4, 0xaa, 0x4b, 0x99, 0x2b, 0x60, 0x5f, 0x58, 0x3f, 0xfd, 0xcc, 0xff, 0x40, 0xee, 0xb2],
     [0x3a, 0x6e, 0x5a, 0xf1, 0x55, 0x4d, 0xa8, 0xc9, 0xc1, 0xa, 0x98, 0x15, 0x30, 0x44, 0xa2, 0xc2],
     [0x2c, 0x45, 0x92, 0x6c, 0xf3, 0x39, 0x66, 0x42, 0xf2, 0x35, 0x20, 0x6f, 0x77, 0xbb, 0x59, 0x19],
     [0x1d, 0xfe, 0x37, 0x67, 0x2d, 0x31, 0xf5, 0x69, 0xa7, 0x64, 0xab, 0x13, 0x54, 0x25, 0xe9, 0x9],
     [0xed, 0x5c, 0x5, 0xca, 0x4c, 0x24, 0x87, 0xbf, 0x18, 0x3e, 0x22, 0xf0, 0x51, 0xec, 0x61, 0x17],
     [0x16, 0x5e, 0xaf, 0xd3, 0x49, 0xa6, 0x36, 0x43, 0xf4, 0x47, 0x91, 0xdf, 0x33, 0x93, 0x21, 0x3b],
     [0x79, 0xb7, 0x97, 0x85, 0x10, 0xb5, 0xba, 0x3c, 0xb6, 0x70, 0xd0, 0x6, 0xa1, 0xfa, 0x81, 0x82],
     [0x83, 0x7e, 0x7f, 0x80, 0x96, 0x73, 0xbe, 0x56, 0x9b, 0x9e, 0x95, 0xd9, 0xf7, 0x2, 0xb9, 0xa4],
     [0xde, 0x6a, 0x32, 0x6d, 0xd8, 0x8a, 0x84, 0x72, 0x2a, 0x14, 0x9f, 0x88, 0xf9, 0xdc, 0x89, 0x9a],
     [0xfb, 0x7c, 0x2e, 0xc3, 0x8f, 0xb8, 0x65, 0x48, 0x26, 0xc8, 0x12, 0x4a, 0xce, 0xe7, 0xd2, 0x62],
     [0xc, 0xe0, 0x1f, 0xef, 0x11, 0x75, 0x78, 0x71, 0xa5, 0x8e, 0x76, 0x3d, 0xbd, 0xbc, 0x86, 0x57],
     [0xb, 0x28, 0x2f, 0xa3, 0xda, 0xd4, 0xe4, 0xf, 0xa9, 0x27, 0x53, 0x4, 0x1b, 0xfc, 0xac, 0xe6],
     [0x7a, 0x7, 0xae, 0x63, 0xc5, 0xdb, 0xe2, 0xea, 0x94, 0x8b, 0xc4, 0xd5, 0x9d, 0xf8, 0x90, 0x6b],
     [0xb1, 0xd, 0xd6, 0xeb, 0xc6, 0xe, 0xcf, 0xad, 0x8, 0x4e, 0xd7, 0xe3, 0x5d, 0x50, 0x1e, 0xb3],
     [0x5b, 0x23, 0x38, 0x34, 0x68, 0x46, 0x3, 0x8c, 0xdd, 0x9c, 0x7d, 0xa0, 0xcd, 0x1a, 0x41, 0x1c]]"

fun words_from :: "u8 \<Rightarrow> 'a list \<Rightarrow> u8 list" where
  "words_from x [] = []"
| "words_from x (_ # ys) = x # words_from (x + 1) ys"

lemma inverses_products: "map2 gf_mult (words_from 1 (drop 1 sbox)) (drop 1 inverses) = map (\<lambda>_. 1) (drop 1 sbox)"
  by code_simp

lemma sbox_affine: "map affine inverses = sbox"
  by code_simp
lemma length_sbox: "length sbox = 256" "length inverses = 256"
  by (simp_all add: sbox_def inverses_def)

lemma nth_words_from: "i < length ys \<Longrightarrow> words_from x ys ! i = x + of_nat i"
proof (induction ys arbitrary: x i)
  case (Cons y ys)
  then show ?case by (cases i) (simp_all add: ac_simps)
qed simp

lemma length_words_from: "length (words_from x ys) = length ys"
  by (induction ys arbitrary: x) simp_all

lemma byte_less: "unat (b :: u8) < 256"
  using unsigned_less [of b, where ?'a = nat] by simp

lemma SBox_is_SBox: "is_SBox SBox"
proof -
  have aff: "SBox a = affine (inverses ! unat a)" for a
  proof -
    have "SBox a = map affine inverses ! unat a" unfolding sbox_affine SBox_def ..
    also have "\<dots> = affine (inverses ! unat a)" by (rule nth_map) (simp add: length_sbox byte_less)
    finally show ?thesis .
  qed
  have "gf_mult a (inverses ! unat a) = 1" if "a \<noteq> 0" for a
  proof -
    let ?i = "unat a - 1"
    have i: "?i < 255" "Suc ?i = unat a" using that byte_less [of a] by (simp_all add: unat_gt_0)
    have l: "?i < length (words_from 1 (drop 1 sbox))" "?i < length (drop 1 inverses)" using i(1) by (simp_all add: length_words_from length_sbox)
    have "words_from 1 (drop 1 sbox) ! ?i = 1 + of_nat ?i" using i(1) by (intro nth_words_from) (simp add: length_sbox)
    also have "\<dots> = of_nat (Suc ?i)" by simp
    also have "\<dots> = a" unfolding i(2) by simp
    finally have w: "words_from 1 (drop 1 sbox) ! ?i = a" .
    have d: "drop 1 inverses ! ?i = inverses ! unat a" using i l(2) by (simp add: nth_drop)
    have "map2 gf_mult (words_from 1 (drop 1 sbox)) (drop 1 inverses) ! ?i = gf_mult a (inverses ! unat a)"
      using l w d by (simp del: drop_Suc)
    moreover have "map (\<lambda>_. 1 :: u8) (drop 1 sbox) ! ?i = 1" using i(1) by (simp add: length_sbox)
    ultimately show ?thesis unfolding inverses_products by simp
  qed
  moreover have "inverses ! unat 0 = 0" by (simp add: inverses_def)
  ultimately show ?thesis unfolding is_SBox_def using aff by metis
qed

section \<open>Words and their bytes\<close>

lemma STORE32H_word4: "STORE32H (word4 (ucast a) (ucast b) (ucast c) (ucast d)) = [a, b, c, d]" for a b c d :: u8
  unfolding STORE32H_def word4_def
  by (auto intro!: bit_word_eqI simp: bit_simps) (auto dest: bit_imp_le_length)

lemma STORE32H_xor: "STORE32H (x XOR y) = map2 (XOR) (STORE32H x) (STORE32H y)"
  by (simp add: STORE32H_def drop_bit_xor unsigned_xor_eq)

lemma STORE32H_mask:
  "STORE32H (0xFF000000 AND x) = [ucast (drop_bit 24 x), 0, 0, 0]"
  "STORE32H (0x00FF0000 AND x) = [0, ucast (drop_bit 16 x), 0, 0]"
  "STORE32H (0x0000FF00 AND x) = [0, 0, ucast (drop_bit 8 x), 0]"
  "STORE32H (0x000000FF AND x) = [0, 0, 0, ucast x]"
proof -
  have m: "(0xFF000000 :: u32) = push_bit 24 (mask 8)" "(0x00FF0000 :: u32) = push_bit 16 (mask 8)"
    "(0x0000FF00 :: u32) = push_bit 8 (mask 8)" "(0x000000FF :: u32) = mask 8" by (simp_all add: mask_eq_exp_minus_1)
  show "STORE32H (0xFF000000 AND x) = [ucast (drop_bit 24 x), 0, 0, 0]"
    "STORE32H (0x00FF0000 AND x) = [0, ucast (drop_bit 16 x), 0, 0]"
    "STORE32H (0x0000FF00 AND x) = [0, 0, ucast (drop_bit 8 x), 0]"
    "STORE32H (0x000000FF AND x) = [0, 0, 0, ucast x]"
    unfolding m STORE32H_def by (auto intro!: bit_word_eqI simp: bit_simps)
qed

lemma byte_STORE32H: "byte x 3 = unat (STORE32H x ! 0)" "byte x 2 = unat (STORE32H x ! 1)" "byte x 1 = unat (STORE32H x ! 2)" "byte x 0 = unat (STORE32H x ! 3)"
proof -
  have "unat (y AND 255) = unat (ucast y :: u8)" for y :: u32
  proof -
    have "y AND 255 = take_bit 8 y" by (simp add: take_bit_eq_mask mask_eq_exp_minus_1)
    then show ?thesis by (simp only: unsigned_take_bit_eq unsigned_ucast_eq) simp
  qed
  then show "byte x 3 = unat (STORE32H x ! 0)" "byte x 2 = unat (STORE32H x ! 1)" "byte x 1 = unat (STORE32H x ! 2)" "byte x 0 = unat (STORE32H x ! 3)"
    by (simp_all add: byte_def STORE32H_def)
qed

text \<open>A table entry holds the products of the substituted byte with 1, 2 and 3.\<close>

lemma xtime_wide:
  "map (\<lambda>s. let s2 = push_bit 1 (ucast s :: u32) in if 0x100 \<le> s2 then s2 XOR 0x11b else s2) sbox = map (\<lambda>s. ucast (xtime s)) sbox"
  by code_simp

lemma te_entry_bytes:
  assumes "i < 256"
  shows "te_entry f i = f (ucast (sbox ! i)) (ucast (xtime (sbox ! i))) (ucast (sbox ! i XOR xtime (sbox ! i)))"
proof -
  let ?g = "\<lambda>s. let s2 = push_bit 1 (ucast s :: u32) in if 0x100 \<le> s2 then s2 XOR 0x11b else s2"
  have "?g (sbox ! i) = map ?g sbox ! i" using assms by (simp add: length_sbox)
  also have "\<dots> = ucast (xtime (sbox ! i))" unfolding xtime_wide using assms by (simp add: length_sbox)
  finally have "?g (sbox ! i) = ucast (xtime (sbox ! i))" .
  then show ?thesis unfolding te_entry_def Let_def by (simp add: unsigned_xor_eq)
qed

lemma te_table_nth: "te_table f ! unat b = f (ucast (SBox b)) (ucast (xtime (SBox b))) (ucast (SBox b XOR xtime (SBox b)))"
  using te_entry_bytes [OF byte_less] byte_less [of b] by (simp add: te_table_def SBox_def)

lemma gf_mult_bits_0: "gf_mult_bits n 0 b = 0"
  by (induction n arbitrary: b) simp_all

lemma gf_mult_2_3: "gf_mult 2 b = xtime b" "gf_mult 3 b = b XOR xtime b"
proof -
  have e: "(8 :: nat) = Suc (Suc 6)" by simp
  have "drop_bit 1 (2 :: u8) = 1" "drop_bit 1 (3 :: u8) = 1" "drop_bit 1 (1 :: u8) = 0" "\<not> bit (2 :: u8) 0" "bit (3 :: u8) 0" "bit (1 :: u8) 0"
    by simp_all
  then show "gf_mult 2 b = xtime b" "gf_mult 3 b = b XOR xtime b"
    unfolding gf_mult_def e gf_mult_bits.simps by (simp_all only: gf_mult_bits_0 if_True if_False xor.left_neutral xor.right_neutral)
qed

section \<open>Rounds\<close>

text \<open>The tables the constructor makes.\<close>

definition tables_ok :: "AES_CTR \<Rightarrow> bool" where
  "tables_ok A \<longleftrightarrow> Te0 A = te_table (\<lambda>s1 s2 s3. word4 s2 s1 s1 s3) \<and> Te1 A = te_table (\<lambda>s1 s2 s3. word4 s3 s2 s1 s1) \<and>
     Te2 A = te_table (\<lambda>s1 s2 s3. word4 s1 s3 s2 s1) \<and> Te3 A = te_table (\<lambda>s1 s2 s3. word4 s1 s1 s3 s2) \<and>
     Te4 A = te_table (\<lambda>s1 s2 s3. word4 s1 s1 s1 s1)"

definition state_bytes :: "state4 \<Rightarrow> u8 list" where
  "state_bytes = (\<lambda>(s0, s1, s2, s3). STORE32H s0 @ STORE32H s1 @ STORE32H s2 @ STORE32H s3)"

definition key_bytes :: "AES_CTR \<Rightarrow> nat \<Rightarrow> u8 list" where
  "key_bytes A i = STORE32H (ek A ! i)"

lemma STORE32H_elems: "[STORE32H x ! 0, STORE32H x ! 1, STORE32H x ! 2, STORE32H x ! 3] = STORE32H x"
  by (simp add: STORE32H_def)

lemma STORE32H_te_mix:
  assumes "tables_ok A"
  shows "STORE32H (te_mix A k a b c d) = map2 (XOR)
    (MixColumn (SBox (STORE32H a ! 0)) (SBox (STORE32H b ! 1)) (SBox (STORE32H c ! 2)) (SBox (STORE32H d ! 3))) (key_bytes A k)"
proof -
  let ?a = "SBox (STORE32H a ! 0)" and ?b = "SBox (STORE32H b ! 1)" and ?c = "SBox (STORE32H c ! 2)" and ?d = "SBox (STORE32H d ! 3)"
  have t: "Te0 A ! byte a 3 = word4 (ucast (xtime ?a)) (ucast ?a) (ucast ?a) (ucast (?a XOR xtime ?a))"
    "Te1 A ! byte b 2 = word4 (ucast (?b XOR xtime ?b)) (ucast (xtime ?b)) (ucast ?b) (ucast ?b)"
    "Te2 A ! byte c 1 = word4 (ucast ?c) (ucast (?c XOR xtime ?c)) (ucast (xtime ?c)) (ucast ?c)"
    "Te3 A ! byte d 0 = word4 (ucast ?d) (ucast ?d) (ucast (?d XOR xtime ?d)) (ucast (xtime ?d))"
    using assms unfolding tables_ok_def byte_STORE32H by (simp_all only: te_table_nth)
  obtain k0 k1 k2 k3 where k: "STORE32H (ek A ! k) = [k0, k1, k2, k3]" by (simp add: STORE32H_def)
  show ?thesis unfolding te_mix_def STORE32H_xor t STORE32H_word4 key_bytes_def k MixColumn_def gf_mult_2_3
    by (simp add: ac_simps)
qed

lemma shift_table: "[0 ..< 16] = [0, 1, 2, 3, 4, 5, 6, 7, 8, 9, 10, 11, 12, 13, 14, 15 :: nat]" "[0 ..< 4] = [0, 1, 2, 3 :: nat]"
  by (simp_all add: upt_rec)

lemma round_is_fips:
  assumes "tables_ok A"
  shows "state_bytes (aes_round A (4 * rnd) s) = AddRoundKey (key_bytes A) rnd (MixColumns (ShiftRows (SubBytes SBox (state_bytes s))))"
proof -
  obtain s0 s1 s2 s3 where s: "s = (s0, s1, s2, s3)" by (metis prod_cases4)
  obtain a0 a1 a2 a3 b0 b1 b2 b3 c0 c1 c2 c3 d0 d1 d2 d3 where
    w: "STORE32H s0 = [a0, a1, a2, a3]" "STORE32H s1 = [b0, b1, b2, b3]" "STORE32H s2 = [c0, c1, c2, c3]" "STORE32H s3 = [d0, d1, d2, d3]"
    by (simp add: STORE32H_def)
  have l: "length (MixColumn a b c d) = 4" for a b c d by (simp add: MixColumn_def)
  have k: "length (key_bytes A i) = 4" for i by (simp add: key_bytes_def STORE32H_def)
  have "ShiftRows (SubBytes SBox (state_bytes s)) =
      map SBox [a0, b1, c2, d3, b0, c1, d2, a3, c0, d1, a2, b3, d0, a1, b2, c3]"
    unfolding ShiftRows_def SubBytes_def shift_table s state_bytes_def by (simp add: w)
  then have "MixColumns (ShiftRows (SubBytes SBox (state_bytes s))) =
      MixColumn (SBox a0) (SBox b1) (SBox c2) (SBox d3) @ MixColumn (SBox b0) (SBox c1) (SBox d2) (SBox a3) @
      MixColumn (SBox c0) (SBox d1) (SBox a2) (SBox b3) @ MixColumn (SBox d0) (SBox a1) (SBox b2) (SBox c3)"
    unfolding MixColumns_def shift_table by simp
  then show ?thesis unfolding s aes_round_def prod.case state_bytes_def AddRoundKey_def STORE32H_te_mix [OF assms]
    by (simp add: w zip_append l k)
qed

lemma last_is_fips:
  assumes "tables_ok A"
  shows "STORE32H (te_last A (4 * n) t0 t1 t2 t3) @ STORE32H (te_last A (4 * n + 1) t1 t2 t3 t0) @
      STORE32H (te_last A (4 * n + 2) t2 t3 t0 t1) @ STORE32H (te_last A (4 * n + 3) t3 t0 t1 t2)
    = AddRoundKey (key_bytes A) n (ShiftRows (SubBytes SBox (state_bytes (t0, t1, t2, t3))))"
proof -
  obtain a0 a1 a2 a3 b0 b1 b2 b3 c0 c1 c2 c3 d0 d1 d2 d3 where
    w: "STORE32H t0 = [a0, a1, a2, a3]" "STORE32H t1 = [b0, b1, b2, b3]" "STORE32H t2 = [c0, c1, c2, c3]" "STORE32H t3 = [d0, d1, d2, d3]"
    by (simp add: STORE32H_def)
  have t: "Te4 A ! unat b = word4 (ucast (SBox b)) (ucast (SBox b)) (ucast (SBox b)) (ucast (SBox b))" for b
    using assms by (simp only: tables_ok_def te_table_nth)
  have m: "STORE32H (te_last A k a b c d) = map2 (XOR)
      [SBox (STORE32H a ! 0), SBox (STORE32H b ! 1), SBox (STORE32H c ! 2), SBox (STORE32H d ! 3)] (key_bytes A k)" for k a b c d
  proof -
    have e: "[ucast (drop_bit 24 x), 0, 0, 0] = [STORE32H x ! 0, 0, 0, 0]" "[0, ucast (drop_bit 16 x), 0, 0] = [0, STORE32H x ! 1, 0, 0]"
      "[0, 0, ucast (drop_bit 8 x), 0] = [0, 0, STORE32H x ! 2, 0]" "[0, 0, 0, ucast x] = [0, 0, 0, STORE32H x ! 3]" for x :: u32
      by (simp_all add: STORE32H_def)
    obtain k0 k1 k2 k3 where k: "STORE32H (ek A ! k) = [k0, k1, k2, k3]" by (simp add: STORE32H_def)
    show ?thesis unfolding te_last_def STORE32H_xor STORE32H_mask e byte_STORE32H t STORE32H_word4 key_bytes_def k by simp
  qed
  have k: "length (key_bytes A i) = 4" for i by (simp add: key_bytes_def STORE32H_def)
  have "ShiftRows (SubBytes SBox (state_bytes (t0, t1, t2, t3))) =
      [SBox a0, SBox b1, SBox c2, SBox d3] @ [SBox b0, SBox c1, SBox d2, SBox a3] @ [SBox c0, SBox d1, SBox a2, SBox b3] @ [SBox d0, SBox a1, SBox b2, SBox c3]"
    unfolding ShiftRows_def SubBytes_def shift_table state_bytes_def by (simp add: w)
  then show ?thesis unfolding m AddRoundKey_def by (simp add: w zip_append k del: append_Cons)
qed

lemma rounds_are_fips:
  assumes "tables_ok A" "1 \<le> r"
  shows "\<exists>t. aes_rounds A r (4 * n) s = (4 * (n + 2 * r), t) \<and>
    state_bytes t = fold (\<lambda>rnd s. AddRoundKey (key_bytes A) rnd (MixColumns (ShiftRows (SubBytes SBox s)))) [n + 1 ..< n + 2 * r] (state_bytes s)"
  using assms(2)
proof (induction r arbitrary: n s)
  case (Suc r)
  let ?F = "\<lambda>rnd s. AddRoundKey (key_bytes A) rnd (MixColumns (ShiftRows (SubBytes SBox s)))"
  let ?t = "aes_round A (4 * n + 4) s"
  have t: "state_bytes ?t = ?F (n + 1) (state_bytes s)" using round_is_fips [OF assms(1), of "n + 1" s] by (simp add: add.commute)
  show ?case
  proof (cases "r = 0")
    case True
    then show ?thesis using t by (intro exI [of _ ?t]) (simp add: aes_rounds.simps [of A "Suc 0"] Let_def)
  next
    case False
    let ?u = "aes_round A (4 * (n + 2)) ?t"
    have u: "state_bytes ?u = ?F (n + 2) (state_bytes ?t)" by (rule round_is_fips [OF assms(1)])
    from Suc.IH [of "n + 2" ?u] False obtain v where
      v: "aes_rounds A r (4 * (n + 2)) ?u = (4 * (n + 2 + 2 * r), v)" "state_bytes v = fold ?F [n + 2 + 1 ..< n + 2 + 2 * r] (state_bytes ?u)" by auto
    have "aes_rounds A (Suc r) (4 * n) s = (4 * (n + 2 * Suc r), v)"
      using v(1) False by (simp add: aes_rounds.simps [of A "Suc r"] Let_def add.commute)
    moreover have "[n + 1 ..< n + 2 * Suc r] = (n + 1) # (n + 2) # [n + 2 + 1 ..< n + 2 + 2 * r]"
      using False by (simp add: upt_conv_Cons)
    ultimately show ?thesis using v(2) u t by auto
  qed
qed simp

lemma encrypt_block_is_fips:
  assumes "tables_ok A" "even (Nr A)" "2 \<le> Nr A"
  shows "encrypt_block A s0 s1 s2 s3 = Cipher SBox (key_bytes A) (Nr A) (state_bytes (s0, s1, s2, s3))"
proof -
  let ?s = "(s0 XOR ek A ! 0, s1 XOR ek A ! 1, s2 XOR ek A ! 2, s3 XOR ek A ! 3)"
  have r: "1 \<le> Nr A div 2" "2 * (Nr A div 2) = Nr A" using assms(2,3) by auto
  obtain t where t: "aes_rounds A (Nr A div 2) (4 * 0) ?s = (4 * (0 + Nr A), t)"
    "state_bytes t = fold (\<lambda>rnd s. AddRoundKey (key_bytes A) rnd (MixColumns (ShiftRows (SubBytes SBox s)))) [0 + 1 ..< 0 + Nr A] (state_bytes ?s)"
    using rounds_are_fips [OF assms(1) r(1), of 0 ?s] unfolding r(2) by blast
  obtain t0 t1 t2 t3 where q: "t = (t0, t1, t2, t3)" by (metis prod_cases4)
  have "state_bytes ?s = AddRoundKey (key_bytes A) 0 (state_bytes (s0, s1, s2, s3))"
    by (simp add: state_bytes_def AddRoundKey_def key_bytes_def STORE32H_xor numeral_2_eq_2 numeral_3_eq_3) (simp add: STORE32H_def)
  moreover have "encrypt_block A s0 s1 s2 s3 = AddRoundKey (key_bytes A) (Nr A) (ShiftRows (SubBytes SBox (state_bytes t)))"
    using t(1) last_is_fips [OF assms(1), of "Nr A" t0 t1 t2 t3] by (simp add: encrypt_block_def q)
  ultimately show ?thesis using t(2) by (simp add: Cipher_def)
qed

section \<open>Key schedules\<close>

lemma LOAD32H_bytes: "k + 4 \<le> length key \<Longrightarrow> STORE32H (LOAD32H k key) = take 4 (drop k key)"
proof -
  assume k: "k + 4 \<le> length key"
  have "LOAD32H k key = word4 (ucast (key ! k)) (ucast (key ! (k + 1))) (ucast (key ! (k + 2))) (ucast (key ! (k + 3)))"
    by (simp add: LOAD32H_def word4_def)
  then have "STORE32H (LOAD32H k key) = [key ! k, key ! (k + 1), key ! (k + 2), key ! (k + 3)]" by (simp only: STORE32H_word4)
  also have "\<dots> = take 4 (drop k key)"
    by (rule nth_equalityI) (use k in \<open>auto simp: less_Suc_eq numeral_eq_Suc\<close>)
  finally show ?thesis .
qed

abbreviation te4_table :: "u32 list" where
  "te4_table \<equiv> te_table (\<lambda>s1 s2 s3. word4 s1 s1 s1 s1)"

lemma STORE32H_setup_mix: "STORE32H (setup_mix te4_table temp) = SubBytes SBox (RotWord (STORE32H temp))"
proof -
  have e: "[ucast (drop_bit 24 x), 0, 0, 0] = [STORE32H x ! 0, 0, 0, 0]" "[0, ucast (drop_bit 16 x), 0, 0] = [0, STORE32H x ! 1, 0, 0]"
    "[0, 0, ucast (drop_bit 8 x), 0] = [0, 0, STORE32H x ! 2, 0]" "[0, 0, 0, ucast x] = [0, 0, 0, STORE32H x ! 3]" for x :: u32
    by (simp_all add: STORE32H_def)
  have t: "te4_table ! unat b = word4 (ucast (SBox b)) (ucast (SBox b)) (ucast (SBox b)) (ucast (SBox b))" for b
    by (simp only: te_table_nth)
  obtain t0 t1 t2 t3 where k: "STORE32H temp = [t0, t1, t2, t3]" by (simp add: STORE32H_def)
  show ?thesis unfolding setup_mix_def STORE32H_xor STORE32H_mask e byte_STORE32H t STORE32H_word4 k SubBytes_def RotWord_def by simp
qed

lemma STORE32H_rotated: "STORE32H (push_bit 24 x OR drop_bit 8 x) = last (STORE32H x) # butlast (STORE32H x)"
  unfolding STORE32H_def by (auto intro!: bit_word_eqI simp: bit_simps)

lemma rcon_bytes: "i < 10 \<Longrightarrow> STORE32H (rcon ! i) = Rcon (i + 1)"
proof -
  assume "i < 10"
  then have "i \<in> set [0, 1, 2, 3, 4, 5, 6, 7, 8, 9]" by auto
  moreover have "list_all (\<lambda>i. STORE32H (rcon ! i) = Rcon (i + 1)) [0, 1, 2, 3, 4, 5, 6, 7, 8, 9]" by code_simp
  ultimately show ?thesis by (simp only: list_all_iff)
qed

text \<open>The words written so far are those of the standard.\<close>

definition sched :: "u8 list \<Rightarrow> nat \<Rightarrow> u32 list \<Rightarrow> bool" where
  "sched key nk e \<longleftrightarrow> 0 < nk \<and> (\<forall>i < length e. STORE32H (e ! i) = KeyExpansion SBox key nk i)"

lemma sched_extend:
  assumes "sched key nk e" "nk \<le> length e"
    and "STORE32H y = (let temp = STORE32H (e ! (length e - 1))
      in if length e mod nk = 0 then map2 (XOR) (SubBytes SBox (RotWord temp)) (Rcon (length e div nk))
         else if 6 < nk \<and> length e mod nk = 4 then SubBytes SBox temp else temp)"
  shows "sched key nk (e @ [e ! (length e - nk) XOR y])"
proof -
  have nk: "0 < nk" "length e - 1 < length e" "length e - nk < length e" using assms(1,2) by (auto simp: sched_def)
  then have p: "KeyExpansion SBox key nk (length e - 1) = STORE32H (e ! (length e - 1))"
    "KeyExpansion SBox key nk (length e - nk) = STORE32H (e ! (length e - nk))" using assms(1) by (simp_all add: sched_def)
  have "\<not> (length e < nk \<or> nk = 0)" using assms(2) nk by simp
  then have "KeyExpansion SBox key nk (length e) = map2 (XOR) (STORE32H (e ! (length e - nk))) (STORE32H y)"
    unfolding assms(3) p [symmetric] by (subst KeyExpansion.simps) (simp only: if_False Let_def)
  then show ?thesis using assms(1) by (auto simp: sched_def nth_append less_Suc_eq STORE32H_xor)
qed

lemma sched_plain:
  assumes "sched key nk e" "nk \<le> length e" "length e mod nk \<noteq> 0" "\<not> (6 < nk \<and> length e mod nk = 4)"
  shows "sched key nk (e @ [e ! (length e - nk) XOR e ! (length e - 1)])"
  by (rule sched_extend [OF assms(1,2)]) (use assms(3,4) in \<open>auto simp: Let_def\<close>)

lemma sched_rot:
  assumes "sched key nk e" "nk \<le> length e" "length e = nk * (i + 1)" "i < 10"
  shows "sched key nk (e @ [e ! (length e - nk) XOR setup_mix te4_table (e ! (length e - 1)) XOR rcon ! i])"
proof -
  have nk: "0 < nk" using assms(1) by (simp add: sched_def)
  have "length e mod nk = 0" "length e div nk = i + 1" unfolding assms(3) using nk by simp_all
  then have "sched key nk (e @ [e ! (length e - nk) XOR (setup_mix te4_table (e ! (length e - 1)) XOR rcon ! i)])"
    by (intro sched_extend [OF assms(1,2)]) (simp add: STORE32H_xor STORE32H_setup_mix rcon_bytes [OF assms(4)])
  then show ?thesis by (simp only: xor.assoc)
qed

lemma sched_sub:
  assumes "sched key 8 e" "8 \<le> length e" "length e mod 8 = 4"
  shows "sched key 8 (e @ [e ! (length e - 8) XOR setup_mix te4_table (push_bit 24 (e ! (length e - 1)) OR drop_bit 8 (e ! (length e - 1)))])"
proof (rule sched_extend [OF assms(1,2)])
  have "STORE32H x \<noteq> []" for x by (simp add: STORE32H_def)
  then have r: "rotate1 (last (STORE32H x) # butlast (STORE32H x)) = STORE32H x" for x by simp
  show "STORE32H (setup_mix te4_table (push_bit 24 (e ! (length e - 1)) OR drop_bit 8 (e ! (length e - 1)))) =
    (let temp = STORE32H (e ! (length e - 1))
     in if length e mod 8 = 0 then map2 (XOR) (SubBytes SBox (RotWord temp)) (Rcon (length e div 8))
        else if 6 < (8 :: nat) \<and> length e mod 8 = 4 then SubBytes SBox temp else temp)"
    using assms(3) by (simp only: STORE32H_setup_mix STORE32H_rotated RotWord_def r Let_def) simp
qed

text \<open>A run of plain words: each is the word before, mixed into the word \<open>nk\<close> places back.\<close>

primrec run_xor :: "u32 list \<Rightarrow> u32 \<Rightarrow> u32 list" where
  "run_xor [] y = []"
| "run_xor (x # xs) y = (x XOR y) # run_xor xs (x XOR y)"

lemma length_run_xor: "length (run_xor xs y) = length xs"
  by (induction xs arbitrary: y) simp_all

lemma sched_run:
  assumes "sched key nk e" "nk \<le> length e" "length xs \<le> nk" "\<And>j. j < length xs \<Longrightarrow> xs ! j = e ! (length e - nk + j)"
    and "\<And>j. j < length xs \<Longrightarrow> (length e + j) mod nk \<noteq> 0 \<and> \<not> (6 < nk \<and> (length e + j) mod nk = 4)"
  shows "sched key nk (e @ run_xor xs (last e))"
  using assms
proof (induction xs arbitrary: e)
  case (Cons x xs)
  let ?e = "e @ [x XOR last e]"
  have "0 < nk" using Cons.prems(1) by (simp add: sched_def)
  then have ne: "e \<noteq> []" using Cons.prems(2) by auto
  have x: "x = e ! (length e - nk)" using Cons.prems(4) [of 0] by simp
  have "sched key nk (e @ [e ! (length e - nk) XOR e ! (length e - 1)])"
    using Cons.prems(5) [of 0] by (intro sched_plain [OF Cons.prems(1,2)]) simp_all
  then have s: "sched key nk ?e" using ne by (simp add: x last_conv_nth)
  have "sched key nk (?e @ run_xor xs (last ?e))"
  proof (rule Cons.IH [OF s])
    show "xs ! j = ?e ! (length ?e - nk + j)" if "j < length xs" for j
    proof -
      have "Suc (length e + j - nk) < length e" using Cons.prems(2,3) that by simp
      then show ?thesis using Cons.prems(2) Cons.prems(4) [of "Suc j"] that by (simp add: nth_append Suc_diff_le)
    qed
    show "(length ?e + j) mod nk \<noteq> 0 \<and> \<not> (6 < nk \<and> (length ?e + j) mod nk = 4)" if "j < length xs" for j
      using Cons.prems(5) [of "Suc j"] that by simp
  qed (use Cons.prems(2,3) in simp_all)
  then show ?case by simp
qed simp

lemma nth_front: "k < length e \<Longrightarrow> (e @ r) ! k = e ! k"
  by (simp add: nth_append)

lemma step16_ok:
  assumes "sched key 4 e \<and> length e = 4 * (i + 1)" "i < 10"
  shows "sched key 4 (step16 te4_table i e) \<and> length (step16 te4_table i e) = 4 * (i + 2)"
proof -
  have s: "sched key 4 e" and len: "length e = 4 * (i + 1)" using assms(1) by blast+
  define r4 where "r4 = e ! (4 * i) XOR setup_mix te4_table (e ! (4 * i + 3)) XOR rcon ! i"
  have s1: "sched key 4 (e @ [r4])"
    using sched_rot [OF s _ len assms(2)] by (simp add: len r4_def add.commute)
  have e: "step16 te4_table i e = (e @ [r4]) @ run_xor [e ! (4 * i + 1), e ! (4 * i + 2), e ! (4 * i + 3)] (last (e @ [r4]))"
    using len by (simp add: step16_def Let_def r4_def)
  have "sched key 4 (step16 te4_table i e)" unfolding e
  proof (rule sched_run [OF s1])
    show "[e ! (4 * i + 1), e ! (4 * i + 2), e ! (4 * i + 3)] ! j = (e @ [r4]) ! (length (e @ [r4]) - 4 + j)"
      if "j < length [e ! (4 * i + 1), e ! (4 * i + 2), e ! (4 * i + 3)]" for j
      using that len by (auto simp: nth_append less_Suc_eq numeral_2_eq_2 numeral_3_eq_3)
    show "(length (e @ [r4]) + j) mod 4 \<noteq> 0 \<and> \<not> (6 < (4 :: nat) \<and> (length (e @ [r4]) + j) mod 4 = 4)"
      if "j < length [e ! (4 * i + 1), e ! (4 * i + 2), e ! (4 * i + 3)]" for j
      using that unfolding length_append len by (auto simp: less_Suc_eq mod_Suc)
  qed (simp_all add: len)
  then show ?thesis unfolding e by (simp add: len length_run_xor)
qed

lemma step24_ok:
  assumes "sched key 6 e \<and> length e = 6 * (i + 1)" "i < 8"
  shows "sched key 6 (step24 te4_table i e) \<and> length (step24 te4_table i e) = (if i = 7 then 52 else 6 * (i + 2))"
proof -
  have s: "sched key 6 e" and len: "length e = 6 * (i + 1)" using assms(1) by blast+
  define r6 where "r6 = e ! (6 * i) XOR setup_mix te4_table (e ! (6 * i + 5)) XOR rcon ! i"
  have s1: "sched key 6 (e @ [r6])"
    using sched_rot [OF s _ len] assms(2) by (simp add: len r6_def add.commute)
  let ?xs = "(if i = 7 then [e ! (6 * i + 1), e ! (6 * i + 2), e ! (6 * i + 3)]
    else [e ! (6 * i + 1), e ! (6 * i + 2), e ! (6 * i + 3), e ! (6 * i + 4), e ! (6 * i + 5)])"
  have e: "step24 te4_table i e = (e @ [r6]) @ run_xor ?xs (last (e @ [r6]))"
    using len by (simp add: step24_def Let_def r6_def)
  have "sched key 6 (step24 te4_table i e)" unfolding e
  proof (rule sched_run [OF s1])
    show "?xs ! j = (e @ [r6]) ! (length (e @ [r6]) - 6 + j)" if "j < length ?xs" for j
      using that len by (auto simp: nth_append less_Suc_eq numeral_eq_Suc split: if_splits)
    show "(length (e @ [r6]) + j) mod 6 \<noteq> 0 \<and> \<not> (6 < (6 :: nat) \<and> (length (e @ [r6]) + j) mod 6 = 4)" if "j < length ?xs" for j
    proof -
      have "j < 5" using that by (simp split: if_splits)
      moreover have "length (e @ [r6]) + j = 6 * (i + 1) + (1 + j)" using len by simp
      ultimately show ?thesis by (simp only: mod_mult_self4) simp
    qed
  qed (simp_all add: len)
  then show ?thesis unfolding e by (simp add: len length_run_xor)
qed

lemma step32_ok:
  assumes "sched key 8 e \<and> length e = 8 * (i + 1)" "i < 7"
  shows "sched key 8 (step32 te4_table i e) \<and> length (step32 te4_table i e) = (if i = 6 then 60 else 8 * (i + 2))"
proof -
  have s: "sched key 8 e" and len: "length e = 8 * (i + 1)" using assms(1) by blast+
  define r8 where "r8 = e ! (8 * i) XOR setup_mix te4_table (e ! (8 * i + 7)) XOR rcon ! i"
  define xs where "xs = [e ! (8 * i + 1), e ! (8 * i + 2), e ! (8 * i + 3)]"
  define e1 where "e1 = (e @ [r8]) @ run_xor xs (last (e @ [r8]))"
  have plain: "(8 * k + (1 + j)) mod 8 \<noteq> 0 \<and> \<not> (6 < (8 :: nat) \<and> (8 * k + (1 + j)) mod 8 = 4)"
    "(8 * k + (5 + j)) mod 8 \<noteq> 0 \<and> \<not> (6 < (8 :: nat) \<and> (8 * k + (5 + j)) mod 8 = 4)" if "j < 3" for k j :: nat
    using that by (simp_all only: mod_mult_self4) simp_all
  have s1: "sched key 8 (e @ [r8])"
    using sched_rot [OF s _ len] assms(2) by (simp add: len r8_def add.commute)
  have l1: "length e1 = 8 * (i + 1) + 4" by (simp add: e1_def len length_run_xor xs_def)
  have s2: "sched key 8 e1" unfolding e1_def
  proof (rule sched_run [OF s1])
    show "xs ! j = (e @ [r8]) ! (length (e @ [r8]) - 8 + j)" if "j < length xs" for j
      using that len by (auto simp: xs_def nth_append less_Suc_eq numeral_eq_Suc)
    show "(length (e @ [r8]) + j) mod 8 \<noteq> 0 \<and> \<not> (6 < (8 :: nat) \<and> (length (e @ [r8]) + j) mod 8 = 4)" if "j < length xs" for j
    proof -
      have l: "length (e @ [r8]) + j = 8 * (i + 1) + (1 + j)" using len by simp
      show ?thesis unfolding l by (rule plain(1)) (use that in \<open>simp add: xs_def\<close>)
    qed
  qed (simp_all add: len xs_def)
  show ?thesis
  proof (cases "i = 6")
    case True
    then have "step32 te4_table i e = e1" using len by (simp add: step32_def Let_def r8_def e1_def xs_def)
    then show ?thesis using True s2 l1 by simp
  next
    case False
    define r12 where "r12 = e ! (8 * i + 4) XOR setup_mix te4_table (push_bit 24 (last e1) OR drop_bit 8 (last e1))"
    define ys where "ys = [e ! (8 * i + 5), e ! (8 * i + 6), e ! (8 * i + 7)]"
    have n: "e1 ! k = e ! k" if "k < 8 * (i + 1)" for k using that len by (simp add: e1_def nth_append)
    have "e1 \<noteq> []" using l1 by auto
    then have "e1 ! (length e1 - 1) = last e1" by (simp add: last_conv_nth)
    moreover have "e1 ! (length e1 - 8) = e ! (8 * i + 4)" using n [of "8 * i + 4"] by (simp add: l1 add.commute)
    ultimately have s3: "sched key 8 (e1 @ [r12])" using sched_sub [OF s2] by (simp add: l1 r12_def)
    have e: "step32 te4_table i e = (e1 @ [r12]) @ run_xor ys (last (e1 @ [r12]))"
      using len False by (simp add: step32_def Let_def r8_def r12_def e1_def xs_def ys_def)
    have "sched key 8 (step32 te4_table i e)" unfolding e
    proof (rule sched_run [OF s3])
      show "ys ! j = (e1 @ [r12]) ! (length (e1 @ [r12]) - 8 + j)" if "j < length ys" for j
        using that n [of "8 * i + 5 + j"] by (auto simp: ys_def l1 nth_append less_Suc_eq numeral_eq_Suc)
      show "(length (e1 @ [r12]) + j) mod 8 \<noteq> 0 \<and> \<not> (6 < (8 :: nat) \<and> (length (e1 @ [r12]) + j) mod 8 = 4)" if "j < length ys" for j
      proof -
        have l: "length (e1 @ [r12]) + j = 8 * (i + 1) + (5 + j)" using l1 by simp
        show ?thesis unfolding l by (rule plain(2)) (use that in \<open>simp add: ys_def\<close>)
      qed
    qed (simp_all add: l1 ys_def)
    then show ?thesis unfolding e using False by (simp add: l1 length_run_xor ys_def)
  qed
qed

lemma fold_steps:
  assumes "I 0 e" "\<And>i e. i < n \<Longrightarrow> I i e \<Longrightarrow> I (Suc i) (f i e)"
  shows "I n (fold f [0 ..< n] e)"
  using assms(2)
proof (induction n)
  case (Suc n)
  then show ?case by simp
qed (simp add: assms(1))

lemma sched_start:
  assumes "length key = 4 * n" "k \<le> n" "0 < n"
  shows "sched key n (map (\<lambda>i. LOAD32H (4 * i) key) [0 ..< k])"
proof -
  have "STORE32H (LOAD32H (4 * i) key) = KeyExpansion SBox key n i" if "i < k" for i
    using LOAD32H_bytes [of "4 * i" key] that assms by (simp add: KeyExpansion.simps)
  then show ?thesis using assms(3) by (simp add: sched_def)
qed

lemma key_words_fips:
  assumes "length key \<in> {16, 24, 32}"
  shows "sched key (length key div 4) (key_words te4_table key) \<and> length (key_words te4_table key) = length key + 28"
proof -
  have ws: "[LOAD32H 0 key, LOAD32H 4 key, LOAD32H 8 key, LOAD32H 12 key] = map (\<lambda>i. LOAD32H (4 * i) key) [0 ..< 4]"
    "[LOAD32H 0 key, LOAD32H 4 key, LOAD32H 8 key, LOAD32H 12 key] @ [LOAD32H 16 key, LOAD32H 20 key] = map (\<lambda>i. LOAD32H (4 * i) key) [0 ..< 6]"
    "[LOAD32H 0 key, LOAD32H 4 key, LOAD32H 8 key, LOAD32H 12 key] @ [LOAD32H 16 key, LOAD32H 20 key, LOAD32H 24 key, LOAD32H 28 key]
      = map (\<lambda>i. LOAD32H (4 * i) key) [0 ..< 8]"
    by (simp_all add: upt_rec)
  consider "length key = 4 * 4" | "length key = 4 * 6" | "length key = 4 * 8" using assms by auto
  then show ?thesis
  proof cases
    case 1
    have "sched key 4 (fold (step16 te4_table) [0 ..< 10] (map (\<lambda>i. LOAD32H (4 * i) key) [0 ..< 4])) \<and>
        length (fold (step16 te4_table) [0 ..< 10] (map (\<lambda>i. LOAD32H (4 * i) key) [0 ..< 4])) = 4 * (10 + 1)"
    proof (rule fold_steps [where I = "\<lambda>i e. sched key 4 e \<and> length e = 4 * (i + 1)"])
      show "sched key 4 (map (\<lambda>i. LOAD32H (4 * i) key) [0 ..< 4]) \<and> length (map (\<lambda>i. LOAD32H (4 * i) key) [0 ..< 4]) = 4 * (0 + 1)"
        using sched_start [OF 1, of 4] by simp
      show "sched key 4 (step16 te4_table i e) \<and> length (step16 te4_table i e) = 4 * (Suc i + 1)"
        if "i < 10" "sched key 4 e \<and> length e = 4 * (i + 1)" for i e using step16_ok [OF that(2,1)] by simp
    qed
    then show ?thesis using 1 by (simp add: key_words_def Let_def ws(1))
  next
    case 2
    have "sched key 6 (fold (step24 te4_table) [0 ..< 8] (map (\<lambda>i. LOAD32H (4 * i) key) [0 ..< 6])) \<and>
        length (fold (step24 te4_table) [0 ..< 8] (map (\<lambda>i. LOAD32H (4 * i) key) [0 ..< 6])) = (if 8 = (8 :: nat) then 52 else 6 * (8 + 1))"
    proof (rule fold_steps [where I = "\<lambda>i e. sched key 6 e \<and> length e = (if i = 8 then 52 else 6 * (i + 1))"])
      show "sched key 6 (map (\<lambda>i. LOAD32H (4 * i) key) [0 ..< 6]) \<and> length (map (\<lambda>i. LOAD32H (4 * i) key) [0 ..< 6]) = (if 0 = (8 :: nat) then 52 else 6 * (0 + 1))"
        using sched_start [OF 2, of 6] by simp
      show "sched key 6 (step24 te4_table i e) \<and> length (step24 te4_table i e) = (if Suc i = 8 then 52 else 6 * (Suc i + 1))"
        if "i < 8" "sched key 6 e \<and> length e = (if i = 8 then 52 else 6 * (i + 1))" for i e using step24_ok [of key e i] that by simp
    qed
    then show ?thesis using 2 by (simp add: key_words_def Let_def ws(2) del: append_Cons)
  next
    case 3
    have "sched key 8 (fold (step32 te4_table) [0 ..< 7] (map (\<lambda>i. LOAD32H (4 * i) key) [0 ..< 8])) \<and>
        length (fold (step32 te4_table) [0 ..< 7] (map (\<lambda>i. LOAD32H (4 * i) key) [0 ..< 8])) = (if 7 = (7 :: nat) then 60 else 8 * (7 + 1))"
    proof (rule fold_steps [where I = "\<lambda>i e. sched key 8 e \<and> length e = (if i = 7 then 60 else 8 * (i + 1))"])
      show "sched key 8 (map (\<lambda>i. LOAD32H (4 * i) key) [0 ..< 8]) \<and> length (map (\<lambda>i. LOAD32H (4 * i) key) [0 ..< 8]) = (if 0 = (7 :: nat) then 60 else 8 * (0 + 1))"
        using sched_start [OF 3, of 8] by simp
      show "sched key 8 (step32 te4_table i e) \<and> length (step32 te4_table i e) = (if Suc i = 7 then 60 else 8 * (Suc i + 1))"
        if "i < 7" "sched key 8 e \<and> length e = (if i = 7 then 60 else 8 * (i + 1))" for i e using step32_ok [of key e i] that by simp
    qed
    then show ?thesis using 3 by (simp add: key_words_def Let_def ws(3) del: append_Cons)
  qed
qed

section \<open>The object\<close>

lemma AddRoundKey_cong: "(\<And>i. i < 4 * (rnd + 1) \<Longrightarrow> w i = w' i) \<Longrightarrow> AddRoundKey w rnd s = AddRoundKey w' rnd s"
  by (simp add: AddRoundKey_def)

lemma Cipher_cong:
  assumes "\<And>i. i < 4 * (nr + 1) \<Longrightarrow> w i = w' i"
  shows "Cipher S w nr inp = Cipher S w' nr inp"
proof -
  have c: "AddRoundKey w rnd s = AddRoundKey w' rnd s" if "rnd \<le> nr" for rnd s
    by (rule AddRoundKey_cong) (use assms that in simp)
  have "fold (\<lambda>rnd s. AddRoundKey w rnd (MixColumns (ShiftRows (SubBytes S s)))) [1 ..< nr] x =
      fold (\<lambda>rnd s. AddRoundKey w' rnd (MixColumns (ShiftRows (SubBytes S s)))) [1 ..< nr] x" for x
    by (rule fold_cong) (auto simp: c)
  then show ?thesis by (simp add: Cipher_def c)
qed

lemma block_is_fips:
  assumes "length key \<in> {16, 24, 32}"
  shows "encrypt_block (new_AES_CTR key iv) s0 s1 s2 s3 = fips_aes SBox key (state_bytes (s0, s1, s2, s3))"
proof -
  let ?A = "new_AES_CTR key iv" and ?nr = "length key div 4 + 6"
  have t: "tables_ok ?A" and e: "ek ?A = key_words te4_table key" by (simp_all add: new_AES_CTR_def tables_ok_def Let_def)
  have nr: "Nr ?A = ?nr" "even (Nr ?A)" "2 \<le> Nr ?A" "length key + 28 = 4 * (?nr + 1)"
    using assms by (auto simp: new_AES_CTR_def Let_def)
  have "key_bytes ?A i = KeyExpansion SBox key (length key div 4) i" if "i < 4 * (?nr + 1)" for i
    using key_words_fips [OF assms] that unfolding nr(4) [symmetric] key_bytes_def e sched_def by simp
  then show ?thesis unfolding encrypt_block_is_fips [OF t nr(2,3)] fips_aes_def nr(1) by (rule Cipher_cong)
qed

section \<open>Counter mode\<close>

definition keystream :: "AES_CTR \<Rightarrow> nat \<Rightarrow> u8" where
  "keystream A p = encrypt_block A (iv0 A) (iv1 A) (of_nat (p div 16 div 2 ^ 32)) (of_nat (p div 16)) ! (p mod 16)"

lemma xor_bytes:
  "length (fold (xor_byte offset i ct) [0 ..< m] buf) = length buf \<and>
   (\<forall>k < length buf. fold (xor_byte offset i ct) [0 ..< m] buf ! k =
     buf ! k XOR (if 16 * i \<le> offset + k \<and> offset + k < 16 * i + m then ct ! (offset + k - 16 * i) else 0))"
proof (induction m)
  case (Suc m)
  let ?b = "fold (xor_byte offset i ct) [0 ..< m] buf" and ?k = "int (i * 16) - int offset + int m"
  have l: "length ?b = length buf" using Suc by blast
  have step: "fold (xor_byte offset i ct) [0 ..< Suc m] buf =
      (if 0 \<le> ?k \<and> ?k < int (length buf) then ?b[nat ?k := ?b ! nat ?k XOR ct ! m] else ?b)"
    by (simp add: xor_byte_def Let_def l)
  have "fold (xor_byte offset i ct) [0 ..< Suc m] buf ! k =
      buf ! k XOR (if 16 * i \<le> offset + k \<and> offset + k < 16 * i + Suc m then ct ! (offset + k - 16 * i) else 0)"
    if k: "k < length buf" for k
  proof (cases "offset + k = 16 * i + m")
    case True
    then have "nat ?k = k" "0 \<le> ?k" "?k < int (length buf)" "offset + k - 16 * i = m" using k by linarith+
    then show ?thesis unfolding step using Suc k True l by simp
  next
    case False
    then have "0 \<le> ?k \<Longrightarrow> nat ?k \<noteq> k" by linarith
    then have "fold (xor_byte offset i ct) [0 ..< Suc m] buf ! k = ?b ! k" unfolding step by simp
    then show ?thesis using Suc k False by auto
  qed
  then show ?case unfolding step using l by simp
qed auto

lemma slice_blocks:
  "length (fold (\<lambda>i buf. let ct = encrypt_block A (iv0 A) (iv1 A) (of_nat (i div 2 ^ 32)) (of_nat i)
       in fold (xor_byte offset i ct) [0 ..< 16] buf) [a ..< b] buf) = length buf \<and>
   (\<forall>k < length buf. fold (\<lambda>i buf. let ct = encrypt_block A (iv0 A) (iv1 A) (of_nat (i div 2 ^ 32)) (of_nat i)
       in fold (xor_byte offset i ct) [0 ..< 16] buf) [a ..< b] buf ! k =
     buf ! k XOR (if a \<le> (offset + k) div 16 \<and> (offset + k) div 16 < b then keystream A (offset + k) else 0))"
proof (induction b)
  case (Suc b)
  let ?f = "\<lambda>i buf. let ct = encrypt_block A (iv0 A) (iv1 A) (of_nat (i div 2 ^ 32)) (of_nat i) in fold (xor_byte offset i ct) [0 ..< 16] buf"
  show ?case
  proof (cases "a \<le> b")
    case True
    let ?b = "fold ?f [a ..< b] buf" and ?ct = "encrypt_block A (iv0 A) (iv1 A) (of_nat (b div 2 ^ 32)) (of_nat b)"
    have l: "length ?b = length buf" using Suc by blast
    have step: "fold ?f [a ..< Suc b] buf = fold (xor_byte offset b ?ct) [0 ..< 16] ?b" using True by simp
    have "fold ?f [a ..< Suc b] buf ! k =
        buf ! k XOR (if a \<le> (offset + k) div 16 \<and> (offset + k) div 16 < Suc b then keystream A (offset + k) else 0)"
      if k: "k < length buf" for k
    proof -
      have x: "fold ?f [a ..< Suc b] buf ! k =
          ?b ! k XOR (if 16 * b \<le> offset + k \<and> offset + k < 16 * b + 16 then ?ct ! (offset + k - 16 * b) else 0)"
        unfolding step using xor_bytes [of offset b ?ct 16 ?b] k l by simp
      show ?thesis
      proof (cases "(offset + k) div 16 = b")
        case in_block: True
        then have "16 * b \<le> offset + k \<and> offset + k < 16 * b + 16" "offset + k - 16 * b = (offset + k) mod 16" by (linarith, presburger)
        then show ?thesis unfolding x using Suc k in_block True by (simp add: keystream_def)
      next
        case False
        then have "\<not> (16 * b \<le> offset + k \<and> offset + k < 16 * b + 16)" by linarith
        then show ?thesis unfolding x using Suc k False by auto
      qed
    qed
    then show ?thesis unfolding step using xor_bytes [of offset b ?ct 16 ?b] l by simp
  next
    case False
    then have "[a ..< Suc b] = []" by simp
    then show ?thesis using False by auto
  qed
qed simp

lemma encrypt_slice_nth:
  assumes "offset + length buf < 2 ^ 64"
  shows "length (encrypt_slice A offset buf) = length buf"
    and "k < length buf \<Longrightarrow> encrypt_slice A offset buf ! k = buf ! k XOR keystream A (offset + k)"
proof -
  have m: "(offset + length buf) mod 2 ^ 64 div 16 + 1 = (offset + length buf) div 16 + 1" using assms by simp
  note s = slice_blocks [of A offset "offset div 16" "(offset + length buf) div 16 + 1" buf]
  show "length (encrypt_slice A offset buf) = length buf" using s unfolding encrypt_slice_def m by blast
  show "encrypt_slice A offset buf ! k = buf ! k XOR keystream A (offset + k)" if k: "k < length buf"
  proof -
    have "offset div 16 \<le> (offset + k) div 16 \<and> (offset + k) div 16 < (offset + length buf) div 16 + 1"
      using k by (simp add: div_le_mono less_Suc_eq_le)
    then show ?thesis using s k unfolding encrypt_slice_def m by simp
  qed
qed

text \<open>The counter block of the standard's counter mode: 8 bytes of nonce and the number of the block.\<close>

definition nonce :: "u8 list option \<Rightarrow> u8 list" where
  "nonce iv = (case iv of None \<Rightarrow> replicate 8 0 | Some v \<Rightarrow> take 8 v)"

definition counter_block :: "u8 list \<Rightarrow> nat \<Rightarrow> u8 list" where
  "counter_block v i = v @ map (\<lambda>j. of_nat (i div 256 ^ (7 - j))) [0 ..< 8]"

lemma STORE32H_of_nat: "STORE32H (of_nat n) = [of_nat (n div 2 ^ 24), of_nat (n div 2 ^ 16), of_nat (n div 2 ^ 8), of_nat n]"
proof -
  have "(ucast (drop_bit k (of_nat n :: u32)) :: u8) = of_nat (drop_bit k n)" if "k \<le> 24" for k
  proof (rule bit_word_eqI)
    show "bit (ucast (drop_bit k (of_nat n :: u32)) :: u8) j = bit (of_nat (drop_bit k n) :: u8) j" if "j < LENGTH(8)" for j
      using that \<open>k \<le> 24\<close> by (simp add: bit_simps)
  qed
  from this [of 24] this [of 16] this [of 8] this [of 0] show ?thesis by (simp add: STORE32H_def drop_bit_eq_div)
qed

lemma counter_block_words:
  assumes "case iv of None \<Rightarrow> True | Some v \<Rightarrow> 8 \<le> length v"
  shows "state_bytes (iv0 (new_AES_CTR key iv), iv1 (new_AES_CTR key iv), of_nat (i div 2 ^ 32), of_nat i) = counter_block (nonce iv) i"
proof -
  have v: "iv0 (new_AES_CTR key iv) = (case iv of None \<Rightarrow> 0 | Some v \<Rightarrow> LOAD32H 0 v)"
    "iv1 (new_AES_CTR key iv) = (case iv of None \<Rightarrow> 0 | Some v \<Rightarrow> LOAD32H 4 v)" by (simp_all add: new_AES_CTR_def Let_def)
  have "STORE32H (iv0 (new_AES_CTR key iv)) @ STORE32H (iv1 (new_AES_CTR key iv)) = nonce iv"
  proof (cases iv)
    case None
    then show ?thesis unfolding v by (simp add: nonce_def STORE32H_def numeral_eq_Suc)
  next
    case (Some v)
    then have "take 8 v = take 4 (drop 0 v) @ take 4 (drop 4 v)" using take_add [of 4 4 v] by simp
    then show ?thesis unfolding v using Some assms by (simp add: nonce_def LOAD32H_bytes)
  qed
  moreover have "STORE32H (of_nat (i div 2 ^ 32)) @ STORE32H (of_nat i) = map (\<lambda>j. of_nat (i div 256 ^ (7 - j))) [0 ..< 8]"
  proof -
    have "[0 ..< 8] = [0, 1, 2, 3, 4, 5, 6, 7 :: nat]" by (simp add: upt_rec)
    moreover have "256 ^ (7 - 0) = (2 ^ 32 * 2 ^ 24 :: nat)" "256 ^ (7 - 1) = (2 ^ 32 * 2 ^ 16 :: nat)" "256 ^ (7 - 2) = (2 ^ 32 * 2 ^ 8 :: nat)"
      "256 ^ (7 - 3) = (2 ^ 32 :: nat)" "256 ^ (7 - 4) = (2 ^ 24 :: nat)" "256 ^ (7 - 5) = (2 ^ 16 :: nat)" "256 ^ (7 - 6) = (2 ^ 8 :: nat)"
      "256 ^ (7 - 7) = (1 :: nat)" by simp_all
    ultimately show ?thesis unfolding STORE32H_of_nat by (simp only: list.map div_mult2_eq append_Cons append_Nil div_by_1)
  qed
  ultimately show ?thesis by (simp add: state_bytes_def counter_block_def)
qed

text \<open>C23. Encryption is the standard's: for a key of 16, 24 or 32 bytes, \<open>AES_CTR::encrypt\<close> on any slice of a file combines the
  byte at position \<open>p\<close> with byte \<open>p mod 16\<close> of the FIPS 197 cipher (substitution by inverses in GF(2^8),
  shifted rows, mixed columns, expanded key) of the counter block: the nonce and the 64-bit number \<open>p div 16\<close>, big endian.
  The code does two rounds at a time with tables of 32-bit words.\<close>

theorem AES_CTR_is_fips:
  assumes "length key \<in> {16, 24, 32}" "case iv of None \<Rightarrow> True | Some v \<Rightarrow> 8 \<le> length v" "offset + length buf < 2 ^ 64"
  shows "is_SBox SBox \<and> encrypt_slice (new_AES_CTR key iv) offset buf =
    map (\<lambda>k. buf ! k XOR fips_aes SBox key (counter_block (nonce iv) ((offset + k) div 16)) ! ((offset + k) mod 16)) [0 ..< length buf]"
proof -
  have "keystream (new_AES_CTR key iv) p = fips_aes SBox key (counter_block (nonce iv) (p div 16)) ! (p mod 16)" for p
    unfolding keystream_def block_is_fips [OF assms(1)] counter_block_words [OF assms(2)] ..
  then show ?thesis using SBox_is_SBox encrypt_slice_nth [OF assms(3)] by (auto intro: nth_equalityI)
qed

theorem AES_CTR_is_fips_witness:
  "is_SBox SBox \<and> encrypt_slice (new_AES_CTR (replicate 32 7) (Some [1, 2, 3, 4, 5, 6, 7, 8])) 30 [65, 66, 67] =
    map (\<lambda>k. [65, 66, 67] ! k XOR fips_aes SBox (replicate 32 7)
      (counter_block (nonce (Some [1, 2, 3, 4, 5, 6, 7, 8])) ((30 + k) div 16)) ! ((30 + k) mod 16)) [0 ..< length [65, 66, 67 :: u8]]"
  by (rule AES_CTR_is_fips) simp_all

text \<open>C24. What was encrypted can be read back from any place: decrypting any slice of the encrypted bytes, at its own
  offset and with the same key, gives that slice of the original bytes; in particular encrypting twice is the
  identity.\<close>

theorem AES_CTR_random_access:
  assumes "offset + length buf < 2 ^ 64" "i \<le> length buf"
  shows "encrypt_slice A (offset + i) (take n (drop i (encrypt_slice A offset buf))) = take n (drop i buf)"
proof -
  note e = encrypt_slice_nth [OF assms(1), where A = A]
  let ?s = "take n (drop i (encrypt_slice A offset buf))"
  have b: "offset + i + length ?s < 2 ^ 64" using assms e(1) by simp
  show ?thesis
  proof (rule nth_equalityI)
    show l: "length (encrypt_slice A (offset + i) ?s) = length (take n (drop i buf))"
      unfolding encrypt_slice_nth(1) [OF b] using e(1) by simp
    fix k
    assume "k < length (encrypt_slice A (offset + i) ?s)"
    then have k: "k < length ?s" "i + k < length buf" "k < n" unfolding encrypt_slice_nth(1) [OF b] using e(1) by auto
    have "encrypt_slice A (offset + i) ?s ! k = encrypt_slice A offset buf ! (i + k) XOR keystream A (offset + i + k)"
      using encrypt_slice_nth(2) [OF b k(1), where A = A] k e(1) by simp
    also have "\<dots> = buf ! (i + k)" using e(2) [OF k(2)] by (simp add: xor.assoc add.assoc)
    finally show "encrypt_slice A (offset + i) ?s ! k = take n (drop i buf) ! k" using k by simp
  qed
qed

theorem AES_CTR_random_access_witness:
  "encrypt_slice (new_AES_CTR (replicate 16 5) None) (100 + 1) (take 2 (drop 1 (encrypt_slice (new_AES_CTR (replicate 16 5) None) 100 [10, 20, 30, 40])))
    = take 2 (drop 1 [10, 20, 30, 40 :: u8])"
  by (rule AES_CTR_random_access) simp_all

end
