(* ===== verification/Zpaq_Kdf.thy ===== *)
theory Zpaq_Kdf
  imports Zpaq_Sha
begin

text \<open>
  The key of an encrypted archive (\<open>zpaq715/libzpaq.cpp\<close>, \<open>stretchKey\<close>): \<open>pbkdf2\<close> on the object \<open>SHA256\<close>,
  \<open>salsa8\<close>, \<open>blockmix\<close>, \<open>smix\<close> and \<open>scrypt\<close>.  The references are RFC 2104 (HMAC), RFC 2898
  (PBKDF2), the definition of Salsa20 and RFC 7914 (scrypt), written on octets.

  A password or a salt is the list of its bytes, with its length; \<open>stretchKey\<close> reads 32 bytes of each.  A copy of words that leaves an array is \<open>Undefined\<close>.  The array \<open>y\<close>, which the code leaves uninitialised, starts
  with zeros: every word of it that is read has been written.
\<close>

unbundle bit_operations_syntax

section \<open>Definitions\<close>

primrec efold :: "('a \<Rightarrow> 's \<Rightarrow> 's result) \<Rightarrow> 'a list \<Rightarrow> 's \<Rightarrow> 's result" where
  "efold f [] s = Inr s"
| "efold f (i # is) s = ebind (f i s) (efold f is)"

text \<open>\<open>memcpy\<close> from and to word \<open>k\<close> of an array.\<close>

definition load :: "nat \<Rightarrow> nat \<Rightarrow> 'a list \<Rightarrow> 'a list result" where
  "load k n xs = (if k + n \<le> length xs then Inr (take n (drop k xs)) else Inl Undefined)"

definition store :: "nat \<Rightarrow> 'a list \<Rightarrow> 'a list \<Rightarrow> 'a list result" where
  "store k ws xs = (if k + length ws \<le> length xs then Inr (take k xs @ ws @ drop (k + length ws) xs) else Inl Undefined)"

definition puts :: "u8 list \<Rightarrow> SHA256 \<Rightarrow> SHA256" where
  "puts bs s = fold SHA256_put bs s"

definition pbkdf2_block :: "u8 list \<Rightarrow> u8 list \<Rightarrow> nat \<Rightarrow> u8 list \<times> SHA256 \<Rightarrow> (u8 list \<times> SHA256) result" where
  "pbkdf2_block pw salt i = (\<lambda>(buf, s).
     let s = puts (map (\<lambda>j. pw ! j XOR 0x36) [0 ..< length pw]) s;
         s = puts (map (\<lambda>j. 0x36) [length pw ..< 64]) s;
         s = puts salt s;
         s = puts (map (\<lambda>j. of_nat (i div 2 ^ j)) [24, 16, 8, 0]) s
     in ebind (of_loop (SHA256_result s)) (\<lambda>(b, s).
        let s = puts (map (\<lambda>j. pw ! j XOR 0x5c) [0 ..< length pw]) s;
            s = puts (map (\<lambda>j. 0x5c) [length pw ..< 64]) s;
            s = puts b s
        in ebind (of_loop (SHA256_result s)) (\<lambda>(b, s). ebind (store (i * 32 - 32) b buf) (\<lambda>buf. Inr (buf, s)))))"

definition pbkdf2 :: "u8 list \<Rightarrow> u8 list \<Rightarrow> nat \<Rightarrow> u8 list result" where
  "pbkdf2 pw salt dkLen =
     ebind (efold (pbkdf2_block pw salt) [1 ..< dkLen div 32 + 1] (replicate dkLen 0, new_SHA256)) (\<lambda>(buf, s). Inr buf)"

text \<open>\<open>x[d] ^= R(x[a]+x[b],k)\<close>\<close>

definition R :: "u32 \<Rightarrow> nat \<Rightarrow> u32" where
  "R a b = push_bit b a + drop_bit (32 - b) a"

definition mixw :: "nat \<Rightarrow> nat \<Rightarrow> nat \<Rightarrow> nat \<Rightarrow> u32 list \<Rightarrow> u32 list" where
  "mixw d a b k x = x[d := x ! d XOR R (x ! a + x ! b) k]"

definition salsa_turn :: "u32 list \<Rightarrow> u32 list" where
  "salsa_turn x = fold (\<lambda>(d, a, b, k). mixw d a b k)
     [(4, 0, 12, 7), (8, 4, 0, 9), (12, 8, 4, 13), (0, 12, 8, 18),
      (9, 5, 1, 7), (13, 9, 5, 9), (1, 13, 9, 13), (5, 1, 13, 18),
      (14, 10, 6, 7), (2, 14, 10, 9), (6, 2, 14, 13), (10, 6, 2, 18),
      (3, 15, 11, 7), (7, 3, 15, 9), (11, 7, 3, 13), (15, 11, 7, 18),
      (1, 0, 3, 7), (2, 1, 0, 9), (3, 2, 1, 13), (0, 3, 2, 18),
      (6, 5, 4, 7), (7, 6, 5, 9), (4, 7, 6, 13), (5, 4, 7, 18),
      (11, 10, 9, 7), (8, 11, 10, 9), (9, 8, 11, 13), (10, 9, 8, 18),
      (12, 15, 14, 7), (13, 12, 15, 9), (14, 13, 12, 13), (15, 14, 13, 18)] x"

definition salsa8 :: "u32 list \<Rightarrow> u32 list" where
  "salsa8 b = map2 (+) b (fold (\<lambda>i. salsa_turn) [0 ..< 4] b)"

definition blockmix :: "nat \<Rightarrow> u32 list \<Rightarrow> u32 list result" where
  "blockmix r b =
     ebind (load (32 * r - 16) 16 b) (\<lambda>x.
     ebind (efold (\<lambda>i (x, y). ebind (load (i * 16) 16 b) (\<lambda>w.
         let x = salsa8 (map2 (XOR) x w) in ebind (store (i * 16) x y) (\<lambda>y. Inr (x, y)))) [0 ..< 2 * r] (x, replicate 256 0)) (\<lambda>(x, y).
     ebind (efold (\<lambda>i b. ebind (load (i * 32) 16 y) (\<lambda>w. store (i * 16) w b)) [0 ..< r] b) (\<lambda>b.
     efold (\<lambda>i b. ebind (load (i * 32 + 16) 16 y) (\<lambda>w. store ((i + r) * 16) w b)) [0 ..< r] b)))"

definition smix :: "nat \<Rightarrow> nat \<Rightarrow> u8 list \<Rightarrow> u8 list result" where
  "smix r n b =
     (let x = fold (\<lambda>i x. x[i div 4 := x ! (i div 4) + push_bit (i mod 4 * 8) (ucast (b ! i))]) [0 ..< r * 128] (replicate (32 * r) 0)
      in ebind (efold (\<lambda>i (x, v). ebind (store (i * r * 32) x v) (\<lambda>v. ebind (blockmix r x) (\<lambda>x. Inr (x, v)))) [0 ..< n]
             (x, replicate (32 * r * n) 0)) (\<lambda>(x, v).
         ebind (efold (\<lambda>i x. let j = x ! ((2 * r - 1) * 16) AND (of_nat n - 1)
             in ebind (load (unat (j * of_nat r * 32)) (r * 32) v) (\<lambda>w. blockmix r (map2 (XOR) x w))) [0 ..< n] x) (\<lambda>x.
           Inr (map (\<lambda>i. ucast (drop_bit (i mod 4 * 8) (x ! (i div 4)))) [0 ..< r * 128]))))"

definition scrypt :: "u8 list \<Rightarrow> u8 list \<Rightarrow> nat \<Rightarrow> nat \<Rightarrow> nat \<Rightarrow> nat \<Rightarrow> u8 list result" where
  "scrypt pw salt n r p buflen =
     ebind (pbkdf2 pw salt (p * r * 128)) (\<lambda>b.
     ebind (efold (\<lambda>i b. ebind (load (i * r * 128) (r * 128) b) (\<lambda>s. ebind (smix r n s) (\<lambda>s. store (i * r * 128) s b))) [0 ..< p] b) (\<lambda>b.
     pbkdf2 pw b buflen))"

definition stretchKey :: "u8 list \<Rightarrow> u8 list \<Rightarrow> u8 list result" where
  "stretchKey inp salt =
     (if length inp < 32 \<or> length salt < 32 then Inl Undefined
      else scrypt (take 32 inp) (take 32 salt) (2 ^ 14) 8 1 32)"

section \<open>The standards\<close>

definition HMAC :: "u8 list \<Rightarrow> u8 list \<Rightarrow> u8 list" where
  "HMAC key text =
     (let K = (if 64 < length key then fips_sha256 key else key);
          K = K @ replicate (64 - length K) 0
      in fips_sha256 (map (\<lambda>k. k XOR 0x5c) K @ fips_sha256 (map (\<lambda>k. k XOR 0x36) K @ text)))"

definition be_int :: "nat \<Rightarrow> u8 list" where
  "be_int i = [of_nat (i div 2 ^ 24), of_nat (i div 2 ^ 16), of_nat (i div 2 ^ 8), of_nat i]"

primrec rfc_U :: "u8 list \<Rightarrow> u8 list \<Rightarrow> nat \<Rightarrow> nat \<Rightarrow> u8 list" where
  "rfc_U P S i 0 = HMAC P (S @ be_int i)"
| "rfc_U P S i (Suc j) = HMAC P (rfc_U P S i j)"

primrec rfc_F :: "u8 list \<Rightarrow> u8 list \<Rightarrow> nat \<Rightarrow> nat \<Rightarrow> u8 list" where
  "rfc_F P S i 0 = rfc_U P S i 0"
| "rfc_F P S i (Suc j) = map2 (XOR) (rfc_F P S i j) (rfc_U P S i (Suc j))"

text \<open>\<open>c\<close> iterations; blocks of 32 octets are numbered from 1.\<close>

definition rfc_pbkdf2 :: "u8 list \<Rightarrow> u8 list \<Rightarrow> nat \<Rightarrow> nat \<Rightarrow> u8 list" where
  "rfc_pbkdf2 P S c dkLen = take dkLen (concat (map (\<lambda>i. rfc_F P S i (c - 1)) [1 ..< (dkLen + 31) div 32 + 1]))"

text \<open>Salsa20, with its words in rows of four.\<close>

definition quarterround :: "u32 \<times> u32 \<times> u32 \<times> u32 \<Rightarrow> u32 \<times> u32 \<times> u32 \<times> u32" where
  "quarterround = (\<lambda>(y0, y1, y2, y3).
     let z1 = y1 XOR ROTL 7 (y0 + y3);
         z2 = y2 XOR ROTL 9 (z1 + y0);
         z3 = y3 XOR ROTL 13 (z2 + z1);
         z0 = y0 XOR ROTL 18 (z3 + z2)
     in (z0, z1, z2, z3))"

definition rowround :: "u32 list \<Rightarrow> u32 list" where
  "rowround y =
     (let (z0, z1, z2, z3) = quarterround (y ! 0, y ! 1, y ! 2, y ! 3);
          (z5, z6, z7, z4) = quarterround (y ! 5, y ! 6, y ! 7, y ! 4);
          (z10, z11, z8, z9) = quarterround (y ! 10, y ! 11, y ! 8, y ! 9);
          (z15, z12, z13, z14) = quarterround (y ! 15, y ! 12, y ! 13, y ! 14)
      in [z0, z1, z2, z3, z4, z5, z6, z7, z8, z9, z10, z11, z12, z13, z14, z15])"

definition columnround :: "u32 list \<Rightarrow> u32 list" where
  "columnround x =
     (let (y0, y4, y8, y12) = quarterround (x ! 0, x ! 4, x ! 8, x ! 12);
          (y5, y9, y13, y1) = quarterround (x ! 5, x ! 9, x ! 13, x ! 1);
          (y10, y14, y2, y6) = quarterround (x ! 10, x ! 14, x ! 2, x ! 6);
          (y15, y3, y7, y11) = quarterround (x ! 15, x ! 3, x ! 7, x ! 11)
      in [y0, y1, y2, y3, y4, y5, y6, y7, y8, y9, y10, y11, y12, y13, y14, y15])"

definition salsa_core :: "u32 list \<Rightarrow> u32 list" where
  "salsa_core x = map2 (+) x (((\<lambda>x. rowround (columnround x)) ^^ 4) x)"

definition le4 :: "u32 \<Rightarrow> u8 list" where
  "le4 w = [ucast w, ucast (drop_bit 8 w), ucast (drop_bit 16 w), ucast (drop_bit 24 w)]"

definition le_bytes :: "u32 list \<Rightarrow> u8 list" where
  "le_bytes ws = concat (map le4 ws)"

fun le_words :: "u8 list \<Rightarrow> u32 list" where
  "le_words (a # b # c # d # bs) = (ucast a + push_bit 8 (ucast b) + push_bit 16 (ucast c) + push_bit 24 (ucast d)) # le_words bs"
| "le_words _ = []"

definition salsa20_8 :: "u8 list \<Rightarrow> u8 list" where
  "salsa20_8 B = le_bytes (salsa_core (le_words B))"

primrec mix_blocks :: "u8 list \<Rightarrow> u8 list list \<Rightarrow> u8 list list" where
  "mix_blocks X [] = []"
| "mix_blocks X (B # Bs) = (let X = salsa20_8 (map2 (XOR) X B) in X # mix_blocks X Bs)"

definition octets :: "nat \<Rightarrow> nat \<Rightarrow> 'a list \<Rightarrow> 'a list" where
  "octets n i B = take n (drop (n * i) B)"

definition scryptBlockMix :: "nat \<Rightarrow> u8 list \<Rightarrow> u8 list" where
  "scryptBlockMix r B =
     (let Bs = map (\<lambda>i. octets 64 i B) [0 ..< 2 * r];
          Y = mix_blocks (Bs ! (2 * r - 1)) Bs
      in concat (map (\<lambda>i. Y ! (2 * i)) [0 ..< r]) @ concat (map (\<lambda>i. Y ! (2 * i + 1)) [0 ..< r]))"

primrec le_nat :: "u8 list \<Rightarrow> nat" where
  "le_nat [] = 0"
| "le_nat (b # bs) = unat b + 256 * le_nat bs"

definition Integerify :: "nat \<Rightarrow> u8 list \<Rightarrow> nat" where
  "Integerify r X = le_nat (octets 64 (2 * r - 1) X)"

definition scryptROMix :: "nat \<Rightarrow> nat \<Rightarrow> u8 list \<Rightarrow> u8 list" where
  "scryptROMix r N B =
     (let V = \<lambda>i. (scryptBlockMix r ^^ i) B
      in ((\<lambda>X. scryptBlockMix r (map2 (XOR) X (V (Integerify r X mod N)))) ^^ N) (V N))"

definition rfc_scrypt :: "u8 list \<Rightarrow> u8 list \<Rightarrow> nat \<Rightarrow> nat \<Rightarrow> nat \<Rightarrow> nat \<Rightarrow> u8 list" where
  "rfc_scrypt P S N r p dkLen =
     (let B = rfc_pbkdf2 P S 1 (p * 128 * r)
      in rfc_pbkdf2 P (concat (map (\<lambda>i. scryptROMix r N (octets (128 * r) i B)) [0 ..< p])) 1 dkLen)"

section \<open>Loops and copies\<close>

lemma efold_append: "efold f (xs @ ys) s = ebind (efold f xs s) (efold f ys)"
  by (induction xs arbitrary: s) (auto simp: ebind_def split: sum.splits)

lemma efold_upt:
  assumes "I a s" "a \<le> b" "\<And>i s. a \<le> i \<Longrightarrow> i < b \<Longrightarrow> I i s \<Longrightarrow> \<exists>s'. f i s = Inr s' \<and> I (Suc i) s'"
  shows "\<exists>s'. efold f [a ..< b] s = Inr s' \<and> I b s'"
  using assms(2,3)
proof (induction b)
  case (Suc b)
  show ?case
  proof (cases "a = Suc b")
    case True
    then show ?thesis using assms(1) by simp
  next
    case False
    then have "a \<le> b" using Suc.prems(1) by simp
    with Suc obtain s' where s': "efold f [a ..< b] s = Inr s'" "I b s'" by auto
    then obtain s'' where "f b s' = Inr s''" "I (Suc b) s''" using Suc.prems(2) [of b s'] \<open>a \<le> b\<close> by auto
    then show ?thesis using s' \<open>a \<le> b\<close> by (simp add: efold_append)
  qed
qed (use assms(1) in simp)

lemma store_append: "length w \<le> length z \<Longrightarrow> k = length a \<Longrightarrow> store k w (a @ z) = Inr (a @ w @ drop (length w) z)"
  by (simp add: store_def)

lemma load_octets: "n * i + n \<le> length xs \<Longrightarrow> k = n * i \<Longrightarrow> load k n xs = Inr (octets n i xs)"
  by (simp add: load_def octets_def)

lemma octets_concat:
  assumes "\<forall>Y \<in> set Ys. length Y = n" "i < length Ys"
  shows "octets n i (concat Ys @ z) = Ys ! i"
  using assms
proof (induction Ys arbitrary: i)
  case (Cons Y Ys)
  then show ?case by (cases i) (simp_all add: octets_def)
qed simp

lemma length_concat_const: "\<forall>Y \<in> set Ys. length Y = n \<Longrightarrow> length (concat Ys) = n * length Ys"
  by (induction Ys) auto

lemma length_octets: "n * i + n \<le> length xs \<Longrightarrow> length (octets n i xs) = n"
  by (simp add: octets_def)

lemma concat_octets: "length xs = n * m \<Longrightarrow> concat (map (\<lambda>i. octets n i xs) [0 ..< m]) = xs"
proof (induction m arbitrary: xs)
  case (Suc m)
  have "concat (map (\<lambda>i. octets n i (take (n * m) xs)) [0 ..< m]) = take (n * m) xs" by (rule Suc.IH) (use Suc.prems in simp)
  moreover have "map (\<lambda>i. octets n i (take (n * m) xs)) [0 ..< m] = map (\<lambda>i. octets n i xs) [0 ..< m]"
  proof (rule map_cong [OF refl])
    fix i
    assume "i \<in> set [0 ..< m]"
    then have "n * (i + 1) \<le> n * m" by (intro mult_le_mono2) simp
    then show "octets n i (take (n * m) xs) = octets n i xs" by (simp add: octets_def drop_take take_take min_absorb1)
  qed
  moreover have "octets n m xs = drop (n * m) xs" using Suc.prems by (simp add: octets_def)
  ultimately show ?case by simp
qed simp

section \<open>HMAC and PBKDF2\<close>

lemma length_fips_sha256: "length (fips_sha256 D) = 32"
proof -
  have "length (fold fips_block2 Ms H) = 8" if "length H = 8" for Ms and H :: "u32 list"
    using that by (induction Ms arbitrary: H) (auto simp: fips_block2_def Let_def split: prod.splits)
  moreover have "length (concat (map word_bytes ws)) = 4 * length ws" for ws by (induction ws) (simp_all add: word_bytes_def)
  ultimately show ?thesis by (simp add: fips_sha256_def)
qed

lemma length_HMAC: "length (HMAC k t) = 32"
  by (simp add: HMAC_def Let_def length_fips_sha256)

lemma puts_append: "puts bs (puts as s) = puts (as @ bs) s"
  by (simp add: puts_def)

lemma pbkdf2_block_HMAC:
  assumes "length pw \<le> 64"
  shows "pbkdf2_block pw salt i (buf, new_SHA256) = ebind (store (i * 32 - 32) (HMAC pw (salt @ be_int i)) buf) (\<lambda>buf. Inr (buf, new_SHA256))"
proof -
  have k: "map (\<lambda>j. pw ! j XOR c) [0 ..< length pw] @ map (\<lambda>j. c) [length pw ..< 64] = map (\<lambda>k. k XOR c) (pw @ replicate (64 - length pw) 0)" for c :: u8
  proof -
    have "map (\<lambda>j. pw ! j XOR c) [0 ..< length pw] = map (\<lambda>k. k XOR c) pw" by (rule nth_equalityI) simp_all
    then show ?thesis by (simp add: map_replicate_const)
  qed
  have p: "of_loop (SHA256_result (puts D new_SHA256)) = Inr (fips_sha256 D, new_SHA256)" for D
    by (simp add: puts_def SHA256_of_bytes)
  have i: "map (\<lambda>j. of_nat (i div 2 ^ j)) [24, 16, 8, 0] = be_int i" by (simp add: be_int_def)
  show ?thesis using assms
    unfolding pbkdf2_block_def prod.case Let_def i puts_append p ebind_simps k HMAC_def append_assoc [symmetric] by simp
qed

lemma pbkdf2_is_rfc:
  assumes "length pw \<le> 64" "dkLen = 32 * m"
  shows "pbkdf2 pw salt dkLen = Inr (rfc_pbkdf2 pw salt 1 dkLen)" "length (rfc_pbkdf2 pw salt 1 dkLen) = dkLen"
proof -
  let ?T = "\<lambda>i. HMAC pw (salt @ be_int i)"
  let ?I = "\<lambda>i (buf, s). s = new_SHA256 \<and> buf = concat (map ?T [1 ..< i]) @ replicate (dkLen - 32 * (i - 1)) 0"
  have len: "length (concat (map ?T [1 ..< i])) = 32 * (i - 1)" for i
    by (subst length_concat_const [of _ 32]) (auto simp: length_HMAC)
  have "\<exists>s'. efold (pbkdf2_block pw salt) [1 ..< m + 1] (replicate dkLen 0, new_SHA256) = Inr s' \<and> ?I (m + 1) s'"
  proof (rule efold_upt)
    show "?I 1 (replicate dkLen 0, new_SHA256)" by simp
    show "\<exists>s'. pbkdf2_block pw salt i s = Inr s' \<and> ?I (Suc i) s'" if i: "1 \<le> i" "i < m + 1" and "?I i s" for i s
    proof -
      obtain buf where s: "s = (buf, new_SHA256)" "buf = concat (map ?T [1 ..< i]) @ replicate (dkLen - 32 * (i - 1)) 0"
        using \<open>?I i s\<close> by (cases s) auto
      have "32 * i \<le> dkLen" using i(2) assms(2) by simp
      then have "length (?T i) \<le> length (replicate (dkLen - 32 * (i - 1)) (0 :: u8))" using i(1) by (simp add: length_HMAC)
      then have st: "store (i * 32 - 32) (?T i) buf = Inr (concat (map ?T [1 ..< i]) @ ?T i @ drop (length (?T i)) (replicate (dkLen - 32 * (i - 1)) 0))"
        unfolding s(2) by (rule store_append) (use i(1) in \<open>simp only: len; simp\<close>)
      moreover have "drop (length (?T i)) (replicate (dkLen - 32 * (i - 1)) (0 :: u8)) = replicate (dkLen - 32 * (Suc i - 1)) 0"
        using i(1) \<open>32 * i \<le> dkLen\<close> by (simp add: length_HMAC diff_mult_distrib2)
      ultimately show ?thesis unfolding s(1) pbkdf2_block_HMAC [OF assms(1)] using i(1) by simp
    qed
  qed simp
  then have "pbkdf2 pw salt dkLen = Inr (concat (map ?T [1 ..< m + 1]))" using assms(2) by (auto simp: pbkdf2_def)
  moreover have r: "rfc_pbkdf2 pw salt 1 dkLen = concat (map ?T [1 ..< m + 1])"
  proof -
    have "(dkLen + 31) div 32 = m" using assms(2) by simp
    moreover have "length (concat (map ?T [1 ..< m + 1])) = dkLen" using len [of "m + 1"] assms(2) by simp
    ultimately show ?thesis by (simp add: rfc_pbkdf2_def)
  qed
  ultimately show "pbkdf2 pw salt dkLen = Inr (rfc_pbkdf2 pw salt 1 dkLen)" by simp
  show "length (rfc_pbkdf2 pw salt 1 dkLen) = dkLen" unfolding r using len [of "m + 1"] assms(2) by simp
qed

section \<open>Salsa20\<close>

lemma R_is_ROTL: "0 < b \<Longrightarrow> b < 32 \<Longrightarrow> R a b = ROTL b a"
  unfolding R_def ROTL_def by (rule disjunctive_add_eq_or) (auto simp: bit_eq_iff bit_simps dest: bit_imp_le_length)

lemma sixteen: "length x = 16 \<Longrightarrow> x = map (\<lambda>i. x ! i) [0, 1, 2, 3, 4, 5, 6, 7, 8, 9, 10, 11, 12, 13, 14, 15]"
proof -
  assume "length x = 16"
  then have x: "x = map (\<lambda>i. x ! i) [0 ..< 16]" by (metis map_nth)
  have "[0 ..< 16] = [0, 1, 2, 3, 4, 5, 6, 7, 8, 9, 10, 11, 12, 13, 14, 15 :: nat]" by (simp add: upt_rec)
  then show ?thesis using x by (simp only:)
qed

lemma salsa_turn_rounds:
  assumes "length x = 16"
  shows "salsa_turn x = rowround (columnround x)" "length (salsa_turn x) = 16"
proof -
  let ?col = "[(4, 0, 12, 7), (8, 4, 0, 9), (12, 8, 4, 13), (0, 12, 8, 18),
      (9, 5, 1, 7), (13, 9, 5, 9), (1, 13, 9, 13), (5, 1, 13, 18),
      (14, 10, 6, 7), (2, 14, 10, 9), (6, 2, 14, 13), (10, 6, 2, 18),
      (3, 15, 11, 7), (7, 3, 15, 9), (11, 7, 3, 13), (15, 11, 7, 18)]"
  let ?row = "[(1, 0, 3, 7), (2, 1, 0, 9), (3, 2, 1, 13), (0, 3, 2, 18),
      (6, 5, 4, 7), (7, 6, 5, 9), (4, 7, 6, 13), (5, 4, 7, 18),
      (11, 10, 9, 7), (8, 11, 10, 9), (9, 8, 11, 13), (10, 9, 8, 18),
      (12, 15, 14, 7), (13, 12, 15, 9), (14, 13, 12, 13), (15, 14, 13, 18)]"
  have col: "fold (\<lambda>(d, a, b, k). mixw d a b k) ?col y = columnround y" if "length y = 16" for y
    by (subst (1 2) sixteen [OF that]) (simp add: mixw_def columnround_def quarterround_def Let_def R_is_ROTL ac_simps)
  have row: "fold (\<lambda>(d, a, b, k). mixw d a b k) ?row y = rowround y" if "length y = 16" for y
    by (subst (1 2) sixteen [OF that]) (simp add: mixw_def rowround_def quarterround_def Let_def R_is_ROTL ac_simps)
  have l: "length (columnround y) = 16" "length (rowround y) = 16" for y
    by (simp_all add: columnround_def rowround_def split: prod.splits)
  have "salsa_turn x = fold (\<lambda>(d, a, b, k). mixw d a b k) (?col @ ?row) x" by (simp only: salsa_turn_def append_Cons append_Nil)
  then show "salsa_turn x = rowround (columnround x)" by (simp only: fold_append comp_def col [OF assms] row [OF l(1)])
  then show "length (salsa_turn x) = 16" by (simp only: l)
qed

lemma salsa8_is_core:
  assumes "length x = 16"
  shows "salsa8 x = salsa_core x" "length (salsa8 x) = 16"
proof -
  have "length (((\<lambda>x. rowround (columnround x)) ^^ n) x) = 16 \<and> fold (\<lambda>i. salsa_turn) [0 ..< n] x = ((\<lambda>x. rowround (columnround x)) ^^ n) x" for n
  proof (induction n)
    case (Suc n)
    then show ?case using salsa_turn_rounds [of "((\<lambda>x. rowround (columnround x)) ^^ n) x"] by simp
  qed (simp add: assms)
  from this [of 4] show "salsa8 x = salsa_core x" "length (salsa8 x) = 16"
    by (simp_all add: salsa8_def salsa_core_def assms del: upt_Suc upt.simps funpow.simps fold_simps)
qed

section \<open>Words and octets\<close>

lemma word_of_le4:
  "ucast (ucast w :: u8) + push_bit 8 (ucast (ucast (drop_bit 8 w) :: u8)) + push_bit 16 (ucast (ucast (drop_bit 16 w) :: u8)) +
    push_bit 24 (ucast (ucast (drop_bit 24 w) :: u8)) = (w :: u32)"
proof -
  let ?a = "ucast (ucast w :: u8) :: u32" and ?b = "push_bit 8 (ucast (ucast (drop_bit 8 w) :: u8)) :: u32"
    and ?c = "push_bit 16 (ucast (ucast (drop_bit 16 w) :: u8)) :: u32" and ?d = "push_bit 24 (ucast (ucast (drop_bit 24 w) :: u8)) :: u32"
  have ab: "?a + ?b = ?a OR ?b" by (rule disjunctive_add_eq_or) (auto simp: bit_eq_iff bit_simps)
  have abc: "(?a OR ?b) + ?c = ?a OR ?b OR ?c" by (subst disjunctive_add_eq_or) (auto simp: bit_eq_iff bit_simps)
  have "(?a OR ?b OR ?c) + ?d = ?a OR ?b OR ?c OR ?d" by (subst disjunctive_add_eq_or) (auto simp: bit_eq_iff bit_simps)
  then have "?a + ?b + ?c + ?d = ?a OR ?b OR ?c OR ?d" unfolding ab abc .
  also have "\<dots> = w"
  proof (rule bit_word_eqI)
    fix n
    assume "n < LENGTH(32)"
    then have "n < 8 \<or> 8 \<le> n \<and> n < 16 \<or> 16 \<le> n \<and> n < 24 \<or> 24 \<le> n \<and> n < 32" by auto
    then show "bit (?a OR ?b OR ?c OR ?d) n = bit w n" by (auto simp: bit_simps)
  qed
  finally show ?thesis .
qed

lemma le_bytes_simps [simp]: "le_bytes [] = []" "le_bytes (w # ws) = le4 w @ le_bytes ws" "le_bytes (xs @ ys) = le_bytes xs @ le_bytes ys"
  by (simp_all add: le_bytes_def)

lemma length_le_bytes [simp]: "length (le_bytes ws) = 4 * length ws"
  by (induction ws) (simp_all add: le4_def)

lemma le_words_bytes: "le_words (le_bytes ws) = ws"
proof (induction ws)
  case (Cons w ws)
  then show ?case by (simp add: le4_def word_of_le4)
qed simp

lemma le_bytes_words: "length bs = 4 * n \<Longrightarrow> le_bytes (le_words bs) = bs \<and> length (le_words bs) = n"
proof (induction bs arbitrary: n rule: le_words.induct)
  case (1 a b c d bs)
  let ?w = "ucast a + push_bit 8 (ucast b) + push_bit 16 (ucast c) + push_bit 24 (ucast d) :: u32"
  have "length bs = 4 * (n - 1)" "0 < n" using "1.prems" by simp_all
  moreover have "le4 ?w = [a, b, c, d]"
  proof -
    let ?a = "ucast a :: u32" and ?b = "push_bit 8 (ucast b) :: u32" and ?c = "push_bit 16 (ucast c) :: u32" and ?d = "push_bit 24 (ucast d) :: u32"
    have nb: "\<not> bit v (k + n)" if "8 \<le> k" for v :: u8 and k n using bit_imp_le_length [of v "k + n"] that by auto
    note l = bit_imp_le_length [of a] bit_imp_le_length [of b] bit_imp_le_length [of c]
    have ab: "?a + ?b = ?a OR ?b" by (rule disjunctive_add_eq_or) (auto simp: bit_eq_iff bit_simps dest: l)
    have abc: "(?a OR ?b) + ?c = ?a OR ?b OR ?c" by (subst disjunctive_add_eq_or) (auto simp: bit_eq_iff bit_simps dest: l)
    have "(?a OR ?b OR ?c) + ?d = ?a OR ?b OR ?c OR ?d" by (subst disjunctive_add_eq_or) (auto simp: bit_eq_iff bit_simps dest: l)
    then have e: "?w = ?a OR ?b OR ?c OR ?d" unfolding ab abc .
    show ?thesis unfolding e le4_def by (auto intro!: bit_word_eqI simp: bit_simps nb)
  qed
  ultimately show ?case using "1.IH" [of "n - 1"] by simp
qed (auto, presburger+)

lemma length_le4: "length (le4 w) = 4"
  by (simp add: le4_def)

lemma le4_xor: "le4 (x XOR y) = map2 (XOR) (le4 x) (le4 y)"
  by (simp add: le4_def drop_bit_xor unsigned_xor_eq)

lemma le_bytes_xor: "length xs = length ys \<Longrightarrow> le_bytes (map2 (XOR) xs ys) = map2 (XOR) (le_bytes xs) (le_bytes ys)"
  by (induction xs ys rule: list_induct2) (simp_all add: le4_xor zip_append length_le4)

lemma le_bytes_take: "le_bytes (take n ws) = take (4 * n) (le_bytes ws)" "le_bytes (drop n ws) = drop (4 * n) (le_bytes ws)"
proof (induction ws arbitrary: n)
  case (Cons w ws)
  { case 1 show ?case using Cons by (cases n) (simp_all add: length_le4) }
  { case 2 show ?case using Cons by (cases n) (simp_all add: length_le4) }
qed simp_all

lemma le_bytes_octets: "le_bytes (octets n i ws) = octets (4 * n) i (le_bytes ws)"
  by (simp add: octets_def le_bytes_take mult.assoc)

lemma le_bytes_concat: "le_bytes (concat Ys) = concat (map le_bytes Ys)"
  by (induction Ys) simp_all

lemma salsa8_octets: "length x = 16 \<Longrightarrow> salsa20_8 (le_bytes x) = le_bytes (salsa8 x)"
  by (simp add: salsa20_8_def le_words_bytes salsa8_is_core)

section \<open>Block mix\<close>

primrec mix_words :: "u32 list \<Rightarrow> u32 list list \<Rightarrow> u32 list list" where
  "mix_words x [] = []"
| "mix_words x (b # bs) = (let x = salsa8 (map2 (XOR) x b) in x # mix_words x bs)"

lemma mix_words_octets:
  assumes "length x = 16" "\<forall>b \<in> set bs. length b = 16"
  shows "mix_blocks (le_bytes x) (map le_bytes bs) = map le_bytes (mix_words x bs) \<and>
    (\<forall>y \<in> set (mix_words x bs). length y = 16) \<and> length (mix_words x bs) = length bs"
  using assms
proof (induction bs arbitrary: x)
  case (Cons b bs)
  let ?z = "map2 (XOR) x b"
  have z: "length ?z = 16" "length (salsa8 ?z) = 16" using Cons.prems salsa8_is_core(2) [of ?z] by simp_all
  have "salsa20_8 (map2 (XOR) (le_bytes x) (le_bytes b)) = le_bytes (salsa8 ?z)"
    using le_bytes_xor [of x b] salsa8_octets [OF z(1)] Cons.prems by simp
  moreover have "\<forall>b \<in> set bs. length b = 16" using Cons.prems(2) by simp
  ultimately show ?case using Cons.IH [OF z(2)] z(2) by (simp add: Let_def)
qed simp

lemma mix_words_nth:
  "i < length bs \<Longrightarrow> mix_words x bs ! i = salsa8 (map2 (XOR) (if i = 0 then x else mix_words x bs ! (i - 1)) (bs ! i))"
proof (induction bs arbitrary: x i)
  case (Cons b bs)
  show ?case
  proof (cases i)
    case (Suc j)
    then show ?thesis using Cons.IH [of j "salsa8 (map2 (XOR) x b)"] Cons.prems by (cases j) (simp_all add: Let_def)
  qed (simp add: Let_def)
qed simp

lemma copy_blocks:
  assumes "\<And>i. i < r \<Longrightarrow> load (src i) 16 y = Inr (w i) \<and> length (w i) = 16" "length a = 16 * k" "length a + 16 * r \<le> length b" "take (length a) b = a"
  shows "\<exists>b'. efold (\<lambda>i b. ebind (load (src i) 16 y) (\<lambda>w. store ((i + k) * 16) w b)) [0 ..< r] b = Inr b' \<and>
    b' = a @ concat (map w [0 ..< r]) @ drop (length a + 16 * r) b"
proof -
  let ?I = "\<lambda>i b'. b' = a @ concat (map w [0 ..< i]) @ drop (length a + 16 * i) b"
  have "\<exists>b'. efold (\<lambda>i b. ebind (load (src i) 16 y) (\<lambda>w. store ((i + k) * 16) w b)) [0 ..< r] b = Inr b' \<and> ?I r b'"
  proof (rule efold_upt)
    show "?I 0 b" using assms(4) append_take_drop_id [of "length a" b] by simp
    show "\<exists>s'. ebind (load (src i) 16 y) (\<lambda>w. store ((i + k) * 16) w s) = Inr s' \<and> ?I (Suc i) s'" if "0 \<le> i" "i < r" "?I i s" for i s
    proof -
      have l: "length (concat (map w [0 ..< i])) = 16 * i"
        using assms(1) that(2) by (subst length_concat_const [of _ 16]) auto
      have "store ((i + k) * 16) (w i) ((a @ concat (map w [0 ..< i])) @ drop (length a + 16 * i) b) =
          Inr ((a @ concat (map w [0 ..< i])) @ w i @ drop (length (w i)) (drop (length a + 16 * i) b))"
        by (rule store_append) (use assms that(2) l in auto)
      then show ?thesis using that assms(1) [of i] by (simp add: algebra_simps)
    qed
  qed simp
  then show ?thesis .
qed

lemma blockmix_is_rfc:
  assumes len: "length b = 32 * r" and r: "1 \<le> r" "r \<le> 8"
  shows "\<exists>b'. blockmix r b = Inr b' \<and> length b' = 32 * r \<and> le_bytes b' = scryptBlockMix r (le_bytes b)"
proof -
  define bs where "bs = map (\<lambda>i. octets 16 i b) [0 ..< 2 * r]"
  have fit: "16 * i + 16 \<le> length b" if "i < 2 * r" for i using that len by simp
  have bs: "length bs = 2 * r" "\<forall>w \<in> set bs. length w = 16" using fit by (auto simp: bs_def length_octets)
  define x where "x = octets 16 (2 * r - 1) b"
  have x: "length x = 16" using r(1) fit [of "2 * r - 1"] by (simp add: x_def length_octets)
  have lx: "load (32 * r - 16) 16 b = Inr x"
    unfolding x_def using r(1) len by (intro load_octets) (simp_all add: algebra_simps)
  define Ys where "Ys = mix_words x bs"
  have mw: "mix_blocks (le_bytes x) (map le_bytes bs) = map le_bytes Ys" "\<forall>y \<in> set Ys. length y = 16" "length Ys = length bs"
    using mix_words_octets [OF x bs(2)] by (simp_all add: Ys_def)
  have lY: "length Ys = 2 * r" using mw(3) bs(1) by simp
  let ?body = "\<lambda>i (x, y). ebind (load (i * 16) 16 b) (\<lambda>w. let x = salsa8 (map2 (XOR) x w) in ebind (store (i * 16) x y) (\<lambda>y. Inr (x, y)))"
  let ?I = "\<lambda>i (x', y). x' = (if i = 0 then x else Ys ! (i - 1)) \<and> y = concat (take i Ys) @ replicate (256 - 16 * i) 0"
  have lt: "length (concat (take i Ys)) = 16 * i" if "i \<le> 2 * r" for i
    using mw(2) lY that by (subst length_concat_const [of _ 16]) (auto dest: in_set_takeD)
  have "\<exists>s'. efold ?body [0 ..< 2 * r] (x, replicate 256 0) = Inr s' \<and> ?I (2 * r) s'"
  proof (rule efold_upt)
    show "?I 0 (x, replicate 256 0)" by simp
    show "\<exists>s'. ?body i s = Inr s' \<and> ?I (Suc i) s'" if i: "0 \<le> i" "i < 2 * r" and "?I i s" for i s
    proof -
      obtain x' y where s: "s = (x', y)" "x' = (if i = 0 then x else Ys ! (i - 1))" "y = concat (take i Ys) @ replicate (256 - 16 * i) 0"
        using \<open>?I i s\<close> by (cases s) auto
      have l: "load (i * 16) 16 b = Inr (bs ! i)"
        using load_octets [of 16 i b "i * 16"] fit [OF i(2)] i(2) by (simp add: bs_def)
      have n: "salsa8 (map2 (XOR) x' (bs ! i)) = Ys ! i"
        using mix_words_nth [of i bs x] i(2) bs(1) s(2) by (simp add: Ys_def)
      have ly: "length (Ys ! i) = 16" using mw(2) lY i(2) by simp
      have "store (i * 16) (Ys ! i) y = Inr (concat (take i Ys) @ Ys ! i @ drop (length (Ys ! i)) (replicate (256 - 16 * i) 0))"
        unfolding s(3) by (rule store_append) (use ly lt i(2) r(2) in simp_all)
      also have "\<dots> = Inr (concat (take (Suc i) Ys) @ replicate (256 - 16 * Suc i) 0)"
        using ly i(2) lY by (simp add: take_Suc_conv_app_nth)
      finally show ?thesis using l n by (simp add: s(1))
    qed
  qed simp
  then obtain x' where loop: "efold ?body [0 ..< 2 * r] (x, replicate 256 0) = Inr (x', concat Ys @ replicate (256 - 16 * (2 * r)) 0)"
    using lY by (auto simp: split_def)
  let ?y = "concat Ys @ replicate (256 - 16 * (2 * r)) 0"
  have ly: "load (16 * j) 16 ?y = Inr (Ys ! j)" if "j < 2 * r" for j
  proof -
    have "16 * j + 16 \<le> length ?y" using that lt [of "2 * r"] lY r(2) by simp
    then show ?thesis using load_octets [of 16 j ?y] octets_concat [OF mw(2)] that lY by simp
  qed
  have nY: "length (Ys ! j) = 16" if "j < 2 * r" for j using mw(2) lY that by simp
  have "load (i * 32) 16 ?y = Inr (Ys ! (2 * i)) \<and> length (Ys ! (2 * i)) = 16"
    "load (i * 32 + 16) 16 ?y = Inr (Ys ! (2 * i + 1)) \<and> length (Ys ! (2 * i + 1)) = 16" if "i < r" for i
    using ly [of "2 * i"] ly [of "2 * i + 1"] nY [of "2 * i"] nY [of "2 * i + 1"] that by (simp_all add: algebra_simps)
  note loads = this
  let ?E = "concat (map (\<lambda>i. Ys ! (2 * i)) [0 ..< r])" and ?O = "concat (map (\<lambda>i. Ys ! (2 * i + 1)) [0 ..< r])"
  have lE: "length ?E = 16 * r" using nY by (subst length_concat_const [of _ 16]) auto
  have lO: "length ?O = 16 * r" using nY by (subst length_concat_const [of _ 16]) auto
  have c1: "efold (\<lambda>i b. ebind (load (i * 32) 16 ?y) (\<lambda>w. store (i * 16) w b)) [0 ..< r] b = Inr (?E @ drop (16 * r) b)"
    using copy_blocks [of r "\<lambda>i. i * 32" ?y "\<lambda>i. Ys ! (2 * i)" "[]" 0 b] loads(1) len by simp
  have c2: "efold (\<lambda>i b. ebind (load (i * 32 + 16) 16 ?y) (\<lambda>w. store ((i + r) * 16) w b)) [0 ..< r] (?E @ drop (16 * r) b) = Inr (?E @ ?O)"
    using copy_blocks [of r "\<lambda>i. i * 32 + 16" ?y "\<lambda>i. Ys ! (2 * i + 1)" ?E r "?E @ drop (16 * r) b"] loads(2) len lE by simp
  have "blockmix r b = Inr (?E @ ?O)" unfolding blockmix_def lx ebind_simps loop prod.case c1 c2 ..
  moreover have "le_bytes (?E @ ?O) = scryptBlockMix r (le_bytes b)"
  proof -
    have B: "map (\<lambda>i. octets 64 i (le_bytes b)) [0 ..< 2 * r] = map le_bytes bs" by (simp add: bs_def le_bytes_octets)
    have "map le_bytes bs ! (2 * r - 1) = le_bytes x" using r(1) bs(1) by (simp add: bs_def x_def)
    then have "mix_blocks (map le_bytes bs ! (2 * r - 1)) (map le_bytes bs) = map le_bytes Ys" using mw(1) by simp
    moreover have "map (\<lambda>i. map le_bytes Ys ! (2 * i)) [0 ..< r] = map (\<lambda>i. le_bytes (Ys ! (2 * i))) [0 ..< r]"
      "map (\<lambda>i. map le_bytes Ys ! (2 * i + 1)) [0 ..< r] = map (\<lambda>i. le_bytes (Ys ! (2 * i + 1))) [0 ..< r]" using lY by auto
    ultimately show ?thesis unfolding scryptBlockMix_def B Let_def le_bytes_simps le_bytes_concat map_map comp_def by (simp only:)
  qed
  ultimately show ?thesis using lE lO by simp
qed

section \<open>Sequential mix\<close>

lemma le_words_append: "length xs = 4 * n \<Longrightarrow> le_words (xs @ ys) = le_words xs @ le_words ys"
proof (induction n arbitrary: xs)
  case (Suc n)
  then obtain a b c d bs where "xs = a # b # c # d # bs" "length bs = 4 * n" by (auto simp: length_Suc_conv numeral_eq_Suc)
  with Suc.IH show ?case by simp
qed simp

lemma load_words:
  assumes "length b = 4 * L" "m \<le> L"
  shows "fold (\<lambda>i x. x[i div 4 := x ! (i div 4) + push_bit (i mod 4 * 8) (ucast (b ! i))]) [0 ..< 4 * m] (replicate L (0 :: u32))
    = le_words (take (4 * m) b) @ replicate (L - m) 0"
  using assms(2)
proof (induction m)
  case (Suc m)
  let ?f = "\<lambda>i (x :: u32 list). x[i div 4 := x ! (i div 4) + push_bit (i mod 4 * 8) (ucast (b ! i))]"
  let ?w = "le_words (take (4 * m) b)"
  have lw: "length ?w = m" using le_bytes_words [of "take (4 * m) b" m] Suc.prems assms(1) by simp
  have r: "replicate (L - m) (0 :: u32) = 0 # replicate (L - Suc m) 0"
    using Suc.prems by (simp add: Suc_diff_Suc flip: replicate_Suc)
  have u: "[0 ..< 4 * Suc m] = [0 ..< 4 * m] @ [4 * m, 4 * m + 1, 4 * m + 2, 4 * m + 3]"
  proof -
    have "[0 ..< 4 * m + 4] = [0 ..< 4 * m] @ [4 * m ..< 4 * m + 4]" by (rule upt_add_eq_append) simp
    moreover have "[4 * m ..< 4 * m + 4] = [4 * m, 4 * m + 1, 4 * m + 2, 4 * m + 3]" by (simp add: upt_rec)
    moreover have "4 * Suc m = 4 * m + 4" by simp
    ultimately show ?thesis by (simp only:)
  qed
  have d: "(4 * m) div 4 = m" "(4 * m + 1) div 4 = m" "(4 * m + 2) div 4 = m" "(4 * m + 3) div 4 = m"
    "(4 * m) mod 4 = 0" "(4 * m + 1) mod 4 = 1" "(4 * m + 2) mod 4 = 2" "(4 * m + 3) mod 4 = 3" by presburger+
  have t: "take (4 * Suc m) b = take (4 * m) b @ [b ! (4 * m), b ! (4 * m + 1), b ! (4 * m + 2), b ! (4 * m + 3)]"
  proof -
    have "take (4 * m + 4) b = take (4 * m) b @ take 4 (drop (4 * m) b)" by (rule take_add)
    moreover have "take 4 (drop (4 * m) b) = [b ! (4 * m), b ! (4 * m + 1), b ! (4 * m + 2), b ! (4 * m + 3)]"
      by (rule nth_equalityI) (use Suc.prems assms(1) in \<open>auto simp: less_Suc_eq numeral_eq_Suc\<close>)
    moreover have "4 * m + 4 = 4 * Suc m" by simp
    ultimately show ?thesis by (simp only:)
  qed
  have "fold ?f [0 ..< 4 * Suc m] (replicate L 0) = fold ?f [4 * m, 4 * m + 1, 4 * m + 2, 4 * m + 3] (?w @ 0 # replicate (L - Suc m) 0)"
    unfolding u fold_append comp_def using Suc r by simp
  also have "\<dots> = ?w @ (ucast (b ! (4 * m)) + push_bit 8 (ucast (b ! (4 * m + 1))) + push_bit 16 (ucast (b ! (4 * m + 2))) +
      push_bit 24 (ucast (b ! (4 * m + 3)))) # replicate (L - Suc m) 0"
    unfolding fold_simps comp_def id_def d by (simp add: lw list_update_append nth_append)
  also have "\<dots> = le_words (take (4 * Suc m) b) @ replicate (L - Suc m) 0"
    unfolding t using le_words_append [of "take (4 * m) b" m] Suc.prems assms(1) by simp
  finally show ?case .
qed simp

lemma le4_nth: "k < 4 \<Longrightarrow> le4 w ! k = ucast (drop_bit (k * 8) w)"
  by (auto simp: le4_def less_Suc_eq numeral_eq_Suc)

lemma le_bytes_nth: "i < 4 * length ws \<Longrightarrow> le_bytes ws ! i = ucast (drop_bit (i mod 4 * 8) (ws ! (i div 4)))"
proof (induction ws arbitrary: i)
  case (Cons w ws)
  show ?case
  proof (cases "i < 4")
    case True
    then show ?thesis by (simp add: nth_append length_le4 le4_nth)
  next
    case False
    then obtain j where "i = j + 4" using le_Suc_ex by (metis add.commute not_less)
    moreover have "(j + 4) div 4 = Suc (j div 4)" by simp
    ultimately show ?thesis using Cons by (simp add: nth_append length_le4)
  qed
qed simp

lemma bytes_of_words_eq: "map (\<lambda>i. ucast (drop_bit (i mod 4 * 8) (x ! (i div 4)))) [0 ..< 4 * length x] = le_bytes x"
  by (rule nth_equalityI) (simp_all add: le_bytes_nth)

lemma digits4:
  fixes n :: nat
  shows "n = a + 256 * x \<Longrightarrow> x = b + 256 * y \<Longrightarrow> y = c + 256 * z \<Longrightarrow> z = d \<Longrightarrow> n = a + 256 * (b + 256 * (c + 256 * d))"
  by simp

lemma digits8:
  fixes n :: nat
  shows "n = a + 256 * (b + 256 * (c + 256 * d)) \<Longrightarrow> a + 256 * (b + 256 * (c + 256 * (d + 256 * q))) = n + 2 ^ 32 * q"
  by simp

lemma le_nat_le4: "le_nat (le4 w @ bs) = unat w + 2 ^ 32 * le_nat bs"
proof -
  let ?n = "unat w"
  have c: "unat (ucast (drop_bit k w) :: u8) = ?n div 2 ^ k mod 256" for k
  proof -
    have "unat (drop_bit k w) = ?n div 2 ^ k" unfolding unat_drop_bit_eq by (rule drop_bit_eq_div)
    then show ?thesis by (simp add: unsigned_ucast_eq take_bit_eq_mod)
  qed
  have c0: "unat (ucast w :: u8) = ?n mod 256" using c [of 0] by simp
  have s: "?n div 2 ^ 16 = ?n div 2 ^ 8 div 256" "?n div 2 ^ 24 = ?n div 2 ^ 8 div 256 div 256" by (simp_all add: div_mult2_eq [symmetric])
  have "?n < 2 ^ 32" using unsigned_less [of w, where ?'a = nat] by simp
  then have top: "?n div 2 ^ 8 div 256 div 256 < 256" by (simp add: div_mult2_eq [symmetric] less_mult_imp_div_less)
  define n1 where "n1 = ?n div 2 ^ 8"
  define n2 where "n2 = n1 div 256"
  define n3 where "n3 = n2 div 256"
  have "?n = ?n mod 256 + 256 * (n1 mod 256 + 256 * (n2 mod 256 + 256 * (n3 mod 256)))"
    by (rule digits4 [of _ _ n1 _ n2 _ n3]) (use top in \<open>simp_all add: n1_def n2_def n3_def\<close>)
  then have "?n = ?n mod 256 + 256 * (?n div 2 ^ 8 mod 256 + 256 * (?n div 2 ^ 16 mod 256 + 256 * (?n div 2 ^ 24 mod 256)))"
    unfolding s n1_def n2_def n3_def .
  then show ?thesis unfolding le4_def append_Cons append_Nil le_nat.simps c c0 by (rule digits8)
qed

lemma Integerify_mod:
  assumes "length x = 32 * r" "1 \<le> r" "k < 32"
  shows "Integerify r (le_bytes x) mod 2 ^ k = unat (x ! ((2 * r - 1) * 16) AND (of_nat (2 ^ k) - 1))"
proof -
  let ?w = "x ! ((2 * r - 1) * 16)"
  have "(2 * r - 1) * 16 < length x" using assms by simp
  then have "octets 16 (2 * r - 1) x = ?w # take 15 (drop (Suc ((2 * r - 1) * 16)) x)"
    by (simp add: octets_def Cons_nth_drop_Suc [symmetric] mult.commute)
  then have "octets 64 (2 * r - 1) (le_bytes x) = le4 ?w @ le_bytes (take 15 (drop (Suc ((2 * r - 1) * 16)) x))"
    using le_bytes_octets [of 16 "2 * r - 1" x] by simp
  then have "Integerify r (le_bytes x) = unat ?w + 2 ^ 32 * le_nat (le_bytes (take 15 (drop (Suc ((2 * r - 1) * 16)) x)))"
    by (simp only: Integerify_def le_nat_le4)
  moreover have "(2 :: nat) ^ 32 = 2 ^ k * 2 ^ (32 - k)" using assms(3) by (simp flip: power_add)
  ultimately have "Integerify r (le_bytes x) mod 2 ^ k = unat ?w mod 2 ^ k" by (simp only: mult.assoc mod_mult_self2)
  also have "\<dots> = unat (take_bit k ?w)" unfolding unsigned_take_bit_eq by (rule take_bit_eq_mod [symmetric])
  also have "take_bit k ?w = ?w AND (of_nat (2 ^ k) - 1)" by (simp add: take_bit_eq_mask mask_eq_exp_minus_1)
  finally show ?thesis .
qed

lemma smix_is_rfc:
  assumes len: "length b = r * 128" and r: "1 \<le> r" "r \<le> 8" and n: "n = 2 ^ k" "32 * r * n < 2 ^ 31"
  shows "smix r n b = Inr (scryptROMix r n b)" "length (scryptROMix r n b) = r * 128"
proof -
  define x0 where "x0 = le_words b"
  have x0: "length x0 = 32 * r" "le_bytes x0 = b" using le_bytes_words [of b "32 * r"] len by (simp_all add: x0_def)
  define bm where "bm x = projr (blockmix r x)" for x
  have bm: "blockmix r x = Inr (bm x)" "length (bm x) = 32 * r" "le_bytes (bm x) = scryptBlockMix r (le_bytes x)"
    if "length x = 32 * r" for x using blockmix_is_rfc [OF that r] by (auto simp: bm_def)
  define X where "X i = (bm ^^ i) x0" for i
  have X: "length (X i) = 32 * r \<and> le_bytes (X i) = (scryptBlockMix r ^^ i) b" for i
    by (induction i) (simp_all add: X_def x0 bm)
  have Xs: "X (Suc i) = bm (X i)" for i by (simp add: X_def)
  have k: "k < 32"
  proof (rule ccontr)
    assume "\<not> k < 32"
    then have "(2 :: nat) ^ 32 \<le> n" unfolding n(1) by (intro power_increasing) simp_all
    moreover have "n \<le> r * n" using r(1) by simp
    moreover have "32 * (r * n) < 2 ^ 31" using n(2) by (simp only: mult.assoc)
    moreover have "(2 :: nat) ^ 32 = 4294967296" "(2 :: nat) ^ 31 = 2147483648" by simp_all
    ultimately show False by linarith
  qed
  have ld: "fold (\<lambda>i x. x[i div 4 := x ! (i div 4) + push_bit (i mod 4 * 8) (ucast (b ! i))]) [0 ..< r * 128] (replicate (32 * r) 0) = x0"
    using load_words [of b "32 * r" "32 * r"] len by (simp add: x0_def mult.commute)
  let ?I1 = "\<lambda>i (x, v). x = X i \<and> v = concat (map X [0 ..< i]) @ replicate (32 * r * n - 32 * r * i) 0"
  let ?b1 = "\<lambda>i (x, v). ebind (store (i * r * 32) x v) (\<lambda>v. ebind (blockmix r x) (\<lambda>x. Inr (x, v)))"
  have lX: "length (concat (map X [0 ..< i])) = 32 * r * i" for i
    using X by (subst length_concat_const [of _ "32 * r"]) auto
  have "\<exists>s. efold ?b1 [0 ..< n] (x0, replicate (32 * r * n) 0) = Inr s \<and> ?I1 n s"
  proof (rule efold_upt [where I = ?I1])
    show "?I1 0 (x0, replicate (32 * r * n) 0)" by (simp add: X_def)
    show "\<exists>s'. ?b1 i s = Inr s' \<and> ?I1 (Suc i) s'" if i: "0 \<le> i" "i < n" and "?I1 i s" for i s
    proof -
      obtain x v where s: "s = (x, v)" "x = X i" "v = concat (map X [0 ..< i]) @ replicate (32 * r * n - 32 * r * i) 0"
        using \<open>?I1 i s\<close> by (cases s) auto
      have fit: "32 * r * i + 32 * r \<le> 32 * r * n" using mult_le_mono2 [of "Suc i" n "32 * r"] i(2) by simp
      have "store (i * r * 32) x v = Inr (concat (map X [0 ..< i]) @ x @ drop (length x) (replicate (32 * r * n - 32 * r * i) 0))"
        unfolding s(3) by (rule store_append) (use X [of i] s(2) lX fit in \<open>simp_all add: mult.commute mult.left_commute\<close>)
      also have "\<dots> = Inr (concat (map X [0 ..< Suc i]) @ replicate (32 * r * n - 32 * r * Suc i) 0)"
        using X [of i] s(2) by simp
      finally show ?thesis using bm(1) [of x] X [of i] s(2) by (simp add: s(1) Xs)
    qed
  qed simp
  then have loop1: "efold ?b1 [0 ..< n] (x0, replicate (32 * r * n) 0) = Inr (X n, concat (map X [0 ..< n]))" by auto
  let ?v = "concat (map X [0 ..< n])"
  let ?V = "\<lambda>i. (scryptBlockMix r ^^ i) b"
  let ?step = "\<lambda>Y. scryptBlockMix r (map2 (XOR) Y (?V (Integerify r Y mod n)))"
  let ?b2 = "\<lambda>i x. let j = x ! ((2 * r - 1) * 16) AND (of_nat n - 1)
    in ebind (load (unat (j * of_nat r * 32)) (r * 32) ?v) (\<lambda>w. blockmix r (map2 (XOR) x w))"
  let ?I2 = "\<lambda>i x. length x = 32 * r \<and> le_bytes x = (?step ^^ i) (?V n)"
  have "\<exists>s. efold ?b2 [0 ..< n] (X n) = Inr s \<and> ?I2 n s"
  proof (rule efold_upt [where I = ?I2])
    show "?I2 0 (X n)" using X by simp
    show "\<exists>s'. ?b2 i x = Inr s' \<and> ?I2 (Suc i) s'" if "?I2 i x" for i x
    proof -
      let ?j = "x ! ((2 * r - 1) * 16) AND (of_nat n - 1)"
      have j: "unat ?j = Integerify r (le_bytes x) mod n" using Integerify_mod [of x r k] that r(1) k by (simp add: n(1))
      then have jn: "unat ?j < n" by (simp add: n(1))
      have fit: "unat ?j * r * 32 + 32 * r \<le> 32 * r * n" using mult_le_mono2 [of "Suc (unat ?j)" n "32 * r"] jn by (simp add: mult.commute mult.left_commute)
      have "unat (?j * of_nat r * 32) = unat ?j * r * 32"
      proof -
        have "?j * of_nat r * 32 = of_nat (unat ?j * r * 32)" by simp
        moreover have "unat ?j * r * 32 < 2 ^ 31" using add_leD1 [OF fit] n(2) by (rule le_less_trans)
        ultimately show ?thesis by (simp add: unat_of_nat del: of_nat_mult)
      qed
      moreover have "load (unat ?j * r * 32) (32 * r) ?v = Inr (X (unat ?j))"
      proof -
        have "load (unat ?j * r * 32) (32 * r) ?v = Inr (octets (32 * r) (unat ?j) ?v)"
          by (rule load_octets) (use fit lX [of n] in \<open>simp_all add: mult.commute mult.left_commute\<close>)
        then show ?thesis using octets_concat [of "map X [0 ..< n]" "32 * r" "unat ?j" "[]"] X jn by simp
      qed
      ultimately have ld: "load (unat (?j * of_nat r * 32)) (r * 32) ?v = Inr (X (unat ?j))" by (simp add: mult.commute)
      let ?z = "map2 (XOR) x (X (unat ?j))"
      have lz: "length ?z = 32 * r" using that X by simp
      have z: "le_bytes ?z = map2 (XOR) (le_bytes x) (?V (unat ?j))" using le_bytes_xor [of x "X (unat ?j)"] that X by simp
      have "le_bytes (bm ?z) = scryptBlockMix r (map2 (XOR) (le_bytes x) (?V (unat ?j)))" using bm(3) [OF lz] unfolding z .
      then have "le_bytes (bm ?z) = ?step (le_bytes x)" by (simp only: j)
      then have "?I2 (Suc i) (bm ?z)" using bm(2) [OF lz] that by simp
      then show ?thesis using bm(1) [OF lz] unfolding Let_def ld ebind_simps by blast
    qed
  qed simp
  then obtain x where loop2: "efold ?b2 [0 ..< n] (X n) = Inr x" "length x = 32 * r" "le_bytes x = (?step ^^ n) (?V n)" by blast
  have rom: "scryptROMix r n b = le_bytes x" unfolding loop2(3) scryptROMix_def Let_def ..
  have out: "map (\<lambda>i. ucast (drop_bit (i mod 4 * 8) (x ! (i div 4)))) [0 ..< r * 128] = le_bytes x"
    using bytes_of_words_eq [of x] loop2(2) by (simp add: mult.commute)
  show "smix r n b = Inr (scryptROMix r n b)"
    unfolding rom smix_def ld Let_def loop1 ebind_simps prod.case using loop2(1) out by (simp add: Let_def)
  show "length (scryptROMix r n b) = r * 128" unfolding rom using loop2(2) by simp
qed

section \<open>The key\<close>

lemma scrypt_is_rfc:
  assumes "length pw \<le> 64" and r: "1 \<le> r" "r \<le> 8" and n: "n = 2 ^ k" "32 * r * n < 2 ^ 31" and "buflen = 32 * m"
  shows "scrypt pw salt n r p buflen = Inr (rfc_scrypt pw salt n r p buflen)"
proof -
  define b where "b = rfc_pbkdf2 pw salt 1 (p * r * 128)"
  have b: "pbkdf2 pw salt (p * r * 128) = Inr b" "length b = p * r * 128"
    using pbkdf2_is_rfc [OF assms(1), of "p * r * 128" "p * r * 4" salt] by (simp_all add: b_def)
  let ?M = "\<lambda>j. scryptROMix r n (octets (128 * r) j b)"
  have M: "smix r n (octets (128 * r) j b) = Inr (?M j)" "length (?M j) = 128 * r" if "j < p" for j
  proof -
    have "128 * r * j + 128 * r \<le> length b" using mult_le_mono2 [of "Suc j" p "128 * r"] that b(2) by (simp add: algebra_simps)
    then have "length (octets (128 * r) j b) = r * 128" by (simp add: length_octets)
    from smix_is_rfc [OF this r n] show "smix r n (octets (128 * r) j b) = Inr (?M j)" "length (?M j) = 128 * r" by simp_all
  qed
  let ?body = "\<lambda>i b. ebind (load (i * r * 128) (r * 128) b) (\<lambda>s. ebind (smix r n s) (\<lambda>s. store (i * r * 128) s b))"
  let ?I = "\<lambda>i b'. b' = concat (map ?M [0 ..< i]) @ drop (128 * r * i) b"
  have "\<exists>s. efold ?body [0 ..< p] b = Inr s \<and> ?I p s"
  proof (rule efold_upt [where I = ?I])
    show "?I 0 b" by simp
    show "\<exists>s'. ?body i b' = Inr s' \<and> ?I (Suc i) s'" if i: "0 \<le> i" "i < p" and I: "?I i b'" for i b'
    proof -
      have fit: "128 * r * i + 128 * r \<le> length b" using mult_le_mono2 [of "Suc i" p "128 * r"] i(2) b(2) by (simp add: algebra_simps)
      have lM: "length (concat (map ?M [0 ..< i])) = 128 * r * i"
        using M(2) i(2) by (subst length_concat_const [of _ "128 * r"]) auto
      have "load (i * r * 128) (r * 128) b' = Inr (octets (128 * r) i b)"
        using fit lM unfolding I by (simp add: load_def octets_def mult.commute mult.left_commute)
      moreover have "store (i * r * 128) (?M i) b' = Inr (concat (map ?M [0 ..< i]) @ ?M i @ drop (length (?M i)) (drop (128 * r * i) b))"
        unfolding I by (rule store_append) (use M(2) [OF i(2)] fit lM in \<open>simp_all add: mult.commute mult.left_commute\<close>)
      ultimately show ?thesis using M [OF i(2)] by (simp add: algebra_simps)
    qed
  qed simp
  then have "efold ?body [0 ..< p] b = Inr (concat (map ?M [0 ..< p]))" using b(2) by (auto simp: algebra_simps)
  moreover have "rfc_scrypt pw salt n r p buflen = rfc_pbkdf2 pw (concat (map ?M [0 ..< p])) 1 buflen"
    unfolding rfc_scrypt_def Let_def b_def by (simp add: ac_simps)
  ultimately show ?thesis using b(1) pbkdf2_is_rfc(1) [OF assms(1,6)] by (simp add: scrypt_def)
qed

text \<open>C25. The key of an encrypted archive is the standard's: \<open>stretchKey\<close> returns scrypt, as RFC 7914 defines it (on
  PBKDF2 of RFC 2898, HMAC of RFC 2104, the hash of FIPS 180-4 and Salsa20), of the first 32 bytes of the
  password hash and of the salt, with N = 16384, r = 8 and p = 1; the loops end and no copy of words leaves an
  array.  Zeros in the salt do not end it.\<close>

theorem stretchKey_is_scrypt:
  assumes "32 \<le> length inp" "32 \<le> length salt"
  shows "stretchKey inp salt = Inr (rfc_scrypt (take 32 inp) (take 32 salt) 16384 8 1 32)"
  using scrypt_is_rfc [of "take 32 inp" 8 16384 14 32 1 "take 32 salt" 1] assms by (simp add: stretchKey_def)

theorem stretchKey_is_scrypt_witness:
  "stretchKey (replicate 32 7) (0 # replicate 40 9) = Inr (rfc_scrypt (take 32 (replicate 32 7)) (take 32 (0 # replicate 40 9)) 16384 8 1 32)"
  by (rule stretchKey_is_scrypt) simp_all

end
