(* ===== verification/Zpaq_Lz77.thy ===== *)
theory Zpaq_Lz77
  imports Backup_Prelude
begin

text \<open>
  The preprocessors of the archiver (\<open>zpaq715/libzpaq.cpp\<close>): the \<open>E8E9\<close> transform of x86 code and the class
  \<open>LZBuffer\<close>, which turns a block into LZ77 codes (level 1, of variable length; level 2, byte aligned) or into its
  Burrows-Wheeler transform (level 3).

  The record \<open>LZBuffer\<close> has the members of the class.  The input is the block followed by what its buffer has
  allocated behind it, since the search can read there; an access outside an array is \<open>Undefined\<close>.  \<open>lz_buf\<close>
  is \<open>buf[0..wpos)\<close>.  The suffix array and its inverse, which the class keeps in \<open>ht\<close>, have members of their
  own.  Positions and lengths are natural numbers (a block has less than \<open>2\<^sup>3\<^sup>1\<close> bytes), with the wrap-around of
  \<open>unsigned\<close> written out where a subtraction can go below zero; hashes and table entries are words.
  The suffix sorter (\<open>divsufsort\<close>) is a parameter.
\<close>

unbundle bit_operations_syntax

section \<open>Definitions\<close>

subsection \<open>E8E9\<close>

text \<open>One iteration of \<open>e8e9\<close>, at the offset \<open>i\<close>.\<close>

definition e8e9_at :: "nat \<Rightarrow> u8 list \<Rightarrow> u8 list" where
  "e8e9_at i buf =
     (if buf ! i AND 254 = 0xe8 \<and> (uint (buf ! (i + 4)) + 1) AND 254 = 0
      then let a = ((ucast (buf ! (i + 1)) :: u32) OR push_bit 8 (ucast (buf ! (i + 2)))
                    OR push_bit 16 (ucast (buf ! (i + 3)))) + of_nat i
           in buf[i + 1 := ucast a, i + 2 := ucast (drop_bit 8 a), i + 3 := ucast (drop_bit 16 a)]
      else buf)"

text \<open>\<open>for (int i=n-5; i>=0; --i)\<close>\<close>

primrec e8e9_down :: "nat \<Rightarrow> u8 list \<Rightarrow> u8 list" where
  "e8e9_down 0 buf = buf"
| "e8e9_down (Suc i) buf = e8e9_down i (e8e9_at i buf)"

definition e8e9 :: "u8 list \<Rightarrow> u8 list" where
  "e8e9 buf = e8e9_down (length buf - 4) buf"

subsection \<open>Numbers of bits\<close>

definition lg :: "nat \<Rightarrow> nat" where
  "lg x =
     (let (r, x) = (if 65536 \<le> x then (16, x div 2 ^ 16) else (0, x));
          (r, x) = (if 256 \<le> x then (r + 8, x div 2 ^ 8) else (r, x));
          (r, x) = (if 16 \<le> x then (r + 4, x div 2 ^ 4) else (r, x))
      in [0, 1, 2, 2, 3, 3, 3, 3, 4, 4, 4, 4, 4, 4, 4, 4] ! x + r)"

function nbits :: "nat \<Rightarrow> nat" where
  "nbits x = (if x = 0 then 0 else x mod 2 + nbits (x div 2))"
  by auto
termination by (relation "measure id") auto

declare nbits.simps [simp del]

subsection \<open>State\<close>

record LZBuffer =
  lz_in :: "u8 list" \<comment> \<open>the block and the bytes allocated behind it\<close>
  lz_n :: nat
  ht :: "u32 list"
  lz_sa :: "nat list"
  lz_isa :: "nat list option"
  checkbits :: nat
  lz_level :: nat
  minMatch :: nat
  minMatch2 :: nat
  maxMatch :: nat
  maxLiteral :: nat
  lookahead :: nat
  bucket :: nat
  shift1 :: nat
  shift2 :: nat
  minMatchBoth :: nat
  lz_rb :: nat
  lz_i :: nat
  h1 :: u32
  h2 :: u32
  lz_bits :: u32
  lz_nbits :: nat
  lz_idx :: nat
  lz_buf :: "u8 list"
  lz_rpos :: nat

definition BUFSIZE :: nat where
  "BUFSIZE = 16384"

definition at :: "'a list \<Rightarrow> nat \<Rightarrow> 'a result" where
  "at xs k = (if k < length xs then Inr (xs ! k) else Inl Undefined)"

definition upd :: "'a list \<Rightarrow> nat \<Rightarrow> 'a \<Rightarrow> 'a list result" where
  "upd xs k x = (if k < length xs then Inr (xs[k := x]) else Inl Undefined)"

definition inb :: "LZBuffer \<Rightarrow> nat \<Rightarrow> u8 result" where
  "inb s k = at (lz_in s) k"

text \<open>\<open>a-b\<close> of two \<open>unsigned\<close>, and \<open>x<<k\<close>, undefined for a count of 32 or more\<close>

definition usub :: "nat \<Rightarrow> nat \<Rightarrow> nat" where
  "usub a b = (if b \<le> a then a - b else a + 2 ^ 32 - b)"

definition shl :: "u32 \<Rightarrow> nat \<Rightarrow> u32 result" where
  "shl x k = (if k < 32 then Inr (push_bit k x) else Inl Undefined)"

text \<open>The constructor: \<open>data\<close> is the block, \<open>beyond\<close> what is allocated behind it, \<open>sap\<close> an external suffix
  array.\<close>

definition new_LZBuffer :: "(u8 list \<Rightarrow> nat list) \<Rightarrow> u8 list \<Rightarrow> u8 list \<Rightarrow> nat list \<Rightarrow> nat list option \<Rightarrow> LZBuffer result" where
  "new_LZBuffer divsufsort dat beyond args sap =
     (let level = args ! 1 AND 3; n = length dat;
          hashed = args ! 5 < 21 + args ! 0;
          minM = args ! 2; minM2 = args ! 3; look = args ! 6
      in if minM < 4 \<and> level = 1 \<or> minM < 1 \<and> level = 2 then Inl (Thrown ''match length $3 too small'')
         else
           let dat = (if 4 < args ! 1 \<and> sap = None then e8e9 dat else dat);
               sorted = \<not> hashed \<or> level = 3
           in Inr \<lparr>lz_in = dat @ beyond, lz_n = n,
                   ht = (if level \<noteq> 3 \<and> hashed then replicate (2 ^ (args ! 5)) 0 else []),
                   lz_sa = (if sorted then (case sap of Some sa \<Rightarrow> sa | None \<Rightarrow> if 0 < n then divsufsort dat else [0]) else []),
                   lz_isa = (if sorted \<and> level < 3 then Some (replicate (2 ^ (17 + args ! 0)) 0) else None),
                   checkbits = (if hashed then 12 - args ! 0 else 17 + args ! 0),
                   lz_level = level, minMatch = minM, minMatch2 = minM2,
                   maxMatch = BUFSIZE * 3, maxLiteral = BUFSIZE div 4, lookahead = look,
                   bucket = 2 ^ (args ! 4) - 1,
                   shift1 = (if 0 < minM then usub (args ! 5) 1 div minM + 1 else 1),
                   shift2 = (if 0 < minM2 then usub (args ! 5) 1 div minM2 + 1 else 0),
                   minMatchBoth = max minM (minM2 + look) + 4,
                   lz_rb = (if 4 < args ! 0 then args ! 0 - 4 else 0),
                   lz_i = 0, h1 = 0, h2 = 0, lz_bits = 0, lz_nbits = 0, lz_idx = 0, lz_buf = [], lz_rpos = 0\<rparr>)"

subsection \<open>Output\<close>

text \<open>\<open>put(c)\<close>: one byte.\<close>

definition lz_put :: "u8 \<Rightarrow> LZBuffer \<Rightarrow> LZBuffer result" where
  "lz_put c s = (if length (lz_buf s) < BUFSIZE then Inr (s\<lparr>lz_buf := lz_buf s @ [c]\<rparr>) else Inl Undefined)"

primrec lz_puts :: "u8 list \<Rightarrow> LZBuffer \<Rightarrow> LZBuffer result" where
  "lz_puts [] s = Inr s"
| "lz_puts (c # cs) s = ebind (lz_put c s) (lz_puts cs)"

text \<open>\<open>putb(x, k)\<close>: the low \<open>k\<close> bits of \<open>x\<close>.\<close>

function putb_bytes :: "LZBuffer \<Rightarrow> LZBuffer result" where
  "putb_bytes s =
     (if 7 < lz_nbits s
      then ebind (lz_put (ucast (lz_bits s)) s)
             (\<lambda>t. putb_bytes (t\<lparr>lz_bits := drop_bit 8 (lz_bits s), lz_nbits := lz_nbits s - 8\<rparr>))
      else Inr s)"
  by auto
termination by (relation "measure lz_nbits") auto

declare putb_bytes.simps [simp del]

definition putb :: "u32 \<Rightarrow> nat \<Rightarrow> LZBuffer \<Rightarrow> LZBuffer result" where
  "putb x k s =
     (let x = x AND (push_bit k 1 - 1)
      in putb_bytes (s\<lparr>lz_bits := lz_bits s OR push_bit (lz_nbits s) x, lz_nbits := lz_nbits s + k\<rparr>))"

definition lz_flush :: "LZBuffer \<Rightarrow> LZBuffer result" where
  "lz_flush s =
     ebind (if 0 < lz_nbits s then lz_put (ucast (lz_bits s)) s else Inr s)
       (\<lambda>s. Inr (s\<lparr>lz_bits := 0, lz_nbits := 0\<rparr>))"

text \<open>The interleaved Elias gamma code of \<open>x\<close> from the bit \<open>k-1\<close> down to the bit \<open>stop\<close>:
  \<open>while (--ll>=stop) {putb(1, 1); putb((x>>ll)&1, 1);}\<close>\<close>

fun put_gamma :: "nat \<Rightarrow> nat \<Rightarrow> nat \<Rightarrow> LZBuffer \<Rightarrow> LZBuffer result" where
  "put_gamma x stop k s =
     (if stop < k then ebind (putb 1 1 s) (\<lambda>s. ebind (putb (of_nat (x div 2 ^ (k - 1) mod 2)) 1 s) (put_gamma x stop (k - 1)))
      else Inr s)"

declare put_gamma.simps [simp del]

text \<open>\<open>while (lit) putb(in[i-lit--], 8)\<close>\<close>

primrec put_literal_bits :: "nat \<Rightarrow> nat \<Rightarrow> LZBuffer \<Rightarrow> LZBuffer result" where
  "put_literal_bits i 0 s = Inr s"
| "put_literal_bits i (Suc lit) s =
     ebind (inb s (usub i (Suc lit))) (\<lambda>c. ebind (putb (ucast c) 8 s) (put_literal_bits i lit))"

text \<open>\<open>for (unsigned j=i-lit; j<i-lit+lit1; ++j) put(in[j])\<close>\<close>

primrec put_range :: "nat \<Rightarrow> nat \<Rightarrow> LZBuffer \<Rightarrow> LZBuffer result" where
  "put_range j 0 s = Inr s"
| "put_range j (Suc k) s = ebind (inb s j) (\<lambda>c. ebind (lz_put c s) (put_range (Suc j) k))"

function put_literals :: "nat \<Rightarrow> nat \<Rightarrow> LZBuffer \<Rightarrow> LZBuffer result" where
  "put_literals i lit s =
     (if 0 < lit
      then let lit1 = (if 64 < lit then 64 else lit)
           in ebind (lz_put (of_nat (lit1 - 1)) s) (\<lambda>s.
              ebind (put_range (usub i lit) lit1 s) (put_literals i (lit - lit1)))
      else Inr s)"
  by pat_completeness auto
termination by (relation "measure (\<lambda>(i, lit, s). lit)") (auto split: if_splits)

declare put_literals.simps [simp del]

text \<open>\<open>write_literal(i, lit)\<close>; the caller's \<open>lit\<close> is 0 afterwards.\<close>

definition write_literal :: "nat \<Rightarrow> nat \<Rightarrow> LZBuffer \<Rightarrow> LZBuffer result" where
  "write_literal i lit s =
     (if lz_level s = 1 then
        if lit < 1 then Inr s
        else ebind (putb 0 2 s) (\<lambda>s.
             ebind (put_gamma lit 0 (lg lit - 1) s) (\<lambda>s.
             ebind (putb 0 1 s) (put_literal_bits i lit)))
      else put_literals i lit s)"

function put_matches :: "nat \<Rightarrow> nat \<Rightarrow> LZBuffer \<Rightarrow> LZBuffer result" where
  "put_matches len off s =
     (if 0 < len
      then let len1 = (if minMatch s * 2 + 63 < len then minMatch s + 63
                       else if minMatch s + 63 < len then len - minMatch s else len);
               code = of_nat len1 - of_nat (minMatch s);
               byte = (\<lambda>k. of_nat (off div 2 ^ k) :: u8)
           in ebind (lz_puts (if off < 2 ^ 16 then [64 + code, byte 8, byte 0]
                              else if off < 2 ^ 24 then [128 + code, byte 16, byte 8, byte 0]
                              else [192 + code, byte 24, byte 16, byte 8, byte 0]) s)
                (put_matches (len - len1) off)
      else Inr s)"
  by pat_completeness auto
termination by (relation "measure (\<lambda>(len, off, s). len)") (auto simp: Let_def split: if_splits)

declare put_matches.simps [simp del]

definition write_match :: "nat \<Rightarrow> nat \<Rightarrow> LZBuffer \<Rightarrow> LZBuffer result" where
  "write_match len off s =
     (if lz_level s = 1 then
        let rb = lz_rb s; ll = lg len - 1; off = off + 2 ^ rb - 1; lo = lg off - 1 - rb
        in ebind (putb (of_nat ((lo + 8) div 8)) 2 s) (\<lambda>s.
           ebind (putb (of_nat (lo mod 8)) 3 s) (\<lambda>s.
           ebind (put_gamma len 2 ll s) (\<lambda>s.
           ebind (putb 0 1 s) (\<lambda>s.
           ebind (putb (of_nat (len mod 4)) 2 s) (\<lambda>s.
           ebind (putb (of_nat off) rb s) (putb (of_nat (off div 2 ^ rb)) lo))))))
      else put_matches len (off - 1) s)"

subsection \<open>Search\<close>

record best =
  blen :: nat
  bp :: nat
  blit :: nat
  bscore :: int

text \<open>\<open>for (; i+l<n && l<maxMatch && in[p+l]==in[i+l]; ++l)\<close>\<close>

function match_len :: "LZBuffer \<Rightarrow> nat \<Rightarrow> nat \<Rightarrow> nat result" where
  "match_len s p l =
     (if lz_i s + l < lz_n s \<and> l < maxMatch s
      then ebind (inb s (p + l)) (\<lambda>x. ebind (inb s (lz_i s + l)) (\<lambda>y.
             if x = y then match_len s p (Suc l) else Inr l))
      else Inr l)"
  by pat_completeness auto
termination by (relation "measure (\<lambda>(s, p, l). lz_n s - (lz_i s + l))") auto

declare match_len.simps [simp del]

text \<open>\<open>for (; l1>0 && in[p+l1-1]==in[i+l1-1]; --l1)\<close>\<close>

primrec match_back :: "LZBuffer \<Rightarrow> nat \<Rightarrow> nat \<Rightarrow> nat result" where
  "match_back s p 0 = Inr 0"
| "match_back s p (Suc l) =
     ebind (inb s (p + l)) (\<lambda>x. ebind (inb s (lz_i s + l)) (\<lambda>y.
       if x = y then match_back s p l else Inr (Suc l)))"

text \<open>\<open>score*5/8\<close>, truncated\<close>

definition damp :: "int \<Rightarrow> int" where
  "damp score = (if score < 0 then - ((- score * 5) div 8) else score * 5 div 8)"

definition better :: "int \<Rightarrow> nat \<Rightarrow> nat \<Rightarrow> nat \<Rightarrow> best \<Rightarrow> best" where
  "better score l p l1 b = (if bscore b < score then \<lparr>blen = l, bp = p, blit = l1, bscore = score\<rparr> else b)"

text \<open>The suffix array: one neighbour of \<open>sa[q]\<close>, the neighbours on one side until one is too short, both sides.\<close>

definition sa_try :: "LZBuffer \<Rightarrow> nat \<Rightarrow> nat \<Rightarrow> nat \<Rightarrow> bool \<Rightarrow> nat \<Rightarrow> best \<Rightarrow> (bool \<times> best) result" where
  "sa_try s lit h q up k b =
     (let x = (if up then q + k else usub q k)
      in if x < lz_n s
         then ebind (at (lz_sa s) x) (\<lambda>pos.
              let p = usub pos h
              in if p < lz_i s
                 then ebind (match_len s p h) (\<lambda>l. ebind (match_back s p h) (\<lambda>l1.
                        let score = int (l - l1) * 8 - int (lg (lz_i s - p)) - (if lit = 0 \<and> 0 < l1 then 4 else 0) - 11;
                            b = better ((damp ^^ h) score) l p l1 b
                        in Inr (l < blen b \<or> l < minMatch s \<or> 255 < l, b)))
                 else Inr (False, b))
         else Inr (False, b))"

fun sa_side :: "LZBuffer \<Rightarrow> nat \<Rightarrow> nat \<Rightarrow> nat \<Rightarrow> bool \<Rightarrow> nat list \<Rightarrow> best \<Rightarrow> best result" where
  "sa_side s lit h q up [] b = Inr b"
| "sa_side s lit h q up (k # ks) b =
     ebind (sa_try s lit h q up k b) (\<lambda>(stop, b). if stop then Inr b else sa_side s lit h q up ks b)"

text \<open>\<open>for (unsigned h=0; h<=lookahead; ++h)\<close>\<close>

fun sa_search :: "LZBuffer \<Rightarrow> nat list \<Rightarrow> nat \<Rightarrow> nat list \<Rightarrow> best \<Rightarrow> best result" where
  "sa_search s isa lit [] b = Inr b"
| "sa_search s isa lit (h # hs) b =
     ebind (at isa ((h + lz_i s) mod 2 ^ checkbits s)) (\<lambda>q. ebind (at (lz_sa s) q) (\<lambda>pos.
       if pos \<noteq> h + lz_i s then sa_search s isa lit hs b
       else ebind (sa_side s lit h q False [1..<bucket s + 1] b) (\<lambda>b.
            ebind (sa_side s lit h q True [1..<bucket s + 1] b) (\<lambda>b.
            if bscore b \<le> 0 \<or> blen b < minMatch s then Inr b else sa_search s isa lit hs b))))"

text \<open>\<open>if (sa[isa[i&mask]]!=i)\<close>: the part of the inverse for the positions that agree with \<open>i\<close> above the mask.\<close>

primrec isa_fill :: "LZBuffer \<Rightarrow> nat list \<Rightarrow> nat list \<Rightarrow> nat list result" where
  "isa_fill s [] isa = Inr isa"
| "isa_fill s (j # js) isa =
     ebind (at (lz_sa s) j) (\<lambda>pos.
       if pos div 2 ^ checkbits s = lz_i s div 2 ^ checkbits s
       then ebind (upd isa (pos mod 2 ^ checkbits s) j) (isa_fill s js)
       else isa_fill s js isa)"

definition isa_rebuild :: "LZBuffer \<Rightarrow> nat list \<Rightarrow> nat list result" where
  "isa_rebuild s isa =
     ebind (at isa (lz_i s mod 2 ^ checkbits s)) (\<lambda>q. ebind (at (lz_sa s) q) (\<lambda>pos.
       if pos \<noteq> lz_i s then isa_fill s [0..<lz_n s] isa else Inr isa))"

text \<open>The hash table: the entry of the longer context, of the shorter one, and a bucket of either.\<close>

definition confirm :: "LZBuffer \<Rightarrow> u32 \<Rightarrow> u8 \<Rightarrow> bool" where
  "confirm s p c = (take_bit (checkbits s) p = take_bit (checkbits s) (ucast c))"

definition same_last :: "LZBuffer \<Rightarrow> nat \<Rightarrow> best \<Rightarrow> bool result" where
  "same_last s p b =
     (if p < lz_i s \<and> lz_i s + blen b \<le> lz_n s
      then ebind (inb s (usub (p + blen b) 1)) (\<lambda>x. ebind (inb s (usub (lz_i s + blen b) 1)) (\<lambda>y. Inr (x = y)))
      else Inr False)"

definition try_long :: "LZBuffer \<Rightarrow> nat \<Rightarrow> nat \<Rightarrow> best \<Rightarrow> best result" where
  "try_long s lit k b =
     ebind (at (ht s) (unat (h2 s XOR of_nat k))) (\<lambda>e.
       if e = 0 then Inr b
       else ebind (inb s (lz_i s + 3)) (\<lambda>c.
         if \<not> confirm s e c then Inr b
         else let p = unat (drop_bit (checkbits s) e)
              in ebind (same_last s p b) (\<lambda>same.
                 if \<not> same then Inr b
                 else ebind (match_len s p (lookahead s)) (\<lambda>l.
                      if l < minMatch2 s + lookahead s then Inr b
                      else ebind (match_back s p (lookahead s)) (\<lambda>l1.
                           Inr (better (int (l - l1) * 8 - int (lg (lz_i s - p))
                                        - (if lit = 0 \<and> 0 < l1 then 8 else 0) - 11) l p l1 b))))))"

definition try_short :: "LZBuffer \<Rightarrow> nat \<Rightarrow> nat \<Rightarrow> best \<Rightarrow> best result" where
  "try_short s lit k b =
     ebind (at (ht s) (unat (h1 s XOR of_nat k))) (\<lambda>e.
       if e = 0 \<or> lz_n s \<le> lz_i s + 3 then Inr b
       else ebind (inb s (lz_i s + 3)) (\<lambda>c.
         if \<not> confirm s e c then Inr b
         else let p = unat (drop_bit (checkbits s) e)
              in ebind (same_last s p b) (\<lambda>same.
                 if \<not> same then Inr b
                 else ebind (match_len s p 0) (\<lambda>l.
                      Inr (better (int l * 8 - int (lg (lz_i s - p)) - (if 0 < lit then 2 else 0) - 11) l p 0 b)))))"

fun bucket_search :: "(nat \<Rightarrow> best \<Rightarrow> best result) \<Rightarrow> nat list \<Rightarrow> best \<Rightarrow> best result" where
  "bucket_search f [] b = Inr b"
| "bucket_search f (k # ks) b = ebind (f k b) (\<lambda>b. if 128 \<le> blen b then Inr b else bucket_search f ks b)"

text \<open>The search for the best match at \<open>i\<close>; also the state, since the inverse suffix array may be rebuilt.\<close>

definition lz_search :: "nat \<Rightarrow> LZBuffer \<Rightarrow> (best \<times> LZBuffer) result" where
  "lz_search lit s =
     (let b = \<lparr>blen = minMatch s - 1, bp = 0, blit = 0, bscore = 0\<rparr>
      in case lz_isa s of
           Some isa \<Rightarrow>
             ebind (isa_rebuild s isa) (\<lambda>isa.
               ebind (sa_search s isa lit [0..<lookahead s + 1] b) (\<lambda>b. Inr (b, s\<lparr>lz_isa := Some isa\<rparr>)))
         | None \<Rightarrow>
             if lz_level s = 1 \<or> minMatch s \<le> 64
             then ebind (if 0 < minMatch2 s then bucket_search (try_long s lit) [0..<bucket s + 1] b else Inr b) (\<lambda>b.
                  ebind (if minMatch2 s = 0 \<or> blen b < minMatch2 s
                         then bucket_search (try_short s lit) [0..<bucket s + 1] b else Inr b) (\<lambda>b. Inr (b, s)))
             else Inr (b, s))"

subsection \<open>Encoding\<close>

text \<open>The hash of the context that ends before \<open>c\<close>: \<open>((h*k<<shift)+(c+1)*m)&(htsize-1)\<close>\<close>

definition next_hash :: "LZBuffer \<Rightarrow> u32 \<Rightarrow> u32 \<Rightarrow> nat \<Rightarrow> u8 \<Rightarrow> u32 \<Rightarrow> u32 result" where
  "next_hash s h k sh c m =
     ebind (shl (h * k) sh) (\<lambda>x. Inr ((x + (ucast c + 1) * m) AND (of_nat (length (ht s)) - 1)))"

text \<open>One turn of \<open>while (blen--)\<close> without a suffix array.\<close>

definition lz_index :: "LZBuffer \<Rightarrow> LZBuffer result" where
  "lz_index s =
     ebind
       (if lz_i s + minMatchBoth s < lz_n s
        then let ih = drop_bit 19 (of_nat (lz_i s) * 1234547 :: u32) AND of_nat (bucket s)
             in ebind (shl (of_nat (lz_i s)) (checkbits s)) (\<lambda>top.
                ebind (inb s (lz_i s + 3)) (\<lambda>c3.
                let p = top OR take_bit (checkbits s) (ucast c3)
                in ebind (if 0 < minMatch2 s
                          then ebind (upd (ht s) (unat (h2 s XOR ih)) p) (\<lambda>t.
                               ebind (inb s (lz_i s + minMatch2 s + lookahead s)) (\<lambda>c.
                               ebind (next_hash s (h2 s) 9 (shift2 s) c 23456789) (\<lambda>h. Inr (s\<lparr>ht := t, h2 := h\<rparr>))))
                          else Inr s) (\<lambda>s.
                   ebind (upd (ht s) (unat (h1 s XOR ih)) p) (\<lambda>t.
                   ebind (inb s (lz_i s + minMatch s)) (\<lambda>c.
                   ebind (next_hash s (h1 s) 5 (shift1 s) c 123456791) (\<lambda>h. Inr (s\<lparr>ht := t, h1 := h\<rparr>)))))))
        else Inr s)
       (\<lambda>s. Inr (s\<lparr>lz_i := lz_i s + 1\<rparr>))"

primrec lz_advance :: "nat \<Rightarrow> LZBuffer \<Rightarrow> LZBuffer result" where
  "lz_advance 0 s = Inr s"
| "lz_advance (Suc k) s = ebind (lz_index s) (lz_advance k)"

text \<open>The pending literals and the match that was found; then the index is updated for the \<open>len\<close> bytes, and long
  literals are written to keep the buffer from filling up.\<close>

definition lz_match :: "nat \<Rightarrow> best \<Rightarrow> LZBuffer \<Rightarrow> LZBuffer result" where
  "lz_match lit b s =
     ebind (write_literal (lz_i s + blit b) (lit + blit b) s)
       (write_match (usub (blen b) (blit b)) (usub (lz_i s) (bp b)))"

definition lz_finish :: "nat \<Rightarrow> nat \<Rightarrow> LZBuffer \<Rightarrow> (nat \<times> LZBuffer) result" where
  "lz_finish len lit s =
     ebind (if lz_isa s \<noteq> None then Inr (s\<lparr>lz_i := lz_i s + len\<rparr>) else lz_advance len s) (\<lambda>s.
       if maxLiteral s \<le> lit then ebind (write_literal (lz_i s) lit s) (\<lambda>s. Inr (0, s)) else Inr (lit, s))"

text \<open>One iteration of the scan: the pending literals and the state afterwards.\<close>

definition lz_step :: "nat \<Rightarrow> LZBuffer \<Rightarrow> (nat \<times> LZBuffer) result" where
  "lz_step lit s =
     ebind (lz_search lit s) (\<lambda>(b, s).
       let off = usub (lz_i s) (bp b);
           more = (if lz_level s = 2 then (if 2 ^ 16 \<le> off then 1 else 0) + (if 2 ^ 24 \<le> off then 1 else 0) else 0)
       in if 0 < off \<and> 0 < bscore b \<and> minMatch s + more \<le> usub (blen b) (blit b)
          then ebind (lz_match lit b s) (lz_finish (blen b) 0)
          else lz_finish 1 (lit + 1) s)"

primrec lz_scan :: "nat \<Rightarrow> nat \<Rightarrow> LZBuffer \<Rightarrow> (nat \<times> LZBuffer) result" where
  "lz_scan 0 lit s = Inl Diverges"
| "lz_scan (Suc fuel) lit s =
     (if lz_i s < lz_n s \<and> length (lz_buf s) * 2 < BUFSIZE
      then ebind (lz_step lit s) (\<lambda>(lit, s). lz_scan fuel lit s)
      else Inr (lit, s))"

text \<open>The Burrows-Wheeler transform: \<open>for (; wpos<BUFSIZE && i<n+5; ++i)\<close>\<close>

definition bwt_byte :: "LZBuffer \<Rightarrow> (u8 \<times> nat) result" where
  "bwt_byte s =
     (let i = lz_i s; n = lz_n s
      in if i = 0 then (if 0 < n then ebind (inb s (n - 1)) (\<lambda>c. Inr (c, lz_idx s)) else Inr (255, lz_idx s))
         else if n < i then Inr (of_nat (lz_idx s), lz_idx s div 256)
         else ebind (at (lz_sa s) (i - 1)) (\<lambda>pos.
              if pos = 0 then Inr (255, i) else ebind (inb s (pos - 1)) (\<lambda>c. Inr (c, lz_idx s))))"

function bwt_fill :: "LZBuffer \<Rightarrow> LZBuffer result" where
  "bwt_fill s =
     (if length (lz_buf s) < BUFSIZE \<and> lz_i s < lz_n s + 5
      then ebind (bwt_byte s) (\<lambda>(c, idx).
             bwt_fill (s\<lparr>lz_buf := lz_buf s @ [c], lz_idx := idx, lz_i := lz_i s + 1\<rparr>))
      else Inr s)"
  by auto
termination by (relation "measure (\<lambda>s. lz_n s + 5 - lz_i s)") auto

declare bwt_fill.simps [simp del]

definition fill :: "LZBuffer \<Rightarrow> LZBuffer result" where
  "fill s =
     (if lz_level s = 3 then bwt_fill s
      else ebind (lz_scan (Suc (lz_n s)) 0 s) (\<lambda>(lit, s).
           if lz_i s = lz_n s then ebind (write_literal (lz_n s) lit s) lz_flush else Inr s))"

subsection \<open>Reading\<close>

definition lz_rewind :: "LZBuffer \<Rightarrow> LZBuffer" where
  "lz_rewind s = (if lz_rpos s = length (lz_buf s) then s\<lparr>lz_rpos := 0, lz_buf := []\<rparr> else s)"

definition lz_refill :: "LZBuffer \<Rightarrow> LZBuffer result" where
  "lz_refill s = (if lz_rpos s = length (lz_buf s) then fill s else Inr s)"

definition lz_get :: "LZBuffer \<Rightarrow> (int \<times> LZBuffer) result" where
  "lz_get s =
     ebind (lz_refill s) (\<lambda>s.
       let (c, s) = (if lz_rpos s < length (lz_buf s)
                     then (uint (lz_buf s ! lz_rpos s), s\<lparr>lz_rpos := lz_rpos s + 1\<rparr>) else (-1, s))
       in Inr (c, lz_rewind s))"

definition lz_read :: "nat \<Rightarrow> LZBuffer \<Rightarrow> (u8 list \<times> LZBuffer) result" where
  "lz_read k s =
     ebind (lz_refill s) (\<lambda>s.
       let nr = min k (length (lz_buf s) - lz_rpos s)
       in Inr (take nr (drop (lz_rpos s) (lz_buf s)), lz_rewind (s\<lparr>lz_rpos := lz_rpos s + nr\<rparr>)))"

text \<open>A client that reads pieces of at most \<open>k\<close> bytes until it is given none.\<close>

primrec lz_read_all :: "nat \<Rightarrow> nat \<Rightarrow> LZBuffer \<Rightarrow> u8 list result" where
  "lz_read_all 0 k s = Inl Diverges"
| "lz_read_all (Suc fuel) k s =
     ebind (lz_read k s) (\<lambda>(bs, s). if bs = [] then Inr [] else ebind (lz_read_all fuel k s) (\<lambda>rest. Inr (bs @ rest)))"

end
