(* ===== verification/Zpaq_Lz77_Codes.thy ===== *)
theory Zpaq_Lz77_Codes
  imports Zpaq_Lz77
begin

text \<open>
  The formats of the preprocessors of \<open>Zpaq_Lz77\<close>: the inverse of \<open>e8e9\<close>, decoders for the two LZ77 formats as the
  source describes them, and proofs that each code decodes to what it stands for, whatever follows it.  The level 2
  decoder works on bytes, the level 1 decoder on bits, low bits of a byte first.
\<close>

section \<open>E8E9\<close>

text \<open>The inverse of \<open>e8e9\<close>, as the post-processor runs it: forward, subtracting the offset.\<close>

definition un_e8e9_at :: "nat \<Rightarrow> u8 list \<Rightarrow> u8 list" where
  "un_e8e9_at i buf =
     (if buf ! i AND 254 = 0xe8 \<and> (uint (buf ! (i + 4)) + 1) AND 254 = 0
      then let a = ((ucast (buf ! (i + 1)) :: u32) OR push_bit 8 (ucast (buf ! (i + 2)))
                    OR push_bit 16 (ucast (buf ! (i + 3)))) - of_nat i
           in buf[i + 1 := ucast a, i + 2 := ucast (drop_bit 8 a), i + 3 := ucast (drop_bit 16 a)]
      else buf)"

primrec un_e8e9_up :: "nat \<Rightarrow> u8 list \<Rightarrow> u8 list" where
  "un_e8e9_up 0 buf = buf"
| "un_e8e9_up (Suc k) buf = un_e8e9_at k (un_e8e9_up k buf)"

definition un_e8e9 :: "u8 list \<Rightarrow> u8 list" where
  "un_e8e9 buf = un_e8e9_up (length buf - 4) buf"

lemma three_bytes:
  fixes a :: u32
  shows "((ucast (ucast a :: u8) :: u32) OR push_bit 8 (ucast (ucast (drop_bit 8 a) :: u8))
          OR push_bit 16 (ucast (ucast (drop_bit 16 a) :: u8))) = take_bit 24 a"
proof (rule bit_word_eqI)
  fix n assume "n < LENGTH(32)"
  consider "n < 8" | "8 \<le> n" "n < 16" | "16 \<le> n" "n < 24" | "24 \<le> n" by linarith
  then show "bit ((ucast (ucast a :: u8) :: u32) OR push_bit 8 (ucast (ucast (drop_bit 8 a) :: u8))
          OR push_bit 16 (ucast (ucast (drop_bit 16 a) :: u8))) n = bit (take_bit 24 a) n"
    by cases (auto simp: bit_simps)
qed

lemma bytes_of_three:
  fixes x y z :: u8
  defines "a \<equiv> (ucast x :: u32) OR push_bit 8 (ucast y) OR push_bit 16 (ucast z)"
  shows "ucast a = x" "ucast (drop_bit 8 a) = y" "ucast (drop_bit 16 a) = z"
  unfolding a_def
  by (rule bit_word_eqI; simp add: bit_simps; auto dest: bit_imp_le_length)+

lemma low_bytes:
  fixes a :: u32
  assumes "take_bit 24 a = take_bit 24 b"
  shows "(ucast a :: u8) = ucast b" "(ucast (drop_bit 8 a) :: u8) = ucast (drop_bit 8 b)"
    "(ucast (drop_bit 16 a) :: u8) = ucast (drop_bit 16 b)"
proof -
  have "bit a k = bit b k" if "k < 24" for k using assms that by (metis bit_take_bit_iff)
  then show "(ucast a :: u8) = ucast b" "(ucast (drop_bit 8 a) :: u8) = ucast (drop_bit 8 b)"
    "(ucast (drop_bit 16 a) :: u8) = ucast (drop_bit 16 b)"
    by (auto intro!: bit_word_eqI simp: bit_simps)
qed

lemma mod_word_24: "(x::int) mod 4294967296 mod 16777216 = x mod 16777216"
  by (rule mod_mod_cancel) simp

lemma add_take_sub: "take_bit 24 (take_bit 24 (a + i) - i) = take_bit 24 (a :: u32)"
proof -
  have "uint (take_bit 24 (take_bit 24 (a + i) - i)) = ((uint a + uint i) mod 16777216 - uint i) mod 16777216"
    by (simp only: unsigned_take_bit_eq uint_word_ariths take_bit_eq_mod [where 'a = int]) (simp add: mod_word_24)
  also have "\<dots> = uint a mod 16777216" by (simp add: mod_simps)
  also have "\<dots> = uint (take_bit 24 a)" by (simp only: unsigned_take_bit_eq take_bit_eq_mod [where 'a = int]) simp
  finally show ?thesis by (simp only: word_uint_eq_iff)
qed
lemma e8e9_at_props [simp]:
  "length (e8e9_at i buf) = length buf" "length (un_e8e9_at i buf) = length buf"
  by (simp_all add: e8e9_at_def un_e8e9_at_def Let_def)

lemma un_e8e9_at_inverse:
  assumes "i + 4 < length buf"
  shows "un_e8e9_at i (e8e9_at i buf) = buf"
proof (cases "buf ! i AND 254 = 0xe8 \<and> (uint (buf ! (i + 4)) + 1) AND 254 = 0")
  case True
  define a :: u32 where "a = (ucast (buf ! (i + 1)) :: u32) OR push_bit 8 (ucast (buf ! (i + 2)))
                    OR push_bit 16 (ucast (buf ! (i + 3)))"
  define t where "t = buf[i + 1 := ucast (a + of_nat i), i + 2 := ucast (drop_bit 8 (a + of_nat i)),
      i + 3 := ucast (drop_bit 16 (a + of_nat i))]"
  have enc: "e8e9_at i buf = t" using True by (simp only: e8e9_at_def a_def t_def Let_def simp_thms if_True)
  have ends: "t ! i = buf ! i" "t ! (i + 4) = buf ! (i + 4)" and
    mids: "t ! (i + 1) = ucast (a + of_nat i)" "t ! (i + 2) = ucast (drop_bit 8 (a + of_nat i))"
      "t ! (i + 3) = ucast (drop_bit 16 (a + of_nat i))"
    using assms by (auto simp: t_def nth_list_update)
  define b where "b = take_bit 24 (a + of_nat i) - of_nat i"
  have "take_bit 24 b = take_bit 24 a" unfolding b_def by (rule add_take_sub)
  from low_bytes [OF this] have low: "(ucast b :: u8) = buf ! (i + 1)"
    "(ucast (drop_bit 8 b) :: u8) = buf ! (i + 2)" "(ucast (drop_bit 16 b) :: u8) = buf ! (i + 3)"
    unfolding a_def by (simp_all only: bytes_of_three)
  have "un_e8e9_at i t = t[i + 1 := ucast b, i + 2 := ucast (drop_bit 8 b), i + 3 := ucast (drop_bit 16 b)]"
    using True unfolding un_e8e9_at_def ends mids three_bytes by (simp only: Let_def b_def simp_thms if_True)
  also have "\<dots> = buf"
    unfolding low t_def using assms by (auto simp: list_eq_iff_nth_eq nth_list_update)
  finally show ?thesis unfolding enc .
next
  case False
  then show ?thesis by (auto simp: e8e9_at_def un_e8e9_at_def)
qed

lemma e8e9_down_length [simp]: "length (e8e9_down k buf) = length buf"
  by (induction k arbitrary: buf) simp_all

lemma un_e8e9_up_down: "k + 4 \<le> length buf \<or> k = 0 \<Longrightarrow> un_e8e9_up k (e8e9_down k buf) = buf"
proof (induction k arbitrary: buf)
  case (Suc k)
  then have "un_e8e9_up k (e8e9_down k (e8e9_at k buf)) = e8e9_at k buf" by auto
  then show ?case using Suc.prems by (simp add: un_e8e9_at_inverse)
qed simp

lemma un_e8e9_e8e9: "un_e8e9 (e8e9 buf) = buf"
  unfolding un_e8e9_def e8e9_def e8e9_down_length by (rule un_e8e9_up_down) linarith

text \<open>C26. The E8E9 filter is undone by going through the buffer forwards and subtracting the offset from the three bytes
  after each E8 or E9, although patterns may overlap: the result is the original buffer, of the same length.\<close>

theorem e8e9_roundtrip: "un_e8e9 (e8e9 buf) = buf \<and> length (e8e9 buf) = length buf"
  by (rule conjI [OF un_e8e9_e8e9]) (simp add: e8e9_def)

lemma e8e9_length [simp]: "length (e8e9 buf) = length buf"
  by (simp add: e8e9_def)

section \<open>The formats\<close>

text \<open>
  What the comment above \<open>lg\<close> in the source says of the two LZ77 formats, as decoders.  A match copies from the
  decoded bytes, one at a time, so that it may overlap what it writes.
\<close>

primrec copy_match :: "nat \<Rightarrow> nat \<Rightarrow> u8 list \<Rightarrow> u8 list" where
  "copy_match 0 off out = out"
| "copy_match (Suc len) off out = copy_match len off (out @ [out ! (length out - off)])"

text \<open>Level 2: \<open>00xxxxxx\<close> with \<open>x+1\<close> literals, \<open>yyxxxxxx\<close> with an offset of \<open>y+1\<close> bytes, MSB first, and the
  length \<open>x+m\<close>.\<close>

definition msb_first :: "u8 list \<Rightarrow> nat" where
  "msb_first bs = fold (\<lambda>b v. v * 256 + unat b) bs 0"

function lz2_decode :: "nat \<Rightarrow> u8 list \<Rightarrow> u8 list \<Rightarrow> u8 list" where
  "lz2_decode m out [] = out"
| "lz2_decode m out (c # cs) =
     (if unat c < 64 then lz2_decode m (out @ take (unat c + 1) cs) (drop (unat c + 1) cs)
      else let k = unat c div 64 + 1
           in if length cs < k then out
              else lz2_decode m (copy_match (unat c mod 64 + m) (msb_first (take k cs) + 1) out) (drop k cs))"
  by pat_completeness auto
termination by (relation "measure (\<lambda>(m, out, cs). length cs)") (auto simp: Let_def)

declare lz2_decode.simps [simp del]

text \<open>Level 1: a stream of bits, the low bits of a byte first.\<close>

definition byte_bits :: "u8 \<Rightarrow> bool list" where
  "byte_bits c = map (bit c) [0..<8]"

definition bits_of :: "nat \<Rightarrow> nat \<Rightarrow> bool list" where
  "bits_of k x = map (\<lambda>i. odd (x div 2 ^ i)) [0..<k]"

fun value_of :: "bool list \<Rightarrow> nat" where
  "value_of [] = 0"
| "value_of (b # bs) = of_bool b + 2 * value_of bs"

definition take_bits :: "nat \<Rightarrow> bool list \<Rightarrow> (nat \<times> bool list) option" where
  "take_bits k bs = (if length bs < k then None else Some (value_of (take k bs), drop k bs))"

text \<open>An interleaved Elias gamma code, after its implied leading 1 (the part read so far).\<close>

fun un_gamma :: "nat \<Rightarrow> bool list \<Rightarrow> (nat \<times> bool list) option" where
  "un_gamma x (False # bs) = Some (x, bs)"
| "un_gamma x (True # b # bs) = un_gamma (2 * x + of_bool b) bs"
| "un_gamma x _ = None"

fun bytes_of :: "nat \<Rightarrow> bool list \<Rightarrow> u8 list" where
  "bytes_of 0 bs = []"
| "bytes_of (Suc k) bs = of_nat (value_of (take 8 bs)) # bytes_of k (drop 8 bs)"

lemma un_gamma_shorter: "un_gamma x bs = Some (y, bs') \<Longrightarrow> length bs' < length bs"
  by (induction x bs rule: un_gamma.induct) auto

lemma take_bits_shorter: "take_bits k bs = Some (y, bs') \<Longrightarrow> length bs' + k = length bs"
  by (auto simp: take_bits_def split: if_splits)

text \<open>One code: the decoded bytes and what is left of the stream, nothing when the code is not complete.\<close>

definition lz1_literals :: "u8 list \<Rightarrow> bool list \<Rightarrow> (u8 list \<times> bool list) option" where
  "lz1_literals out bs =
     Option.bind (un_gamma 1 bs) (\<lambda>(len, bs).
       if length bs < 8 * len then None else Some (out @ bytes_of len bs, drop (8 * len) bs))"

definition lz1_match :: "nat \<Rightarrow> nat \<Rightarrow> u8 list \<Rightarrow> bool list \<Rightarrow> (u8 list \<times> bool list) option" where
  "lz1_match rb mm out bs =
     Option.bind (take_bits 3 bs) (\<lambda>(mmm, bs).
     Option.bind (un_gamma 1 bs) (\<lambda>(len, bs).
     Option.bind (take_bits 2 bs) (\<lambda>(ll, bs).
     Option.bind (take_bits rb bs) (\<lambda>(r, bs).
     Option.bind (take_bits (8 * mm + mmm - 8) bs) (\<lambda>(q, bs).
       let q = q + 2 ^ (8 * mm + mmm - 8)
       in Some (copy_match (4 * len + ll) (q * 2 ^ rb + r - (2 ^ rb - 1)) out, bs))))))"

definition lz1_code :: "nat \<Rightarrow> u8 list \<Rightarrow> bool list \<Rightarrow> (u8 list \<times> bool list) option" where
  "lz1_code rb out bs =
     Option.bind (take_bits 2 bs) (\<lambda>(mm, bs). if mm = 0 then lz1_literals out bs else lz1_match rb mm out bs)"

lemma lz1_code_shorter: "lz1_code rb out bs = Some (out', bs') \<Longrightarrow> length bs' < length bs"
  by (auto simp: lz1_code_def lz1_literals_def lz1_match_def Let_def bind_eq_Some_conv split: if_splits
      dest!: un_gamma_shorter take_bits_shorter)

function lz1_decode :: "nat \<Rightarrow> u8 list \<Rightarrow> bool list \<Rightarrow> u8 list" where
  "lz1_decode rb out bs =
     (case lz1_code rb out bs of None \<Rightarrow> out | Some (out', bs') \<Rightarrow> lz1_decode rb out' bs')"
  by pat_completeness auto
termination
  by (relation "measure (\<lambda>(rb, out, bs). length bs)") (auto dest: lz1_code_shorter)

declare lz1_decode.simps [simp del]

section \<open>The codes\<close>

datatype token = Lit "u8 list" | Match nat nat

fun apply_token :: "u8 list \<Rightarrow> token \<Rightarrow> u8 list" where
  "apply_token out (Lit bs) = out @ bs"
| "apply_token out (Match len off) = copy_match len off out"

text \<open>The bits \<open>k-1\<close> down to \<open>stop\<close> of \<open>x\<close>, each after a 1.\<close>

fun gamma_bits :: "nat \<Rightarrow> nat \<Rightarrow> nat \<Rightarrow> bool list" where
  "gamma_bits x stop 0 = []"
| "gamma_bits x stop (Suc k) = (if stop \<le> k then [True, odd (x div 2 ^ k)] @ gamma_bits x stop k else [])"

fun lz1_encode :: "nat \<Rightarrow> token \<Rightarrow> bool list" where
  "lz1_encode rb (Lit bs) =
     (if bs = [] then [] else [False, False] @ gamma_bits (length bs) 0 (lg (length bs) - 1) @ [False]
      @ concat (map byte_bits bs))"
| "lz1_encode rb (Match len off) =
     (let x = off + 2 ^ rb - 1; lo = lg x - 1 - rb
      in bits_of 2 ((lo + 8) div 8) @ bits_of 3 (lo mod 8) @ gamma_bits len 2 (lg len - 1) @ [False]
         @ bits_of 2 (len mod 4) @ bits_of rb x @ bits_of lo (x div 2 ^ rb))"

function lz2_literals :: "u8 list \<Rightarrow> u8 list" where
  "lz2_literals bs =
     (if bs = [] then [] else of_nat (length (take 64 bs) - 1) # take 64 bs @ lz2_literals (drop 64 bs))"
  by auto
termination by (relation "measure length") auto

declare lz2_literals.simps [simp del]

function lz2_matches :: "nat \<Rightarrow> nat \<Rightarrow> nat \<Rightarrow> u8 list" where
  "lz2_matches m len off =
     (if 0 < len
      then let len1 = (if m * 2 + 63 < len then m + 63 else if m + 63 < len then len - m else len);
               code = of_nat len1 - of_nat m; byte = (\<lambda>k. of_nat (off div 2 ^ k) :: u8)
           in (if off < 2 ^ 16 then [64 + code, byte 8, byte 0]
               else if off < 2 ^ 24 then [128 + code, byte 16, byte 8, byte 0]
               else [192 + code, byte 24, byte 16, byte 8, byte 0]) @ lz2_matches m (len - len1) off
      else [])"
  by pat_completeness auto
termination by (relation "measure (\<lambda>(m, len, off). len)") (auto simp: Let_def split: if_splits)

declare lz2_matches.simps [simp del]

fun lz2_encode :: "nat \<Rightarrow> token \<Rightarrow> u8 list" where
  "lz2_encode m (Lit bs) = lz2_literals bs"
| "lz2_encode m (Match len off) = lz2_matches m len (off - 1)"

section \<open>Decoding what was encoded\<close>

abbreviation nibble_lg :: "nat list" where
  "nibble_lg \<equiv> [0, 1, 2, 2, 3, 3, 3, 3, 4, 4, 4, 4, 4, 4, 4, 4]"

lemma nibble_lg_bounds:
  assumes "0 < y" "y < 16"
  shows "2 ^ (nibble_lg ! y - 1) \<le> y \<and> y < 2 ^ (nibble_lg ! y) \<and> 0 < nibble_lg ! y"
proof -
  have "y \<in> set [1..<16]" using assms by simp
  moreover have "list_all (\<lambda>y. 2 ^ (nibble_lg ! y - 1) \<le> y \<and> y < 2 ^ (nibble_lg ! y) \<and> 0 < nibble_lg ! y) [1..<16]"
    by (simp add: upt_rec)
  ultimately show ?thesis by (simp only: list_all_iff)
qed

text \<open>One of the tests of \<open>lg\<close>: half of the digits are shifted out if they are not all needed.\<close>

definition lg_half :: "nat \<Rightarrow> nat \<times> nat \<Rightarrow> nat \<times> nat" where
  "lg_half k = (\<lambda>(r, x). if 2 ^ k \<le> x then (r + k, x div 2 ^ k) else (r, x))"

lemma lg_halves: "lg x = (let (r, x) = lg_half 4 (lg_half 8 (lg_half 16 (0, x))) in nibble_lg ! x + r)"
  by (simp add: lg_def lg_half_def Let_def)

lemma lg_half_step:
  assumes "lg_half k (r, x div 2 ^ r) = (r', y)" "0 < x div 2 ^ r" "x div 2 ^ r < 2 ^ (2 * k)"
  shows "y = x div 2 ^ r' \<and> 0 < y \<and> y < 2 ^ k"
  using assms
  by (auto simp: lg_half_def div_greater_zero_iff power_add div_mult2_eq mult_2 less_mult_imp_div_less split: if_splits)

lemma lg_bounds: assumes "0 < x" "x < 2 ^ 32" shows "2 ^ (lg x - 1) \<le> x \<and> x < 2 ^ lg x \<and> 0 < lg x"
proof -
  obtain r1 x1 where 1: "lg_half 16 (0, x) = (r1, x1)" by fastforce
  obtain r2 x2 where 2: "lg_half 8 (r1, x1) = (r2, x2)" by fastforce
  obtain r x3 where 3: "lg_half 4 (r2, x2) = (r, x3)" by fastforce
  have s1: "x1 = x div 2 ^ r1 \<and> 0 < x1 \<and> x1 < 2 ^ 16" using lg_half_step [of 16 0 x r1 x1] 1 assms by simp
  have s2: "x2 = x div 2 ^ r2 \<and> 0 < x2 \<and> x2 < 2 ^ 8" using lg_half_step [of 8 r1 x r2 x2] 2 s1 by simp
  have s3: "x3 = x div 2 ^ r \<and> 0 < x3 \<and> x3 < 2 ^ 4" using lg_half_step [of 4 r2 x r x3] 3 s2 by simp
  define k where "k = nibble_lg ! x3"
  have lg: "lg x = k + r" by (simp add: lg_halves 1 2 3 k_def)
  have k: "2 ^ (k - 1) \<le> x div 2 ^ r \<and> x div 2 ^ r < 2 ^ k \<and> 0 < k"
    using nibble_lg_bounds [of x3] s3 by (simp add: k_def)
  have "2 ^ (k - 1) * 2 ^ r \<le> x" using k by (simp add: less_eq_div_iff_mult_less_eq)
  moreover have "x < 2 ^ k * 2 ^ r" using k by (simp add: div_less_iff_less_mult)
  moreover have "lg x - 1 = (k - 1) + r" using lg k by linarith
  ultimately show ?thesis using k by (simp only: power_add) (simp add: lg power_add)
qed


lemma value_of_bits: "value_of (bits_of k x) = x mod 2 ^ k"
proof (induction k arbitrary: x)
  case (Suc k)
  have "bits_of (Suc k) x = odd x # bits_of k (x div 2)"
    by (simp add: bits_of_def upt_conv_Cons map_Suc_upt [symmetric] div_mult2_eq del: upt_Suc)
  moreover have "x mod 2 ^ Suc k = x mod 2 + 2 * (x div 2 mod 2 ^ k)" by (simp add: mod_mult2_eq)
  ultimately show ?case using Suc by (simp add: mod_2_eq_odd)
qed (simp add: bits_of_def)

lemma bits_of_length [simp]: "length (bits_of k x) = k" by (simp add: bits_of_def)

lemma take_bits_of [simp]: "take_bits k (bits_of k x @ rest) = Some (x mod 2 ^ k, rest)"
  by (simp add: take_bits_def value_of_bits)

lemma byte_bits_length [simp]: "length (byte_bits c) = 8" by (simp add: byte_bits_def)

lemma value_of_byte: "of_nat (value_of (byte_bits c)) = c"
proof -
  have "byte_bits c = bits_of 8 (unat c)"
    by (simp add: byte_bits_def bits_of_def bit_unsigned_iff [where 'a = nat, simplified] bit_iff_odd [symmetric])
  moreover have "unat c < 2 ^ LENGTH(8)" by (rule unsigned_less)
  ultimately show ?thesis by (simp add: value_of_bits)
qed

lemma bytes_of_bits [simp]: "bytes_of (length bs) (concat (map byte_bits bs) @ rest) = bs"
  by (induction bs) (simp_all add: value_of_byte)

lemma un_gamma_bits:
  "stop \<le> k \<Longrightarrow> un_gamma (x div 2 ^ k) (gamma_bits x stop k @ False # rest) = Some (x div 2 ^ stop, rest)"
proof (induction k)
  case (Suc k)
  have "2 * (x div 2 ^ Suc k) + of_bool (odd (x div 2 ^ k)) = x div 2 ^ k"
    by (simp only: power_Suc2 div_mult2_eq) (simp add: mod_2_eq_odd [symmetric])
  then show ?case using Suc by (cases "stop = Suc k") (auto simp: le_Suc_eq)
qed simp

lemma un_gamma_top:
  assumes "0 < x" "x < 2 ^ 32" "stop < lg x"
  shows "un_gamma 1 (gamma_bits x stop (lg x - 1) @ False # rest) = Some (x div 2 ^ stop, rest)"
proof -
  have "x < 2 * 2 ^ (lg x - 1)" using lg_bounds [OF assms(1,2)] by (cases "lg x") simp_all
  then have "x div 2 ^ (lg x - 1) = 1"
    using lg_bounds [OF assms(1,2)] by (intro div_nat_eqI) simp_all
  then show ?thesis using un_gamma_bits [of stop "lg x - 1" x rest] assms(3) by simp
qed

section \<open>Copying\<close>

lemma copy_match_add: "copy_match (a + b) off out = copy_match b off (copy_match a off out)"
  by (induction a arbitrary: out) simp_all

lemma copy_match_length [simp]: "length (copy_match len off out) = length out + len"
  by (induction len arbitrary: out) simp_all

lemma copy_match_take:
  assumes "\<And>j. j < len \<Longrightarrow> xs ! (i - off + j) = xs ! (i + j)" "0 < off" "off \<le> i" "i + len \<le> length xs"
  shows "copy_match len off (take i xs) = take (i + len) xs"
  using assms
proof (induction len arbitrary: i)
  case (Suc len)
  have "take i xs @ [take i xs ! (i - off)] = take (Suc i) xs"
    using Suc.prems(1) [of 0] Suc.prems(2-4) by (simp add: take_Suc_conv_app_nth)
  moreover have "xs ! (Suc i - off + j) = xs ! (Suc i + j)" if "j < len" for j
    using Suc.prems(1) [of "Suc j"] Suc.prems(2-4) that by (simp add: Suc_diff_le)
  ultimately show ?case using Suc.IH [of "Suc i"] Suc.prems(2-4) by simp
qed simp

section \<open>Decoding one code\<close>

lemma lz1_code_literals:
  assumes "bs \<noteq> []" "length bs < 2 ^ 32"
  shows "lz1_code rb out (lz1_encode rb (Lit bs) @ rest) = Some (out @ bs, rest)"
proof -
  have g: "un_gamma 1 (gamma_bits (length bs) 0 (lg (length bs) - 1) @ False # rest') = Some (length bs, rest')" for rest'
    using un_gamma_top [of "length bs" 0 rest'] lg_bounds [of "length bs"] assms by simp
  have [simp]: "length (concat (map byte_bits bs)) = 8 * length bs" by (induction bs) simp_all
  show ?thesis
    using assms g by (simp add: lz1_code_def lz1_literals_def take_bits_def)
qed

lemma lg_le: assumes "0 < x" "x < 2 ^ k" "k \<le> 32" shows "lg x \<le> k"
proof -
  have "x < 2 ^ 32" using assms(2,3) by (meson less_le_trans one_le_numeral power_increasing)
  then have "(2 :: nat) ^ (lg x - 1) < 2 ^ k" using lg_bounds [of x] assms by linarith
  then have "lg x - 1 < k" by simp
  then show ?thesis by linarith
qed

lemma less_lg: assumes "2 ^ k \<le> x" "x < 2 ^ 32" shows "k < lg x"
proof -
  have "0 < x" using assms(1) by (meson le_trans less_le_trans zero_less_numeral zero_less_power)
  then have "(2 :: nat) ^ k < 2 ^ lg x" using lg_bounds [of x] assms by linarith
  then show ?thesis by simp
qed

lemma lz1_code_match:
  assumes len: "4 \<le> len" "len < 2 ^ 32" and off: "0 < off" "off + 2 ^ rb - 1 < 2 ^ (24 + rb)" and rb: "rb \<le> 8"
  shows "lz1_code rb out (lz1_encode rb (Match len off) @ rest) = Some (copy_match len off out, rest)"
proof -
  define x where "x = off + 2 ^ rb - 1"
  define lo where "lo = lg x - 1 - rb"
  have x: "2 ^ rb \<le> x" "x < 2 ^ (24 + rb)" using off by (auto simp: x_def)
  have "(2 :: nat) ^ (24 + rb) \<le> 2 ^ 32" using rb by (intro power_increasing) simp_all
  then have x32: "x < 2 ^ 32" using x(2) by linarith
  have pos: "0 < x" using x(1) by (meson less_le_trans zero_less_numeral zero_less_power)
  have lgx: "lg x = rb + lo + 1" using less_lg [OF x(1) x32] by (simp add: lo_def)
  have lo: "lo \<le> 23" using lg_le [OF pos x(2)] rb lgx by simp
  have bounds: "2 ^ (rb + lo) \<le> x" "x < 2 ^ (rb + lo + 1)" using lg_bounds [OF pos x32] by (simp_all add: lgx)
  have q: "x div 2 ^ rb mod 2 ^ lo + 2 ^ lo = x div 2 ^ rb"
  proof -
    have "x div 2 ^ rb div 2 ^ lo = 1"
      using bounds by (intro div_nat_eqI) (simp_all add: power_add less_eq_div_iff_mult_less_eq div_less_iff_less_mult algebra_simps)
    then show ?thesis using mod_mult_div_eq [of "x div 2 ^ rb" "2 ^ lo"] by simp
  qed
  have codes: "(lo + 8) div 8 mod 4 = (lo + 8) div 8" "(lo + 8) div 8 \<noteq> 0" "8 * ((lo + 8) div 8) + lo mod 8 - 8 = lo"
    using lo by (simp_all add: div_add_self2)
  have g: "un_gamma 1 (gamma_bits len 2 (lg len - 1) @ False # rest') = Some (len div 4, rest')" for rest'
    using un_gamma_top [of len 2 rest'] less_lg [of 2 len] len by simp
  have "x div 2 ^ rb * 2 ^ rb + x mod 2 ^ rb - (2 ^ rb - 1) = off"
    unfolding div_mult_mod_eq x_def using off(1) by (cases "(2 :: nat) ^ rb") simp_all
  then show ?thesis
    unfolding lz1_code_def lz1_encode.simps Let_def x_def [symmetric] lo_def [symmetric]
    by (simp add: lz1_match_def Let_def codes g q del: un_gamma.simps One_nat_def)
qed

lemma lz1_decode_token:
  "lz1_code rb out (lz1_encode rb t @ rest) = Some (apply_token out t, rest) \<Longrightarrow>
   lz1_decode rb out (lz1_encode rb t @ rest) = lz1_decode rb (apply_token out t) rest"
  by (simp add: lz1_decode.simps [of rb out "lz1_encode rb t @ rest"])

lemma lz1_decode_padding:
  assumes "k < 8"
  shows "lz1_decode rb out (replicate k False) = out"
proof -
  have "k \<in> {0, 1, 2, 3, 4, 5, 6, 7}" using assms by auto
  then have "lz1_code rb out (replicate k False) = None"
    by (auto simp: lz1_code_def take_bits_def lz1_literals_def eval_nat_numeral)
  then show ?thesis by (simp add: lz1_decode.simps)
qed

lemma lz2_code_literals:
  assumes "k < 64" "length ls = k + 1"
  shows "lz2_decode m out (of_nat k # ls @ rest) = lz2_decode m (out @ ls) rest"
proof -
  have "unat (of_nat k :: u8) = k" using assms by (simp add: unat_of_nat)
  then show ?thesis using assms by (simp add: lz2_decode.simps)
qed

lemma lz2_decode_literals: "lz2_decode m out (lz2_literals bs @ rest) = lz2_decode m (out @ bs) rest"
proof (induction bs arbitrary: out rule: lz2_literals.induct)
  case (1 bs)
  show ?case
  proof (cases "bs = []")
    case False
    then have "length (take 64 bs) - 1 < 64" "length (take 64 bs) = length (take 64 bs) - 1 + 1" by auto
    from lz2_code_literals [OF this] False
    have "lz2_decode m out (lz2_literals bs @ rest)
        = lz2_decode m (out @ take 64 bs) (lz2_literals (drop 64 bs) @ rest)"
      by (subst lz2_literals.simps) (simp only: if_False append_assoc append_Cons)
    then show ?thesis using 1 False by simp
  qed (simp add: lz2_literals.simps)
qed

lemma msb_first_two: "off < 2 ^ 16 \<Longrightarrow> msb_first [of_nat (off div 2 ^ 8), of_nat off] = off"
  by (simp add: msb_first_def unat_of_nat)

lemma split_byte: "x div y div 256 * 256 + x div y mod 256 = x div (y :: nat)"
  by presburger

lemma msb_first_three:
  assumes "off < 2 ^ 24"
  shows "msb_first [of_nat (off div 2 ^ 16), of_nat (off div 2 ^ 8), of_nat off] = off"
proof -
  have "off div 65536 * 256 + off div 256 mod 256 = off div 256"
    using split_byte [of off 256] by (simp only: div_mult2_eq [symmetric]) simp
  moreover have "off div 65536 < 256" using assms by simp
  ultimately show ?thesis by (simp add: msb_first_def unat_of_nat)
qed

lemma msb_first_four:
  assumes "off < 2 ^ 32"
  shows "msb_first [of_nat (off div 2 ^ 24), of_nat (off div 2 ^ 16), of_nat (off div 2 ^ 8), of_nat off] = off"
proof -
  have "off div 16777216 * 256 + off div 65536 mod 256 = off div 65536"
    using split_byte [of off 65536] by (simp only: div_mult2_eq [symmetric]) simp
  moreover have "off div 65536 * 256 + off div 256 mod 256 = off div 256"
    using split_byte [of off 256] by (simp only: div_mult2_eq [symmetric]) simp
  moreover have "off div 16777216 < 256" using assms by simp
  ultimately show ?thesis by (simp add: msb_first_def unat_of_nat)
qed

lemma lz2_code_match:
  assumes "k < 64" "y \<in> {1, 2, 3}" "length bs = y + 1" "msb_first bs = off"
  shows "lz2_decode m out (of_nat (64 * y + k) # bs @ rest) = lz2_decode m (copy_match (k + m) (off + 1) out) rest"
proof -
  have "unat (of_nat (64 * y + k) :: u8) = 64 * y + k" using assms(1,2) by (subst unat_of_nat) auto
  moreover have "(64 * y + k) div 64 = y" "(64 * y + k) mod 64 = k" using assms(1) by simp_all
  ultimately show ?thesis using assms by (auto simp: lz2_decode.simps Let_def)
qed

lemma lz2_decode_matches:
  assumes "m \<le> len" "0 < m" "off < 2 ^ 32" "m \<le> 64"
  shows "lz2_decode m out (lz2_matches m len off @ rest) = lz2_decode m (copy_match len (off + 1) out) rest"
  using assms
proof (induction m len off arbitrary: out rule: lz2_matches.induct)
  case (1 m len off)
  define len1 where "len1 = (if m * 2 + 63 < len then m + 63 else if m + 63 < len then len - m else len)"
  define byte where "byte = (\<lambda>k. of_nat (off div 2 ^ k) :: u8)"
  define code where "code = (if off < 2 ^ 16 then [of_nat (64 * 1 + (len1 - m)), byte 8, byte 0]
               else if off < 2 ^ 24 then [of_nat (64 * 2 + (len1 - m)), byte 16, byte 8, byte 0]
               else [of_nat (64 * 3 + (len1 - m)), byte 24, byte 16, byte 8, byte 0])"
  have len1: "m \<le> len1" "len1 < m + 64" "len1 \<le> len" "len - len1 = 0 \<or> m \<le> len - len1"
    using 1(2,5) by (auto simp: len1_def)
  have k: "64 + (of_nat len1 - of_nat m) = (of_nat (64 * 1 + (len1 - m)) :: u8)"
    "128 + (of_nat len1 - of_nat m) = (of_nat (64 * 2 + (len1 - m)) :: u8)"
    "192 + (of_nat len1 - of_nat m) = (of_nat (64 * 3 + (len1 - m)) :: u8)" using len1(1) by simp_all
  have code_decodes: "lz2_decode m out (code @ r) = lz2_decode m (copy_match len1 (off + 1) out) r" for r
  proof -
    consider "off < 2 ^ 16" | "2 ^ 16 \<le> off" "off < 2 ^ 24" | "2 ^ 24 \<le> off" by linarith
    then show ?thesis
    proof cases
      case 1
      then show ?thesis
        using lz2_code_match [of "len1 - m" 1 "[byte 8, byte 0]" off m out r] msb_first_two [of off] len1
        by (simp add: code_def byte_def del: of_nat_add of_nat_mult)
    next
      case 2
      then show ?thesis
        using lz2_code_match [of "len1 - m" 2 "[byte 16, byte 8, byte 0]" off m out r] msb_first_three [of off] len1
        by (simp add: code_def byte_def del: of_nat_add of_nat_mult)
    next
      case 3
      then show ?thesis
        using lz2_code_match [of "len1 - m" 3 "[byte 24, byte 16, byte 8, byte 0]" off m out r]
          msb_first_four [of off] len1 \<open>off < 2 ^ 32\<close>
        by (simp add: code_def byte_def del: of_nat_add of_nat_mult)
    qed
  qed
  have "lz2_matches m len off = code @ lz2_matches m (len - len1) off"
    using 1(2,3) by (subst lz2_matches.simps) (simp only: Let_def len1_def [symmetric] k code_def byte_def, simp)
  moreover have "lz2_decode m out' (lz2_matches m (len - len1) off @ rest)
      = lz2_decode m (copy_match (len - len1) (off + 1) out') rest" for out'
  proof (cases "len - len1 = 0")
    case True
    then show ?thesis by (simp add: lz2_matches.simps)
  next
    case False
    then show ?thesis using 1(1) [OF _ len1_def] 1(2-5) len1 by simp
  qed
  ultimately show ?case
    using code_decodes copy_match_add [of len1 "len - len1"] len1(3) by simp
qed

end
