(* ===== verification/Zpaq_Lz77_Write.thy ===== *)
theory Zpaq_Lz77_Write
  imports Zpaq_Lz77_Codes
begin

text \<open>
  What \<open>write_literal\<close> and \<open>write_match\<close> of \<open>Zpaq_Lz77\<close> append to the output: exactly the codes of
  \<open>Zpaq_Lz77_Codes\<close>, if there is room for them, through \<open>putb\<close> and its pending bits.
\<close>

section \<open>Writing codes\<close>

text \<open>
  The stream of bits a state has produced: the bytes of the buffer and the pending bits.  \<open>writes op s bs\<close> says that
  \<open>op\<close> appends \<open>bs\<close> to it, if there is room, and changes nothing else.
\<close>

definition pending :: "LZBuffer \<Rightarrow> bool list" where
  "pending s = map (bit (lz_bits s)) [0..<lz_nbits s]"

definition stream :: "LZBuffer \<Rightarrow> bool list" where
  "stream s = concat (map byte_bits (lz_buf s)) @ pending s"

definition pend_ok :: "LZBuffer \<Rightarrow> bool" where
  "pend_ok s \<longleftrightarrow> lz_nbits s < 8 \<and> take_bit (lz_nbits s) (lz_bits s) = lz_bits s"

definition core :: "LZBuffer \<Rightarrow> LZBuffer" where
  "core s = s\<lparr>lz_buf := [], lz_bits := 0, lz_nbits := 0\<rparr>"

definition emits :: "LZBuffer \<Rightarrow> bool list \<Rightarrow> LZBuffer \<Rightarrow> bool" where
  "emits s bs s' \<longleftrightarrow> core s' = core s \<and> stream s' = stream s @ bs \<and> pend_ok s'"

definition writes :: "(LZBuffer \<Rightarrow> LZBuffer result) \<Rightarrow> LZBuffer \<Rightarrow> bool list \<Rightarrow> bool" where
  "writes f s bs \<longleftrightarrow>
     (pend_ok s \<longrightarrow> length (stream s) + length bs \<le> 8 * BUFSIZE \<longrightarrow> (\<exists>s'. f s = Inr s' \<and> emits s bs s'))"

lemma concat_byte_bits_length [simp]: "length (concat (map byte_bits bs)) = 8 * length bs"
  by (induction bs) simp_all

lemma stream_length: "length (stream s) = 8 * length (lz_buf s) + lz_nbits s"
  by (simp add: stream_def pending_def)

lemma core_eqD:
  assumes "core s' = core s"
  shows "lz_in s' = lz_in s" "lz_n s' = lz_n s" "ht s' = ht s" "lz_sa s' = lz_sa s" "lz_isa s' = lz_isa s"
    "checkbits s' = checkbits s" "lz_level s' = lz_level s" "minMatch s' = minMatch s" "minMatch2 s' = minMatch2 s"
    "maxMatch s' = maxMatch s" "maxLiteral s' = maxLiteral s" "lookahead s' = lookahead s" "bucket s' = bucket s"
    "shift1 s' = shift1 s" "shift2 s' = shift2 s" "minMatchBoth s' = minMatchBoth s" "lz_rb s' = lz_rb s"
    "lz_i s' = lz_i s" "h1 s' = h1 s" "h2 s' = h2 s" "lz_rpos s' = lz_rpos s"
  using assms by (cases s; cases s'; simp add: core_def)+

lemma emits_nothing: "pend_ok s \<Longrightarrow> emits s [] s"
  by (simp add: emits_def)

lemma writes_nothing: "writes Inr s []"
  by (simp add: writes_def emits_def)

lemma writes_seq:
  assumes "writes f s bs" "\<And>s'. emits s bs s' \<Longrightarrow> writes g s' cs"
  shows "writes (\<lambda>s. ebind (f s) g) s (bs @ cs)"
  unfolding writes_def
proof (intro impI)
  assume *: "pend_ok s" "length (stream s) + length (bs @ cs) \<le> 8 * BUFSIZE"
  then obtain t where t: "f s = Inr t" "emits s bs t" using assms(1) by (auto simp: writes_def)
  then obtain u where "g t = Inr u" "emits t cs u"
    using assms(2) [OF t(2)] * by (auto simp: writes_def emits_def)
  then show "\<exists>s'. ebind (f s) g = Inr s' \<and> emits s (bs @ cs) s'" using t by (auto simp: emits_def)
qed

lemma writes_cong: "f s = g s \<Longrightarrow> writes f s bs \<longleftrightarrow> writes g s bs"
  by (simp add: writes_def)

lemma byte_bits_ucast: "byte_bits (ucast (w :: u32)) = map (bit w) [0..<8]"
  by (simp add: byte_bits_def bit_simps)

lemma putb_bytes_ok:
  assumes "8 * length (lz_buf s) + lz_nbits s \<le> 8 * BUFSIZE" "take_bit (lz_nbits s) (lz_bits s) = lz_bits s"
  shows "\<exists>s'. putb_bytes s = Inr s' \<and> emits s [] s'"
  using assms
proof (induction s rule: putb_bytes.induct)
  case (1 s)
  show ?case
  proof (cases "7 < lz_nbits s")
    case True
    define t where "t = s\<lparr>lz_buf := lz_buf s @ [ucast (lz_bits s)], lz_bits := drop_bit 8 (lz_bits s), lz_nbits := lz_nbits s - 8\<rparr>"
    have put: "lz_put (ucast (lz_bits s)) s = Inr (s\<lparr>lz_buf := lz_buf s @ [ucast (lz_bits s)]\<rparr>)"
      using True 1(2) by (simp add: lz_put_def)
    have "map (bit (lz_bits s)) [0..<lz_nbits s]
        = map (bit (lz_bits s)) [0..<8] @ map (bit (drop_bit 8 (lz_bits s))) [0..<lz_nbits s - 8]"
      using True by (intro nth_equalityI) (auto simp: nth_append bit_simps)
    then have str: "stream t = stream s" "core t = core s"
      by (simp_all add: stream_def pending_def t_def byte_bits_ucast core_def)
    have "take_bit (lz_nbits t) (lz_bits t) = lz_bits t"
      unfolding t_def using 1(3) True by (simp add: take_bit_drop_bit)
    then obtain s' where "putb_bytes t = Inr s'" "emits t [] s'"
      using 1(1) [OF True, of "s\<lparr>lz_buf := lz_buf s @ [ucast (lz_bits s)]\<rparr>"] 1(2) True by (auto simp: t_def)
    then show ?thesis
      using True put str by (subst putb_bytes.simps) (auto simp: t_def emits_def)
  next
    case False
    then show ?thesis using 1(3) by (subst putb_bytes.simps) (simp add: emits_def pend_ok_def)
  qed
qed

lemma putb_writes:
  assumes "k \<le> 24"
  shows "writes (putb x k) s (map (bit x) [0..<k])"
  unfolding writes_def
proof (intro impI)
  assume s: "pend_ok s" "length (stream s) + length (map (bit x) [0..<k]) \<le> 8 * BUFSIZE"
  define n where "n = lz_nbits s"
  have n: "n < 8" "take_bit n (lz_bits s) = lz_bits s" using s(1) by (simp_all add: pend_ok_def n_def)
  define m where "m = x AND (push_bit k 1 - 1)"
  define t where "t = s\<lparr>lz_bits := lz_bits s OR push_bit n m, lz_nbits := n + k\<rparr>"
  have low: "bit m i \<longleftrightarrow> bit x i \<and> i < k" for i
    by (auto simp: m_def push_bit_eq_mult mask_eq_exp_minus_1 [symmetric] bit_simps dest: bit_imp_le_length)
  have old: "bit (lz_bits s) i \<Longrightarrow> i < n" for i using n(2) by (metis bit_take_bit_iff)
  have bits: "bit (lz_bits t) i \<longleftrightarrow> (if i < n then bit (lz_bits s) i else bit x (i - n) \<and> i - n < k)" for i
    using n(1) assms old [of i] by (auto simp: t_def bit_simps low)
  have nbt: "lz_nbits t = n + k" by (simp add: t_def)
  then have "pending t = pending s @ map (bit x) [0..<k]"
    by (intro nth_equalityI) (auto simp: pending_def nth_append bits n_def [symmetric])
  then have str: "stream t = stream s @ map (bit x) [0..<k]" "core t = core s"
    by (simp_all add: stream_def t_def core_def)
  have "take_bit (lz_nbits t) (lz_bits t) = lz_bits t"
    unfolding nbt by (rule bit_word_eqI) (auto simp: bit_take_bit_iff bits)
  moreover have "8 * length (lz_buf t) + lz_nbits t \<le> 8 * BUFSIZE"
    using s(2) str stream_length [of t] by simp
  ultimately obtain s' where "putb_bytes t = Inr s'" "emits t [] s'" using putb_bytes_ok by blast
  then show "\<exists>s'. putb x k s = Inr s' \<and> emits s (map (bit x) [0..<k]) s'"
    using str by (auto simp: putb_def Let_def t_def n_def m_def emits_def)
qed

lemma putb_writes_nat:
  assumes "k \<le> 24"
  shows "writes (putb (of_nat x) k) s (bits_of k x)"
proof -
  have "map (bit (of_nat x :: u32)) [0..<k] = bits_of k x"
    using assms by (auto simp: bits_of_def bit_of_nat_iff bit_iff_odd [of x])
  then show ?thesis using putb_writes [OF assms, of "of_nat x" s] by simp
qed

abbreviation byte_stream :: "u8 list \<Rightarrow> bool list" where
  "byte_stream cs \<equiv> concat (map byte_bits cs)"

definition slice :: "'a list \<Rightarrow> nat \<Rightarrow> nat \<Rightarrow> 'a list" where
  "slice xs i j = drop i (take j xs)"

lemma slice_length [simp]: "j \<le> length xs \<Longrightarrow> length (slice xs i j) = j - i"
  by (simp add: slice_def)

lemma slice_Cons: "i < j \<Longrightarrow> j \<le> length xs \<Longrightarrow> slice xs i j = xs ! i # slice xs (Suc i) j"
  by (simp add: slice_def Cons_nth_drop_Suc [symmetric])

lemma slice_empty [simp]: "j \<le> i \<Longrightarrow> slice xs i j = []"
  by (simp add: slice_def)

lemma take_slice: "i + k \<le> j \<Longrightarrow> take k (slice xs i j) = slice xs i (i + k)"
  by (simp add: slice_def take_drop min_def add.commute)

lemma drop_slice: "drop k (slice xs i j) = slice xs (i + k) j"
  by (simp add: slice_def add.commute)

lemma slice_append: "i \<le> j \<Longrightarrow> take i xs @ slice xs i j = take j xs"
  by (metis append_take_drop_id min.absorb1 slice_def take_take)

lemma usub_le [simp]: "b \<le> a \<Longrightarrow> usub a b = a - b"
  by (simp add: usub_def)

lemma byte_bits_of_ucast: "map (bit (ucast (c :: u8) :: u32)) [0..<8] = byte_bits c"
  by (simp add: byte_bits_def bit_simps)

lemma inb_ok: "k < length (lz_in s) \<Longrightarrow> inb s k = Inr (lz_in s ! k)"
  by (simp add: inb_def at_def)

lemma emits_core: "emits s bs t \<Longrightarrow> core t = core s"
  by (simp add: emits_def)

lemmas emits_same = core_eqD [OF emits_core]

lemma writes_eq: "writes f s bs \<Longrightarrow> g s = f s \<Longrightarrow> cs = bs \<Longrightarrow> writes g s cs"
  by (simp add: writes_def)

lemma put_literal_bits_writes:
  "lit \<le> i \<Longrightarrow> i \<le> length (lz_in s) \<Longrightarrow> writes (put_literal_bits i lit) s (byte_stream (slice (lz_in s) (i - lit) i))"
proof (induction lit arbitrary: s)
  case 0
  then show ?case using writes_nothing by (simp add: writes_def)
next
  case (Suc lit)
  define c where "c = lz_in s ! (i - Suc lit)"
  have "writes (\<lambda>s. ebind (putb (ucast c) 8 s) (put_literal_bits i lit)) s
      (byte_bits c @ byte_stream (slice (lz_in s) (i - lit) i))"
  proof (rule writes_seq)
    show "writes (putb (ucast c) 8) s (byte_bits c)"
      using putb_writes [of 8 "ucast c" s] by (simp add: byte_bits_of_ucast)
    fix t assume "emits s (byte_bits c) t"
    then have "lz_in t = lz_in s" by (rule emits_same)
    then show "writes (put_literal_bits i lit) t (byte_stream (slice (lz_in s) (i - lit) i))"
      using Suc.IH [of t] Suc.prems by simp
  qed
  moreover have "slice (lz_in s) (i - Suc lit) i = lz_in s ! (i - Suc lit) # slice (lz_in s) (i - lit) i"
    using Suc.prems slice_Cons [of "i - Suc lit" i "lz_in s"] by (simp add: Suc_diff_Suc)
  moreover have "put_literal_bits i (Suc lit) s = ebind (putb (ucast c) 8 s) (put_literal_bits i lit)"
    using Suc.prems by (simp add: inb_ok c_def)
  ultimately show ?case by (elim writes_eq) (simp_all add: c_def)
qed

lemma putb_one_writes: "writes (putb 1 1) s [True]"
  using putb_writes [of 1 1 s] by simp

lemma putb_zero_writes: "k \<le> 24 \<Longrightarrow> writes (putb 0 k) s (replicate k False)"
proof -
  assume "k \<le> 24"
  moreover have "map (bit (0 :: u32)) [0..<k] = replicate k False" by (rule nth_equalityI) simp_all
  ultimately show ?thesis using putb_writes [of k 0 s] by metis
qed

lemma put_gamma_writes: "writes (put_gamma x stop k) s (gamma_bits x stop k)"
proof (induction k arbitrary: s)
  case 0
  then show ?case using writes_nothing by (simp add: writes_def put_gamma.simps)
next
  case (Suc k)
  have bit: "writes (putb (of_nat (x div 2 ^ k mod 2)) 1) s [odd (x div 2 ^ k)]" for s
    using putb_writes_nat [of 1 "x div 2 ^ k mod 2" s] by (simp add: bits_of_def)
  have "writes (\<lambda>s. ebind (putb 1 1 s) (\<lambda>s. ebind (putb (of_nat (x div 2 ^ k mod 2)) 1 s) (put_gamma x stop k))) s
      ([True] @ [odd (x div 2 ^ k)] @ gamma_bits x stop k)"
    by (intro writes_seq putb_one_writes bit Suc)
  then show ?case
    using writes_nothing by (auto simp: writes_def put_gamma.simps [of x stop "Suc k"] simp del: of_nat_mod)
qed

lemma emits_aligned:
  assumes "emits s bs s'" "lz_nbits s = 0" "8 dvd length bs"
  shows "lz_nbits s' = 0"
proof -
  have "8 * length (lz_buf s') + lz_nbits s' = 8 * length (lz_buf s) + length bs" "lz_nbits s' < 8"
    using assms(1,2) stream_length [of s] stream_length [of s'] by (simp_all add: emits_def pend_ok_def)
  then show ?thesis using assms(3) by presburger
qed

lemma lz_put_writes: "lz_nbits s = 0 \<Longrightarrow> writes (lz_put c) s (byte_bits c)"
  by (auto simp: writes_def lz_put_def stream_length emits_def core_def pend_ok_def stream_def pending_def)

lemma lz_puts_writes: "lz_nbits s = 0 \<Longrightarrow> writes (lz_puts cs) s (byte_stream cs)"
proof (induction cs arbitrary: s)
  case Nil
  then show ?case using writes_nothing by (simp add: writes_def)
next
  case (Cons c cs)
  have "writes (\<lambda>s. ebind (lz_put c s) (lz_puts cs)) s (byte_bits c @ byte_stream cs)"
    using Cons emits_aligned by (intro writes_seq lz_put_writes) auto
  then show ?case by (simp add: writes_def)
qed

lemma put_range_writes:
  "lz_nbits s = 0 \<Longrightarrow> j + k \<le> length (lz_in s) \<Longrightarrow> writes (put_range j k) s (byte_stream (slice (lz_in s) j (j + k)))"
proof (induction k arbitrary: j s)
  case 0
  then show ?case using writes_nothing by (simp add: writes_def)
next
  case (Suc k)
  define c where "c = lz_in s ! j"
  have "writes (\<lambda>s. ebind (lz_put c s) (put_range (Suc j) k)) s
      (byte_bits c @ byte_stream (slice (lz_in s) (Suc j) (Suc j + k)))"
  proof (rule writes_seq)
    show "writes (lz_put c) s (byte_bits c)" using Suc.prems by (intro lz_put_writes)
    fix t assume t: "emits s (byte_bits c) t"
    then have "lz_in t = lz_in s" "lz_nbits t = 0"
      using emits_same(1) [OF t] emits_aligned [OF t] Suc.prems by simp_all
    then show "writes (put_range (Suc j) k) t (byte_stream (slice (lz_in s) (Suc j) (Suc j + k)))"
      using Suc.IH [of t "Suc j"] Suc.prems by simp
  qed
  then show ?case
    by (rule writes_eq) (use Suc.prems slice_Cons [of j "j + Suc k" "lz_in s"] in \<open>simp_all add: inb_ok c_def\<close>)
qed

text \<open>The stream of a code, at the level of the state.\<close>

definition encode :: "LZBuffer \<Rightarrow> token \<Rightarrow> bool list" where
  "encode s t = (if lz_level s = 1 then lz1_encode (lz_rb s) t else byte_stream (lz2_encode (minMatch s) t))"

lemma encode_core: "core s' = core s \<Longrightarrow> encode s' t = encode s t"
  using core_eqD [of s' s] by (simp add: encode_def)

text \<open>Level 2 keeps no pending bits.\<close>

definition aligned :: "LZBuffer \<Rightarrow> bool" where
  "aligned s \<longleftrightarrow> lz_level s = 1 \<or> lz_level s = 2 \<and> lz_nbits s = 0"

lemma put_literals_writes:
  assumes "lz_nbits s = 0" "lit \<le> i" "i \<le> length (lz_in s)"
  shows "writes (put_literals i lit) s (byte_stream (lz2_literals (slice (lz_in s) (i - lit) i)))"
  using assms
proof (induction i lit s rule: put_literals.induct)
  case (1 i lit s)
  show ?case
  proof (cases "0 < lit")
    case True
    define xs where "xs = lz_in s"
    define lit1 where "lit1 = (if 64 < lit then 64 else lit)"
    have lit1: "0 < lit1" "lit1 \<le> lit" using True by (auto simp: lit1_def)
    have "writes (\<lambda>s. ebind (lz_put (of_nat (lit1 - 1)) s) (\<lambda>s.
              ebind (put_range (i - lit) lit1 s) (put_literals i (lit - lit1)))) s
        (byte_bits (of_nat (lit1 - 1)) @ byte_stream (slice xs (i - lit) (i - lit + lit1))
         @ byte_stream (lz2_literals (slice xs (i - (lit - lit1)) i)))"
    proof (intro writes_seq)
      show "writes (lz_put (of_nat (lit1 - 1))) s (byte_bits (of_nat (lit1 - 1)))" using 1(2) by (rule lz_put_writes)
      fix t assume t: "emits s (byte_bits (of_nat (lit1 - 1))) t"
      have tn: "lz_nbits t = 0" "lz_in t = xs"
        using emits_aligned [OF t] 1(2) emits_same(1) [OF t] by (simp_all add: xs_def)
      show "writes (put_range (i - lit) lit1) t (byte_stream (slice xs (i - lit) (i - lit + lit1)))"
        using put_range_writes [OF tn(1), of "i - lit" lit1] tn lit1 1(3,4) by (simp add: xs_def)
      fix u assume u: "emits t (byte_stream (slice xs (i - lit) (i - lit + lit1))) u"
      have un: "lz_nbits u = 0" "lz_in u = xs"
        using emits_aligned [OF u] tn emits_same(1) [OF u] by simp_all
      show "writes (put_literals i (lit - lit1)) u (byte_stream (lz2_literals (slice xs (i - (lit - lit1)) i)))"
        using 1(1) [OF True lit1_def, of u] un 1(3,4) by (simp add: xs_def)
    qed
    moreover have "lz2_literals (slice xs (i - lit) i)
        = of_nat (lit1 - 1) # slice xs (i - lit) (i - lit + lit1) @ lz2_literals (slice xs (i - (lit - lit1)) i)"
    proof -
      have len: "length (slice xs (i - lit) i) = lit" using 1(3,4) by (simp add: xs_def)
      have "take 64 (slice xs (i - lit) i) = slice xs (i - lit) (i - lit + lit1)"
        using 1(3) len by (cases "64 < lit") (simp_all add: lit1_def take_slice)
      moreover have "drop 64 (slice xs (i - lit) i) = slice xs (i - (lit - lit1)) i"
        using 1(3) len by (cases "64 < lit") (simp_all add: lit1_def drop_slice)
      moreover have "length (slice xs (i - lit) (i - lit + lit1)) = lit1" using lit1 1(3,4) by (simp add: xs_def)
      moreover have "slice xs (i - lit) i \<noteq> []" using len True by auto
      ultimately show ?thesis by (subst lz2_literals.simps) simp
    qed
    ultimately show ?thesis
      by (elim writes_eq) (use True 1(3) in \<open>simp_all add: put_literals.simps [of i lit s] lit1_def xs_def Let_def\<close>)
  next
    case False
    then show ?thesis by (intro writes_eq [OF writes_nothing]) (simp_all add: put_literals.simps lz2_literals.simps)
  qed
qed

lemma put_matches_writes:
  assumes "lz_nbits s = 0"
  shows "writes (put_matches len off) s (byte_stream (lz2_matches (minMatch s) len off))"
  using assms
proof (induction len off s rule: put_matches.induct)
  case (1 len off s)
  show ?case
  proof (cases "0 < len")
    case True
    define m where "m = minMatch s"
    define len1 where "len1 = (if m * 2 + 63 < len then m + 63 else if m + 63 < len then len - m else len)"
    define byte where "byte = (\<lambda>k. of_nat (off div 2 ^ k) :: u8)"
    define code where "code = (if off < 2 ^ 16 then [64 + (of_nat len1 - of_nat m), byte 8, byte 0]
               else if off < 2 ^ 24 then [128 + (of_nat len1 - of_nat m), byte 16, byte 8, byte 0]
               else [192 + (of_nat len1 - of_nat m), byte 24, byte 16, byte 8, byte 0])"
    have "writes (\<lambda>s. ebind (lz_puts code s) (put_matches (len - len1) off)) s
        (byte_stream code @ byte_stream (lz2_matches m (len - len1) off))"
    proof (rule writes_seq)
      show "writes (lz_puts code) s (byte_stream code)" using 1(2) by (rule lz_puts_writes)
      fix t assume t: "emits s (byte_stream code) t"
      have "lz_nbits t = 0" "minMatch t = m" using emits_aligned [OF t] 1(2) emits_same(8) [OF t] by (simp_all add: m_def)
      then show "writes (put_matches (len - len1) off) t (byte_stream (lz2_matches m (len - len1) off))"
        using 1(1) [OF True len1_def [unfolded m_def] refl refl, of t] by simp
    qed
    moreover have "put_matches len off s = ebind (lz_puts code s) (put_matches (len - len1) off)"
      using True by (subst put_matches.simps) (simp only: Let_def if_True m_def [symmetric] len1_def [symmetric] byte_def [symmetric] code_def)
    moreover have "lz2_matches m len off = code @ lz2_matches m (len - len1) off"
      using True by (subst lz2_matches.simps) (simp only: Let_def if_True len1_def [symmetric] byte_def [symmetric] code_def)
    ultimately show ?thesis by (elim writes_eq) (simp_all add: m_def)
  next
    case False
    then show ?thesis by (intro writes_eq [OF writes_nothing]) (simp_all add: put_matches.simps lz2_matches.simps)
  qed
qed

lemma put_literal_bits_writes_in:
  "lz_in s = xs \<Longrightarrow> lit \<le> i \<Longrightarrow> i \<le> length xs \<Longrightarrow>
   writes (put_literal_bits i lit) s (byte_stream (slice xs (i - lit) i))"
  using put_literal_bits_writes by blast

lemma write_literal_writes:
  assumes "aligned s" "lit \<le> i" "i \<le> length (lz_in s)"
  shows "writes (write_literal i lit) s (encode s (Lit (slice (lz_in s) (i - lit) i)))"
proof (cases "lz_level s = 1")
  case True
  have len: "length (slice (lz_in s) (i - lit) i) = lit" using assms by simp
  show ?thesis
  proof (cases "lit < 1")
    case False
    have "writes (\<lambda>s. ebind (putb 0 2 s) (\<lambda>s. ebind (put_gamma lit 0 (lg lit - 1) s) (\<lambda>s. ebind (putb 0 1 s)
             (put_literal_bits i lit)))) s
        (replicate 2 False @ gamma_bits lit 0 (lg lit - 1) @ replicate 1 False @ byte_stream (slice (lz_in s) (i - lit) i))"
      using assms(2,3)
      by (intro writes_seq putb_zero_writes put_gamma_writes put_literal_bits_writes_in; (simp add: emits_same(1))?)
    then show ?thesis
      by (rule writes_eq) (use True False len in \<open>auto simp: write_literal_def encode_def numeral_2_eq_2\<close>)
  qed (intro writes_eq [OF writes_nothing]; use True len in \<open>simp add: write_literal_def encode_def\<close>)
next
  case False
  then show ?thesis
    using assms by (intro writes_eq [OF put_literals_writes]) (auto simp: write_literal_def encode_def aligned_def)
qed

lemma write_match_writes:
  assumes "aligned s" "0 < off" "lz_level s = 1 \<Longrightarrow> off + 2 ^ lz_rb s - 1 < 2 ^ (24 + lz_rb s)" "lz_rb s \<le> 8"
  shows "writes (write_match len off) s (encode s (Match len off))"
proof (cases "lz_level s = 1")
  case True
  define rb where "rb = lz_rb s"
  define x where "x = off + 2 ^ rb - 1"
  define lo where "lo = lg x - 1 - rb"
  have "(1 :: nat) \<le> 2 ^ rb" by simp
  then have "0 < x" using assms(2) unfolding x_def by linarith
  then have x: "x < 2 ^ (24 + rb)" "0 < x" "rb \<le> 8" using assms True by (simp_all add: x_def rb_def)
  then have lo: "lo \<le> 23" using lg_le [of x "24 + rb"] by (simp add: lo_def)
  have "writes (\<lambda>s. ebind (putb (of_nat ((lo + 8) div 8)) 2 s) (\<lambda>s.
           ebind (putb (of_nat (lo mod 8)) 3 s) (\<lambda>s.
           ebind (put_gamma len 2 (lg len - 1) s) (\<lambda>s.
           ebind (putb 0 1 s) (\<lambda>s.
           ebind (putb (of_nat (len mod 4)) 2 s) (\<lambda>s.
           ebind (putb (of_nat x) rb s) (putb (of_nat (x div 2 ^ rb)) lo))))))) s
      (bits_of 2 ((lo + 8) div 8) @ bits_of 3 (lo mod 8) @ gamma_bits len 2 (lg len - 1) @ replicate 1 False
       @ bits_of 2 (len mod 4) @ bits_of rb x @ bits_of lo (x div 2 ^ rb))"
    using x(3) lo by (intro writes_seq putb_zero_writes putb_writes_nat put_gamma_writes) simp_all
  then show ?thesis
    by (rule writes_eq) (simp_all add: write_match_def encode_def True Let_def rb_def x_def lo_def)
next
  case False
  then show ?thesis
    using assms by (intro writes_eq [OF put_matches_writes]) (auto simp: write_match_def encode_def aligned_def)
qed

end
