(* ===== verification/Zpaq_Lz77_Correct.thy ===== *)
theory Zpaq_Lz77_Correct
  imports Zpaq_Lz77_Write "HOL-Library.List_Lexorder"
begin

text \<open>
  Correctness of \<open>LZBuffer\<close> for LZ77: the searches only find repetitions and stay in their arrays, a step of the scan
  writes codes for the bytes it passes and keeps the invariant \<open>lz_ok\<close>, the buffer has room for a step whenever
  one is started, and what a client reads decodes to the block.
\<close>

section \<open>The search finds repeated bytes\<close>

definition repeats :: "LZBuffer \<Rightarrow> nat \<Rightarrow> nat \<Rightarrow> nat \<Rightarrow> bool" where
  "repeats s p l l' \<longleftrightarrow> (\<forall>j. l \<le> j \<and> j < l' \<longrightarrow> lz_in s ! (p + j) = lz_in s ! (lz_i s + j))"

lemma match_len_ok:
  assumes "lz_n s \<le> length (lz_in s)" "p < lz_i s"
  shows "\<exists>l'. match_len s p l = Inr l' \<and> l \<le> l' \<and> (l < l' \<longrightarrow> lz_i s + l' \<le> lz_n s) \<and> repeats s p l l'
           \<and> l' \<le> max l (maxMatch s)"
  using assms
proof (induction s p l rule: match_len.induct)
  case (1 s p l)
  show ?case
  proof (cases "lz_i s + l < lz_n s \<and> l < maxMatch s \<and> lz_in s ! (p + l) = lz_in s ! (lz_i s + l)")
    case True
    then have "match_len s p l = match_len s p (Suc l)"
      using 1(2,3) by (subst match_len.simps) (simp add: inb_ok)
    moreover obtain l' where l': "match_len s p (Suc l) = Inr l'" "Suc l \<le> l'" "Suc l < l' \<longrightarrow> lz_i s + l' \<le> lz_n s"
      "repeats s p (Suc l) l'" "l' \<le> max (Suc l) (maxMatch s)"
      using 1(1) [of "lz_in s ! (p + l)" "lz_in s ! (lz_i s + l)"] 1(2,3) True by auto
    moreover have "repeats s p l l'"
      using l'(4) True unfolding repeats_def by (metis Suc_leI le_eq_less_or_eq)
    ultimately show ?thesis using True by (intro exI [of _ l']) auto
  next
    case False
    then have "match_len s p l = Inr l"
      using 1(2,3) by (subst match_len.simps) (auto simp: inb_ok)
    then show ?thesis by (auto simp: repeats_def)
  qed
qed

lemma match_back_ok:
  assumes "lz_n s \<le> length (lz_in s)" "p < lz_i s" "lz_i s + h \<le> lz_n s"
  shows "\<exists>l1. match_back s p h = Inr l1 \<and> l1 \<le> h \<and> repeats s p l1 h"
  using assms
proof (induction h)
  case (Suc h)
  show ?case
  proof (cases "lz_in s ! (p + h) = lz_in s ! (lz_i s + h)")
    case True
    then have "match_back s p (Suc h) = match_back s p h" using Suc.prems by (simp add: inb_ok)
    moreover obtain l1 where "match_back s p h = Inr l1" "l1 \<le> h" "repeats s p l1 h" using Suc by auto
    moreover then have "repeats s p l1 (Suc h)"
      using True unfolding repeats_def by (metis less_SucE)
    ultimately show ?thesis by (intro exI [of _ l1]) simp
  next
    case False
    then have "match_back s p (Suc h) = Inr (Suc h)" using Suc.prems by (simp add: inb_ok)
    then show ?thesis by (auto simp: repeats_def)
  qed
qed (simp add: repeats_def)

lemma repeats_join: "repeats s p l1 l \<Longrightarrow> repeats s p l l' \<Longrightarrow> repeats s p l1 l'"
  unfolding repeats_def by (metis not_le)

text \<open>A best match so far with a positive score repeats what stands behind \<open>i\<close>.\<close>

definition best_ok :: "LZBuffer \<Rightarrow> best \<Rightarrow> bool" where
  "best_ok s b \<longleftrightarrow> 0 \<le> bscore b \<and>
     (0 < bscore b \<longrightarrow> bp b < lz_i s \<and> blit b < blen b \<and> lz_i s + blen b \<le> lz_n s \<and> blit b \<le> lookahead s
        \<and> blen b \<le> maxMatch s + lookahead s \<and> repeats s (bp b) (blit b) (blen b))"

lemma better_ok:
  assumes "best_ok s b"
    "0 < score \<Longrightarrow> p < lz_i s \<and> l1 < l \<and> lz_i s + l \<le> lz_n s \<and> l1 \<le> lookahead s
        \<and> l \<le> maxMatch s + lookahead s \<and> repeats s p l1 l"
  shows "best_ok s (better score l p l1 b)" "1 \<le> blen b \<Longrightarrow> 1 \<le> blen (better score l p l1 b)"
  using assms by (auto simp: best_ok_def better_def)

lemma damp_pos: "0 < damp x \<Longrightarrow> 0 < x"
  by (auto simp: damp_def zero_less_mult_iff neg_less_0_iff_less split: if_splits) 

lemma damps_pos: "0 < (damp ^^ h) x \<Longrightarrow> 0 < x"
  by (induction h) (auto dest: damp_pos)

lemma found_ok:
  assumes n: "lz_n s \<le> length (lz_in s)" and p: "p < lz_i s" and h: "h \<le> lookahead s" "lz_i s + h \<le> lz_n s"
    and l: "match_len s p h = Inr l" and l1: "match_back s p h = Inr l1" and score: "0 < int (l - l1) * 8 - c" "0 \<le> c"
  shows "p < lz_i s \<and> l1 < l \<and> lz_i s + l \<le> lz_n s \<and> l1 \<le> lookahead s
        \<and> l \<le> maxMatch s + lookahead s \<and> repeats s p l1 l"
proof -
  have fwd: "h \<le> l" "h < l \<longrightarrow> lz_i s + l \<le> lz_n s" "repeats s p h l" "l \<le> max h (maxMatch s)"
    using match_len_ok [OF n p, of h] l by auto
  have bwd: "l1 \<le> h" "repeats s p l1 h" using match_back_ok [OF n p h(2)] l1 by auto
  have "l1 < l" using score by (cases "l1 < l") auto
  moreover have "lz_i s + l \<le> lz_n s" using fwd(1,2) h(2) by (cases "h = l") auto
  moreover have "l \<le> maxMatch s + lookahead s" using fwd(4) h(1) by linarith
  moreover have "repeats s p l1 l" using repeats_join bwd(2) fwd(3) by blast
  ultimately show ?thesis using p bwd(1) h(1) by linarith
qed

subsection \<open>The suffix array\<close>

definition sa_ok :: "LZBuffer \<Rightarrow> bool" where
  "sa_ok s \<longleftrightarrow> (0 < lz_n s \<longrightarrow> length (lz_sa s) = lz_n s \<and> (\<forall>x\<in>set (lz_sa s). x < lz_n s))"

definition isa_ok :: "LZBuffer \<Rightarrow> nat list \<Rightarrow> bool" where
  "isa_ok s isa \<longleftrightarrow> length isa = 2 ^ checkbits s \<and> (0 < lz_n s \<longrightarrow> (\<forall>q\<in>set isa. q < lz_n s))"

lemma at_ok: "k < length xs \<Longrightarrow> at xs k = Inr (xs ! k)"
  by (simp add: at_def)

lemma sa_try_ok:
  assumes "lz_n s \<le> length (lz_in s)" "sa_ok s" "h \<le> lookahead s" "lz_i s + h \<le> lz_n s" "best_ok s b"
  shows "\<exists>stop b'. sa_try s lit h q up k b = Inr (stop, b') \<and> best_ok s b'"
proof -
  define x where "x = (if up then q + k else usub q k)"
  define p where "p = usub (lz_sa s ! x) h"
  show ?thesis
  proof (cases "x < lz_n s \<and> p < lz_i s")
    case True
    obtain l where l: "match_len s p h = Inr l" using match_len_ok [OF assms(1), of p h] True by auto
    obtain l1 where l1: "match_back s p h = Inr l1" using match_back_ok [OF assms(1), of p h] True assms(4) by auto
    define c where "c = int (lg (lz_i s - p)) + (if lit = 0 \<and> 0 < l1 then 4 else 0) + 11"
    define score where "score = int (l - l1) * 8 - int (lg (lz_i s - p)) - (if lit = 0 \<and> 0 < l1 then 4 else 0) - 11"
    have score: "score = int (l - l1) * 8 - c" by (simp add: score_def c_def)
    have "best_ok s (better ((damp ^^ h) score) l p l1 b)"
      using assms(5) True found_ok [OF assms(1) _ assms(3,4) l l1, of c] damps_pos [of h score] score
      by (intro better_ok) (auto simp: c_def)
    then show ?thesis
      using True assms(2) l l1
      by (auto simp: sa_try_def x_def [symmetric] p_def [symmetric] at_ok sa_ok_def Let_def score_def)
  next
    case False
    then show ?thesis
      using assms(2,5) by (auto simp: sa_try_def x_def [symmetric] p_def [symmetric] at_ok sa_ok_def Let_def)
  qed
qed

lemma sa_side_ok:
  assumes "lz_n s \<le> length (lz_in s)" "sa_ok s" "h \<le> lookahead s" "lz_i s + h \<le> lz_n s" "best_ok s b"
  shows "\<exists>b'. sa_side s lit h q up ks b = Inr b' \<and> best_ok s b'"
  using assms(5)
proof (induction ks arbitrary: b)
  case (Cons k ks)
  obtain stop b1 where "sa_try s lit h q up k b = Inr (stop, b1)" "best_ok s b1"
    using sa_try_ok [OF assms(1-4) Cons.prems] by blast
  then show ?case using Cons.IH by simp
qed simp

lemma sa_search_ok:
  assumes n: "0 < lz_n s" and "lz_n s \<le> length (lz_in s)" "sa_ok s" "isa_ok s isa" "best_ok s b" "\<forall>h\<in>set hs. h \<le> lookahead s"
  shows "\<exists>b'. sa_search s isa lit hs b = Inr b' \<and> best_ok s b'"
  using assms(5,6)
proof (induction hs arbitrary: b)
  case (Cons h hs)
  define q where "q = isa ! ((h + lz_i s) mod 2 ^ checkbits s)"
  have q: "at isa ((h + lz_i s) mod 2 ^ checkbits s) = Inr q" "q < lz_n s"
    using assms(4) n by (auto simp: isa_ok_def at_ok q_def)
  have pos: "at (lz_sa s) q = Inr (lz_sa s ! q)" "lz_sa s ! q < lz_n s"
    using q(2) assms(3) by (auto simp: sa_ok_def at_ok)
  show ?case
  proof (cases "lz_sa s ! q = h + lz_i s")
    case True
    then have h: "h \<le> lookahead s" "lz_i s + h \<le> lz_n s" using Cons.prems pos by simp_all
    obtain b1 where b1: "sa_side s lit h q False [1..<bucket s + 1] b = Inr b1" "best_ok s b1"
      using sa_side_ok [OF assms(2,3) h Cons.prems(1)] by blast
    obtain b2 where b2: "sa_side s lit h q True [1..<bucket s + 1] b1 = Inr b2" "best_ok s b2"
      using sa_side_ok [OF assms(2,3) h b1(2)] by blast
    show ?thesis using q pos True b1 b2 Cons.IH [OF b2(2)] Cons.prems(2) by (simp del: upt_Suc)
  next
    case False
    then show ?thesis using q pos Cons by simp
  qed
qed simp

lemma isa_fill_ok:
  assumes "sa_ok s" "isa_ok s isa" "\<forall>j\<in>set js. j < lz_n s"
  shows "\<exists>isa'. isa_fill s js isa = Inr isa' \<and> isa_ok s isa'"
  using assms(2,3)
proof (induction js arbitrary: isa)
  case (Cons j js)
  have "isa_ok s (isa[k := j])" for k
    using Cons.prems set_update_subset_insert [of isa k j] by (auto simp: isa_ok_def)
  moreover have "upd isa (lz_sa s ! j mod 2 ^ checkbits s) j = Inr (isa[lz_sa s ! j mod 2 ^ checkbits s := j])"
    using Cons.prems by (simp add: upd_def isa_ok_def)
  ultimately show ?case using Cons assms(1) by (auto simp: at_ok sa_ok_def)
qed simp

lemma isa_rebuild_ok:
  assumes "sa_ok s" "isa_ok s isa" "0 < lz_n s"
  shows "\<exists>isa'. isa_rebuild s isa = Inr isa' \<and> isa_ok s isa'"
proof -
  define q where "q = isa ! (lz_i s mod 2 ^ checkbits s)"
  have "at isa (lz_i s mod 2 ^ checkbits s) = Inr q" "q < lz_n s"
    using assms(2,3) by (auto simp: isa_ok_def at_ok q_def)
  then show ?thesis using isa_fill_ok [OF assms(1,2), of "[0..<lz_n s]"] assms by (auto simp: isa_rebuild_def sa_ok_def at_ok)
qed

subsection \<open>The hash table\<close>

definition hash_ok :: "LZBuffer \<Rightarrow> bool" where
  "hash_ok s \<longleftrightarrow> (\<exists>k<32. length (ht s) = 2 ^ k \<and> h1 s < 2 ^ k \<and> h2 s < 2 ^ k \<and> bucket s < 2 ^ k) \<and>
     (minMatch2 s = 0 \<or> lz_n s + 3 \<le> length (lz_in s)) \<and> 2 \<le> minMatch s \<and>
     checkbits s < 32 \<and> shift1 s < 32 \<and> shift2 s < 32 \<and>
     minMatch s + 4 \<le> minMatchBoth s \<and> minMatch2 s + lookahead s + 4 \<le> minMatchBoth s"

lemma word_less_power: assumes "k < 32" shows "x < 2 ^ k \<longleftrightarrow> unat (x :: u32) < 2 ^ k"
proof -
  have "unat (2 ^ k :: u32) = 2 ^ k"
    using assms unat_of_nat [where 'a = 32, of "2 ^ k"] power_strict_increasing [of k 32 "2 :: nat"] by simp
  then show ?thesis by (simp add: word_less_nat_alt)
qed

lemma xor_less:
  assumes "x < 2 ^ k" "y < 2 ^ k" "k < 32"
  shows "(x :: u32) XOR y < 2 ^ k"
proof -
  have "take_bit k z = z \<longleftrightarrow> z < 2 ^ k" for z :: u32
    using assms(3) by (simp add: word_less_power word_unat_eq_iff unsigned_take_bit_eq take_bit_nat_eq_self_iff)
  then show ?thesis using assms(1,2) by (metis take_bit_xor)
qed

lemma ht_slot:
  assumes "hash_ok s" "k \<le> bucket s" "h = h1 s \<or> h = h2 s"
  shows "unat (h XOR of_nat k) < length (ht s)"
proof -
  obtain b where b: "b < 32" "length (ht s) = 2 ^ b" "h < 2 ^ b" "bucket s < 2 ^ b"
    using assms by (auto simp: hash_ok_def)
  have "k < 2 ^ b" using assms(2) b(4) by linarith
  moreover have "(2 :: nat) ^ b < 2 ^ 32" using b(1) by (intro power_strict_increasing) simp_all
  ultimately have "of_nat k < (2 :: u32) ^ b" using b(1) by (simp add: word_less_power unat_of_nat)
  then show ?thesis using xor_less [OF b(3)] b(1,2) by (simp add: word_less_power)
qed

lemma same_last_ok:
  assumes "lz_n s \<le> length (lz_in s)" "1 \<le> blen b"
  shows "\<exists>same. same_last s p b = Inr same \<and> (same \<longrightarrow> p < lz_i s)"
  using assms by (auto simp: same_last_def inb_ok)

definition found :: "LZBuffer \<Rightarrow> best \<Rightarrow> bool" where
  "found s b \<longleftrightarrow> best_ok s b \<and> 1 \<le> blen b"

lemma try_short_ok:
  assumes "lz_n s \<le> length (lz_in s)" "hash_ok s" "k \<le> bucket s" "found s b"
  shows "\<exists>b'. try_short s lit k b = Inr b' \<and> found s b'"
proof -
  define e where "e = ht s ! unat (h1 s XOR of_nat k)"
  have e: "at (ht s) (unat (h1 s XOR of_nat k)) = Inr e"
    using ht_slot [OF assms(2,3)] by (simp add: at_ok e_def)
  define p where "p = unat (drop_bit (checkbits s) e)"
  show ?thesis
  proof (cases "e = 0 \<or> lz_n s \<le> lz_i s + 3 \<or> \<not> confirm s e (lz_in s ! (lz_i s + 3))")
    case True
    then show ?thesis using e assms by (auto simp: try_short_def inb_ok)
  next
    case False
    obtain same where same: "same_last s p b = Inr same" "same \<longrightarrow> p < lz_i s"
      using same_last_ok [OF assms(1)] assms(4) by (auto simp: found_def)
    show ?thesis
    proof (cases same)
      case True
      then have p: "p < lz_i s" using same by simp
      obtain l where l: "match_len s p 0 = Inr l" using match_len_ok [OF assms(1) p, of 0] by auto
      define c where "c = int (lg (lz_i s - p)) + (if 0 < lit then 2 else 0) + 11"
      have i: "lz_i s + 0 \<le> lz_n s" using False by simp
      have "found s (better (int l * 8 - c) l p 0 b)"
        using found_ok [OF assms(1) p _ i l, of 0 c] better_ok [of s b "int l * 8 - c" p 0 l] assms(4)
        by (auto simp: found_def c_def)
      moreover have "try_short s lit k b = Inr (better (int l * 8 - c) l p 0 b)"
        using e False same(1) True l assms(1)
        by (simp add: try_short_def inb_ok p_def [symmetric] c_def algebra_simps)
      ultimately show ?thesis by blast
    next
      case no: False
      then show ?thesis using e False same(1) assms by (simp add: try_short_def inb_ok p_def [symmetric])
    qed
  qed
qed

lemma try_long_ok:
  assumes "lz_n s \<le> length (lz_in s)" "hash_ok s" "k \<le> bucket s" "found s b" "0 < minMatch2 s" "lz_i s < lz_n s"
  shows "\<exists>b'. try_long s lit k b = Inr b' \<and> found s b'"
proof -
  define e where "e = ht s ! unat (h2 s XOR of_nat k)"
  have e: "at (ht s) (unat (h2 s XOR of_nat k)) = Inr e"
    using ht_slot [OF assms(2,3)] by (simp add: at_ok e_def)
  have three: "inb s (lz_i s + 3) = Inr (lz_in s ! (lz_i s + 3))"
    using assms(2,5,6) by (intro inb_ok) (simp add: hash_ok_def)
  define p where "p = unat (drop_bit (checkbits s) e)"
  show ?thesis
  proof (cases "e = 0 \<or> \<not> confirm s e (lz_in s ! (lz_i s + 3))")
    case True
    then show ?thesis using e three assms by (auto simp: try_long_def)
  next
    case False
    obtain same where same: "same_last s p b = Inr same" "same \<longrightarrow> p < lz_i s"
      using same_last_ok [OF assms(1)] assms(4) by (auto simp: found_def)
    show ?thesis
    proof (cases same)
      case True
      then have p: "p < lz_i s" using same by simp
      obtain l where l: "match_len s p (lookahead s) = Inr l" and
        reach: "lookahead s < l \<longrightarrow> lz_i s + l \<le> lz_n s"
        using match_len_ok [OF assms(1) p, of "lookahead s"] by auto
      show ?thesis
      proof (cases "l < minMatch2 s + lookahead s")
        case short: True
        then show ?thesis using e False same(1) True l three assms by (simp add: try_long_def p_def [symmetric])
      next
        case long: False
        then have i: "lz_i s + lookahead s \<le> lz_n s" using reach assms(5) by simp
        obtain l1 where l1: "match_back s p (lookahead s) = Inr l1"
          using match_back_ok [OF assms(1) p i] by auto
        define c where "c = int (lg (lz_i s - p)) + (if lit = 0 \<and> 0 < l1 then 8 else 0) + 11"
        have "found s (better (int (l - l1) * 8 - c) l p l1 b)"
          using found_ok [OF assms(1) p _ i l l1, of c] better_ok [of s b "int (l - l1) * 8 - c" p l1 l] assms(4)
          by (auto simp: found_def c_def)
        moreover have "try_long s lit k b = Inr (better (int (l - l1) * 8 - c) l p l1 b)"
          using e False same(1) True l l1 long three
          by (simp add: try_long_def p_def [symmetric] c_def algebra_simps)
        ultimately show ?thesis by blast
      qed
    next
      case no: False
      then show ?thesis using e False same(1) three assms by (simp add: try_long_def p_def [symmetric])
    qed
  qed
qed

lemma bucket_search_ok:
  assumes "\<And>k b. k \<in> set ks \<Longrightarrow> found s b \<Longrightarrow> \<exists>b'. f k b = Inr b' \<and> found s b'" "found s b"
  shows "\<exists>b'. bucket_search f ks b = Inr b' \<and> found s b'"
  using assms
proof (induction ks arbitrary: b)
  case (Cons k ks)
  obtain b1 where "f k b = Inr b1" "found s b1" using Cons.prems by fastforce
  then show ?case using Cons.IH [of b1] Cons.prems(1) by auto
qed simp

definition search_ok :: "LZBuffer \<Rightarrow> bool" where
  "search_ok s \<longleftrightarrow> lz_n s \<le> length (lz_in s) \<and>
     (case lz_isa s of None \<Rightarrow> hash_ok s | Some isa \<Rightarrow> sa_ok s \<and> isa_ok s isa)"

lemma lz_search_ok:
  assumes "search_ok s" "lz_i s < lz_n s"
  shows "\<exists>b s'. lz_search lit s = Inr (b, s') \<and> best_ok s b
           \<and> (s' = s \<or> (\<exists>isa. lz_isa s \<noteq> None \<and> isa_ok s isa \<and> s' = s\<lparr>lz_isa := Some isa\<rparr>))"
proof (cases "lz_isa s")
  case None
  define b0 where "b0 = \<lparr>blen = minMatch s - 1, bp = 0, blit = 0, bscore = 0\<rparr>"
  have ok: "lz_n s \<le> length (lz_in s)" "hash_ok s" using assms None by (simp_all add: search_ok_def)
  have b0: "found s b0" using ok(2) by (auto simp: found_def best_ok_def b0_def hash_ok_def)
  obtain b1 where b1: "(if 0 < minMatch2 s then bucket_search (try_long s lit) [0..<bucket s + 1] b0 else Inr b0) = Inr b1"
    "found s b1"
    using bucket_search_ok [of "[0..<bucket s + 1]" s "try_long s lit" b0] try_long_ok [OF ok] assms(2) b0
    by (cases "0 < minMatch2 s") (auto simp del: upt_Suc)
  obtain b2 where b2: "(if minMatch2 s = 0 \<or> blen b1 < minMatch2 s
      then bucket_search (try_short s lit) [0..<bucket s + 1] b1 else Inr b1) = Inr b2" "found s b2"
    using bucket_search_ok [of "[0..<bucket s + 1]" s "try_short s lit" b1] try_short_ok [OF ok] b1(2)
    by (cases "minMatch2 s = 0 \<or> blen b1 < minMatch2 s") (auto simp del: upt_Suc)
  have "lz_search lit s = (if lz_level s = 1 \<or> minMatch s \<le> 64 then Inr (b2, s) else Inr (b0, s))"
    unfolding lz_search_def Let_def b0_def [symmetric] None option.case b1(1) ebind_simps b2(1) by (rule refl)
  then show ?thesis using b0 b2(2) by (auto simp: found_def)
next
  case (Some isa)
  have ok: "lz_n s \<le> length (lz_in s)" "sa_ok s" "isa_ok s isa" using assms Some by (simp_all add: search_ok_def)
  define b0 where "b0 = \<lparr>blen = minMatch s - 1, bp = 0, blit = 0, bscore = 0\<rparr>"
  obtain isa' where isa': "isa_rebuild s isa = Inr isa'" "isa_ok s isa'" using isa_rebuild_ok [OF ok(2,3)] assms(2) by auto
  have "best_ok s b0" by (simp add: best_ok_def b0_def)
  then obtain b where b: "sa_search s isa' lit [0..<lookahead s + 1] b0 = Inr b" "best_ok s b"
    using assms(2) sa_search_ok [OF _ ok(1,2) isa'(2), of b0 "[0..<lookahead s + 1]" lit] by auto
  have "lz_search lit s = Inr (b, s\<lparr>lz_isa := Some isa'\<rparr>)"
    unfolding lz_search_def Let_def b0_def [symmetric] Some option.case isa'(1) ebind_simps b(1) by (rule refl)
  then show ?thesis using Some isa' b by auto
qed

text \<open>Indexing keeps the table and the hashes in range.\<close>

lemma next_hash_ok:
  assumes "k < 32" "length (ht s) = 2 ^ k" "sh < 32"
  shows "\<exists>h'. next_hash s h m sh c a = Inr h' \<and> h' < 2 ^ k"
proof -
  have "x AND (2 ^ k - 1) < (2 :: u32) ^ k" for x
  proof -
    have "x AND (2 ^ k - 1) = take_bit k x" by (simp add: take_bit_eq_mask mask_eq_exp_minus_1)
    then show ?thesis using assms(1) by (simp add: word_less_power unsigned_take_bit_eq take_bit_nat_less_exp)
  qed
  then show ?thesis using assms by (simp add: next_hash_def shl_def)
qed

lemma lz_index_ok:
  assumes "lz_n s \<le> length (lz_in s)" "hash_ok s"
  shows "\<exists>t a b. lz_index s = Inr (s\<lparr>ht := t, h1 := a, h2 := b, lz_i := lz_i s + 1\<rparr>)
           \<and> hash_ok (s\<lparr>ht := t, h1 := a, h2 := b, lz_i := lz_i s + 1\<rparr>)"
proof (cases "lz_i s + minMatchBoth s < lz_n s")
  case True
  obtain k where k: "k < 32" "length (ht s) = 2 ^ k" "h1 s < 2 ^ k" "h2 s < 2 ^ k" "bucket s < 2 ^ k"
    using assms(2) by (auto simp: hash_ok_def)
  define ih where "ih = drop_bit 19 (of_nat (lz_i s) * 1234547 :: u32) AND of_nat (bucket s)"
  have "unat ih \<le> bucket s"
  proof -
    have "ih \<le> of_nat (bucket s)" unfolding ih_def by (rule word_and_le1)
    then have "unat ih \<le> unat (of_nat (bucket s) :: u32)" by (simp add: word_le_nat_alt)
    also have "\<dots> \<le> bucket s" by (simp add: unat_of_nat)
    finally show ?thesis .
  qed
  then have slot: "unat (h XOR ih) < length t" if "h = h1 s \<or> h = h2 s" "length t = length (ht s)" for h and t :: "u32 list"
    using ht_slot [OF assms(2), of "unat ih" h] that by simp
  have reads: "lz_i s + 3 < length (lz_in s)" "lz_i s + minMatch2 s + lookahead s < length (lz_in s)"
      "lz_i s + minMatch s < length (lz_in s)"
    using True assms by (auto simp: hash_ok_def)
  define p where "p = push_bit (checkbits s) (of_nat (lz_i s)) OR take_bit (checkbits s) (ucast (lz_in s ! (lz_i s + 3)) :: u32)"
  have cb: "checkbits s < 32" "shift1 s < 32" "shift2 s < 32" using assms(2) by (simp_all add: hash_ok_def)
  obtain t2 b where long: "(if 0 < minMatch2 s
      then ebind (upd (ht s) (unat (h2 s XOR ih)) p) (\<lambda>t.
           ebind (inb s (lz_i s + minMatch2 s + lookahead s)) (\<lambda>c.
           ebind (next_hash s (h2 s) 9 (shift2 s) c 23456789) (\<lambda>h. Inr (s\<lparr>ht := t, h2 := h\<rparr>))))
      else Inr s) = Inr (s\<lparr>ht := t2, h2 := b\<rparr>)" "length t2 = 2 ^ k" "b < 2 ^ k"
  proof (cases "0 < minMatch2 s")
    case True
    obtain h where "next_hash s (h2 s) 9 (shift2 s) (lz_in s ! (lz_i s + minMatch2 s + lookahead s)) 23456789 = Inr h" "h < 2 ^ k"
      using next_hash_ok [of k s "shift2 s"] k cb by blast
    then show ?thesis
      using that [of h "(ht s)[unat (h2 s XOR ih) := p]"] slot [of "h2 s" "ht s"] True reads k by (simp add: upd_def inb_ok)
  next
    case False
    then show ?thesis using that [of "h2 s" "ht s"] k by simp
  qed
  define u where "u = s\<lparr>ht := t2, h2 := b\<rparr>"
  have "length (ht u) = 2 ^ k" using long(2) by (simp add: u_def)
  then obtain a where a: "next_hash u (h1 s) 5 (shift1 s) (lz_in s ! (lz_i s + minMatch s)) 123456791 = Inr a" "a < 2 ^ k"
    using next_hash_ok [of k u "shift1 s"] k cb by blast
  define t1 where "t1 = t2[unat (h1 s XOR ih) := p]"
  have "upd t2 (unat (h1 s XOR ih)) p = Inr t1"
    using slot [of "h1 s" t2] long(2) k(2) by (simp add: upd_def t1_def)
  then have "lz_index s = Inr (u\<lparr>ht := t1, h1 := a, lz_i := lz_i s + 1\<rparr>)"
    using True reads cb a(1)
    by (simp only: lz_index_def if_True shl_def inb_ok [OF reads(1)] ebind_simps Let_def ih_def [symmetric] p_def [symmetric] long(1) u_def [symmetric])
      (simp add: u_def inb_ok)
  moreover have "u\<lparr>ht := t1, h1 := a, lz_i := lz_i s + 1\<rparr> = s\<lparr>ht := t1, h1 := a, h2 := b, lz_i := lz_i s + 1\<rparr>"
    by (simp add: u_def)
  moreover have "hash_ok (s\<lparr>ht := t1, h1 := a, h2 := b, lz_i := lz_i s + 1\<rparr>)"
    using assms(2) k a(2) long(2,3) by (auto simp: hash_ok_def t1_def intro!: exI [of _ k])
  ultimately show ?thesis by metis
next
  case False
  then have "lz_index s = Inr (s\<lparr>ht := ht s, h1 := h1 s, h2 := h2 s, lz_i := lz_i s + 1\<rparr>)" by (simp add: lz_index_def)
  moreover have "hash_ok (s\<lparr>ht := ht s, h1 := h1 s, h2 := h2 s, lz_i := lz_i s + 1\<rparr>)"
    using assms(2) by (simp add: hash_ok_def)
  ultimately show ?thesis by blast
qed

lemma lz_advance_ok:
  assumes "lz_n s \<le> length (lz_in s)" "hash_ok s"
  shows "\<exists>t a b. lz_advance k s = Inr (s\<lparr>ht := t, h1 := a, h2 := b, lz_i := lz_i s + k\<rparr>)
           \<and> hash_ok (s\<lparr>ht := t, h1 := a, h2 := b, lz_i := lz_i s + k\<rparr>)"
  using assms
proof (induction k arbitrary: s)
  case 0
  have "s = s\<lparr>ht := ht s, h1 := h1 s, h2 := h2 s, lz_i := lz_i s + 0\<rparr>" by simp
  then show ?case using 0 by (metis lz_advance.simps(1))
next
  case (Suc k)
  obtain t a b where 1: "lz_index s = Inr (s\<lparr>ht := t, h1 := a, h2 := b, lz_i := lz_i s + 1\<rparr>)"
    "hash_ok (s\<lparr>ht := t, h1 := a, h2 := b, lz_i := lz_i s + 1\<rparr>)" using lz_index_ok [OF Suc.prems] by blast
  show ?case using Suc.IH [OF _ 1(2)] Suc.prems(1) 1(1) by auto
qed

section \<open>Room in the buffer\<close>

lemma lz2_literals_length: "length (lz2_literals bs) \<le> length bs + length bs div 64 + 1"
proof (induction bs rule: lz2_literals.induct)
  case (1 bs)
  show ?case
  proof (cases "bs = []")
    case False
    have "length (lz2_literals bs) = 1 + length (take 64 bs) + length (lz2_literals (drop 64 bs))"
      using False by (subst lz2_literals.simps) simp
    moreover have "length (lz2_literals (drop 64 bs)) \<le> (length bs - 64) + (length bs - 64) div 64 + 1"
      using 1 False by simp
    moreover have "64 < length bs \<Longrightarrow> (length bs - 64) div 64 + 1 = length bs div 64"
      by (simp add: div_if [of "length bs"])
    moreover have "length bs \<le> 64 \<Longrightarrow> lz2_literals (drop 64 bs) = []" by (simp add: lz2_literals.simps)
    ultimately show ?thesis by (cases "64 < length bs") auto
  qed (simp add: lz2_literals.simps)
qed

lemma lz2_matches_length:
  assumes "0 < m"
  shows "length (lz2_matches m len off) \<le> 5 * (len div 64 + 2)"
  using assms
proof (induction m len off rule: lz2_matches.induct)
  case (1 m len off)
  have one: "length (lz2_matches m k off) \<le> 5" if "k \<le> m + 63" for k
    using that by (cases "k = 0") (simp_all add: lz2_matches.simps [of m k] lz2_matches.simps [of m 0] Let_def)
  consider "len \<le> m + 63" | "m + 63 < len" "len \<le> m * 2 + 63" | "m * 2 + 63 < len" by linarith
  then show ?case
  proof cases
    case 2
    then have "length (lz2_matches m len off) \<le> 5 + length (lz2_matches m m off)"
      by (subst lz2_matches.simps) (simp add: Let_def)
    then show ?thesis using one [of m] by simp
  next
    case 3
    then have "length (lz2_matches m len off) \<le> 5 + length (lz2_matches m (len - (m + 63)) off)"
      by (subst lz2_matches.simps) (simp add: Let_def)
    moreover have "length (lz2_matches m (len - (m + 63)) off) \<le> 5 * ((len - (m + 63)) div 64 + 2)"
      using 1(1) [OF _ refl refl refl] 1(2) 3 by simp
    moreover have "(len - (m + 63)) div 64 \<le> (len - 64) div 64" using 1(2) by (intro div_le_mono) simp
    moreover have "(len - 64) div 64 + 1 = len div 64" using 3 1(2) by (simp add: div_if [of len])
    ultimately show ?thesis by simp
  qed (use one in force)
qed

lemma gamma_bits_length: "length (gamma_bits x stop k) \<le> 2 * k"
  by (induction k) auto

lemma encode_lit_length:
  assumes "length bs < 4224"
  shows "length (encode s (Lit bs)) \<le> 8 * (length bs + 70)"
proof -
  have "lg (length bs) \<le> 13" if "bs \<noteq> []" using lg_le [of "length bs" 13] assms that by simp
  moreover have "length bs div 64 \<le> 65" using assms by simp
  ultimately show ?thesis
    using gamma_bits_length [of "length bs" 0 "lg (length bs) - 1"] lz2_literals_length [of bs]
    by (auto simp: encode_def)
qed

lemma encode_match_length:
  assumes "len \<le> 49280" "0 < len" "0 < minMatch s" "lz_level s = 1 \<Longrightarrow> 0 < off \<and> off + 2 ^ lz_rb s - 1 < 2 ^ (24 + lz_rb s)" "lz_rb s \<le> 8"
  shows "length (encode s (Match len off)) \<le> 30880"
proof (cases "lz_level s = 1")
  case True
  have "(1 :: nat) \<le> 2 ^ lz_rb s" by simp
  then have "lg (off + 2 ^ lz_rb s - 1) \<le> 24 + lz_rb s"
    using assms(4) [OF True] assms(5) by (intro lg_le) linarith+
  moreover have "lg len \<le> 16" using lg_le [of len 16] assms(1,2) by simp
  ultimately show ?thesis
    using gamma_bits_length [of len 2 "lg len - 1"] assms(5) True by (simp add: encode_def Let_def)
next
  case False
  have "len div 64 \<le> 770" using assms(1) by simp
  then show ?thesis using lz2_matches_length [OF assms(3), of len "off - 1"] False by (simp add: encode_def)
qed

section \<open>Decoding what a step has written\<close>

text \<open>Reading \<open>bs\<close> takes a decoder from \<open>out\<close> to \<open>out'\<close>, whatever follows.\<close>

definition decodes :: "LZBuffer \<Rightarrow> u8 list \<Rightarrow> bool list \<Rightarrow> u8 list \<Rightarrow> bool" where
  "decodes s out bs out' \<longleftrightarrow>
     (if lz_level s = 1 then \<forall>rest. lz1_decode (lz_rb s) out (bs @ rest) = lz1_decode (lz_rb s) out' rest
      else \<exists>cs. bs = byte_stream cs \<and> (\<forall>rest. lz2_decode (minMatch s) out (cs @ rest) = lz2_decode (minMatch s) out' rest))"

lemma decodes_nothing: "decodes s out [] out"
  by (auto simp: decodes_def intro: exI [of _ "[]"])

lemma decodes_trans:
  assumes "decodes s out bs out'" "decodes s out' bs' out''"
  shows "decodes s out (bs @ bs') out''"
proof (cases "lz_level s = 1")
  case False
  then obtain cs cs' where "bs = byte_stream cs" "\<forall>rest. lz2_decode (minMatch s) out (cs @ rest) = lz2_decode (minMatch s) out' rest"
    "bs' = byte_stream cs'" "\<forall>rest. lz2_decode (minMatch s) out' (cs' @ rest) = lz2_decode (minMatch s) out'' rest"
    using assms by (auto simp: decodes_def)
  then show ?thesis using False by (auto simp: decodes_def intro!: exI [of _ "cs @ cs'"])
qed (use assms in \<open>auto simp: decodes_def\<close>)

lemma decodes_literals: "length bs < 2 ^ 32 \<Longrightarrow> decodes s out (encode s (Lit bs)) (out @ bs)"
proof -
  assume len: "length bs < 2 ^ 32"
  show ?thesis
  proof (cases "bs = []")
    case True
    then show ?thesis using decodes_nothing by (simp add: encode_def lz2_literals.simps)
  next
    case False
    then show ?thesis
      using lz1_decode_token [OF lz1_code_literals [OF False len, unfolded apply_token.simps [symmetric]]] lz2_decode_literals
      by (auto simp: decodes_def encode_def)
  qed
qed

definition code_ok :: "LZBuffer \<Rightarrow> bool" where
  "code_ok s \<longleftrightarrow> (lz_level s = 1 \<and> 4 \<le> minMatch s \<or> lz_level s = 2 \<and> 1 \<le> minMatch s \<and> minMatch s \<le> 64) \<and>
     lz_rb s \<le> 8 \<and> lz_n s + 2 ^ lz_rb s \<le> 2 ^ (24 + lz_rb s) \<and> maxMatch s = 49152 \<and> maxLiteral s = 4096
     \<and> lookahead s \<le> 128"

lemma code_ok_n: assumes "code_ok s" shows "lz_n s < 2 ^ 32"
proof -
  have "(1 :: nat) \<le> 2 ^ lz_rb s" by simp
  moreover have "(2 :: nat) ^ (24 + lz_rb s) \<le> 2 ^ 32" using assms by (intro power_increasing) (simp_all add: code_ok_def)
  ultimately show ?thesis using assms unfolding code_ok_def by linarith
qed

lemma decodes_match:
  assumes "code_ok s" "minMatch s \<le> len" "len < 2 ^ 32" "0 < off" "off < lz_n s"
  shows "decodes s out (encode s (Match len off)) (copy_match len off out)"
proof (cases "lz_level s = 1")
  case True
  have "off + 2 ^ lz_rb s - 1 < 2 ^ (24 + lz_rb s)" using assms(1,4,5) unfolding code_ok_def by linarith
  moreover have "4 \<le> len" "lz_rb s \<le> 8" using assms(1,2) True by (simp_all add: code_ok_def)
  ultimately show ?thesis
    using True lz1_decode_token [OF lz1_code_match [of len off, unfolded apply_token.simps [symmetric]]] assms(3,4)
    by (simp add: decodes_def encode_def del: lz1_encode.simps apply_token.simps) (simp add: encode_def)
next
  case False
  then have "lz2_decode (minMatch s) out (lz2_matches (minMatch s) len (off - 1) @ rest)
      = lz2_decode (minMatch s) (copy_match len off out) rest" for rest
    using lz2_decode_matches [of "minMatch s" len "off - 1" out rest] assms code_ok_n [OF assms(1)]
    by (auto simp: code_ok_def)
  then show ?thesis using False by (auto simp: decodes_def encode_def)
qed

section \<open>One step of the scan\<close>

definition lz_ok :: "LZBuffer \<Rightarrow> bool" where
  "lz_ok s \<longleftrightarrow> code_ok s \<and> search_ok s \<and> lz_i s \<le> lz_n s \<and> pend_ok s \<and> aligned s"

definition same_input :: "LZBuffer \<Rightarrow> LZBuffer \<Rightarrow> bool" where
  "same_input s s' \<longleftrightarrow> lz_in s' = lz_in s \<and> lz_n s' = lz_n s \<and> lz_level s' = lz_level s \<and> lz_rb s' = lz_rb s
     \<and> minMatch s' = minMatch s \<and> lz_rpos s' = lz_rpos s"

lemma same_input_refl [simp]: "same_input s s"
  by (simp add: same_input_def)

lemma same_input_trans: "same_input s t \<Longrightarrow> same_input t u \<Longrightarrow> same_input s u"
  by (simp add: same_input_def)

lemma same_input_core: "core s' = core s \<Longrightarrow> same_input s s'"
  using core_eqD [of s' s] by (simp add: same_input_def)

lemma decodes_same: "same_input s s' \<Longrightarrow> decodes s' = decodes s"
  by (intro ext) (simp add: decodes_def same_input_def)

lemma search_ok_core: "core s' = core s \<Longrightarrow> search_ok s' = search_ok s"
  using core_eqD [of s' s]
  by (simp add: search_ok_def hash_ok_def sa_ok_def isa_ok_def split: option.split)

lemma code_ok_core: "core s' = core s \<Longrightarrow> code_ok s' = code_ok s"
  using core_eqD [of s' s] by (simp add: code_ok_def)

lemma lz_ok_emits:
  assumes "lz_ok s" "emits s bs s'" "lz_level s = 2 \<Longrightarrow> 8 dvd length bs"
  shows "lz_ok s'"
proof -
  have "pend_ok s'" "core s' = core s" using assms(2) by (simp_all add: emits_def)
  moreover have "aligned s'"
    using assms emits_aligned [OF assms(2)] core_eqD(7) [OF calculation(2)]
    by (auto simp: lz_ok_def aligned_def)
  ultimately show ?thesis
    using assms(1) search_ok_core code_ok_core core_eqD(2,18) unfolding lz_ok_def by metis
qed

lemma encode_aligned: "lz_level s = 2 \<Longrightarrow> 8 dvd length (encode s t)"
  by (simp add: encode_def)

lemma sa_ok_updates [simp]:
  "sa_ok (s\<lparr>lz_i := i\<rparr>) = sa_ok s" "isa_ok (s\<lparr>lz_i := i\<rparr>) isa = isa_ok s isa"
  "sa_ok (s\<lparr>lz_isa := x\<rparr>) = sa_ok s" "isa_ok (s\<lparr>lz_isa := x\<rparr>) isa = isa_ok s isa"
  by (simp_all add: sa_ok_def isa_ok_def)

lemma step_advance:
  assumes "lz_ok s" "lz_i s + len \<le> lz_n s"
  shows "\<exists>s'. (if lz_isa s \<noteq> None then Inr (s\<lparr>lz_i := lz_i s + len\<rparr>) else lz_advance len s) = Inr s' \<and> lz_ok s'
           \<and> lz_i s' = lz_i s + len \<and> same_input s s' \<and> stream s' = stream s \<and> lz_buf s' = lz_buf s \<and> maxLiteral s' = maxLiteral s"
proof (cases "lz_isa s")
  case None
  then have ok: "lz_n s \<le> length (lz_in s)" "hash_ok s" using assms by (simp_all add: lz_ok_def search_ok_def)
  obtain t a b where s': "lz_advance len s = Inr (s\<lparr>ht := t, h1 := a, h2 := b, lz_i := lz_i s + len\<rparr>)"
    "hash_ok (s\<lparr>ht := t, h1 := a, h2 := b, lz_i := lz_i s + len\<rparr>)" using lz_advance_ok [OF ok] by blast
  define s' where "s' = s\<lparr>ht := t, h1 := a, h2 := b, lz_i := lz_i s + len\<rparr>"
  have "lz_ok s'"
    using assms s'(2) None ok(1) unfolding lz_ok_def s'_def [symmetric] search_ok_def
    by (simp add: s'_def code_ok_def pend_ok_def aligned_def)
  then show ?thesis using None s'(1) by (auto simp: s'_def same_input_def stream_def pending_def)
next
  case (Some isa)
  define s' where "s' = s\<lparr>lz_i := lz_i s + len\<rparr>"
  have "lz_ok s'"
    using assms Some by (simp add: lz_ok_def search_ok_def s'_def code_ok_def pend_ok_def aligned_def)
  then show ?thesis using Some by (auto simp: s'_def same_input_def stream_def pending_def)
qed

lemma writes_do:
  assumes "lz_ok s" "writes f s (encode s t)" "length (stream s) + length (encode s t) \<le> 8 * BUFSIZE"
  obtains s' where "f s = Inr s'" "lz_ok s'" "core s' = core s" "stream s' = stream s @ encode s t"
proof -
  obtain s' where "f s = Inr s'" "emits s (encode s t) s'" using assms by (auto simp: writes_def lz_ok_def)
  then show ?thesis using that [of s'] lz_ok_emits [OF assms(1) _ encode_aligned] by (simp add: emits_def)
qed

lemma write_literal_ok:
  assumes "lz_ok s" "lit \<le> i" "i \<le> lz_n s" "lit < 4224" "length (stream s) + 8 * (lit + 70) \<le> 8 * BUFSIZE"
  obtains s' where "write_literal i lit s = Inr s'" "lz_ok s'" "core s' = core s"
    "stream s' = stream s @ encode s (Lit (slice (lz_in s) (i - lit) i))"
    "decodes s (take (i - lit) (lz_in s)) (encode s (Lit (slice (lz_in s) (i - lit) i))) (take i (lz_in s))"
    "length (stream s') \<le> 8 * BUFSIZE"
proof -
  have in_range: "i \<le> length (lz_in s)" using assms by (simp add: lz_ok_def search_ok_def)
  have len: "length (slice (lz_in s) (i - lit) i) = lit" using in_range assms(2) by simp
  have "writes (write_literal i lit) s (encode s (Lit (slice (lz_in s) (i - lit) i)))"
    using assms in_range by (intro write_literal_writes) (simp_all add: lz_ok_def)
  moreover have "length (stream s) + length (encode s (Lit (slice (lz_in s) (i - lit) i))) \<le> 8 * BUFSIZE"
    using encode_lit_length [of "slice (lz_in s) (i - lit) i" s] len assms(4,5) by simp
  moreover have "decodes s (take (i - lit) (lz_in s)) (encode s (Lit (slice (lz_in s) (i - lit) i))) (take i (lz_in s))"
    using decodes_literals [of "slice (lz_in s) (i - lit) i" s "take (i - lit) (lz_in s)"] len assms(2,4)
    by (simp add: slice_append)
  ultimately show ?thesis using that writes_do [OF assms(1)] by (metis length_append)
qed

definition step_result :: "LZBuffer \<Rightarrow> nat \<Rightarrow> nat \<Rightarrow> LZBuffer \<Rightarrow> bool list \<Rightarrow> bool" where
  "step_result s lit lit' s' bs \<longleftrightarrow> lz_ok s' \<and> same_input s s' \<and> stream s' = stream s @ bs
     \<and> decodes s (take (lz_i s - lit) (lz_in s)) bs (take (lz_i s' - lit') (lz_in s))
     \<and> lit' < 4096 \<and> lit' \<le> lz_i s' \<and> (lz_buf s' = lz_buf s \<or> lit' = 0)
     \<and> length (stream s') \<le> 8 * BUFSIZE"

lemma step_literal:
  assumes "lz_ok s" "lz_i s < lz_n s" "lit < 4096" "lit \<le> lz_i s" "2 * length (lz_buf s) < BUFSIZE"
  shows "\<exists>lit' s' bs. lz_finish 1 (lit + 1) s = Inr (lit', s') \<and> step_result s lit lit' s' bs \<and> lz_i s < lz_i s'"
proof -
  obtain t where t: "(if lz_isa s \<noteq> None then Inr (s\<lparr>lz_i := lz_i s + 1\<rparr>) else lz_advance 1 s) = Inr t" "lz_ok t"
    "lz_i t = lz_i s + 1" "same_input s t" "stream t = stream s" "lz_buf t = lz_buf s" "maxLiteral t = maxLiteral s"
    using step_advance [OF assms(1), of 1] assms(2) by auto
  have max: "maxLiteral t = 4096" using t(2) by (simp add: lz_ok_def code_ok_def)
  show ?thesis
  proof (cases "4096 \<le> lit + 1")
    case True
    have "length (stream t) + 8 * ((lit + 1) + 70) \<le> 8 * BUFSIZE"
      using assms(1,3,5) t(5) by (simp add: stream_length BUFSIZE_def lz_ok_def pend_ok_def)
    then obtain u where u: "write_literal (lz_i t) (lit + 1) t = Inr u" "lz_ok u" "core u = core t"
      "stream u = stream t @ encode t (Lit (slice (lz_in t) (lz_i t - (lit + 1)) (lz_i t)))"
      "decodes t (take (lz_i t - (lit + 1)) (lz_in t)) (encode t (Lit (slice (lz_in t) (lz_i t - (lit + 1)) (lz_i t)))) (take (lz_i t) (lz_in t))"
      "length (stream u) \<le> 8 * BUFSIZE"
      using write_literal_ok [OF t(2), of "lit + 1" "lz_i t"] t(2,3) assms(3,4) by (auto simp: lz_ok_def)
    have "lz_i u = lz_i t" "lz_in t = lz_in s" using core_eqD(18) [OF u(3)] t(4) by (simp_all add: same_input_def)
    then have "step_result s lit 0 u (encode t (Lit (slice (lz_in t) (lz_i t - (lit + 1)) (lz_i t))))"
      using u t same_input_trans [OF t(4) same_input_core [OF u(3)]] decodes_same [OF t(4)]
      by (simp add: step_result_def)
    then show ?thesis using t u True max \<open>lz_i u = lz_i t\<close> by (auto simp: lz_finish_def)
  next
    case False
    have "step_result s lit (lit + 1) t []"
      using t False assms(1,4,5) decodes_nothing
      by (simp add: step_result_def stream_length BUFSIZE_def lz_ok_def pend_ok_def)
    then show ?thesis using t False max by (auto simp: lz_finish_def)
  qed
qed

lemma step_match:
  assumes "lz_ok s" "best_ok s b" "0 < bscore b" "minMatch s \<le> blen b - blit b" "lit < 4096" "lit \<le> lz_i s"
    "2 * length (lz_buf s) < BUFSIZE"
  shows "\<exists>s' bs. ebind (lz_match lit b s) (lz_finish (blen b) 0) = Inr (0, s') \<and> step_result s lit 0 s' bs \<and> lz_i s < lz_i s'"
proof -
  define i where "i = lz_i s"
  define xs where "xs = lz_in s"
  define off where "off = i - bp b"
  have b: "bp b < i" "blit b < blen b" "i + blen b \<le> lz_n s" "blit b \<le> 128" "blen b \<le> 49280"
    "\<And>j. blit b \<le> j \<Longrightarrow> j < blen b \<Longrightarrow> xs ! (bp b + j) = xs ! (i + j)"
    using assms(1-3) by (auto simp: best_ok_def lz_ok_def code_ok_def i_def xs_def repeats_def)
  have n: "lz_n s \<le> length xs" using assms(1) by (simp add: lz_ok_def search_ok_def xs_def)
  have off: "0 < off" "off < lz_n s" "off \<le> i" using b by (auto simp: off_def)
  define e1 where "e1 = encode s (Lit (slice xs (i + blit b - (lit + blit b)) (i + blit b)))"
  have room: "length (stream s) + 8 * (lit + blit b + 70) + 30880 \<le> 8 * BUFSIZE"
    using assms(1,5,7) b(4) by (simp add: stream_length BUFSIZE_def lz_ok_def pend_ok_def)
  obtain t where t: "write_literal (i + blit b) (lit + blit b) s = Inr t" "lz_ok t" "core t = core s" "stream t = stream s @ e1"
    "decodes s (take (i - lit) xs) e1 (take (i + blit b) xs)"
    using write_literal_ok [OF assms(1), of "lit + blit b" "i + blit b"] room assms(5,6) b
    by (auto simp: e1_def xs_def [symmetric] i_def [symmetric])
  note same = core_eqD [OF t(3)]
  define e2 where "e2 = encode s (Match (blen b - blit b) off)"
  have e2: "encode t (Match (blen b - blit b) off) = e2" using encode_core [OF t(3)] by (simp add: e2_def)
  have code: "code_ok s" using assms(1) by (simp add: lz_ok_def)
  have fits: "lz_level s = 1 \<Longrightarrow> 0 < off \<and> off + 2 ^ lz_rb s - 1 < 2 ^ (24 + lz_rb s)"
    using code off unfolding code_ok_def by linarith
  have "length e1 \<le> 8 * (lit + blit b + 70)"
    using encode_lit_length [of "slice xs (i + blit b - (lit + blit b)) (i + blit b)" s] assms(5,6) b n
    by (simp add: e1_def i_def [symmetric])
  moreover have "length e2 \<le> 30880"
    using encode_match_length [of "blen b - blit b" s off] b code fits by (auto simp: e2_def code_ok_def)
  ultimately have room2: "length (stream t) + length e2 \<le> 8 * BUFSIZE" using room t(4) by simp
  have "writes (write_match (blen b - blit b) off) t (encode t (Match (blen b - blit b) off))"
    using t(2) off fits code by (intro write_match_writes) (simp_all add: lz_ok_def same code_ok_def)
  then obtain u where u: "write_match (blen b - blit b) off t = Inr u" "lz_ok u" "core u = core t" "stream u = stream t @ e2"
    using writes_do [OF t(2)] room2 by (metis e2)
  note same2 = core_eqD [OF u(3)]
  have "copy_match (blen b - blit b) off (take (i + blit b) xs) = take (i + blit b + (blen b - blit b)) xs"
  proof (rule copy_match_take)
    fix j assume j: "j < blen b - blit b"
    have "i + blit b - off + j = bp b + (blit b + j)" using b(1) by (simp add: off_def)
    then show "xs ! (i + blit b - off + j) = xs ! (i + blit b + j)" using b(6) [of "blit b + j"] j by (simp add: add.assoc)
  qed (use off b n in auto)
  then have copied: "copy_match (blen b - blit b) off (take (i + blit b) xs) = take (i + blen b) xs" using b(2) by simp
  have "blen b - blit b < 2 ^ 32" using b(5) by simp
  then have "decodes s (take (i + blit b) xs) e2 (take (i + blen b) xs)"
    using decodes_match [OF code assms(4) _ off(1,2), of "take (i + blit b) xs"] by (simp only: e2_def copied)
  then have dec: "decodes s (take (i - lit) xs) (e1 @ e2) (take (i + blen b) xs)" using t(5) decodes_trans by blast
  obtain v where v: "(if lz_isa u \<noteq> None then Inr (u\<lparr>lz_i := lz_i u + blen b\<rparr>) else lz_advance (blen b) u) = Inr v" "lz_ok v"
    "lz_i v = lz_i u + blen b" "same_input u v" "stream v = stream u" "maxLiteral v = maxLiteral u"
    using step_advance [OF u(2), of "blen b"] b(3) by (auto simp: same same2 i_def)
  have lit: "maxLiteral v = 4096" using v(2) by (simp add: lz_ok_def code_ok_def)
  have "same_input s v" using same_input_trans [OF same_input_trans [OF same_input_core [OF t(3)] same_input_core [OF u(3)]] v(4)] .
  then have "step_result s lit 0 v (e1 @ e2)"
    using v(2,3,5) u(4) t(4) dec room2 by (simp add: step_result_def same same2 i_def [symmetric] xs_def [symmetric])
  moreover have "lz_i s < lz_i v" using v(3) b(2) by (simp add: same same2)
  ultimately show ?thesis
    using t(1) u(1) v(1) lit b(1,2) by (auto simp: lz_match_def lz_finish_def i_def off_def simp del: not_None_eq)
qed

lemma lz_step_ok:
  assumes "lz_ok s" "lz_i s < lz_n s" "lit < 4096" "lit \<le> lz_i s" "2 * length (lz_buf s) < BUFSIZE"
  shows "\<exists>lit' s' bs. lz_step lit s = Inr (lit', s') \<and> step_result s lit lit' s' bs \<and> lz_i s < lz_i s'"
proof -
  have search: "search_ok s" using assms(1) by (simp add: lz_ok_def)
  obtain b t where t: "lz_search lit s = Inr (b, t)" "best_ok s b"
    "t = s \<or> (\<exists>isa. lz_isa s \<noteq> None \<and> isa_ok s isa \<and> t = s\<lparr>lz_isa := Some isa\<rparr>)"
    using lz_search_ok [OF search assms(2)] by blast
  have same: "lz_i t = lz_i s" "lz_n t = lz_n s" "lz_in t = lz_in s" "lz_buf t = lz_buf s" "stream t = stream s"
    "minMatch t = minMatch s" "same_input s t"
    using t(3) by (auto simp: stream_def pending_def same_input_def)
  have ok: "lz_ok t"
    using t(3)
  proof
    assume "\<exists>isa. lz_isa s \<noteq> None \<and> isa_ok s isa \<and> t = s\<lparr>lz_isa := Some isa\<rparr>"
    then obtain isa where isa: "lz_isa s \<noteq> None" "isa_ok s isa" "t = s\<lparr>lz_isa := Some isa\<rparr>" by blast
    have "search_ok t" using search isa by (auto simp: search_ok_def)
    then show ?thesis using assms(1) isa(3) by (simp add: lz_ok_def code_ok_def pend_ok_def aligned_def)
  qed (use assms(1) in simp)
  have best: "best_ok t b" using t(2,3) by (auto simp: best_ok_def repeats_def)
  have result: "step_result t lit lit' s' bs \<Longrightarrow> step_result s lit lit' s' bs" for lit' s' bs
    using same decodes_same [OF same(7)] same_input_trans [OF same(7)] by (auto simp: step_result_def)
  have step: "lz_step lit s =
      (let off = usub (lz_i t) (bp b);
           more = (if lz_level t = 2 then (if 2 ^ 16 \<le> off then 1 else 0) + (if 2 ^ 24 \<le> off then 1 else 0) else 0)
       in if 0 < off \<and> 0 < bscore b \<and> minMatch t + more \<le> usub (blen b) (blit b)
          then ebind (lz_match lit b t) (lz_finish (blen b) 0) else lz_finish 1 (lit + 1) t)"
    by (simp add: lz_step_def t(1))
  show ?thesis
  proof (cases "lz_step lit s = lz_finish 1 (lit + 1) t")
    case True
    have "lz_i t < lz_n t" "lit \<le> lz_i t" "2 * length (lz_buf t) < BUFSIZE" using same assms(2,4,5) by simp_all
    from step_literal [OF ok this(1) assms(3) this(2,3)] show ?thesis unfolding True using result same(1) by metis
  next
    case False
    then have match: "lz_step lit s = ebind (lz_match lit b t) (lz_finish (blen b) 0)" "0 < bscore b"
      "minMatch t \<le> usub (blen b) (blit b)"
      using step by (auto simp: Let_def split: if_splits)
    have "minMatch t \<le> blen b - blit b" using match(2,3) best by (simp add: best_ok_def)
    moreover have "lit \<le> lz_i t" "2 * length (lz_buf t) < BUFSIZE" using same assms(4,5) by simp_all
    ultimately show ?thesis
      using step_match [OF ok best match(2) _ assms(3)] unfolding match(1) using result same(1) by metis
  qed
qed

section \<open>Filling the buffer\<close>

definition scanned :: "LZBuffer \<Rightarrow> nat \<Rightarrow> nat \<Rightarrow> LZBuffer \<Rightarrow> bool list \<Rightarrow> bool" where
  "scanned s lit lit' s' bs \<longleftrightarrow> lz_ok s' \<and> same_input s s' \<and> stream s' = stream s @ bs
     \<and> decodes s (take (lz_i s - lit) (lz_in s)) bs (take (lz_i s' - lit') (lz_in s))
     \<and> lit' < 4096 \<and> lit' \<le> lz_i s' \<and> (2 * length (lz_buf s') < BUFSIZE \<or> lit' = 0)
     \<and> length (stream s') \<le> 8 * BUFSIZE"

lemma lz_scan_ok:
  assumes "lz_ok s" "lit < 4096" "lit \<le> lz_i s" "2 * length (lz_buf s) < BUFSIZE \<or> lit = 0"
    "lz_n s - lz_i s < fuel" "length (stream s) \<le> 8 * BUFSIZE"
  shows "\<exists>lit' s' bs. lz_scan fuel lit s = Inr (lit', s') \<and> scanned s lit lit' s' bs
           \<and> (lz_i s < lz_i s' \<or> s' = s \<and> (lz_i s = lz_n s \<or> BUFSIZE \<le> 2 * length (lz_buf s)))
           \<and> (lz_i s' = lz_n s \<or> BUFSIZE \<le> 2 * length (lz_buf s'))"
  using assms
proof (induction fuel arbitrary: s lit)
  case (Suc fuel)
  show ?case
  proof (cases "lz_i s < lz_n s \<and> length (lz_buf s) * 2 < BUFSIZE")
    case True
    obtain l t bs where t: "lz_step lit s = Inr (l, t)" "step_result s lit l t bs" "lz_i s < lz_i t"
      using lz_step_ok [OF Suc.prems(1) _ Suc.prems(2,3)] True by auto
    have fuel: "lz_n t - lz_i t < fuel" using t(2,3) Suc.prems(5) True by (auto simp: step_result_def same_input_def)
    have start: "lz_ok t" "l < 4096" "l \<le> lz_i t" "2 * length (lz_buf t) < BUFSIZE \<or> l = 0" "length (stream t) \<le> 8 * BUFSIZE"
      using t(2) True by (auto simp: step_result_def)
    obtain l' u cs where u: "lz_scan fuel l t = Inr (l', u)" "scanned t l l' u cs" "lz_i t < lz_i u \<or> u = t"
      "lz_i u = lz_n t \<or> BUFSIZE \<le> 2 * length (lz_buf u)"
      using Suc.IH [OF start(1-4) fuel start(5)] by blast
    have same: "same_input s t" using t(2) by (simp add: step_result_def)
    have "scanned s lit l' u (bs @ cs)"
      using t(2) u(2) same_input_trans [OF same] decodes_same [OF same] decodes_trans [of s _ bs _ cs]
      by (auto simp: scanned_def step_result_def same_input_def)
    moreover have "lz_n t = lz_n s" using same by (simp add: same_input_def)
    moreover have "lz_scan (Suc fuel) lit s = Inr (l', u)" using True t(1) u(1) by simp
    ultimately show ?thesis using u(3,4) t(3) by auto
  next
    case False
    have "lz_i s \<le> lz_n s" using Suc.prems(1) by (simp add: lz_ok_def)
    moreover have "scanned s lit lit s []" using Suc.prems decodes_nothing by (simp add: scanned_def)
    moreover have "lz_scan (Suc fuel) lit s = Inr (lit, s)" using False by auto
    ultimately show ?thesis using False by (intro exI [of _ lit] exI [of _ s] exI [of _ "[]"]) auto
  qed
qed simp

lemma byte_bits_pending:
  assumes "pend_ok s"
  shows "byte_bits (ucast (lz_bits s)) = pending s @ replicate (8 - lz_nbits s) False"
proof (rule nth_equalityI)
  have n: "lz_nbits s < 8" "take_bit (lz_nbits s) (lz_bits s) = lz_bits s" using assms by (simp_all add: pend_ok_def)
  then have high: "bit (lz_bits s) k \<Longrightarrow> k < lz_nbits s" for k by (metis bit_take_bit_iff)
  show "length (byte_bits (ucast (lz_bits s))) = length (pending s @ replicate (8 - lz_nbits s) False)"
    using n(1) by (simp add: pending_def)
  fix k assume "k < length (byte_bits (ucast (lz_bits s)))"
  then show "byte_bits (ucast (lz_bits s)) ! k = (pending s @ replicate (8 - lz_nbits s) False) ! k"
    using high [of k] by (auto simp: byte_bits_ucast pending_def nth_append)
qed

lemma lz_flush_ok:
  assumes "pend_ok s" "length (stream s) \<le> 8 * BUFSIZE"
  shows "\<exists>s' k. lz_flush s = Inr s' \<and> core s' = core s \<and> stream s' = stream s @ replicate k False \<and> k < 8
           \<and> lz_nbits s' = 0 \<and> lz_bits s' = 0"
proof (cases "0 < lz_nbits s")
  case True
  then have "length (lz_buf s) < BUFSIZE" using assms(2) by (simp add: stream_length)
  then have "lz_flush s = Inr (s\<lparr>lz_buf := lz_buf s @ [ucast (lz_bits s)], lz_bits := 0, lz_nbits := 0\<rparr>)"
    using True by (simp add: lz_flush_def lz_put_def)
  then show ?thesis
    using True byte_bits_pending [OF assms(1)]
    by (intro exI [of _ "s\<lparr>lz_buf := lz_buf s @ [ucast (lz_bits s)], lz_bits := 0, lz_nbits := 0\<rparr>"] exI [of _ "8 - lz_nbits s"])
      (simp add: core_def stream_def pending_def)
next
  case False
  then show ?thesis
    using assms(1) by (intro exI [of _ "s\<lparr>lz_bits := 0, lz_nbits := 0\<rparr>"] exI [of _ 0])
      (simp add: lz_flush_def core_def stream_def pending_def)
qed

lemma write_no_literal: "write_literal i 0 s = Inr s"
  by (simp add: write_literal_def put_literals.simps)

lemma decodes_progress:
  assumes "decodes s out [] out'"
  shows "out = out'"
proof (cases "lz_level s = 1")
  case True
  have "lz1_decode rb o' [] = o'" for rb o' using lz1_decode_padding [of 0 rb o'] by simp
  then show ?thesis using assms True unfolding decodes_def by (metis append_Nil)
next
  case False
  then obtain cs where "cs = []" "\<forall>rest. lz2_decode (minMatch s) out (cs @ rest) = lz2_decode (minMatch s) out' rest"
    using assms unfolding decodes_def
    by (metis concat_byte_bits_length length_0_conv mult_is_0 zero_neq_numeral)
  then have "lz2_decode (minMatch s) out [] = lz2_decode (minMatch s) out' []" by simp
  then show ?thesis by (simp add: lz2_decode.simps)
qed

text \<open>From an empty buffer: either the buffer is full enough and the scan goes on later, or the input is used up and
  the last byte is padded.\<close>

definition filled :: "LZBuffer \<Rightarrow> LZBuffer \<Rightarrow> bool list \<Rightarrow> nat \<Rightarrow> bool" where
  "filled s s' bs k \<longleftrightarrow> lz_ok s' \<and> same_input s s' \<and> stream s' = stream s @ bs @ replicate k False \<and> k < 8
     \<and> decodes s (take (lz_i s) (lz_in s)) bs (take (lz_i s') (lz_in s))
     \<and> (if lz_i s' < lz_n s then k = 0 else lz_nbits s' = 0)
     \<and> (lz_i s < lz_n s \<longrightarrow> lz_i s < lz_i s' \<and> lz_buf s' \<noteq> [])
     \<and> (lz_i s = lz_n s \<longrightarrow> lz_buf s' = [])"

lemma fill_at_end:
  assumes "lz_ok s" "lz_buf s = []" "lz_i s = lz_n s" "lz_nbits s = 0"
  shows "\<exists>s'. fill s = Inr s' \<and> filled s s' [] 0"
proof -
  define t where "t = s\<lparr>lz_bits := 0, lz_nbits := 0\<rparr>"
  have "lz_bits s = 0" using assms(1,4) by (simp add: lz_ok_def pend_ok_def)
  then have t: "t = s" using assms(4) by (simp add: t_def)
  have "fill s = Inr t"
    using assms by (auto simp: fill_def write_no_literal lz_flush_def t_def lz_ok_def code_ok_def)
  then show ?thesis using t assms decodes_nothing by (auto simp: filled_def)
qed

lemma fill_ok:
  assumes "lz_ok s" "lz_buf s = []" "lz_i s < lz_n s"
  shows "\<exists>s' bs k. fill s = Inr s' \<and> filled s s' bs k"
proof -
  have small: "length (stream s) \<le> 8" "2 * length (lz_buf s) < BUFSIZE"
    using assms(1,2) by (simp_all add: stream_length lz_ok_def pend_ok_def BUFSIZE_def)
  obtain lit t bs where t: "lz_scan (Suc (lz_n s)) 0 s = Inr (lit, t)" "scanned s 0 lit t bs"
    "lz_i s < lz_i t" "lz_i t = lz_n s \<or> BUFSIZE \<le> 2 * length (lz_buf t)"
    using lz_scan_ok [OF assms(1), of 0 "Suc (lz_n s)"] small assms(3) by (fastforce simp: BUFSIZE_def)
  have ok: "lz_ok t" "same_input s t" and lev: "lz_level s \<noteq> 3"
    using t(2) assms(1) by (auto simp: scanned_def lz_ok_def code_ok_def)
  have n: "lz_n t = lz_n s" "lz_in t = lz_in s" using ok(2) by (simp_all add: same_input_def)
  show ?thesis
  proof (cases "lz_i t = lz_n s")
    case False
    have full: "BUFSIZE \<le> 2 * length (lz_buf t)" using t(4) False by simp
    then have "lit = 0" "lz_buf t \<noteq> []" using t(2) by (auto simp: scanned_def BUFSIZE_def)
    moreover have "lz_i t < lz_n s" using False ok n by (simp add: lz_ok_def)
    ultimately have "filled s t bs 0" using t(2,3) by (auto simp: filled_def scanned_def)
    moreover have "fill s = Inr t" using lev t(1) False n by (simp add: fill_def del: lz_scan.simps)
    ultimately show ?thesis by blast
  next
    case True
    obtain u cs where u: "write_literal (lz_n s) lit t = Inr u" "core u = core t" "stream u = stream t @ cs" "lz_ok u"
      "length (stream u) \<le> 8 * BUFSIZE" "decodes t (take (lz_n s - lit) (lz_in t)) cs (take (lz_n s) (lz_in t))"
    proof (cases "lit = 0")
      case True
      then show ?thesis using that [of t "[]"] write_no_literal t(2) decodes_nothing by (auto simp: scanned_def)
    next
      case lit: False
      have lit_small: "length (lz_buf t) < 8192" "lit < 4096" "lz_nbits t < 8"
        using t(2) lit by (simp_all add: scanned_def lz_ok_def pend_ok_def BUFSIZE_def)
      then have "length (stream t) + 8 * (lit + 70) \<le> 8 * BUFSIZE" unfolding stream_length BUFSIZE_def by presburger
      moreover have "lit < 4224" "lit \<le> lz_n s" "lz_n s \<le> lz_n t" using lit_small t(2) True n by (simp_all add: scanned_def)
      ultimately show ?thesis using that write_literal_ok [OF ok(1), of lit "lz_n s"] by metis
    qed
    have pend: "pend_ok u" using u(4) by (simp add: lz_ok_def)
    obtain v k where v: "lz_flush u = Inr v" "core v = core u" "stream v = stream u @ replicate k False" "k < 8"
      "lz_nbits v = 0" "lz_bits v = 0"
      using lz_flush_ok [OF pend u(5)] by blast
    have core: "core v = core t" using u(2) v(2) by simp
    note same = core_eqD [OF core]
    have okv: "lz_ok v"
      using ok(1) search_ok_core [OF core] code_ok_core [OF core] v(5,6) same by (auto simp: lz_ok_def pend_ok_def aligned_def)
    have samev: "same_input s v" using same_input_trans [OF ok(2) same_input_core [OF core]] .
    have dec: "decodes s (take (lz_i s) (lz_in s)) (bs @ cs) (take (lz_n s) (lz_in s))"
    proof (rule decodes_trans)
      show "decodes s (take (lz_i s) (lz_in s)) bs (take (lz_n s - lit) (lz_in s))"
        using t(2) True by (simp add: scanned_def)
      show "decodes s (take (lz_n s - lit) (lz_in s)) cs (take (lz_n s) (lz_in s))"
        using u(6) decodes_same [OF ok(2)] n by simp
    qed
    have str: "stream v = stream s @ (bs @ cs) @ replicate k False" using t(2) u(3) v(3) by (simp add: scanned_def)
    have "lz_buf v \<noteq> []"
    proof
      assume "lz_buf v = []"
      then have "stream v = []" using v(5) by (simp add: stream_def pending_def)
      then have "decodes s (take (lz_i s) (lz_in s)) [] (take (lz_n s) (lz_in s))" using dec str by simp
      then have "take (lz_i s) (lz_in s) = take (lz_n s) (lz_in s)" by (rule decodes_progress)
      then have "min (lz_i s) (length (lz_in s)) = min (lz_n s) (length (lz_in s))" by (metis length_take min.commute)
      then show False using assms(1,3) by (simp add: lz_ok_def search_ok_def)
    qed
    then have "filled s v (bs @ cs) k"
      using okv samev str v(4,5) dec True same n t(3) assms(3) by (simp add: filled_def)
    moreover have "fill s = Inr v" using lev t(1) True n u(1) v(1) by (simp add: fill_def del: lz_scan.simps)
    ultimately show ?thesis by blast
  qed
qed

section \<open>Reading\<close>

definition emptied :: "LZBuffer \<Rightarrow> LZBuffer" where
  "emptied s = s\<lparr>lz_buf := [], lz_rpos := 0\<rparr>"

lemma lz_read_ready:
  assumes "lz_rpos s < length (lz_buf s)" "0 < k"
  obtains bs t where "lz_read k s = Inr (bs, t)" "bs \<noteq> []" "bs @ drop (lz_rpos t) (lz_buf t) = drop (lz_rpos s) (lz_buf s)"
    "emptied t = emptied s" "lz_rpos t < length (lz_buf t) \<or> t = emptied s"
proof -
  define nr where "nr = min k (length (lz_buf s) - lz_rpos s)"
  define t where "t = lz_rewind (s\<lparr>lz_rpos := lz_rpos s + nr\<rparr>)"
  have nr: "0 < nr" "lz_rpos s + nr \<le> length (lz_buf s)" using assms by (auto simp: nr_def)
  have read: "lz_read k s = Inr (take nr (drop (lz_rpos s) (lz_buf s)), t)"
    using assms by (simp add: lz_read_def lz_refill_def nr_def t_def Let_def)
  have "take nr (drop (lz_rpos s) (lz_buf s)) \<noteq> []" using nr assms by simp
  moreover have "take nr (drop (lz_rpos s) (lz_buf s)) @ drop (lz_rpos t) (lz_buf t) = drop (lz_rpos s) (lz_buf s)"
    using nr by (auto simp: t_def lz_rewind_def add.commute) (metis add.commute append_take_drop_id drop_drop)
  moreover have "emptied t = emptied s" "lz_rpos t < length (lz_buf t) \<or> t = emptied s"
    using nr by (auto simp: t_def lz_rewind_def emptied_def)
  ultimately show ?thesis using that read by blast
qed

text \<open>Reading what the buffer still has, then the rest.\<close>

lemma lz_drain:
  assumes "0 < k" "\<And>f. f0 \<le> f \<Longrightarrow> lz_read_all f k (emptied s) = Inr out"
    "lz_rpos s < length (lz_buf s) \<or> s = emptied s"
  shows "\<exists>f1. \<forall>f\<ge>f1. lz_read_all f k s = Inr (drop (lz_rpos s) (lz_buf s) @ out)"
  using assms(2,3)
proof (induction "length (lz_buf s) - lz_rpos s" arbitrary: s rule: less_induct)
  case less
  show ?case
  proof (cases "lz_rpos s < length (lz_buf s)")
    case True
    obtain bs t where t: "lz_read k s = Inr (bs, t)" "bs \<noteq> []" "bs @ drop (lz_rpos t) (lz_buf t) = drop (lz_rpos s) (lz_buf s)"
      "emptied t = emptied s" "lz_rpos t < length (lz_buf t) \<or> t = emptied s"
      using lz_read_ready [OF True assms(1)] by blast
    have "length bs + (length (lz_buf t) - lz_rpos t) = length (lz_buf s) - lz_rpos s"
      using arg_cong [OF t(3), of length] by simp
    moreover have "0 < length bs" using t(2) by simp
    ultimately have "length (lz_buf t) - lz_rpos t < length (lz_buf s) - lz_rpos s" by linarith
    from less.hyps [OF this] less.prems(1) t(4,5) obtain f1 where
      f1: "\<forall>f\<ge>f1. lz_read_all f k t = Inr (drop (lz_rpos t) (lz_buf t) @ out)" by auto
    have "lz_read_all f k s = Inr (drop (lz_rpos s) (lz_buf s) @ out)" if "Suc f1 \<le> f" for f
    proof -
      obtain g where g: "f = Suc g" "f1 \<le> g" using \<open>Suc f1 \<le> f\<close> by (cases f) auto
      have "lz_read_all g k t = Inr (drop (lz_rpos t) (lz_buf t) @ out)" using f1 g(2) by blast
      then have "lz_read_all f k s = Inr (bs @ drop (lz_rpos t) (lz_buf t) @ out)" using t(1,2) g(1) by simp
      then show ?thesis using t(3) by (metis append_assoc)
    qed
    then show ?thesis by blast
  next
    case False
    then have "s = emptied s" using less.prems by simp
    then have "drop (lz_rpos s) (lz_buf s) = []" by (metis drop_Nil emptied_def LZBuffer.select_convs(24) LZBuffer.simps LZBuffer.surjective LZBuffer.update_convs(24))
    then show ?thesis using less.prems(1) \<open>s = emptied s\<close> by (metis append_Nil)
  qed
qed

lemma emptied_ok: "lz_ok s \<Longrightarrow> lz_ok (emptied s)"
proof -
  have "hash_ok (emptied s) = hash_ok s" "sa_ok (emptied s) = sa_ok s" "isa_ok (emptied s) = isa_ok s"
    by (auto simp: emptied_def hash_ok_def sa_ok_def isa_ok_def)
  then have "search_ok (emptied s) = search_ok s"
    unfolding search_ok_def by (simp only:) (simp add: emptied_def)
  then show "lz_ok s \<Longrightarrow> lz_ok (emptied s)"
    by (simp add: lz_ok_def) (simp add: emptied_def code_ok_def pend_ok_def aligned_def)
qed

lemma emptied_props [simp]:
  "lz_buf (emptied s) = []" "lz_rpos (emptied s) = 0" "lz_i (emptied s) = lz_i s" "lz_n (emptied s) = lz_n s"
  "lz_in (emptied s) = lz_in s" "lz_nbits (emptied s) = lz_nbits s" "stream (emptied s) = pending s"
  "pending (emptied s) = pending s" "decodes (emptied s) = decodes s" "emptied (emptied s) = emptied s"
  by (simp_all add: emptied_def stream_def pending_def decodes_def fun_eq_iff)

text \<open>From a state with an empty buffer, all that is read is the pending bits, codes for the rest of the block and
  less than eight zeros.\<close>

definition reads_rest :: "nat \<Rightarrow> LZBuffer \<Rightarrow> u8 list \<Rightarrow> bool" where
  "reads_rest k s out \<longleftrightarrow> (\<exists>f0. \<forall>f\<ge>f0. lz_read_all f k s = Inr out) \<and>
     (\<exists>bs z. z < 8 \<and> byte_stream out = pending s @ bs @ replicate z False
        \<and> decodes s (take (lz_i s) (lz_in s)) bs (take (lz_n s) (lz_in s)))
     \<and> (lz_i s = lz_n s \<longrightarrow> out = [])"

lemma read_all_emptied:
  assumes "lz_ok s" "lz_buf s = []" "lz_rpos s = 0" "lz_i s = lz_n s \<longrightarrow> lz_nbits s = 0" "0 < k"
  shows "\<exists>out. reads_rest k s out"
  using assms(1-4)
proof (induction "lz_n s - lz_i s" arbitrary: s rule: less_induct)
  case less
  have le: "lz_i s \<le> lz_n s" using less.prems(1) by (simp add: lz_ok_def)
  show ?case
  proof (cases "lz_i s = lz_n s")
    case True
    obtain t where t: "fill s = Inr t" "filled s t [] 0" using fill_at_end less.prems True by blast
    have "lz_buf t = []" "lz_rpos t = 0" using t(2) True less.prems(3) by (simp_all add: filled_def same_input_def)
    then have "lz_read_all f k s = Inr []" if "1 \<le> f" for f
      using that t(1) less.prems(2,3) by (cases f) (simp_all add: lz_read_def lz_refill_def lz_rewind_def Let_def)
    moreover have "pending s = []" using less.prems(4) True by (simp add: pending_def)
    moreover have "byte_stream [] = pending s @ [] @ replicate 0 False" using calculation(2) by simp
    ultimately show ?thesis using True decodes_nothing unfolding reads_rest_def
      by (metis zero_less_numeral)
  next
    case False
    then obtain t bs z where t: "fill s = Inr t" "filled s t bs z" using fill_ok less.prems le by (metis le_neq_implies_less)
    have full: "lz_ok t" "same_input s t" "stream t = pending s @ bs @ replicate z False" "z < 8" "lz_buf t \<noteq> []"
      "decodes s (take (lz_i s) (lz_in s)) bs (take (lz_i t) (lz_in s))" "lz_i s < lz_i t"
      "if lz_i t < lz_n s then z = 0 else lz_nbits t = 0"
      using t(2) False le less.prems(2) by (simp_all add: filled_def stream_def)
    have n: "lz_n t = lz_n s" "lz_in t = lz_in s" "lz_rpos t = 0" using full(2) less.prems(3) by (simp_all add: same_input_def)
    have le': "lz_i t \<le> lz_n s" using full(1) n by (simp add: lz_ok_def)
    have "lz_n (emptied t) - lz_i (emptied t) < lz_n s - lz_i s" using full(7) False le n by simp
    moreover have "lz_i (emptied t) = lz_n (emptied t) \<longrightarrow> lz_nbits (emptied t) = 0" using full(8) n by simp
    ultimately obtain out where out: "reads_rest k (emptied t) out"
      using less.hyps [of "emptied t"] emptied_ok [OF full(1)] by auto
    then obtain f0 cs y where f0: "\<forall>f\<ge>f0. lz_read_all f k (emptied t) = Inr out" and
      cs: "y < 8" "byte_stream out = pending t @ cs @ replicate y False"
        "decodes t (take (lz_i t) (lz_in s)) cs (take (lz_n s) (lz_in s))" and
      last: "lz_i t = lz_n s \<longrightarrow> out = []"
      using n by (auto simp: reads_rest_def)
    obtain f1 where f1: "\<forall>f\<ge>f1. lz_read_all f k t = Inr (drop (lz_rpos t) (lz_buf t) @ out)"
      using lz_drain [of k f0 t out] assms(5) f0 full(5) n by auto
    have ready: "lz_read k s = lz_read k t"
      using t(1) less.prems(2,3) full(5) n(3) by (simp add: lz_read_def lz_refill_def)
    have "lz_read_all f k s = Inr (lz_buf t @ out)" if "Suc f1 \<le> f" for f
    proof -
      obtain g where g: "f = Suc g" using \<open>Suc f1 \<le> f\<close> by (cases f) auto
      have "lz_read_all f k s = lz_read_all f k t" unfolding g using ready by simp
      then show ?thesis using f1 that n(3) by simp
    qed
    moreover have "\<exists>bs' z. z < 8 \<and> byte_stream (lz_buf t @ out) = pending s @ bs' @ replicate z False
        \<and> decodes s (take (lz_i s) (lz_in s)) bs' (take (lz_n s) (lz_in s))"
    proof (cases "lz_i t < lz_n s")
      case True
      then have "byte_stream (lz_buf t) @ pending t = pending s @ bs" using full(3,8) by (simp add: stream_def)
      then have "byte_stream (lz_buf t @ out) = pending s @ (bs @ cs) @ replicate y False" using cs(2) by simp
      then show ?thesis using cs(1,3) full(6) decodes_trans decodes_same [OF full(2)] by metis
    next
      case False
      then have "lz_i t = lz_n s" "pending t = []" "out = []" using le' full(8) last by (simp_all add: pending_def)
      then show ?thesis using full(3,4,6) by (auto simp: stream_def)
    qed
    ultimately show ?thesis unfolding reads_rest_def using False by blast
  qed
qed

lemma byte_stream_inj: "byte_stream xs = byte_stream ys \<Longrightarrow> xs = ys"
proof (induction xs arbitrary: ys)
  case Nil
  then have "8 * length ys = 0" using arg_cong [OF Nil, of length] by simp
  then show ?case by simp
next
  case (Cons x xs)
  have "length (byte_stream (x # xs)) = length (byte_stream ys)" using Cons.prems by (rule arg_cong)
  then have "8 * length ys = 8 * length (x # xs)" by simp
  then obtain y zs where ys: "ys = y # zs" by (cases ys) auto
  with Cons.prems have "byte_bits x = byte_bits y" "byte_stream xs = byte_stream zs" by simp_all
  then show ?case using Cons.IH ys by (metis value_of_byte)
qed

section \<open>Preprocessing and its inverse\<close>

definition lz_decode :: "nat list \<Rightarrow> u8 list \<Rightarrow> u8 list" where
  "lz_decode args out =
     (if args ! 1 AND 3 = 1 then lz1_decode (if 4 < args ! 0 then args ! 0 - 4 else 0) [] (byte_stream out)
      else lz2_decode (args ! 2) [] out)"

text \<open>The arguments \<open>compressBlock\<close> can pass, for a block of \<open>n\<close> bytes with \<open>spare\<close> bytes allocated behind it.\<close>

definition lz77_args :: "nat list \<Rightarrow> nat \<Rightarrow> nat \<Rightarrow> bool" where
  "lz77_args args n spare \<longleftrightarrow>
     args ! 0 \<le> 11 \<and> n + 4096 \<le> 2 ^ (20 + args ! 0) \<and> args ! 6 \<le> 128 \<and>
     (args ! 1 AND 3 = 1 \<and> 4 \<le> args ! 2 \<or> args ! 1 AND 3 = 2 \<and> 1 \<le> args ! 2 \<and> args ! 2 \<le> 64) \<and>
     (args ! 5 < 21 + args ! 0 \<longrightarrow>
        2 \<le> args ! 2 \<and> 1 \<le> args ! 5 \<and> args ! 5 < 32 \<and> args ! 4 \<le> args ! 5 \<and> (args ! 3 = 0 \<or> 3 \<le> spare))"

text \<open>What the suffix sorter returns, as far as the encoder depends on it: a position of the block for each.\<close>

definition suffix_positions :: "(u8 list \<Rightarrow> nat list) \<Rightarrow> bool" where
  "suffix_positions sort_suffixes \<longleftrightarrow>
     (\<forall>xs. xs \<noteq> [] \<longrightarrow> length (sort_suffixes xs) = length xs \<and> (\<forall>x\<in>set (sort_suffixes xs). x < length xs))"

lemma new_LZBuffer_ok:
  assumes args: "lz77_args args (length dat) (length beyond)" and sort: "suffix_positions sort_suffixes"
  shows "\<exists>s. new_LZBuffer sort_suffixes dat beyond args None = Inr s \<and> lz_ok s \<and> lz_i s = 0 \<and> lz_buf s = [] \<and> lz_rpos s = 0
           \<and> lz_nbits s = 0 \<and> lz_n s = length dat \<and> take (lz_n s) (lz_in s) = (if 4 < args ! 1 then e8e9 dat else dat)
           \<and> lz_level s = args ! 1 AND 3 \<and> lz_rb s = (if 4 < args ! 0 then args ! 0 - 4 else 0) \<and> minMatch s = args ! 2"
proof -
  define n where "n = length dat"
  define xs where "xs = (if 4 < args ! 1 then e8e9 dat else dat)"
  have len: "length xs = n" by (simp add: xs_def n_def)
  define hashed where "hashed \<longleftrightarrow> args ! 5 < 21 + args ! 0"
  define rb where "rb = (if 4 < args ! 0 then args ! 0 - 4 else 0)"
  define s where "s = \<lparr>lz_in = xs @ beyond, lz_n = n, ht = (if hashed then replicate (2 ^ (args ! 5)) 0 else []),
     lz_sa = (if hashed then [] else if 0 < n then sort_suffixes xs else [0]),
     lz_isa = (if hashed then None else Some (replicate (2 ^ (17 + args ! 0)) 0)),
     checkbits = (if hashed then 12 - args ! 0 else 17 + args ! 0), lz_level = args ! 1 AND 3,
     minMatch = args ! 2, minMatch2 = args ! 3, maxMatch = BUFSIZE * 3, maxLiteral = BUFSIZE div 4,
     lookahead = args ! 6, bucket = 2 ^ (args ! 4) - 1,
     shift1 = (if 0 < args ! 2 then usub (args ! 5) 1 div args ! 2 + 1 else 1),
     shift2 = (if 0 < args ! 3 then usub (args ! 5) 1 div args ! 3 + 1 else 0),
     minMatchBoth = max (args ! 2) (args ! 3 + args ! 6) + 4, lz_rb = rb,
     lz_i = 0, h1 = 0, h2 = 0, lz_bits = 0, lz_nbits = 0, lz_idx = 0, lz_buf = [], lz_rpos = 0\<rparr>"
  have new: "new_LZBuffer sort_suffixes dat beyond args None = Inr s"
  proof -
    define level where "level = args ! 1 AND 3"
    have lev: "(args ! 2 < 4 \<and> level = 1 \<or> args ! 2 < 1 \<and> level = 2) = False" "(level = 3) = False" "(level < 3) = True"
      using args by (auto simp: lz77_args_def level_def)
    have xs: "(if 4 < args ! 1 \<and> None = None then e8e9 dat else dat) = xs" by (simp add: xs_def)
    show ?thesis
      unfolding new_LZBuffer_def Let_def s_def
        level_def [symmetric] lev xs n_def [symmetric] rb_def [symmetric] hashed_def [symmetric] option.case
      by (cases hashed) simp_all
  qed
  have code: "code_ok s"
  proof -
    have "n + 2 ^ rb \<le> 2 ^ (24 + rb)"
    proof (cases "4 < args ! 0")
      case True
      then have "rb \<le> 7" "24 + rb = 20 + args ! 0" using args by (auto simp: rb_def lz77_args_def)
      moreover have "(2 :: nat) ^ rb \<le> 2 ^ 7" using calculation(1) by (intro power_increasing) simp_all
      moreover have "n + 4096 \<le> 2 ^ (24 + rb)" using args calculation(2) unfolding lz77_args_def n_def by presburger
      ultimately show ?thesis by simp
    next
      case False
      then have "(2 :: nat) ^ (20 + args ! 0) \<le> 2 ^ 24" by (intro power_increasing) simp_all
      then show ?thesis using args False by (simp add: lz77_args_def n_def rb_def)
    qed
    moreover have "rb \<le> 8" using args by (auto simp: rb_def lz77_args_def)
    ultimately show ?thesis using args by (auto simp: code_ok_def s_def BUFSIZE_def lz77_args_def)
  qed
  have "search_ok s"
  proof (cases hashed)
    case True
    have shift: "usub (args ! 5) 1 div m + 1 < 32" for m
    proof -
      have "1 \<le> args ! 5" "args ! 5 < 32" using args True by (simp_all add: lz77_args_def hashed_def)
      moreover have "(args ! 5 - 1) div m \<le> args ! 5 - 1" by (rule div_le_dividend)
      moreover have u: "usub (args ! 5) 1 = args ! 5 - 1" using calculation(1) by simp
      ultimately show ?thesis unfolding u by linarith
    qed
    have "(2 :: nat) ^ (args ! 4) \<le> 2 ^ (args ! 5)" using args True by (simp add: lz77_args_def hashed_def)
    moreover have "(1 :: nat) \<le> 2 ^ (args ! 4)" by simp
    ultimately have "2 ^ (args ! 4) - 1 < (2 :: nat) ^ (args ! 5)" by linarith
    moreover have "(0 :: u32) < 2 ^ (args ! 5)"
      using word_less_power [of "args ! 5" 0] args True by (simp add: lz77_args_def hashed_def)
    ultimately have "hash_ok s"
      using args True shift len by (auto simp: hash_ok_def s_def lz77_args_def hashed_def intro!: exI [of _ "args ! 5"])
    then show ?thesis using True len by (simp add: search_ok_def s_def)
  next
    case False
    have "sa_ok s" using sort len False by (auto simp: sa_ok_def s_def suffix_positions_def)
    moreover have "isa_ok s (replicate (2 ^ (17 + args ! 0)) 0)" using False by (simp add: isa_ok_def s_def)
    ultimately show ?thesis using False len by (simp add: search_ok_def s_def)
  qed
  then have "lz_ok s" using code by (auto simp: lz_ok_def pend_ok_def aligned_def code_ok_def s_def)
  then show ?thesis using new len by (intro exI [of _ s]) (simp add: s_def xs_def n_def rb_def)
qed


text \<open>\<open>get\<close> is \<open>read\<close> of one byte.\<close>

lemma lz_get_is_read:
  "lz_get s = ebind (lz_read 1 s) (\<lambda>(bs, s). Inr (case bs of [] \<Rightarrow> -1 | c # _ \<Rightarrow> uint c, s))"
proof (cases "lz_refill s")
  case (Inr t)
  show ?thesis
  proof (cases "lz_rpos t < length (lz_buf t)")
    case True
    then have "take 1 (drop (lz_rpos t) (lz_buf t)) = [lz_buf t ! lz_rpos t]"
      by (simp add: take_Suc_conv_app_nth hd_drop_conv_nth take_Suc)
    moreover have "min 1 (length (lz_buf t) - lz_rpos t) = 1" using True by simp
    ultimately show ?thesis using True Inr by (simp add: lz_get_def lz_read_def Let_def)
  next
    case False
    then show ?thesis using Inr by (simp add: lz_get_def lz_read_def Let_def)
  qed
qed (simp add: lz_get_def lz_read_def)

text \<open>Two reads the source does not guard: with a second context (\<open>args[3]>0\<close>) the bytes behind the block near its
  end, and with a minimum match length of 1 the byte before its first one.\<close>

lemma try_long_reads_behind:
  assumes "at (ht s) (unat (h2 s XOR of_nat k)) = Inr e" "e \<noteq> 0" "length (lz_in s) = lz_n s" "lz_n s \<le> lz_i s + 3"
  shows "try_long s lit k b = Inl Undefined"
  using assms by (simp add: try_long_def inb_def at_def)

lemma same_last_reads_before:
  assumes "blen b = 0" "0 < lz_i s" "lz_i s \<le> lz_n s" "length (lz_in s) < 2 ^ 32"
  shows "same_last s 0 b = Inl Undefined"
proof -
  have "inb s (usub (0 + blen b) 1) = Inl Undefined" using assms(1,4) by (simp add: inb_def at_def usub_def)
  then show ?thesis using assms by (simp add: same_last_def)
qed

text \<open>A sorter of suffixes.\<close>

definition sorted_suffixes :: "u8 list \<Rightarrow> nat list" where
  "sorted_suffixes xs = sort_key (\<lambda>i. drop i xs) [0..<length xs]"


end
