(* ===== verification/Zpaq_Bwt.thy ===== *)
theory Zpaq_Bwt
  imports Zpaq_Lz77_Correct
begin

text \<open>
  The Burrows-Wheeler transform of \<open>LZBuffer\<close> (level 3): the inverse transform, why a link between rows leads from a
  suffix to the next longer one, and the round trip for any suffix sorter.
\<close>

section \<open>The inverse transform\<close>

text \<open>
  The transform has a row for every suffix, in their order, the empty one first; a row holds the byte before its
  suffix, and the row \<open>idx\<close> of the whole block holds a dummy.  The \<open>k\<close>-th row with the byte \<open>c\<close> leads to the
  \<open>k\<close>-th suffix that starts with \<open>c\<close>: the row \<open>earlier\<close>.  The inverse transform follows these links backwards, from
  \<open>idx\<close> to row 0.
\<close>

definition earlier :: "u8 list \<Rightarrow> nat \<Rightarrow> nat \<Rightarrow> nat" where
  "earlier L idx i =
     1 + length (filter (\<lambda>j. j \<noteq> idx \<and> L ! j < L ! i) [0..<length L])
       + length (filter (\<lambda>j. j \<noteq> idx \<and> L ! j = L ! i) [0..<i])"

definition later :: "u8 list \<Rightarrow> nat \<Rightarrow> nat \<Rightarrow> nat option" where
  "later L idx d = find (\<lambda>j. j \<noteq> idx \<and> earlier L idx j = d) [0..<length L]"

primrec unbwt_walk :: "nat \<Rightarrow> u8 list \<Rightarrow> nat \<Rightarrow> nat \<Rightarrow> u8 list" where
  "unbwt_walk 0 L idx d = []"
| "unbwt_walk (Suc fuel) L idx d =
     (if d = 0 then []
      else case later L idx d of None \<Rightarrow> [] | Some j \<Rightarrow> L ! j # unbwt_walk fuel L idx j)"

definition lsb_first :: "u8 list \<Rightarrow> nat" where
  "lsb_first bs = fold (\<lambda>b v. v * 256 + unat b) (rev bs) 0"

definition unbwt :: "u8 list \<Rightarrow> u8 list" where
  "unbwt out =
     (let L = take (length out - 4) out; idx = lsb_first (drop (length out - 4) out)
      in unbwt_walk (length L) L idx idx)"

section \<open>Rows and suffixes\<close>

definition suffix_array :: "u8 list \<Rightarrow> nat list \<Rightarrow> bool" where
  "suffix_array xs sa \<longleftrightarrow> set sa = {..<length xs} \<and> sorted_wrt (\<lambda>i j. drop i xs < drop j xs) sa"

text \<open>The number of suffixes, the empty one included, that are smaller.\<close>

definition row :: "u8 list \<Rightarrow> nat \<Rightarrow> nat" where
  "row xs p = card {q. q \<le> length xs \<and> drop q xs < drop p xs}"

definition bwt_rows :: "u8 list \<Rightarrow> nat list \<Rightarrow> u8 list" where
  "bwt_rows xs sa = (if xs = [] then 255 else last xs) # map (\<lambda>p. if p = 0 then 255 else xs ! (p - 1)) sa"

lemma drop_inj: "p \<le> length xs \<Longrightarrow> q \<le> length xs \<Longrightarrow> drop p xs = drop q xs \<Longrightarrow> p = q"
  by (metis diff_diff_cancel length_drop)

lemma drop_less_drop:
  assumes "p < length xs" "q < length xs"
  shows "drop q xs < drop p xs \<longleftrightarrow> xs ! q < xs ! p \<or> xs ! q = xs ! p \<and> drop (Suc q) xs < drop (Suc p) xs"
  using assms by (simp add: Cons_nth_drop_Suc [symmetric])

lemma row_mono:
  assumes "p \<le> length xs" "q \<le> length xs" "drop q xs < drop p xs"
  shows "row xs q < row xs p"
  unfolding row_def
proof (rule psubset_card_mono)
  show "{r. r \<le> length xs \<and> drop r xs < drop q xs} \<subset> {r. r \<le> length xs \<and> drop r xs < drop p xs}"
    using assms by (auto intro: less_trans)
qed simp

lemma row_less_iff:
  assumes "p \<le> length xs" "q \<le> length xs"
  shows "row xs q < row xs p \<longleftrightarrow> drop q xs < drop p xs"
  using row_mono [OF assms] row_mono [OF assms(2,1)] drop_inj [OF assms] by (metis less_asym' linorder_neqE order_less_irrefl)

lemma row_inj: "p \<le> length xs \<Longrightarrow> q \<le> length xs \<Longrightarrow> row xs p = row xs q \<Longrightarrow> p = q"
  using row_less_iff drop_inj by (metis linorder_neqE order_less_irrefl)

lemma row_le: "p \<le> length xs \<Longrightarrow> row xs p \<le> length xs"
proof -
  assume p: "p \<le> length xs"
  have "card {q. q \<le> length xs \<and> drop q xs < drop p xs} \<le> card ({..length xs} - {p})"
    by (rule card_mono) auto
  then show ?thesis using p by (simp add: row_def)
qed

lemma rows_bij: "bij_betw (row xs) {..length xs} {..length xs}"
  unfolding bij_betw_def
proof
  show inj: "inj_on (row xs) {..length xs}" using row_inj by (auto simp: inj_on_def)
  have "row xs ` {..length xs} \<subseteq> {..length xs}" using row_le by auto
  then show "row xs ` {..length xs} = {..length xs}"
    using card_image [OF inj] by (intro card_subset_eq) simp_all
qed

lemma row_end: "row xs (length xs) = 0"
  by (simp add: row_def)

lemma row_zero_iff: "p \<le> length xs \<Longrightarrow> row xs p = 0 \<longleftrightarrow> p = length xs"
  using row_end row_inj by (metis order_refl)

lemma row_sa:
  assumes "suffix_array xs sa" "k < length sa"
  shows "row xs (sa ! k) = Suc k"
proof -
  have sorted: "sorted_wrt (\<lambda>i j. drop i xs < drop j xs) sa" and set: "set sa = {..<length xs}"
    using assms(1) by (simp_all add: suffix_array_def)
  have lt: "drop (sa ! i) xs < drop (sa ! j) xs \<longleftrightarrow> i < j" if "i < length sa" "j < length sa" for i j
    using sorted_wrt_nth_less [OF sorted] that by (metis less_asym' linorder_neqE order_less_irrefl)
  have dist: "distinct sa"
    unfolding distinct_conv_nth using lt by (metis linorder_neqE order_less_irrefl)
  have "{q. q \<le> length xs \<and> drop q xs < drop (sa ! k) xs} = insert (length xs) ((!) sa ` {..<k})"
  proof (rule set_eqI)
    fix q
    have "sa ! k < length xs" using set assms(2) nth_mem by blast
    then have end_less: "drop (length xs) xs < drop (sa ! k) xs" by (simp add: Cons_nth_drop_Suc [symmetric])
    show "q \<in> {q. q \<le> length xs \<and> drop q xs < drop (sa ! k) xs} \<longleftrightarrow> q \<in> insert (length xs) ((!) sa ` {..<k})"
    proof (cases "q < length xs")
      case True
      then obtain j where j: "j < length sa" "q = sa ! j" using set by (metis in_set_conv_nth lessThan_iff)
      have "sa ! j \<in> (!) sa ` {..<k} \<longleftrightarrow> j < k"
        using dist j(1) assms(2) by (auto simp: nth_eq_iff_index_eq)
      then show ?thesis using True j lt [OF j(1) assms(2)] by auto
    next
      case False
      have "sa ! j < length xs" if "j < k" for j using nth_mem [of j sa] set assms(2) that by simp
      then show ?thesis using False end_less by auto
    qed
  qed
  moreover have "length xs \<notin> (!) sa ` {..<k}"
  proof
    assume "length xs \<in> (!) sa ` {..<k}"
    then obtain j where j: "j < k" "length xs = sa ! j" by auto
    then have "sa ! j \<in> set sa" using assms(2) by (intro nth_mem) simp
    then show False using set j(2) by simp
  qed
  moreover have "inj_on ((!) sa) {..<k}" using dist assms(2) by (auto simp: inj_on_def nth_eq_iff_index_eq)
  ultimately show ?thesis by (simp add: row_def card_image)
qed

lemma suffix_array_length:
  assumes "suffix_array xs sa"
  shows "length sa = length xs"
proof -
  have "distinct sa"
    using assms sorted_wrt_nth_less [of "\<lambda>i j. drop i xs < drop j xs" sa] unfolding suffix_array_def distinct_conv_nth
    by (metis linorder_neqE order_less_irrefl)
  then show ?thesis using assms distinct_card [of sa] by (simp add: suffix_array_def)
qed

lemma bwt_rows_at:
  assumes "suffix_array xs sa" "p \<le> length xs"
  shows "bwt_rows xs sa ! row xs p = (if p = 0 then 255 else xs ! (p - 1))"
proof (cases "p < length xs")
  case True
  then obtain k where k: "k < length sa" "sa ! k = p" using assms(1) by (metis suffix_array_def in_set_conv_nth lessThan_iff)
  then have "row xs p = Suc k" using row_sa [OF assms(1) k(1)] by simp
  then show ?thesis using k by (simp add: bwt_rows_def)
next
  case False
  then show ?thesis using assms(2) row_end [of xs] by (auto simp: bwt_rows_def last_conv_nth)
qed

lemma length_filter_upt: "length (filter P [0..<n]) = card {j. j < n \<and> P j}"
  by (simp add: length_filter_conv_card conj_commute cong: conj_cong)

lemma rows_of:
  assumes "R \<subseteq> {..length xs}" "row xs 0 \<notin> R"
  shows "\<exists>Q. Q \<subseteq> {..<length xs} \<and> R = row xs ` Suc ` Q \<and> Q = {q. q < length xs \<and> row xs (Suc q) \<in> R} \<and> card R = card Q"
proof -
  define Q where "Q = {q. q < length xs \<and> row xs (Suc q) \<in> R}"
  have "R = row xs ` Suc ` Q"
  proof
    show "R \<subseteq> row xs ` Suc ` Q"
    proof
      fix j assume j: "j \<in> R"
      then obtain q where q: "q \<le> length xs" "j = row xs q" using assms(1) rows_bij [of xs] by (auto simp: bij_betw_def)
      have "q \<noteq> 0" using q(2) j assms(2) by metis
      then obtain r where "q = Suc r" by (cases q) auto
      then show "j \<in> row xs ` Suc ` Q" using q j by (auto simp: Q_def)
    qed
  qed (auto simp: Q_def)
  moreover have "inj_on (row xs \<circ> Suc) Q"
  proof (rule inj_onI)
    fix a b assume "a \<in> Q" "b \<in> Q" "(row xs \<circ> Suc) a = (row xs \<circ> Suc) b"
    then show "a = b" using row_inj [of "Suc a" xs "Suc b"] by (simp add: Q_def)
  qed
  then have "card (row xs ` Suc ` Q) = card Q" using card_image by (metis image_comp)
  ultimately show ?thesis by (intro exI [of _ Q]) (auto simp: Q_def)
qed

lemma earlier_row:
  assumes sa: "suffix_array xs sa" and p: "p < length xs"
  shows "earlier (bwt_rows xs sa) (row xs 0) (row xs (Suc p)) = row xs p"
proof -
  define L where "L = bwt_rows xs sa"
  define idx where "idx = row xs 0"
  have len: "length L = length xs + 1" using suffix_array_length [OF sa] by (simp add: L_def bwt_rows_def)
  have byte: "L ! row xs (Suc q) = xs ! q" if "q < length xs" for q
    using bwt_rows_at [OF sa, of "Suc q"] that by (simp add: L_def)
  define A where "A = {j. j < length L \<and> j \<noteq> idx \<and> L ! j < xs ! p}"
  define B where "B = {j. j < row xs (Suc p) \<and> j \<noteq> idx \<and> L ! j = xs ! p}"
  have "A \<subseteq> {..length xs}" "idx \<notin> A" using len by (auto simp: A_def)
  from rows_of [OF this [unfolded idx_def]] obtain QA where QA: "QA = {q. q < length xs \<and> row xs (Suc q) \<in> A}" "card A = card QA" by blast
  have "B \<subseteq> {..length xs}" "idx \<notin> B" using row_le [of "Suc p" xs] p by (auto simp: B_def)
  from rows_of [OF this [unfolded idx_def]] obtain QB where QB: "QB = {q. q < length xs \<and> row xs (Suc q) \<in> B}" "card B = card QB" by blast
  have not_idx: "row xs (Suc q) \<noteq> idx" if "q < length xs" for q
    using row_inj [of "Suc q" xs 0] that by (auto simp: idx_def)
  have QA': "QA = {q. q < length xs \<and> xs ! q < xs ! p}"
    using byte not_idx row_le [of "Suc _" xs] len by (fastforce simp: QA(1) A_def less_Suc_eq_le)
  have QB': "QB = {q. q < length xs \<and> xs ! q = xs ! p \<and> drop (Suc q) xs < drop (Suc p) xs}"
    using byte not_idx row_less_iff [of "Suc p" xs "Suc _"] p by (fastforce simp: QB(1) B_def)
  have "{q. q \<le> length xs \<and> drop q xs < drop p xs} = insert (length xs) (QA \<union> QB)"
  proof (rule set_eqI)
    fix q
    have "[] < drop p xs" using p by (simp add: Cons_nth_drop_Suc [symmetric])
    then show "q \<in> {q. q \<le> length xs \<and> drop q xs < drop p xs} \<longleftrightarrow> q \<in> insert (length xs) (QA \<union> QB)"
      using drop_less_drop [OF p, of q] by (cases "q < length xs") (auto simp: QA' QB')
  qed
  moreover have "card (insert (length xs) (QA \<union> QB)) = 1 + card QA + card QB"
  proof -
    have "finite QA" "finite QB" "length xs \<notin> QA \<union> QB" "QA \<inter> QB = {}" by (auto simp: QA' QB')
    then show ?thesis by (simp add: card_Un_disjoint)
  qed
  ultimately have "row xs p = 1 + card A + card B" using QA(2) QB(2) by (simp add: row_def)
  moreover have "earlier L idx (row xs (Suc p)) = 1 + card A + card B"
    by (simp add: earlier_def length_filter_upt byte [OF p] A_def B_def)
  ultimately show ?thesis by (simp add: L_def idx_def)
qed

lemma later_row:
  assumes sa: "suffix_array xs sa" and p: "p < length xs"
  shows "later (bwt_rows xs sa) (row xs 0) (row xs p) = Some (row xs (Suc p))"
proof -
  have len: "length (bwt_rows xs sa) = length xs + 1" using suffix_array_length [OF sa] by (simp add: bwt_rows_def)
  let ?P = "\<lambda>j. j \<noteq> row xs 0 \<and> earlier (bwt_rows xs sa) (row xs 0) j = row xs p"
  have "?P (row xs (Suc p))" "row xs (Suc p) < length (bwt_rows xs sa)"
    using earlier_row [OF sa p] row_inj [of "Suc p" xs 0] row_le [of "Suc p" xs] p len by auto
  then obtain j where j: "later (bwt_rows xs sa) (row xs 0) (row xs p) = Some j" "?P j" "j < length (bwt_rows xs sa)"
    unfolding later_def by (cases "find ?P [0..<length (bwt_rows xs sa)]") (auto simp: find_None_iff find_Some_iff)
  have "{j} \<subseteq> {..length xs}" "row xs 0 \<notin> {j}" using j len by auto
  from rows_of [OF this] obtain q where q: "q < length xs" "j = row xs (Suc q)" by blast
  then have "row xs q = row xs p" using earlier_row [OF sa q(1)] j(2) by simp
  then have "q = p" using row_inj [of q xs p] q(1) p by simp
  then show ?thesis using j(1) q(2) by simp
qed

lemma unbwt_walk_rows:
  assumes sa: "suffix_array xs sa"
  shows "p \<le> length xs \<Longrightarrow> length xs - p \<le> fuel \<Longrightarrow>
    unbwt_walk fuel (bwt_rows xs sa) (row xs 0) (row xs p) = drop p xs"
proof (induction fuel arbitrary: p)
  case (Suc fuel)
  show ?case
  proof (cases "p = length xs")
    case False
    then have p: "p < length xs" using Suc.prems by simp
    have "bwt_rows xs sa ! row xs (Suc p) = xs ! p" using bwt_rows_at [OF sa, of "Suc p"] p by simp
    then show ?thesis
      using later_row [OF sa p] row_zero_iff [of p xs] Suc p by (simp add: Cons_nth_drop_Suc [symmetric])
  qed (simp add: row_end)
qed simp

lemma lsb_first_four:
  assumes "v < 2 ^ 32"
  shows "lsb_first [of_nat v, of_nat (v div 256), of_nat (v div 256 div 256), of_nat (v div 256 div 256 div 256)] = v"
  using msb_first_four [OF assms] by (simp add: lsb_first_def msb_first_def div_mult2_eq [symmetric])

lemma unbwt_rows:
  assumes "suffix_array xs sa" "length xs < 2 ^ 32" "v = row xs 0"
  shows "unbwt (bwt_rows xs sa @ [of_nat v, of_nat (v div 256), of_nat (v div 256 div 256), of_nat (v div 256 div 256 div 256)]) = xs"
proof -
  have "v < 2 ^ 32" using row_le [of 0 xs] assms(2,3) by simp
  then show ?thesis
    using unbwt_walk_rows [OF assms(1), of 0 "length (bwt_rows xs sa)"] lsb_first_four [of v] suffix_array_length [OF assms(1)]
    by (simp add: unbwt_def Let_def assms(3) bwt_rows_def)
qed

section \<open>What the encoder gives\<close>

definition bwt_out :: "u8 list \<Rightarrow> nat list \<Rightarrow> u8 list" where
  "bwt_out xs sa = bwt_rows xs sa @ map (\<lambda>k. of_nat (row xs 0 div 256 ^ k)) [0..<4]"

lemma bwt_out_bytes:
  "bwt_out xs sa = bwt_rows xs sa @ (let v = row xs 0
     in [of_nat v, of_nat (v div 256), of_nat (v div 256 div 256), of_nat (v div 256 div 256 div 256)])"
proof -
  have "[0..<4] = [0, 1, 2, 3 :: nat]" by (simp add: upt_rec)
  then show ?thesis by (simp add: bwt_out_def Let_def div_mult2_eq [symmetric])
qed

lemma bwt_out_length: "suffix_array xs sa \<Longrightarrow> length (bwt_out xs sa) = length xs + 5"
  using suffix_array_length by (simp add: bwt_out_def bwt_rows_def)

text \<open>A state of level 3 that has given the bytes before \<open>i\<close>; \<open>idx\<close> is known once its row has been passed.\<close>

definition bwt_ok :: "u8 list \<Rightarrow> nat list \<Rightarrow> LZBuffer \<Rightarrow> bool" where
  "bwt_ok xs sa s \<longleftrightarrow> lz_level s = 3 \<and> lz_n s = length xs \<and> length xs \<le> length (lz_in s) \<and> take (length xs) (lz_in s) = xs \<and>
     suffix_array xs sa \<and> (xs \<noteq> [] \<longrightarrow> lz_sa s = sa) \<and> lz_i s \<le> length xs + 5 \<and>
     lz_idx s = (if lz_i s \<le> row xs 0 then 0 else row xs 0 div 256 ^ (lz_i s - (length xs + 1)))"

lemma bwt_byte_ok:
  assumes "bwt_ok xs sa s" "lz_i s < length xs + 5"
  shows "\<exists>idx. bwt_byte s = Inr (bwt_out xs sa ! lz_i s, idx) \<and> bwt_ok xs sa (s\<lparr>lz_idx := idx, lz_i := lz_i s + 1\<rparr>)"
proof -
  define i where "i = lz_i s"
  have ok: "lz_n s = length xs" "length xs \<le> length (lz_in s)" "take (length xs) (lz_in s) = xs" "suffix_array xs sa"
    "xs \<noteq> [] \<longrightarrow> lz_sa s = sa" and
    idx: "lz_idx s = (if i \<le> row xs 0 then 0 else row xs 0 div 256 ^ (i - (length xs + 1)))"
    using assms(1) by (simp_all add: bwt_ok_def i_def)
  have len: "length sa = length xs" "length (bwt_rows xs sa) = length xs + 1"
    using suffix_array_length [OF ok(4)] by (simp_all add: bwt_rows_def)
  have byte: "inb s k = Inr (xs ! k)" if "k < length xs" for k
    using inb_ok [of k s] ok(2,3) that by (metis less_le_trans nth_take)
  have r: "row xs 0 \<le> length xs" "xs \<noteq> [] \<Longrightarrow> 0 < row xs 0" "xs = [] \<Longrightarrow> row xs 0 = 0"
    using row_le [of 0 xs] row_zero_iff [of 0 xs] by auto
  consider "i = 0" | "0 < i" "i \<le> length xs" | "length xs < i" by linarith
  then obtain x where x: "bwt_byte s = Inr (bwt_out xs sa ! i, x)"
    "x = (if i + 1 \<le> row xs 0 then 0 else row xs 0 div 256 ^ (i + 1 - (length xs + 1)))"
  proof cases
    case 1
    show ?thesis
    proof (cases "xs = []")
      case True
      then show ?thesis using that [of 0] 1 ok(1) idx r by (simp add: bwt_byte_def i_def [symmetric] bwt_out_def bwt_rows_def)
    next
      case False
      then show ?thesis
        using that [of 0] 1 ok(1) idx r byte [of "length xs - 1"]
        by (simp add: bwt_byte_def i_def [symmetric] bwt_out_def bwt_rows_def last_conv_nth)
    qed
  next
    case 2
    then have ne: "xs \<noteq> []" by auto
    have k: "i - 1 < length sa" "lz_sa s = sa" using 2 len ok(5) ne by auto
    have row: "row xs (sa ! (i - 1)) = i" using row_sa [OF ok(4) k(1)] 2 by simp
    have pos: "sa ! (i - 1) < length xs" using k(1) ok(4) nth_mem [OF k(1)] by (simp add: suffix_array_def)
    have out: "bwt_out xs sa ! i = (if sa ! (i - 1) = 0 then 255 else xs ! (sa ! (i - 1) - 1))"
      using 2 len k(1) by (cases i) (simp_all add: bwt_out_def bwt_rows_def nth_append)
    show ?thesis
    proof (cases "sa ! (i - 1) = 0")
      case True
      then have "row xs 0 = i" using row by simp
      then show ?thesis
        using that [of i] True 2 k out ok(1) by (simp add: bwt_byte_def i_def [symmetric] at_def)
    next
      case False
      then have "row xs 0 \<noteq> i" using row row_inj [of "sa ! (i - 1)" xs 0] pos by auto
      then show ?thesis
        using that [of "lz_idx s"] False 2 k out ok(1) byte [of "sa ! (i - 1) - 1"] pos idx
        by (auto simp: bwt_byte_def i_def [symmetric] at_def)
    qed
  next
    case 3
    then have i: "i - (length xs + 1) < 4" "\<not> i \<le> row xs 0" "i \<noteq> 0" using assms(2) r by (auto simp: i_def)
    have "bwt_out xs sa ! i = of_nat (row xs 0 div 256 ^ (i - (length xs + 1)))"
      using 3 i len by (simp add: bwt_out_def nth_append)
    moreover have "row xs 0 div 256 ^ (i - (length xs + 1)) div 256 = row xs 0 div 256 ^ (i + 1 - (length xs + 1))"
    proof -
      have "i + 1 - (length xs + 1) = Suc (i - (length xs + 1))" using 3 by simp
      then show ?thesis by (simp only: div_mult2_eq [symmetric] power_Suc2)
    qed
    ultimately show ?thesis
      using that [of "lz_idx s div 256"] 3 i ok(1) idx by (simp add: bwt_byte_def i_def [symmetric])
  qed
  show ?thesis using assms x by (auto simp: bwt_ok_def i_def)
qed

lemma bwt_fill_ok:
  assumes "bwt_ok xs sa s" "length (lz_buf s) \<le> BUFSIZE"
  shows "\<exists>s'. bwt_fill s = Inr s' \<and> bwt_ok xs sa s' \<and> lz_rpos s' = lz_rpos s \<and> lz_i s \<le> lz_i s'
           \<and> lz_buf s' @ drop (lz_i s') (bwt_out xs sa) = lz_buf s @ drop (lz_i s) (bwt_out xs sa)
           \<and> (lz_i s < length xs + 5 \<and> length (lz_buf s) < BUFSIZE \<longrightarrow> lz_i s < lz_i s' \<and> lz_buf s' \<noteq> [])
           \<and> (lz_i s = length xs + 5 \<longrightarrow> s' = s)"
  using assms
proof (induction s rule: bwt_fill.induct)
  case (1 s)
  have n: "lz_n s = length xs" using 1(2) by (simp add: bwt_ok_def)
  show ?case
  proof (cases "length (lz_buf s) < BUFSIZE \<and> lz_i s < lz_n s + 5")
    case True
    obtain idx where idx: "bwt_byte s = Inr (bwt_out xs sa ! lz_i s, idx)" "bwt_ok xs sa (s\<lparr>lz_idx := idx, lz_i := lz_i s + 1\<rparr>)"
      using bwt_byte_ok [OF 1(2)] True n by auto
    define t where "t = s\<lparr>lz_buf := lz_buf s @ [bwt_out xs sa ! lz_i s], lz_idx := idx, lz_i := lz_i s + 1\<rparr>"
    have "bwt_ok xs sa t = bwt_ok xs sa (s\<lparr>lz_idx := idx, lz_i := lz_i s + 1\<rparr>)" by (simp add: bwt_ok_def t_def)
    then have "bwt_ok xs sa t" using idx(2) by simp
    moreover have "length (lz_buf t) \<le> BUFSIZE" using True by (simp add: t_def)
    ultimately obtain u where u: "bwt_fill t = Inr u" "bwt_ok xs sa u" "lz_rpos u = lz_rpos t" "lz_i t \<le> lz_i u"
      "lz_buf u @ drop (lz_i u) (bwt_out xs sa) = lz_buf t @ drop (lz_i t) (bwt_out xs sa)"
      "lz_i t < length xs + 5 \<and> length (lz_buf t) < BUFSIZE \<longrightarrow> lz_i t < lz_i u \<and> lz_buf u \<noteq> []"
      "lz_i t = length xs + 5 \<longrightarrow> u = t"
      using 1(1) [OF True, of idx "bwt_out xs sa ! lz_i s"] by (auto simp: t_def)
    have "lz_i s < length (bwt_out xs sa)" using True n bwt_out_length 1(2) by (simp add: bwt_ok_def)
    then have "lz_buf t @ drop (lz_i t) (bwt_out xs sa) = lz_buf s @ drop (lz_i s) (bwt_out xs sa)"
      by (simp add: t_def Cons_nth_drop_Suc)
    moreover have "lz_buf u \<noteq> []"
    proof
      assume "lz_buf u = []"
      then have "length (drop (lz_i u) (bwt_out xs sa)) = length (lz_buf t @ drop (lz_i t) (bwt_out xs sa))" using u(5) by simp
      then show False using u(4) by (simp add: t_def)
    qed
    moreover have "bwt_fill s = bwt_fill t"
      using True idx(1) by (subst bwt_fill.simps) (simp add: t_def)
    ultimately show ?thesis using u True n by (intro exI [of _ u]) (auto simp: t_def)
  next
    case False
    then have "bwt_fill s = Inr s" by (subst bwt_fill.simps) auto
    then show ?thesis using 1(2,3) False n by (auto simp: bwt_ok_def)
  qed
qed

lemma bwt_read_all:
  assumes "bwt_ok xs sa s" "lz_buf s = []" "lz_rpos s = 0" "0 < k"
  shows "\<exists>f0. \<forall>f\<ge>f0. lz_read_all f k s = Inr (drop (lz_i s) (bwt_out xs sa))"
  using assms(1-3)
proof (induction "length xs + 5 - lz_i s" arbitrary: s rule: less_induct)
  case less
  have lev: "lz_level s = 3" "lz_i s \<le> length xs + 5" using less.prems(1) by (simp_all add: bwt_ok_def)
  have all: "length (bwt_out xs sa) = length xs + 5" using bwt_out_length less.prems(1) by (simp add: bwt_ok_def)
  have room: "length (lz_buf s) \<le> BUFSIZE" using less.prems(2) by simp
  obtain t where t: "bwt_fill s = Inr t" "bwt_ok xs sa t" "lz_rpos t = 0" "lz_i s \<le> lz_i t"
    "lz_buf t @ drop (lz_i t) (bwt_out xs sa) = drop (lz_i s) (bwt_out xs sa)"
    "lz_i s < length xs + 5 \<longrightarrow> lz_i s < lz_i t \<and> lz_buf t \<noteq> []" "lz_i s = length xs + 5 \<longrightarrow> t = s"
    using bwt_fill_ok [OF less.prems(1) room] less.prems(2,3) by (auto simp: BUFSIZE_def)
  have fill: "fill s = Inr t" using t(1) lev by (simp add: fill_def)
  show ?case
  proof (cases "lz_i s = length xs + 5")
    case True
    then have "lz_read_all f k s = Inr []" if "1 \<le> f" for f
      using that fill t(7) less.prems(2,3) by (cases f) (simp_all add: lz_read_def lz_refill_def lz_rewind_def Let_def)
    then show ?thesis using True all by auto
  next
    case False
    then have more: "lz_i s < lz_i t" "lz_buf t \<noteq> []" using t(6) lev by auto
    have "bwt_ok xs sa (emptied t)" using t(2) by (simp add: bwt_ok_def emptied_def)
    moreover have "length xs + 5 - lz_i (emptied t) < length xs + 5 - lz_i s" using more(1) False lev by simp
    ultimately obtain f0 where "\<forall>f\<ge>f0. lz_read_all f k (emptied t) = Inr (drop (lz_i t) (bwt_out xs sa))"
      using less.hyps [of "emptied t"] by auto
    then obtain f1 where f1: "\<forall>f\<ge>f1. lz_read_all f k t = Inr (lz_buf t @ drop (lz_i t) (bwt_out xs sa))"
      using lz_drain [of k f0 t "drop (lz_i t) (bwt_out xs sa)"] assms(4) more(2) t(3) by auto
    have ready: "lz_read k s = lz_read k t"
      using fill less.prems(2,3) more(2) t(3) by (simp add: lz_read_def lz_refill_def)
    have "lz_read_all f k s = Inr (drop (lz_i s) (bwt_out xs sa))" if "Suc f1 \<le> f" for f
    proof -
      obtain g where g: "f = Suc g" using \<open>Suc f1 \<le> f\<close> by (cases f) auto
      have "lz_read_all f k s = lz_read_all f k t" unfolding g using ready by simp
      then show ?thesis using f1 that t(5) by simp
    qed
    then show ?thesis by blast
  qed
qed

definition sorts_suffixes :: "(u8 list \<Rightarrow> nat list) \<Rightarrow> bool" where
  "sorts_suffixes f \<longleftrightarrow> (\<forall>xs. xs \<noteq> [] \<longrightarrow> suffix_array xs (f xs))"

text \<open>C12. Level 3 is lossless: for every block the bytes a client reads from \<open>LZBuffer\<close>, in pieces of any size, are the
  Burrows-Wheeler transform of the block (after E8E9, if asked for) with the position of the end of string, from which
  following the links between rows rebuilds the block, provided the suffix sorter sorts suffixes.\<close>

theorem bwt_roundtrip:
  assumes "args ! 1 AND 3 = 3" "length dat < 2 ^ 32" "sorts_suffixes sort_suffixes" "0 < k"
  shows "\<exists>s out f0. new_LZBuffer sort_suffixes dat beyond args None = Inr s
           \<and> (\<forall>f\<ge>f0. lz_read_all f k s = Inr out)
           \<and> (if 4 < args ! 1 then un_e8e9 (unbwt out) else unbwt out) = dat"
proof -
  define xs where "xs = (if 4 < args ! 1 then e8e9 dat else dat)"
  define sa where "sa = (if xs = [] then [] else sort_suffixes xs)"
  have len: "length xs = length dat" by (simp add: xs_def)
  then have empty: "xs = [] \<longleftrightarrow> dat = []" by (metis length_0_conv)
  have sa: "suffix_array xs sa" using assms(3) by (auto simp: sa_def sorts_suffixes_def suffix_array_def)
  obtain s where s: "new_LZBuffer sort_suffixes dat beyond args None = Inr s" "bwt_ok xs sa s" "lz_buf s = []" "lz_rpos s = 0" "lz_i s = 0"
  proof -
    have lev: "(args ! 2 < 4 \<and> (3 :: nat) = 1 \<or> args ! 2 < 1 \<and> (3 :: nat) = 2) = False" by simp
    have xs: "(if 4 < args ! 1 \<and> None = None then e8e9 dat else dat) = xs" by (simp add: xs_def)
    have "\<exists>s. new_LZBuffer sort_suffixes dat beyond args None = Inr s \<and> bwt_ok xs sa s \<and> lz_buf s = [] \<and> lz_rpos s = 0 \<and> lz_i s = 0"
      unfolding new_LZBuffer_def Let_def assms(1) lev xs if_False option.case using len sa empty by (simp add: bwt_ok_def sa_def)
    then show ?thesis using that by blast
  qed
  obtain f0 where "\<forall>f\<ge>f0. lz_read_all f k s = Inr (bwt_out xs sa)"
    using bwt_read_all [OF s(2,3,4) assms(4)] s(5) by auto
  moreover have "unbwt (bwt_out xs sa) = xs"
    using unbwt_rows [OF sa _ refl] assms(2) len unfolding bwt_out_bytes Let_def by simp
  moreover have "(if 4 < args ! 1 then un_e8e9 xs else xs) = dat" using un_e8e9_e8e9 by (simp add: xs_def)
  ultimately show ?thesis using s(1) by metis
qed

lemma sorted_suffixes_sorts: "sorts_suffixes sorted_suffixes"
  unfolding sorts_suffixes_def suffix_array_def
proof (intro allI impI conjI)
  fix xs :: "u8 list"
  let ?sa = "sorted_suffixes xs"
  show set: "set ?sa = {..<length xs}" by (auto simp: sorted_suffixes_def)
  have le: "drop (?sa ! i) xs \<le> drop (?sa ! j) xs" if "i < j" "j < length ?sa" for i j
    using sorted_nth_mono [of "map (\<lambda>i. drop i xs) ?sa" i j] that sorted_sort_key [of "\<lambda>i. drop i xs" "[0..<length xs]"]
    by (simp add: sorted_suffixes_def)
  have "distinct ?sa" by (simp add: sorted_suffixes_def)
  then have ne: "drop (?sa ! i) xs \<noteq> drop (?sa ! j) xs" if "i < j" "j < length ?sa" for i j
    using that drop_inj [of "?sa ! i" xs "?sa ! j"] set nth_mem [of i ?sa] nth_mem [of j ?sa]
    by (auto simp: nth_eq_iff_index_eq)
  show "sorted_wrt (\<lambda>i j. drop i xs < drop j xs) ?sa"
    unfolding sorted_wrt_iff_nth_less using le ne by (simp add: order_less_le)
qed

theorem bwt_roundtrip_witness:
  "\<exists>s out f0. new_LZBuffer sorted_suffixes [98, 97, 110, 97, 110, 97] [] [0, 7, 0, 0, 0, 0, 0] None = Inr s
     \<and> (\<forall>f\<ge>f0. lz_read_all f 5 s = Inr out) \<and> un_e8e9 (unbwt out) = [98, 97, 110, 97, 110, 97]"
  using bwt_roundtrip [of "[0, 7, 0, 0, 0, 0, 0]" "[98, 97, 110, 97, 110, 97]" sorted_suffixes 5 "[]", OF _ _ sorted_suffixes_sorts] by simp

end
