(* ===== verification/Spec2Isabelle.thy ===== *)
theory Spec2Isabelle
  imports Backup_Runs Meow_Tool Task_Queue Thread_Pool Loop_Workers Zpaq_Archive Zpaq_Aes Zpaq_Kdf Zpaq_Bwt
begin

text \<open>
  BackupSuite: \<open>ctrlcenter2\<close>, the backup driver, and the parts of its tools that carry
  a contract the driver relies on.

  The program.  \<open>ctrlcenter2/ctrlcenter2.cpp\<close> scans an input folder, starts the tool
  \<open>meowhash\<close> for every file on a thread pool, compares the hashes with a database file,
  starts a packer for every changed file, and writes the list of hashes and the merged database.
  A verification unpacks every archive, hashes the result and compares.

  Theories.
    \<^item> \<open>Backup_Prelude\<close>: faults and results, machine words, the operations of \<open>std::string\<close>.
    \<^item> \<open>Paths\<close>: the string helpers of \<open>ctrlcenter2.cpp\<close> (\<open>replaceAll\<close> to \<open>skipNonNewline\<close>).
    \<^item> \<open>FileHashes\<close>: the class of that name; the table of hashes as a list of entries, with its
      refinement to a finite map and the locale \<open>entry_table\<close> of the database interface.
    \<^item> \<open>ValOrErr\<close>: \<open>valorerr.h\<close> and \<open>debug.h\<close>.
    \<^item> \<open>Os_World\<close>: the disk, the descriptors, the console and the child processes as explicit
      state; the system calls are a record of functions, a parameter of everything above.
    \<^item> \<open>Subprocess\<close>: \<open>subprocess.h\<close> (POSIX) and \<open>runSubprocess\<close>.
    \<^item> \<open>Tools\<close>: configuration, file copy, reading and writing tables, \<open>hashFile\<close>,
      \<open>compressFile\<close>, \<open>decompressFile\<close>.
    \<^item> \<open>Dirs\<close>: \<open>tinydir.h\<close>, \<open>tinydirhelper.h\<close> and the folder scan.
    \<^item> \<open>Human\<close>: \<open>tinyhuman.h\<close>.
    \<^item> \<open>CtrlCenter\<close>: \<open>createOrUpdateArchive\<close>, \<open>verifyArchive\<close>, \<open>mergeFilelistToDatabase\<close>,
      \<open>main\<close>; the tasks of the pool run in any order (\<open>run_schedule\<close>).
    \<^item> \<open>Backup_Runs\<close>: whole runs: what a backup leaves on disk, the second run, the verification,
      backup followed by verification.
    \<^item> \<open>Task_Queue\<close>, \<open>Thread_Pool\<close>, \<open>Loop_Workers\<close>: \<open>quickpool.h\<close>; sequential refinement (locale
      \<open>fifo\<close>) and step relations with invariants for all interleavings.
    \<^item> \<open>Meow\<close>, \<open>Meow_Tool\<close>: the hash and the tool \<open>meowhash\<close>, with the contract the backup
      assumes of its hash tool.
    \<^item> \<open>Zpaq_Coder\<close>: the entropy coder of the archiver \<open>zpaq715\<close> (\<open>Encoder\<close>, \<open>Decoder\<close>).
    \<^item> \<open>Zpaq_VM\<close>: its virtual machine \<open>ZPAQL\<close>: program headers and the interpreter.
    \<^item> \<open>Zpaq_Sha\<close>: \<open>SHA1\<close> and \<open>SHA256\<close>, with the standard FIPS 180-4 as a reference and the locale
      \<open>block_hash\<close> for what the two share.
    \<^item> \<open>Zpaq_Tables\<close>, \<open>Zpaq_Predictor\<close>, \<open>Zpaq_Predictor_Safe\<close>: the context-mixing \<open>Predictor\<close>: its tables,
      its nine types of components, and the invariant that keeps every access inside the arrays and every
      number inside its type; \<open>real_predictor\<close> is the parameter of the coder.
    \<^item> \<open>Zpaq_Segment\<close>, \<open>Zpaq_Archive\<close>: \<open>Compressor\<close>, \<open>PostProcessor\<close>, \<open>Decompresser\<close> and the function
      \<open>decompress\<close>; archives as streams of blocks.
    \<^item> \<open>Zpaq_Aes\<close>, \<open>Zpaq_Kdf\<close>: encryption: \<open>AES_CTR\<close> against FIPS 197, and \<open>stretchKey\<close> against RFC 7914.
    \<^item> \<open>Zpaq_Lz77\<close>: the preprocessors: \<open>e8e9\<close> and the class \<open>LZBuffer\<close>; \<open>Zpaq_Lz77_Codes\<close> has the formats
      and their decoders, \<open>Zpaq_Lz77_Write\<close> what the writers append, \<open>Zpaq_Lz77_Correct\<close> the search, the scan
      with its invariant \<open>lz_ok\<close>, and the round trip; \<open>Zpaq_Bwt\<close> the Burrows-Wheeler transform and its inverse.

  How the parts meet.  \<open>Backup_Runs\<close> takes the tools as processes of \<open>Os_World\<close> with a contract each;
  \<open>Meow_Tool\<close> gives the contract of the hash tool for the real one.  \<open>Zpaq_Segment\<close> puts the coder, the
  machine and the hash together as \<open>Compressor\<close> and \<open>Decompresser\<close> do, for any predictor with predictions of
  15 bits; \<open>Zpaq_Archive\<close> applies the result to the predictor of \<open>Zpaq_Predictor\<close>.

  Loops and fuel.  A loop that ends for a reason that can be written down is a total function with its
  measure.  A loop that may run for ever is an \<open>option\<close> (\<open>of_loop\<close>) or takes fuel and is \<open>Diverges\<close>
  when that is used up; a theorem about such a loop either proves that it returns (the fuel needed is a
  hypothesis: more than the bytes of a segment, the segments of a block and the blocks of an archive) or
  is a safety property of every run, returned or not.

  Not modelled.  The Windows branches; the option parser \<open>argtable3\<close> (its results are a record); weak
  memory (the interleavings of \<open>quickpool.h\<close> are sequentially consistent); running out of memory.  Of
  \<open>zpaq715\<close>: the compiler of ZPAQL source, the translation to machine code, the suffix sorter (a
  parameter of the preprocessors), the random generator of the system and the archive front end \<open>zpaq.cpp\<close>.
  The recompressors \<open>precomp\<close> and \<open>lepton\<close> are third-party tools that are started as processes.
\<close>

end
